(* ===== verification/R3_Prelude.thy ===== *)
theory R3_Prelude
  imports Main "HOL-Library.Word" "HOL-Library.Monad_Syntax" "HOL-Library.Multiset"
begin

text \<open>
  Shared vocabulary of the development: the machine integers of the source, the two ways its
  functions can fail, and the generic facts the component theories rely on.

  A Rust panic (a failed \<^verbatim>\<open>assert!\<close>, an out-of-range index, an overflowing operation in a
  checked build, \<^verbatim>\<open>unwrap\<close> of a missing value, \<^verbatim>\<open>unreachable!\<close>) is the value \<open>None\<close> of an
  \<open>option\<close>: a definition of type \<open>'a option\<close> is a function that may panic, and "does not
  panic" is a theorem of the shape \<open>f x = Some y\<close>.  A Rust \<^verbatim>\<open>Result\<close> is the sum type, with
  the error on the left.
\<close>

section \<open>Types\<close>

type_synonym u8 = "8 word"
type_synonym u16 = "16 word"
type_synonym u32 = "32 word"
type_synonym u64 = "64 word"

text \<open>
  The concrete instances of the development are those of a 32-bit target (Arm M-profile,
  Armv7-A, RV32, RP2040).  Sizes, indices and priorities, which the source keeps as
  \<^verbatim>\<open>usize\<close>, are natural numbers; \<open>usize_max\<close> is the sentinel \<^verbatim>\<open>usize::MAX\<close>.
\<close>

type_synonym usize_word = "32 word"

definition usize_bits :: nat where
  "usize_bits = 32"

definition usize_max :: nat where
  "usize_max = 2 ^ usize_bits - 1"

lemma usize_max_eq: "usize_max = 4294967295"
  by (simp add: usize_max_def usize_bits_def)

section \<open>Panics\<close>

text \<open>\<^verbatim>\<open>assert!\<close>, \<^verbatim>\<open>debug_assert!\<close>: continue with the second argument or panic.\<close>

definition guard :: "bool \<Rightarrow> 'a option \<Rightarrow> 'a option" where
  "guard b k = (if b then k else None)"

lemma guard_simps [simp]: "guard True k = k" "guard False k = None"
  by (simp_all add: guard_def)

lemma guard_eq_Some: "guard b k = Some x \<longleftrightarrow> b \<and> k = Some x"
  by (simp add: guard_def)

text \<open>Indexing and updating a slice: out of range panics.\<close>

definition slice_get :: "'a list \<Rightarrow> nat \<Rightarrow> 'a option" where
  "slice_get xs i = (if i < length xs then Some (xs ! i) else None)"

definition slice_set :: "'a list \<Rightarrow> nat \<Rightarrow> 'a \<Rightarrow> 'a list option" where
  "slice_set xs i x = (if i < length xs then Some (xs[i := x]) else None)"

lemma slice_get_in [simp]: "i < length xs \<Longrightarrow> slice_get xs i = Some (xs ! i)"
  by (simp add: slice_get_def)

lemma slice_set_in [simp]: "i < length xs \<Longrightarrow> slice_set xs i x = Some (xs[i := x])"
  by (simp add: slice_set_def)

lemma slice_get_SomeD: "slice_get xs i = Some x \<Longrightarrow> i < length xs \<and> x = xs ! i"
  by (auto simp: slice_get_def split: if_splits)

lemma slice_set_SomeD: "slice_set xs i x = Some ys \<Longrightarrow> i < length xs \<and> ys = xs[i := x]"
  by (auto simp: slice_set_def split: if_splits)

section \<open>Generic lemmas\<close>

lemma Min_eqI_nat:
  fixes S :: "nat set"
  assumes "finite S" "m \<in> S" "\<And>x. x \<in> S \<Longrightarrow> m \<le> x"
  shows "Min S = m"
  by (rule Min_eqI) (use assms in auto)

lemma find_upt_Some_iff:
  "find P [0..<n] = Some i \<longleftrightarrow> i < n \<and> P i \<and> (\<forall>j<i. \<not> P j)"
  by (auto simp: find_Some_iff)

lemma find_upt_None_iff: "find P [0..<n] = None \<longleftrightarrow> (\<forall>i<n. \<not> P i)"
  by (auto simp: find_None_iff)

lemma unat_u32_lt: "unat (x :: u32) < 4294967296"
  using unsigned_less[of x, where ?'a = nat] by simp

lemma unat_of_nat_lt: "n < 2 ^ LENGTH('a) \<Longrightarrow> unat (of_nat n :: 'a::len word) = n"
  by (simp add: unat_of_nat)

end
