(* ===== verification/Bin_Integer.thy ===== *)
theory Bin_Integer
  imports R3_Prelude
begin

unbundle bit_operations_syntax

text \<open>
  The trait \<^verbatim>\<open>BinInteger\<close> of \<^verbatim>\<open>r3_kernel/src/utils/int.rs\<close>, generic over the
  integer type: an unsigned integer type of \<open>LENGTH('a)\<close> bits is \<open>'a word\<close>, and
  \<^verbatim>\<open>Self::BITS\<close> is \<open>LENGTH('a)\<close>.  Bit positions and ranges (\<^verbatim>\<open>u32\<close>) are natural numbers.
  The lemmas characterise each operation by the set of bits of its result.
\<close>

section \<open>Operations\<close>

text \<open>\<^verbatim>\<open>1 << i\<close>, which panics (in a checked build) when \<open>i\<close> is not a bit position.\<close>

definition checked_bit :: "nat \<Rightarrow> 'a::len word option" where
  "checked_bit i = guard (i < LENGTH('a)) (Some (push_bit i 1))"

definition ones_truncated :: "nat \<Rightarrow> nat \<Rightarrow> 'a::len word option" where
  "ones_truncated start end' =
     guard (start \<le> end')
      (case (checked_bit start :: 'a word option) of None \<Rightarrow> None | Some lo \<Rightarrow>
        if LENGTH('a) \<le> end' then Some (0 - lo)
        else Some (push_bit end' 1 - lo))"

definition ones :: "nat \<Rightarrow> nat \<Rightarrow> 'a::len word option" where
  "ones start end' = guard (end' \<le> LENGTH('a)) (ones_truncated start end')"

definition trailing_zeros :: "'a::len word \<Rightarrow> nat" where
  "trailing_zeros x = (case find (bit x) [0..<LENGTH('a)] of None \<Rightarrow> LENGTH('a) | Some i \<Rightarrow> i)"

definition leading_zeros :: "'a::len word \<Rightarrow> nat" where
  "leading_zeros x =
     (case find (\<lambda>i. bit x (LENGTH('a) - 1 - i)) [0..<LENGTH('a)] of
        None \<Rightarrow> LENGTH('a) | Some i \<Rightarrow> i)"

definition count_ones :: "'a::len word \<Rightarrow> nat" where
  "count_ones x = length (filter (bit x) [0..<LENGTH('a)])"

definition bit_scan_forward :: "'a::len word \<Rightarrow> nat \<Rightarrow> nat option" where
  "bit_scan_forward x start =
     (if LENGTH('a) \<le> start then Some LENGTH('a)
      else case (ones 0 start :: 'a word option) of None \<Rightarrow> None
           | Some m \<Rightarrow> Some (trailing_zeros (x AND NOT m)))"

definition extract_u32 :: "'a::len word \<Rightarrow> nat \<Rightarrow> nat \<Rightarrow> u32 option" where
  "extract_u32 x start end' =
     (case (ones_truncated start end' :: 'a word option) of None \<Rightarrow> None
      | Some m \<Rightarrow> Some (ucast (drop_bit start (x AND m))))"

definition get_bit :: "'a::len word \<Rightarrow> nat \<Rightarrow> bool" where
  "get_bit x i = (if i < LENGTH('a) then x AND push_bit i 1 \<noteq> 0 else False)"

definition set_bit' :: "'a::len word \<Rightarrow> nat \<Rightarrow> 'a word" where
  "set_bit' x i = (if i < LENGTH('a) then x OR push_bit i 1 else x)"

definition clear_bit :: "'a::len word \<Rightarrow> nat \<Rightarrow> 'a word" where
  "clear_bit x i = (if i < LENGTH('a) then x AND NOT (push_bit i 1) else x)"

text \<open>\<^verbatim>\<open>checked_add\<close>: \<open>None\<close> on overflow.\<close>

definition checked_add_word :: "'a::len word \<Rightarrow> 'a word \<Rightarrow> 'a word option" where
  "checked_add_word x y = (if unat x + unat y < 2 ^ LENGTH('a) then Some (x + y) else None)"

text \<open>The outer \<open>option\<close> is a panic (which the lemmas exclude), the inner one the result.\<close>

definition checked_ceil_fix :: "'a::len word \<Rightarrow> nat \<Rightarrow> 'a word option option" where
  "checked_ceil_fix x fp =
     (if LENGTH('a) \<le> fp then Some (if x = 0 then Some 0 else None)
      else case (ones 0 fp :: 'a word option) of None \<Rightarrow> None
           | Some m \<Rightarrow> Some (map_option (\<lambda>y. y AND NOT m) (checked_add_word x m)))"

text \<open>The iterator \<^verbatim>\<open>OneDigits\<close>: its state is the set of bits not yet produced.\<close>

definition one_digits_next :: "'a::len word \<Rightarrow> (nat \<times> 'a word) option" where
  "one_digits_next x =
     (if x = 0 then None
      else let index = trailing_zeros x in Some (index, x AND NOT (push_bit index 1)))"

definition one_digits_next_back :: "'a::len word \<Rightarrow> (nat \<times> 'a word) option" where
  "one_digits_next_back x =
     (if x = 0 then None
      else let index = LENGTH('a) - 1 - leading_zeros x in Some (index, x AND NOT (push_bit index 1)))"

definition one_digits_len :: "'a::len word \<Rightarrow> nat" where
  "one_digits_len x = count_ones x"

section \<open>Bits of the results\<close>

lemma bit_exp_word [simp]: "bit (2 ^ i :: 'a::len word) j \<longleftrightarrow> i = j \<and> j < LENGTH('a)"
  by (auto simp: bit_exp_iff)

lemma bit_mask_word [simp]: "bit (mask n :: 'a::len word) j \<longleftrightarrow> j < n \<and> j < LENGTH('a)"
  by (auto simp: bit_mask_iff)

lemma get_bit_eq: "get_bit x i = bit x i"
proof (cases "i < LENGTH('a)")
  case True
  have "bit (x AND 2 ^ i) j \<longleftrightarrow> bit x i \<and> j = i" for j
    using True by (auto simp: bit_and_iff)
  then have "(x AND 2 ^ i = 0) = (\<not> bit x i)" by (simp add: bit_eq_iff) (use True in auto)
  with True show ?thesis by (simp add: get_bit_def)
next
  case False
  then show ?thesis by (auto simp: get_bit_def dest: bit_imp_le_length)
qed

lemma bit_set_bit': "bit (set_bit' x i) j \<longleftrightarrow> bit x j \<or> (i = j \<and> j < LENGTH('a))"
  for x :: "'a::len word"
  by (auto simp: set_bit'_def bit_or_iff)

lemma bit_clear_bit: "bit (clear_bit x i) j \<longleftrightarrow> bit x j \<and> i \<noteq> j"
  for x :: "'a::len word"
  by (auto simp: clear_bit_def bit_and_iff bit_not_iff dest: bit_imp_le_length)

lemma word_eq_0_bits: "x = 0 \<longleftrightarrow> (\<forall>i<LENGTH('a). \<not> bit x i)" for x :: "'a::len word"
  by (auto simp: bit_eq_iff dest: bit_imp_le_length)

lemma trailing_zeros_zero [simp]: "trailing_zeros (0 :: 'a::len word) = LENGTH('a)"
  by (auto simp: trailing_zeros_def find_upt_Some_iff split: option.splits)

lemma trailing_zeros_find:
  "find (bit x) [0..<LENGTH('a)] = Some i \<Longrightarrow> trailing_zeros x = i" for x :: "'a::len word"
  by (simp add: trailing_zeros_def)

lemma trailing_zeros_nonzero:
  fixes x :: "'a::len word"
  assumes "x \<noteq> 0"
  shows "trailing_zeros x < LENGTH('a)" and "bit x (trailing_zeros x)"
    and "\<And>j. j < trailing_zeros x \<Longrightarrow> \<not> bit x j"
proof -
  from assms obtain i where "find (bit x) [0..<LENGTH('a)] = Some i"
    by (cases "find (bit x) [0..<LENGTH('a)]") (auto simp: find_upt_None_iff word_eq_0_bits)
  note tz = trailing_zeros_find[OF this] and i = this
  from i show "trailing_zeros x < LENGTH('a)" and "bit x (trailing_zeros x)"
    and "\<And>j. j < trailing_zeros x \<Longrightarrow> \<not> bit x j"
    unfolding tz by (auto simp: find_upt_Some_iff)
qed

lemma trailing_zeros_eq_length: "trailing_zeros x = LENGTH('a) \<longleftrightarrow> x = 0"
  for x :: "'a::len word"
  using trailing_zeros_nonzero(1)[of x] by (cases "x = 0") auto

lemma trailing_zeros_eqI:
  fixes x :: "'a::len word"
  assumes "bit x i" "\<And>j. j < i \<Longrightarrow> \<not> bit x j"
  shows "trailing_zeros x = i"
proof -
  have "x \<noteq> 0" using assms(1) by auto
  from trailing_zeros_nonzero[OF this] assms show ?thesis
    by (metis linorder_neqE_nat)
qed

lemma trailing_zeros_Min:
  fixes x :: "'a::len word"
  assumes "x \<noteq> 0"
  shows "trailing_zeros x = Min {i. bit x i}"
proof -
  have "finite {i. bit x i}"
    by (rule finite_subset[of _ "{..<LENGTH('a)}"]) (auto dest: bit_imp_le_length)
  moreover have "trailing_zeros x \<in> {i. bit x i}"
    using trailing_zeros_nonzero(2)[OF assms] by simp
  moreover have "\<And>j. j \<in> {i. bit x i} \<Longrightarrow> trailing_zeros x \<le> j"
    using trailing_zeros_nonzero(3)[OF assms] by (metis mem_Collect_eq not_le)
  ultimately show ?thesis by (rule Min_eqI_nat[symmetric])
qed

lemma leading_zeros_nonzero:
  fixes x :: "'a::len word"
  assumes "x \<noteq> 0"
  shows "leading_zeros x < LENGTH('a)" and "bit x (LENGTH('a) - 1 - leading_zeros x)"
    and "\<And>j. LENGTH('a) - 1 - leading_zeros x < j \<Longrightarrow> \<not> bit x j"
proof -
  let ?P = "\<lambda>i. bit x (LENGTH('a) - 1 - i)"
  from assms obtain k where k: "k < LENGTH('a)" "bit x k" by (auto simp: word_eq_0_bits)
  have "find ?P [0..<LENGTH('a)] \<noteq> None"
  proof
    assume "find ?P [0..<LENGTH('a)] = None"
    then have "\<forall>i<LENGTH('a). \<not> ?P i" by (simp add: find_upt_None_iff)
    moreover have "LENGTH('a) - 1 - k < LENGTH('a)" "LENGTH('a) - 1 - (LENGTH('a) - 1 - k) = k"
      using k by auto
    ultimately show False using k by metis
  qed
  then obtain i where i: "find ?P [0..<LENGTH('a)] = Some i" by auto
  then have lz: "leading_zeros x = i" by (simp add: leading_zeros_def)
  from i show "leading_zeros x < LENGTH('a)" and "bit x (LENGTH('a) - 1 - leading_zeros x)"
    unfolding lz by (auto simp: find_upt_Some_iff)
  fix j assume j: "LENGTH('a) - 1 - leading_zeros x < j"
  show "\<not> bit x j"
  proof
    assume b: "bit x j"
    then have "j < LENGTH('a)" by (rule bit_imp_le_length)
    with j have "LENGTH('a) - 1 - j < i" unfolding lz by linarith
    moreover have "LENGTH('a) - 1 - (LENGTH('a) - 1 - j) = j" using \<open>j < LENGTH('a)\<close> by auto
    moreover have "\<forall>n<i. \<not> bit x (LENGTH('a) - 1 - n)" using i by (simp add: find_upt_Some_iff)
    ultimately show False using b by metis
  qed
qed

section \<open>Masks\<close>

lemma push_bit_1_eq_power: "push_bit i 1 = (2 ^ i :: 'a::len word)"
  by (simp add: push_bit_eq_mult)

lemma ones_truncated_0:
  "ones_truncated 0 n = Some (mask n :: 'a::len word)"
proof (cases "LENGTH('a) \<le> n")
  case True
  then have "(mask n :: 'a word) = - 1" by (simp add: bit_eq_iff)
  with True show ?thesis by (simp add: ones_truncated_def checked_bit_def)
next
  case False
  then show ?thesis
    by (simp add: ones_truncated_def checked_bit_def mask_eq_exp_minus_1 push_bit_1_eq_power)
qed

lemma ones_0: "n \<le> LENGTH('a) \<Longrightarrow> ones 0 n = Some (mask n :: 'a::len word)"
  by (simp add: ones_def ones_truncated_0)

lemma bit_scan_forward_0: "bit_scan_forward x 0 = Some (trailing_zeros x)"
  by (simp add: bit_scan_forward_def ones_0)

end
