(* ===== verification/Ctz.thy ===== *)
theory Ctz
  imports Bin_Integer
begin

unbundle bit_operations_syntax

text \<open>
  \<^verbatim>\<open>r3_kernel/src/utils/ctz.rs\<close>: counting trailing zeros without a hardware instruction.
  The function \<open>ctz\<close> picks one of seven algorithms by the (constant) bit count and the
  features of the target; every algorithm is shown to return what the intrinsic
  \<open>trailing_zeros\<close> returns, without tripping an assertion, on every argument below
  \<open>2 ^ BITS\<close>.  \<^verbatim>\<open>usize\<close> has 32 bits.
\<close>

section \<open>Target features\<close>

datatype target_arch = Riscv32 | Riscv64 | Arm | Msp430 | Avr | OtherArch

record target =
  target_arch :: target_arch
  feat_b :: bool
  feat_experimental_b :: bool
  feat_v6t2 :: bool
  feat_v5te :: bool
  feat_thumb_mode :: bool
  feat_m :: bool
  feat_hwmult32 :: bool

definition HAS_CTZ :: "target \<Rightarrow> bool" where
  "HAS_CTZ t =
     (if target_arch t = Riscv32 \<or> target_arch t = Riscv64 then feat_b t \<or> feat_experimental_b t
      else if target_arch t = Arm then feat_v6t2 t \<or> (feat_v5te t \<and> \<not> feat_thumb_mode t)
      else if target_arch t = Msp430 then False
      else True)"

definition HAS_MUL :: "target \<Rightarrow> bool" where
  "HAS_MUL t =
     (if target_arch t = Riscv32 \<or> target_arch t = Riscv64 then feat_m t
      else if target_arch t = Msp430 then feat_hwmult32 t
      else True)"

definition HAS_SHIFTER :: "target \<Rightarrow> bool" where
  "HAS_SHIFTER t =
     (if target_arch t = Msp430 then False else if target_arch t = Avr then False else True)"

definition HAS_FAST_LOAD :: "target \<Rightarrow> bool" where
  "HAS_FAST_LOAD t =
     (if target_arch t = Arm \<or> target_arch t = Msp430 \<or> target_arch t = Avr then True else False)"

section \<open>Algorithms\<close>

definition first_set_bit_mask :: "usize_word \<Rightarrow> usize_word" where
  "first_set_bit_mask x = x AND (- x)"

definition ctz8_debruijn :: "usize_word \<Rightarrow> nat option" where
  "ctz8_debruijn x =
     guard (x < 0x100)
      (if x = 0 then Some usize_bits
       else guard (unat (first_set_bit_mask x) * 0b11101 < 2 ^ usize_bits)
         (let pat = drop_bit 3 (first_set_bit_mask x * 0b11101) AND 0b11100
          in Some (unat (drop_bit (unat pat) (0b00110100010101110010011000010000 :: u32) AND 0b111))))"

definition ctz4_lut_nonzero :: "usize_word \<Rightarrow> nat option" where
  "ctz4_lut_nonzero x =
     guard (x < 16 \<and> x \<noteq> 0)
      (Some (unat (drop_bit 30 (push_bit (unat (ucast x * 2 :: u32))
               (0b0100100001001100010010000100 :: u32)))))"

definition ctz4_lut :: "usize_word \<Rightarrow> nat option" where
  "ctz4_lut x = guard (x < 16) (if x = 0 then Some usize_bits else ctz4_lut_nonzero x)"

definition ctz3_lut_nonzero :: "usize_word \<Rightarrow> nat option" where
  "ctz3_lut_nonzero x =
     guard (x < 8) (guard (x \<noteq> 0)
      (Some (unat (drop_bit 30 (push_bit (unat (ucast x * 2 :: u32))
               (0b0100100001000000000000000000 :: u32))))))"

definition ctz3_lut :: "usize_word \<Rightarrow> nat option" where
  "ctz3_lut x = guard (x < 8) (if x = 0 then Some usize_bits else ctz3_lut_nonzero x)"

definition ctz2 :: "usize_word \<Rightarrow> nat option" where
  "ctz2 x = guard (x < 4) (if x = 0 then Some usize_bits else Some (unat ((x AND 1) XOR 1)))"

text \<open>The table is computed at compile time, its entries truncated to \<^verbatim>\<open>u8\<close>.\<close>

definition ctz_lut :: "nat \<Rightarrow> u8 list" where
  "ctz_lut len = map (\<lambda>i. of_nat (trailing_zeros (of_nat i :: usize_word))) [0..<len]"

definition ctz_array_lut :: "nat \<Rightarrow> usize_word \<Rightarrow> nat option" where
  "ctz_array_lut len x =
     map_option unat (slice_get (ctz_lut len) (unat (x AND of_nat (length (ctz_lut len) - 1))))"

fun ctz_linear_from :: "nat \<Rightarrow> nat \<Rightarrow> usize_word \<Rightarrow> nat" where
  "ctz_linear_from i 0 x = usize_bits"
| "ctz_linear_from i (Suc k) x =
     (if x AND 1 \<noteq> 0 then i else ctz_linear_from (Suc i) k (drop_bit 1 x))"

definition ctz_linear :: "nat \<Rightarrow> usize_word \<Rightarrow> nat option" where
  "ctz_linear BITS x = Some (ctz_linear_from 0 BITS x)"

definition ctz_bsearch32 :: "target \<Rightarrow> nat \<Rightarrow> usize_word \<Rightarrow> nat option" where
  "ctz_bsearch32 t BITS x0 =
     guard (BITS \<le> 32)
      (let x = (ucast x0 :: u32) in
       if x = 0 then Some usize_bits
       else
         let (x, i) = (if 16 < BITS \<and> x AND 0xffff = 0 then (drop_bit 16 x, 16) else (x, 0));
             (x, i) = (if 8 < BITS \<and> x AND 0xff = 0 then (drop_bit 8 x, i + 8) else (x, i));
             (x, i) = (if 4 < BITS \<and> x AND 0xf = 0
                       then (if 8 < BITS then drop_bit 4 x AND 0xf else drop_bit 4 x, i + 4)
                       else if 4 < BITS then (x AND 0xf, i) else (x, i))
         in map_option ((+) i)
              (if HAS_FAST_LOAD t then ctz_array_lut 16 (ucast x) else ctz4_lut_nonzero (ucast x)))"

definition ctz :: "target \<Rightarrow> nat \<Rightarrow> usize_word \<Rightarrow> nat option" where
  "ctz t BITS x =
     (if BITS = 0 then Some usize_bits
      else if BITS = 1 then (if x = 0 then Some usize_bits else Some 0)
      else if HAS_CTZ t then Some (trailing_zeros x)
      else if BITS = 2 \<and> HAS_FAST_LOAD t then ctz_array_lut 4 x
      else if BITS = 3 \<and> HAS_FAST_LOAD t then ctz_array_lut 8 x
      else if BITS = 4 \<and> HAS_FAST_LOAD t then ctz_array_lut 16 x
      else if BITS \<le> 2 then ctz2 x
      else if BITS \<le> 3 \<and> HAS_SHIFTER t then ctz3_lut x
      else if BITS \<le> 4 \<and> HAS_SHIFTER t then ctz4_lut x
      else if BITS \<le> 8 \<and> HAS_MUL t \<and> HAS_SHIFTER t then ctz8_debruijn x
      else if 16 < BITS \<and> HAS_MUL t \<and> HAS_SHIFTER t then Some (trailing_zeros x)
      else if HAS_SHIFTER t then ctz_bsearch32 t BITS x
      else ctz_linear BITS x)"

section \<open>Isolating the lowest set bit\<close>

lemma word_minus_1_above:
  fixes x :: "'a::len word"
  assumes "x \<noteq> 0"
  defines "i \<equiv> trailing_zeros x"
  shows "x - 1 = (x AND NOT (2 ^ i)) OR mask i"
proof -
  note tz = trailing_zeros_nonzero[OF assms(1), folded i_def]
  have "x = (x AND NOT (2 ^ i)) OR 2 ^ i"
    by (rule bit_word_eqI) (use tz in \<open>auto simp: bit_or_iff bit_and_iff bit_not_iff\<close>)
  also have "\<dots> = (x AND NOT (2 ^ i)) + 2 ^ i"
    by (rule disjunctive_add[symmetric]) (auto simp: bit_and_iff bit_not_iff)
  finally have "x - 1 = (x AND NOT (2 ^ i)) + mask i"
    by (simp add: mask_eq_exp_minus_1 algebra_simps)
  also have "\<dots> = (x AND NOT (2 ^ i)) OR mask i"
    by (rule disjunctive_add) (use tz in \<open>auto simp: bit_and_iff bit_not_iff\<close>)
  finally show ?thesis .
qed

lemma word_and_minus:
  fixes x :: "'a::len word"
  assumes "x \<noteq> 0"
  shows "x AND (- x) = 2 ^ trailing_zeros x"
proof -
  have "- x = NOT (x - 1)" by (simp add: minus_eq_not_minus_1)
  then show ?thesis unfolding word_minus_1_above[OF assms]
    by (intro bit_word_eqI)
       (use trailing_zeros_nonzero[OF assms] in
         \<open>auto simp: bit_or_iff bit_and_iff bit_not_iff nat_neq_iff\<close>)
qed

lemma bit_imp_power_le:
  fixes x :: "'a::len word"
  assumes "bit x j"
  shows "2 ^ j \<le> unat x"
proof -
  have "bit (unat x) j" using assms by (simp add: bit_unsigned_iff)
  then have "odd (unat x div 2 ^ j)" by (simp add: bit_iff_odd)
  then have "unat x div 2 ^ j \<noteq> 0" by (cases "unat x div 2 ^ j = 0") auto
  then show ?thesis by (simp add: div_eq_0_iff not_less)
qed

lemma bit_imp_lt:
  fixes x :: "'a::len word"
  assumes "bit x j" "unat x < 2 ^ n"
  shows "j < n"
proof (rule ccontr)
  assume "\<not> j < n"
  then have "2 ^ n \<le> (2 ^ j :: nat)" by (intro power_increasing) auto
  with bit_imp_power_le[OF assms(1)] assms(2) show False by linarith
qed

lemma trailing_zeros_lt_if_lt:
  fixes x :: "'a::len word"
  assumes "x \<noteq> 0" "unat x < 2 ^ n"
  shows "trailing_zeros x < n"
  using trailing_zeros_nonzero(2)[OF assms(1)] assms(2) by (rule bit_imp_lt)

text \<open>Dropping low zero bits, masking high bits: the two steps of the binary search.\<close>

lemma trailing_zeros_drop:
  fixes x :: "'a::len word"
  assumes "x \<noteq> 0" "x AND mask n = 0"
  shows "drop_bit n x \<noteq> 0" "trailing_zeros x = n + trailing_zeros (drop_bit n x)"
proof -
  let ?i = "trailing_zeros x"
  note tz = trailing_zeros_nonzero[OF assms(1)]
  have low: "\<not> bit x j" if "j < n" for j
  proof
    assume "bit x j"
    then have "bit (x AND mask n) j" using that by (auto simp: bit_and_iff dest: bit_imp_le_length)
    with assms(2) show False by simp
  qed
  then have le: "n \<le> ?i" using tz(2) by (meson not_le)
  then have b: "bit (drop_bit n x) (?i - n)" using tz by (simp add: bit_drop_bit_eq)
  then show "drop_bit n x \<noteq> 0" by auto
  have "trailing_zeros (drop_bit n x) = ?i - n"
    by (rule trailing_zeros_eqI[OF b]) (use tz(3) in \<open>simp add: bit_drop_bit_eq\<close>)
  with le show "?i = n + trailing_zeros (drop_bit n x)" by simp
qed

lemma trailing_zeros_and_mask:
  fixes x :: "'a::len word"
  assumes "x AND mask n \<noteq> 0"
  shows "trailing_zeros (x AND mask n) = trailing_zeros x"
proof -
  note tz = trailing_zeros_nonzero[OF assms]
  show ?thesis
    by (rule trailing_zeros_eqI[symmetric])
       (use tz in \<open>auto simp: bit_and_iff dest: bit_imp_le_length\<close>)
qed

section \<open>Small arguments\<close>

lemma trailing_zeros_small:
  "trailing_zeros (1 :: 32 word) = 0" "trailing_zeros (2 :: 32 word) = 1"
  "trailing_zeros (3 :: 32 word) = 0" "trailing_zeros (4 :: 32 word) = 2"
  "trailing_zeros (5 :: 32 word) = 0" "trailing_zeros (6 :: 32 word) = 1"
  "trailing_zeros (7 :: 32 word) = 0" "trailing_zeros (8 :: 32 word) = 3"
  "trailing_zeros (9 :: 32 word) = 0" "trailing_zeros (10 :: 32 word) = 1"
  "trailing_zeros (11 :: 32 word) = 0" "trailing_zeros (12 :: 32 word) = 2"
  "trailing_zeros (13 :: 32 word) = 0" "trailing_zeros (14 :: 32 word) = 1"
  "trailing_zeros (15 :: 32 word) = 0"
  by (rule trailing_zeros_eqI; auto simp: numeral_eq_Suc less_Suc_eq)+

lemma word_lt_16_cases:
  fixes x :: "32 word"
  assumes "x < 16" "x \<noteq> 0"
  shows "x \<in> {1, 2, 3, 4, 5, 6, 7, 8, 9, 10, 11, 12, 13, 14, 15}"
proof -
  obtain k where k: "x = of_nat k" "k < 16" "k \<noteq> 0"
    using assms by (intro that[of "unat x"]) (simp_all add: word_less_nat_alt unat_eq_0)
  then have "k \<in> {1, 2, 3, 4, 5, 6, 7, 8, 9, 10, 11, 12, 13, 14, 15}"
    by (auto simp: numeral_eq_Suc less_Suc_eq)
  with k(1) show ?thesis by auto
qed

lemma ctz4_lut_nonzero_correct:
  "x < 16 \<Longrightarrow> x \<noteq> 0 \<Longrightarrow> ctz4_lut_nonzero x = Some (trailing_zeros x)"
  by (drule (1) word_lt_16_cases) (auto simp: ctz4_lut_nonzero_def trailing_zeros_small)

lemma ctz4_lut_correct: "x < 16 \<Longrightarrow> ctz4_lut x = Some (trailing_zeros x)"
  by (simp add: ctz4_lut_def ctz4_lut_nonzero_correct usize_bits_def)

lemma ctz3_lut_correct: "x < 8 \<Longrightarrow> ctz3_lut x = Some (trailing_zeros x)"
proof -
  assume x: "x < 8"
  show ?thesis
  proof (cases "x = 0")
    case True
    then show ?thesis by (simp add: ctz3_lut_def usize_bits_def)
  next
    case False
    have "x < 16" using x by (rule order.strict_trans) simp
    from word_lt_16_cases[OF this False] x show ?thesis
      by (auto simp: ctz3_lut_def ctz3_lut_nonzero_def trailing_zeros_small)
  qed
qed

lemma ctz2_correct: "x < 4 \<Longrightarrow> ctz2 x = Some (trailing_zeros x)"
proof -
  assume x: "x < 4"
  show ?thesis
  proof (cases "x = 0")
    case True
    then show ?thesis by (simp add: ctz2_def usize_bits_def)
  next
    case False
    have "x < 16" using x by (rule order.strict_trans) simp
    from word_lt_16_cases[OF this False] x show ?thesis
      by (auto simp: ctz2_def trailing_zeros_small)
  qed
qed

lemma ctz8_debruijn_correct: "x < 0x100 \<Longrightarrow> ctz8_debruijn x = Some (trailing_zeros x)"
proof -
  assume x: "x < 0x100"
  show ?thesis
  proof (cases "x = 0")
    case True
    then show ?thesis by (simp add: ctz8_debruijn_def usize_bits_def)
  next
    case False
    have "trailing_zeros x < 8"
      using False x by (intro trailing_zeros_lt_if_lt) (simp_all add: word_less_nat_alt)
    then have "trailing_zeros x \<in> {0, 1, 2, 3, 4, 5, 6, 7}"
      by (auto simp: numeral_eq_Suc less_Suc_eq)
    moreover have "first_set_bit_mask x = 2 ^ trailing_zeros x"
      by (simp add: first_set_bit_mask_def word_and_minus[OF False])
    ultimately show ?thesis using x False
      by (auto simp: ctz8_debruijn_def usize_bits_def)
  qed
qed

section \<open>The table, the linear search and the binary search\<close>

lemma word_and_mask_id: "unat x < 2 ^ n \<Longrightarrow> x AND mask n = x" for x :: "'a::len word"
  by (rule bit_word_eqI) (auto simp: bit_and_iff dest: bit_imp_lt)

lemma trailing_zeros_le: "trailing_zeros x \<le> LENGTH('a)" for x :: "'a::len word"
  by (cases "x = 0") (auto dest: trailing_zeros_nonzero(1))

lemma ctz_array_lut_correct:
  assumes "unat x < 2 ^ n" "n \<le> 8"
  shows "ctz_array_lut (2 ^ n) x = Some (trailing_zeros x)"
proof -
  have "trailing_zeros x < 256" using trailing_zeros_le[of x] by simp
  moreover have "x AND of_nat (2 ^ n - 1) = x"
    using word_and_mask_id[OF assms(1)] by (simp add: mask_eq_exp_minus_1 of_nat_diff)
  ultimately show ?thesis using assms(1)
    by (simp add: ctz_array_lut_def ctz_lut_def unat_of_nat)
qed

lemma ctz_linear_from_correct:
  "unat x < 2 ^ k \<Longrightarrow> ctz_linear_from i k x = (if x = 0 then usize_bits else i + trailing_zeros x)"
proof (induction k arbitrary: i x)
  case 0
  then show ?case by (simp add: unat_eq_0)
next
  case (Suc k)
  show ?case
  proof (cases "x AND 1 = 0")
    case True
    then have m: "x AND mask 1 = 0" by simp
    have "unat (drop_bit 1 x) < 2 ^ k"
      using Suc.prems by (simp add: drop_bit_eq_div unat_div)
    note IH = Suc.IH[OF this, of "Suc i"]
    show ?thesis
    proof (cases "x = 0")
      case False
      with trailing_zeros_drop[OF False m] IH True show ?thesis by simp
    qed (use IH in simp)
  next
    case False
    then have "odd x" by (metis and_one_eq even_iff_mod_2_eq_zero)
    then have "trailing_zeros x = 0" by (intro trailing_zeros_eqI) (simp_all add: bit_0)
    with False show ?thesis by auto
  qed
qed

lemma ctz_linear_correct: "unat x < 2 ^ BITS \<Longrightarrow> ctz_linear BITS x = Some (trailing_zeros x)"
  by (auto simp: ctz_linear_def ctz_linear_from_correct usize_bits_def)

lemma halve_nonzero:
  fixes x :: "'a::len word"
  assumes "x AND mask (n + m) \<noteq> 0" "x AND mask n = 0"
  shows "drop_bit n x AND mask m \<noteq> 0" "trailing_zeros x = n + trailing_zeros (drop_bit n x)"
proof -
  have x0: "x \<noteq> 0" using assms(1) by auto
  from assms(1) obtain j where j: "bit x j" "j < n + m"
    by (auto simp: word_eq_0_bits bit_and_iff)
  moreover have "n \<le> j"
  proof (rule ccontr)
    assume "\<not> n \<le> j"
    with j have "bit (x AND mask n) j" by (auto simp: bit_and_iff dest: bit_imp_le_length)
    with assms(2) show False by simp
  qed
  ultimately have "bit (drop_bit n x AND mask m) (j - n)"
    by (auto simp: bit_and_iff bit_drop_bit_eq dest: bit_imp_le_length)
  then show "drop_bit n x AND mask m \<noteq> 0" by auto
  show "trailing_zeros x = n + trailing_zeros (drop_bit n x)"
    by (rule trailing_zeros_drop(2)[OF x0 assms(2)])
qed

lemma halving_step:
  fixes x :: "'a::len word"
  assumes "x AND mask (m + m) \<noteq> 0" "\<not> c \<Longrightarrow> unat x < 2 ^ m"
  shows "(if c \<and> x AND mask m = 0 then drop_bit m x else x) AND mask m \<noteq> 0"
    and "trailing_zeros x = (if c \<and> x AND mask m = 0 then m else 0)
           + trailing_zeros (if c \<and> x AND mask m = 0 then drop_bit m x else x)"
proof -
  have "x AND mask m \<noteq> 0" if "\<not> c"
    using word_and_mask_id[OF assms(2)[OF that]] assms(1) by auto
  then show "(if c \<and> x AND mask m = 0 then drop_bit m x else x) AND mask m \<noteq> 0"
    using halve_nonzero(1)[OF assms(1)] by auto
  show "trailing_zeros x = (if c \<and> x AND mask m = 0 then m else 0)
           + trailing_zeros (if c \<and> x AND mask m = 0 then drop_bit m x else x)"
    using halve_nonzero(2)[OF assms(1)] by simp
qed

lemma unat_lt_weaken: "unat x < 2 ^ n \<Longrightarrow> n \<le> m \<Longrightarrow> unat x < 2 ^ m"
  for x :: "'a::len word"
  by (meson order_less_le_trans power_increasing one_le_numeral)

lemma mask_numerals:
  "mask 16 = (0xffff :: 'a::len word)" "mask 8 = (0xff :: 'a::len word)"
  "mask 4 = (0xf :: 'a::len word)"
  by (simp_all add: mask_eq_exp_minus_1)

lemma ctz_bsearch32_correct:
  assumes "BITS \<le> 32" "unat x < 2 ^ BITS"
  shows "ctz_bsearch32 t BITS x = Some (trailing_zeros x)"
proof (cases "x = 0")
  case True
  then show ?thesis using assms(1) by (simp add: ctz_bsearch32_def usize_bits_def)
next
  case False
  define x1 i1 where "x1 = (if 16 < BITS \<and> x AND mask 16 = 0 then drop_bit 16 x else x)"
    and "i1 = (if 16 < BITS \<and> x AND mask 16 = 0 then 16 else 0 :: nat)"
  define x2 i2 where "x2 = (if 8 < BITS \<and> x1 AND mask 8 = 0 then drop_bit 8 x1 else x1)"
    and "i2 = (if 8 < BITS \<and> x1 AND mask 8 = 0 then i1 + 8 else i1)"
  define x3 i3 where "x3 = (if 4 < BITS \<and> x2 AND mask 4 = 0
                            then (if 8 < BITS then drop_bit 4 x2 AND mask 4 else drop_bit 4 x2)
                            else if 4 < BITS then x2 AND mask 4 else x2)"
    and "i3 = (if 4 < BITS \<and> x2 AND mask 4 = 0 then i2 + 4 else i2)"
  have full: "x AND mask (16 + 16) \<noteq> 0"
    using False word_and_mask_id[OF unat_lt_weaken[OF assms(2,1)]] by simp
  have "unat x < 2 ^ 16" if "\<not> 16 < BITS" using unat_lt_weaken[OF assms(2), of 16] that by simp
  note h16 = halving_step[OF full this]
  have 1: "x1 AND mask 16 \<noteq> 0" "trailing_zeros x = i1 + trailing_zeros x1"
    unfolding x1_def i1_def by (rule h16, assumption, rule h16, assumption)
  have small: "BITS \<le> 8 \<Longrightarrow> x1 = x" by (simp add: x1_def)
  have full8: "x1 AND mask (8 + 8) \<noteq> 0" using 1(1) by simp
  have "unat x1 < 2 ^ 8" if "\<not> 8 < BITS"
    using unat_lt_weaken[OF assms(2), of 8] small that by simp
  note h8 = halving_step[OF full8 this]
  have 2: "x2 AND mask 8 \<noteq> 0"
    and tz1: "trailing_zeros x1 = (if 8 < BITS \<and> x1 AND mask 8 = 0 then 8 else 0) + trailing_zeros x2"
    unfolding x2_def by (rule h8, assumption, rule h8, assumption)
  have tz: "trailing_zeros x = i2 + trailing_zeros x2"
    unfolding 1(2) tz1 i2_def by (simp only: split: if_split) simp
  have small2: "BITS \<le> 8 \<Longrightarrow> x2 = x" using small by (simp add: x2_def)
  have lt4: "unat (y AND mask 4) < 2 ^ 4" for y :: u32
    using and_mask_less'[of 4 y] by (simp add: word_less_nat_alt)
  have 3: "x3 \<noteq> 0 \<and> unat x3 < 2 ^ 4 \<and> trailing_zeros x2 = (i3 - i2) + trailing_zeros x3 \<and> i2 \<le> i3"
  proof (cases "4 < BITS")
    case False
    then have "x2 = x" "unat x < 2 ^ 4" using small2 unat_lt_weaken[OF assms(2), of 4] by simp_all
    with False show ?thesis using \<open>x \<noteq> 0\<close> by (simp add: x3_def i3_def)
  next
    case big: True
    show ?thesis
    proof (cases "x2 AND mask 4 = 0")
      case False
      then show ?thesis using lt4[of x2] big
        by (simp only: x3_def i3_def trailing_zeros_and_mask if_False if_True simp_thms diff_self_eq_0 order_refl add_0)
    next
      case True
      have "x2 AND mask (4 + 4) \<noteq> 0" using 2 by simp
      note h = halve_nonzero[OF this True]
      show ?thesis
      proof (cases "8 < BITS")
        case True
        then show ?thesis using h lt4[of "drop_bit 4 x2"] big \<open>x2 AND mask 4 = 0\<close>
          by (simp add: x3_def i3_def trailing_zeros_and_mask[OF h(1)])
      next
        case False
        then have "unat x2 < 2 ^ 8" using small2 unat_lt_weaken[OF assms(2), of 8] by simp
        then have "unat (drop_bit 4 x2) < 16" by (simp add: drop_bit_eq_div unat_div)
        moreover have "drop_bit 4 x2 \<noteq> 0" using h(1) by auto
        ultimately show ?thesis using h(2) big True False by (simp add: x3_def i3_def)
      qed
    qed
  qed
  have "ctz_bsearch32 t BITS x =
      map_option ((+) i3) (if HAS_FAST_LOAD t then ctz_array_lut 16 x3 else ctz4_lut_nonzero x3)"
    using assms(1) False
    by (simp add: ctz_bsearch32_def x3_def x2_def x1_def i3_def i2_def i1_def Let_def mask_numerals)
  also have "\<dots> = Some (trailing_zeros x)"
    using 3 tz ctz_array_lut_correct[of x3 4] ctz4_lut_nonzero_correct[of x3]
    by (simp add: word_less_nat_alt)
  finally show ?thesis .
qed

section \<open>The dispatcher\<close>

theorem ctz_correct:
  assumes "BITS \<le> 32" "unat x < 2 ^ BITS"
  shows "ctz t BITS x = Some (trailing_zeros x)"
proof -
  have "x = 0" if "BITS = 0" using assms(2) that by (simp add: unat_eq_0)
  moreover have "x = 0 \<or> x = 1" if "BITS = 1"
    using assms(2) that by (auto simp: less_2_cases_iff word_unat_eq_iff)
  moreover have "x < 4" if "BITS \<le> 2"
    using assms(2) power_increasing[OF that, of "2::nat"] by (simp add: word_less_nat_alt)
  moreover have "x < 8" if "BITS \<le> 3"
    using assms(2) power_increasing[OF that, of "2::nat"] by (simp add: word_less_nat_alt)
  moreover have "x < 16" if "BITS \<le> 4"
    using assms(2) power_increasing[OF that, of "2::nat"] by (simp add: word_less_nat_alt)
  moreover have "x < 256" if "BITS \<le> 8"
    using assms(2) power_increasing[OF that, of "2::nat"] by (simp add: word_less_nat_alt)
  ultimately show ?thesis
    using assms ctz_array_lut_correct[of x 2] ctz_array_lut_correct[of x 3]
      ctz_array_lut_correct[of x 4] ctz2_correct[of x] ctz3_lut_correct[of x]
      ctz4_lut_correct[of x] ctz8_debruijn_correct[of x] ctz_bsearch32_correct[OF assms, of t]
      ctz_linear_correct[of x BITS] trailing_zeros_small(1)
    by (auto simp: ctz_def usize_bits_def word_less_nat_alt)
qed

end
