(* ===== verification/Prio_Bitmap.thy ===== *)
theory Prio_Bitmap
  imports Ctz
begin

unbundle bit_operations_syntax

text \<open>
  \<^verbatim>\<open>r3_kernel/src/utils/prio_bitmap.rs\<close>: the bit array with logarithmic-time scan that the
  ready queue is built on.  The trait \<^verbatim>\<open>PrioBitmap\<close> is the record of operations
  \<open>bitmap_ops\<close>; const parameters (\<^verbatim>\<open>LEN\<close>, the target) are arguments.  The type-level
  \<^verbatim>\<open>If!\<close> which picks the representation from \<^verbatim>\<open>LEN\<close> is the datatypes \<open>one_level_bitmap\<close>
  and \<open>fixed_prio_bitmap\<close> together with their initial values.  The locale \<open>prio_bitmap\<close>
  states the contract of the trait; it is interpreted on every representation.
\<close>

section \<open>The trait\<close>

record 'b bitmap_ops =
  bm_init :: 'b
  bm_get :: "'b \<Rightarrow> nat \<Rightarrow> bool option"
  bm_clear :: "'b \<Rightarrow> nat \<Rightarrow> 'b option"
  bm_set :: "'b \<Rightarrow> nat \<Rightarrow> 'b option"
  bm_find_set :: "'b \<Rightarrow> nat option option"

definition WORD_LEN :: nat where
  "WORD_LEN = usize_bits"

definition FIXED_PRIO_BITMAP_MAX_LEN :: nat where
  "FIXED_PRIO_BITMAP_MAX_LEN = WORD_LEN * WORD_LEN * WORD_LEN"

text \<open>The implementation for \<^verbatim>\<open>()\<close>: no bits; the accessors are \<^verbatim>\<open>unreachable!\<close>.\<close>

definition unit_bitmap_ops :: "unit bitmap_ops" where
  "unit_bitmap_ops = \<lparr> bm_init = (), bm_get = (\<lambda>_ _. None), bm_clear = (\<lambda>_ _. None),
     bm_set = (\<lambda>_ _. None), bm_find_set = (\<lambda>_. Some None) \<rparr>"

section \<open>One level\<close>

record 'w one_level =
  bits :: 'w

definition to_usize :: "'a::len word \<Rightarrow> usize_word option" where
  "to_usize x = (if unat x < 2 ^ usize_bits then Some (ucast x) else None)"

definition ol_get :: "nat \<Rightarrow> 'a::len word one_level \<Rightarrow> nat \<Rightarrow> bool option" where
  "ol_get LEN b i = guard (i < LEN \<and> i < LENGTH('a)) (Some (get_bit (bits b) i))"

definition ol_clear :: "nat \<Rightarrow> 'a::len word one_level \<Rightarrow> nat \<Rightarrow> 'a word one_level option" where
  "ol_clear LEN b i =
     guard (i < LEN \<and> i < LENGTH('a)) (Some (b\<lparr>bits := clear_bit (bits b) i\<rparr>))"

definition ol_set :: "nat \<Rightarrow> 'a::len word one_level \<Rightarrow> nat \<Rightarrow> 'a word one_level option" where
  "ol_set LEN b i =
     guard (i < LEN \<and> i < LENGTH('a)) (Some (b\<lparr>bits := set_bit' (bits b) i\<rparr>))"

definition ol_find_set :: "target \<Rightarrow> nat \<Rightarrow> 'a::len word one_level \<Rightarrow> nat option option" where
  "ol_find_set t LEN b =
     (if LEN \<le> usize_bits
      then (case to_usize (bits b) of None \<Rightarrow> None | Some w \<Rightarrow>
            map_option (\<lambda>i. if i = usize_bits then None else Some i) (ctz t LEN w))
      else (let i = trailing_zeros (bits b) in
            Some (if i = LENGTH('a) then None else Some i)))"

definition one_level_ops :: "target \<Rightarrow> nat \<Rightarrow> 'a::len word one_level bitmap_ops" where
  "one_level_ops t LEN = \<lparr> bm_init = \<lparr>bits = 0\<rparr>, bm_get = ol_get LEN,
     bm_clear = ol_clear LEN, bm_set = ol_set LEN, bm_find_set = ol_find_set t LEN \<rparr>"

section \<open>Two levels\<close>

record 'f two_level =
  first :: 'f
  second :: "usize_word list"

definition two_get :: "'f two_level \<Rightarrow> nat \<Rightarrow> bool option" where
  "two_get b i =
     map_option (\<lambda>grp. get_bit grp (i mod WORD_LEN)) (slice_get (second b) (i div WORD_LEN))"

definition two_clear :: "'f bitmap_ops \<Rightarrow> 'f two_level \<Rightarrow> nat \<Rightarrow> 'f two_level option" where
  "two_clear T b i =
     (case slice_get (second b) (i div WORD_LEN) of None \<Rightarrow> None | Some grp \<Rightarrow>
       let grp = clear_bit grp (i mod WORD_LEN);
           b = b\<lparr>second := (second b)[i div WORD_LEN := grp]\<rparr>
       in if grp = 0
          then map_option (\<lambda>f. b\<lparr>first := f\<rparr>) (bm_clear T (first b) (i div WORD_LEN))
          else Some b)"

definition two_set :: "'f bitmap_ops \<Rightarrow> 'f two_level \<Rightarrow> nat \<Rightarrow> 'f two_level option" where
  "two_set T b i =
     (case slice_get (second b) (i div WORD_LEN) of None \<Rightarrow> None | Some grp \<Rightarrow>
       let grp = set_bit' grp (i mod WORD_LEN);
           b = b\<lparr>second := (second b)[i div WORD_LEN := grp]\<rparr>
       in map_option (\<lambda>f. b\<lparr>first := f\<rparr>) (bm_set T (first b) (i div WORD_LEN)))"

definition two_find_set :: "'f bitmap_ops \<Rightarrow> 'f two_level \<Rightarrow> nat option option" where
  "two_find_set T b =
     (case bm_find_set T (first b) of
        None \<Rightarrow> None
      | Some None \<Rightarrow> Some None
      | Some (Some group_i) \<Rightarrow>
          (case slice_get (second b) group_i of None \<Rightarrow> None | Some grp \<Rightarrow>
            let subgroup_i = trailing_zeros grp in
            guard (subgroup_i \<noteq> WORD_LEN) (Some (Some (subgroup_i + group_i * WORD_LEN)))))"

definition two_level_ops :: "'f bitmap_ops \<Rightarrow> nat \<Rightarrow> 'f two_level bitmap_ops" where
  "two_level_ops T LEN =
     \<lparr> bm_init = \<lparr>first = bm_init T, second = replicate LEN 0\<rparr>, bm_get = two_get,
       bm_clear = two_clear T, bm_set = two_set T, bm_find_set = two_find_set T \<rparr>"

section \<open>The representation chosen for a length\<close>

datatype one_level_bitmap =
    OL_Unit unit
  | OL_U8 "8 word one_level"
  | OL_U16 "16 word one_level"
  | OL_U32 "32 word one_level"
  | OL_TooManyLevels

definition one_level_init :: "nat \<Rightarrow> one_level_bitmap" where
  "one_level_init LEN =
     (if LEN = 0 then OL_Unit ()
      else if LEN \<le> 8 \<and> LEN \<le> WORD_LEN then OL_U8 \<lparr>bits = 0\<rparr>
      else if LEN \<le> 16 \<and> LEN \<le> WORD_LEN then OL_U16 \<lparr>bits = 0\<rparr>
      else if LEN \<le> 32 \<and> LEN \<le> WORD_LEN then OL_U32 \<lparr>bits = 0\<rparr>
      else OL_TooManyLevels)"

definition one_level_bitmap_ops :: "target \<Rightarrow> nat \<Rightarrow> one_level_bitmap bitmap_ops" where
  "one_level_bitmap_ops t LEN =
     \<lparr> bm_init = one_level_init LEN,
       bm_get = (\<lambda>b i. case b of
           OL_Unit u \<Rightarrow> bm_get unit_bitmap_ops u i
         | OL_U8 x \<Rightarrow> bm_get (one_level_ops t LEN) x i
         | OL_U16 x \<Rightarrow> bm_get (one_level_ops t LEN) x i
         | OL_U32 x \<Rightarrow> bm_get (one_level_ops t LEN) x i
         | OL_TooManyLevels \<Rightarrow> None),
       bm_clear = (\<lambda>b i. case b of
           OL_Unit u \<Rightarrow> map_option OL_Unit (bm_clear unit_bitmap_ops u i)
         | OL_U8 x \<Rightarrow> map_option OL_U8 (bm_clear (one_level_ops t LEN) x i)
         | OL_U16 x \<Rightarrow> map_option OL_U16 (bm_clear (one_level_ops t LEN) x i)
         | OL_U32 x \<Rightarrow> map_option OL_U32 (bm_clear (one_level_ops t LEN) x i)
         | OL_TooManyLevels \<Rightarrow> None),
       bm_set = (\<lambda>b i. case b of
           OL_Unit u \<Rightarrow> map_option OL_Unit (bm_set unit_bitmap_ops u i)
         | OL_U8 x \<Rightarrow> map_option OL_U8 (bm_set (one_level_ops t LEN) x i)
         | OL_U16 x \<Rightarrow> map_option OL_U16 (bm_set (one_level_ops t LEN) x i)
         | OL_U32 x \<Rightarrow> map_option OL_U32 (bm_set (one_level_ops t LEN) x i)
         | OL_TooManyLevels \<Rightarrow> None),
       bm_find_set = (\<lambda>b. case b of
           OL_Unit u \<Rightarrow> bm_find_set unit_bitmap_ops u
         | OL_U8 x \<Rightarrow> bm_find_set (one_level_ops t LEN) x
         | OL_U16 x \<Rightarrow> bm_find_set (one_level_ops t LEN) x
         | OL_U32 x \<Rightarrow> bm_find_set (one_level_ops t LEN) x
         | OL_TooManyLevels \<Rightarrow> None) \<rparr>"

datatype fixed_prio_bitmap =
    FPB_One one_level_bitmap
  | FPB_Two "one_level_bitmap two_level"
  | FPB_Three "one_level_bitmap two_level two_level"
  | FPB_TooManyLevels

definition fpb_ops2 :: "target \<Rightarrow> nat \<Rightarrow> one_level_bitmap two_level bitmap_ops" where
  "fpb_ops2 t LEN =
     two_level_ops (one_level_bitmap_ops t ((LEN + WORD_LEN - 1) div WORD_LEN))
       ((LEN + WORD_LEN - 1) div WORD_LEN)"

definition fpb_ops3 :: "target \<Rightarrow> nat \<Rightarrow> one_level_bitmap two_level two_level bitmap_ops" where
  "fpb_ops3 t LEN =
     two_level_ops
       (two_level_ops
         (one_level_bitmap_ops t ((LEN + WORD_LEN * WORD_LEN - 1) div (WORD_LEN * WORD_LEN)))
         ((LEN + WORD_LEN * WORD_LEN - 1) div (WORD_LEN * WORD_LEN)))
       ((LEN + WORD_LEN - 1) div WORD_LEN)"

definition fpb_init :: "target \<Rightarrow> nat \<Rightarrow> fixed_prio_bitmap" where
  "fpb_init t LEN =
     (if LEN \<le> WORD_LEN then FPB_One (bm_init (one_level_bitmap_ops t LEN))
      else if LEN \<le> WORD_LEN * WORD_LEN then FPB_Two (bm_init (fpb_ops2 t LEN))
      else if LEN \<le> WORD_LEN * WORD_LEN * WORD_LEN then FPB_Three (bm_init (fpb_ops3 t LEN))
      else FPB_TooManyLevels)"

definition FixedPrioBitmap :: "target \<Rightarrow> nat \<Rightarrow> fixed_prio_bitmap bitmap_ops" where
  "FixedPrioBitmap t LEN =
     \<lparr> bm_init = fpb_init t LEN,
       bm_get = (\<lambda>b i. case b of
           FPB_One x \<Rightarrow> bm_get (one_level_bitmap_ops t LEN) x i
         | FPB_Two x \<Rightarrow> bm_get (fpb_ops2 t LEN) x i
         | FPB_Three x \<Rightarrow> bm_get (fpb_ops3 t LEN) x i
         | FPB_TooManyLevels \<Rightarrow> None),
       bm_clear = (\<lambda>b i. case b of
           FPB_One x \<Rightarrow> map_option FPB_One (bm_clear (one_level_bitmap_ops t LEN) x i)
         | FPB_Two x \<Rightarrow> map_option FPB_Two (bm_clear (fpb_ops2 t LEN) x i)
         | FPB_Three x \<Rightarrow> map_option FPB_Three (bm_clear (fpb_ops3 t LEN) x i)
         | FPB_TooManyLevels \<Rightarrow> None),
       bm_set = (\<lambda>b i. case b of
           FPB_One x \<Rightarrow> map_option FPB_One (bm_set (one_level_bitmap_ops t LEN) x i)
         | FPB_Two x \<Rightarrow> map_option FPB_Two (bm_set (fpb_ops2 t LEN) x i)
         | FPB_Three x \<Rightarrow> map_option FPB_Three (bm_set (fpb_ops3 t LEN) x i)
         | FPB_TooManyLevels \<Rightarrow> None),
       bm_find_set = (\<lambda>b. case b of
           FPB_One x \<Rightarrow> bm_find_set (one_level_bitmap_ops t LEN) x
         | FPB_Two x \<Rightarrow> bm_find_set (fpb_ops2 t LEN) x
         | FPB_Three x \<Rightarrow> bm_find_set (fpb_ops3 t LEN) x
         | FPB_TooManyLevels \<Rightarrow> None) \<rparr>"

section \<open>The contract\<close>

text \<open>
  A bit map is a set of positions below \<open>cap\<close>.  \<open>valid\<close> says that the type exists at all (the
  type alias yields \<^verbatim>\<open>TooManyLevels\<close>, without operations, beyond the maximum length).
\<close>

locale prio_bitmap =
  fixes ops :: "'b bitmap_ops"
    and valid :: bool
    and cap :: nat
    and isok :: "'b \<Rightarrow> bool"
    and set_of :: "'b \<Rightarrow> nat set"
  assumes init_ok: "valid \<Longrightarrow> isok (bm_init ops) \<and> set_of (bm_init ops) = {}"
    and get_ok: "isok b \<Longrightarrow> i < cap \<Longrightarrow> bm_get ops b i = Some (i \<in> set_of b)"
    and clear_ok: "isok b \<Longrightarrow> i < cap \<Longrightarrow>
      \<exists>b'. bm_clear ops b i = Some b' \<and> isok b' \<and> set_of b' = set_of b - {i}"
    and set_ok: "isok b \<Longrightarrow> i < cap \<Longrightarrow>
      \<exists>b'. bm_set ops b i = Some b' \<and> isok b' \<and> set_of b' = insert i (set_of b)"
    and find_set_ok: "isok b \<Longrightarrow>
      bm_find_set ops b = Some (if set_of b = {} then None else Some (Min (set_of b)))"
    and set_of_bounded: "isok b \<Longrightarrow> set_of b \<subseteq> {..<cap}"
begin

lemma finite_set_of: "isok b \<Longrightarrow> finite (set_of b)"
  using set_of_bounded finite_subset by blast

lemma find_set_SomeD:
  assumes "isok b" "bm_find_set ops b = Some (Some i)"
  shows "i \<in> set_of b \<and> i < cap \<and> (\<forall>j \<in> set_of b. i \<le> j)"
proof -
  have ne: "set_of b \<noteq> {}" "i = Min (set_of b)"
    using find_set_ok[OF assms(1)] assms(2) by (simp_all split: if_splits)
  note fin = finite_set_of[OF assms(1)]
  have "i \<in> set_of b" unfolding ne(2) by (rule Min_in[OF fin ne(1)])
  moreover have "\<forall>j \<in> set_of b. i \<le> j" unfolding ne(2) using fin by simp
  ultimately show ?thesis using set_of_bounded[OF assms(1)] by blast
qed

lemma find_set_NoneD: "isok b \<Longrightarrow> bm_find_set ops b = Some None \<Longrightarrow> set_of b = {}"
  using find_set_ok[of b] by (auto split: if_splits)

end

section \<open>Two levels over a bit map\<close>

definition two_bits :: "'f two_level \<Rightarrow> nat set" where
  "two_bits b = {i. i div WORD_LEN < length (second b) \<and>
     bit (second b ! (i div WORD_LEN)) (i mod WORD_LEN)}"

text \<open>The invariant of the source: \<^verbatim>\<open>first.get(i) == (second[i] != 0)\<close>.\<close>

definition two_inv :: "('f \<Rightarrow> bool) \<Rightarrow> ('f \<Rightarrow> nat set) \<Rightarrow> nat \<Rightarrow> nat \<Rightarrow> 'f two_level \<Rightarrow> bool" where
  "two_inv isok set_of cap LEN b \<longleftrightarrow>
     isok (first b) \<and> length (second b) = LEN \<and> LEN \<le> cap \<and>
     set_of (first b) = {g. g < LEN \<and> second b ! g \<noteq> 0}"

lemma WORD_LEN_eq: "WORD_LEN = 32"
  by (simp add: WORD_LEN_def usize_bits_def)

lemma div_WORD_LEN_lt: "i < WORD_LEN * LEN \<longleftrightarrow> i div WORD_LEN < LEN"
  by (simp add: div_less_iff_less_mult WORD_LEN_eq mult.commute)

lemma two_bits_update:
  assumes "i div WORD_LEN < length ws"
    and "\<And>j. bit w j = (if j = i mod WORD_LEN then p else bit (ws ! (i div WORD_LEN)) j)"
  shows "two_bits \<lparr>first = f', second = ws[i div WORD_LEN := w]\<rparr> =
    (if p then insert i (two_bits \<lparr>first = f, second = ws\<rparr>)
     else two_bits \<lparr>first = f, second = ws\<rparr> - {i})"
proof -
  have "j = i" if "j div WORD_LEN = i div WORD_LEN" "j mod WORD_LEN = i mod WORD_LEN" for j
    using that by (metis div_mult_mod_eq)
  then show ?thesis using assms by (auto simp: two_bits_def nth_list_update split: if_splits)
qed

context prio_bitmap
begin

lemma two_get_ok:
  assumes "two_inv isok set_of cap LEN b" "i < WORD_LEN * LEN"
  shows "two_get b i = Some (i \<in> two_bits b)"
  using assms by (simp add: two_get_def two_inv_def two_bits_def div_WORD_LEN_lt get_bit_eq)

lemma two_clear_ok:
  assumes isok: "two_inv isok set_of cap LEN b" and i: "i < WORD_LEN * LEN"
  shows "\<exists>b'. two_clear ops b i = Some b' \<and> two_inv isok set_of cap LEN b' \<and>
    two_bits b' = two_bits b - {i}"
proof -
  obtain f ws where b: "b = \<lparr>first = f, second = ws\<rparr>" by (cases b)
  let ?g = "i div WORD_LEN" and ?w = "clear_bit (ws ! (i div WORD_LEN)) (i mod WORD_LEN)"
  have g: "?g < length ws" "?g < LEN" "?g < cap"
    using isok i by (auto simp: two_inv_def b div_WORD_LEN_lt)
  have bits: "two_bits \<lparr>first = f', second = ws[?g := ?w]\<rparr> = two_bits b - {i}" for f'
    using two_bits_update[OF g(1), of ?w False f' f] by (simp add: bit_clear_bit b)
  show ?thesis
  proof (cases "?w = 0")
    case True
    obtain f' where f': "bm_clear ops f ?g = Some f'" "isok f'" "set_of f' = set_of f - {?g}"
      using clear_ok[of f ?g] isok g by (auto simp: two_inv_def b)
    then show ?thesis using isok g True bits[of f']
      by (auto simp: two_clear_def two_inv_def b Let_def nth_list_update)
  next
    case False
    moreover have "ws ! ?g \<noteq> 0"
    proof
      assume "ws ! ?g = 0"
      then have "?w = 0" by (simp add: clear_bit_def)
      with False show False ..
    qed
    ultimately show ?thesis using isok g bits[of f]
      by (auto simp: two_clear_def two_inv_def b Let_def nth_list_update)
  qed
qed

lemma two_set_ok:
  assumes isok: "two_inv isok set_of cap LEN b" and i: "i < WORD_LEN * LEN"
  shows "\<exists>b'. two_set ops b i = Some b' \<and> two_inv isok set_of cap LEN b' \<and>
    two_bits b' = insert i (two_bits b)"
proof -
  obtain f ws where b: "b = \<lparr>first = f, second = ws\<rparr>" by (cases b)
  let ?g = "i div WORD_LEN" and ?w = "set_bit' (ws ! (i div WORD_LEN)) (i mod WORD_LEN)"
  have g: "?g < length ws" "?g < LEN" "?g < cap"
    using isok i by (auto simp: two_inv_def b div_WORD_LEN_lt)
  have bits: "two_bits \<lparr>first = f', second = ws[?g := ?w]\<rparr> = insert i (two_bits b)" for f'
    using two_bits_update[OF g(1), of ?w True f' f] by (auto simp: bit_set_bit' b WORD_LEN_eq)
  have "bit ?w (i mod WORD_LEN)" by (simp add: bit_set_bit' WORD_LEN_eq)
  then have "?w \<noteq> 0" by auto
  moreover obtain f' where
    "bm_set ops f ?g = Some f'" "isok f'" "set_of f' = insert ?g (set_of f)"
    using set_ok[of f ?g] isok g by (auto simp: two_inv_def b)
  ultimately show ?thesis using isok g bits[of f']
    by (auto simp: two_set_def two_inv_def b Let_def nth_list_update)
qed

lemma two_find_set_ok:
  assumes isok: "two_inv isok set_of cap LEN b"
  shows "two_find_set ops b =
    Some (if two_bits b = {} then None else Some (Min (two_bits b)))"
proof (cases "set_of (first b) = {}")
  case True
  then have "two_bits b = {}" using isok by (auto simp: two_inv_def two_bits_def)
  with True show ?thesis using isok find_set_ok[of "first b"] by (simp add: two_find_set_def two_inv_def)
next
  case False
  define g where "g = Min (set_of (first b))"
  let ?w = "second b ! g"
  have fin: "finite (set_of (first b))" using finite_set_of isok by (simp add: two_inv_def)
  have "g \<in> set_of (first b)" unfolding g_def by (rule Min_in[OF fin False])
  then have g: "g < length (second b)" "?w \<noteq> 0" using isok by (auto simp: two_inv_def)
  note tz = trailing_zeros_nonzero[OF g(2)]
  let ?i = "trailing_zeros ?w + g * WORD_LEN"
  have di: "?i div WORD_LEN = g" "?i mod WORD_LEN = trailing_zeros ?w"
    using tz(1) by (simp_all add: WORD_LEN_eq div_mult_self3)
  then have mem: "?i \<in> two_bits b" using g tz(2) by (simp add: two_bits_def)
  have "?i \<le> j" if j: "j \<in> two_bits b" for j
  proof -
    have "second b ! (j div WORD_LEN) \<noteq> 0" "j div WORD_LEN < length (second b)"
      using j by (auto simp: two_bits_def)
    then have "j div WORD_LEN \<in> set_of (first b)" using isok by (simp add: two_inv_def)
    then have le: "g \<le> j div WORD_LEN" unfolding g_def using fin by simp
    show ?thesis
    proof (cases "j div WORD_LEN = g")
      case True
      then have "bit ?w (j mod WORD_LEN)" using j by (simp add: two_bits_def)
      then have "trailing_zeros ?w \<le> j mod WORD_LEN" using tz(3) not_le by blast
      moreover have "j = g * WORD_LEN + j mod WORD_LEN"
        using True div_mult_mod_eq[of j WORD_LEN] by simp
      ultimately show ?thesis by linarith
    next
      case False
      with le have "Suc g * WORD_LEN \<le> j div WORD_LEN * WORD_LEN" by (intro mult_right_mono) auto
      also have "\<dots> \<le> j" by (rule div_times_less_eq_dividend)
      finally have "g * 32 + 32 \<le> j" by (simp add: WORD_LEN_eq)
      moreover have "trailing_zeros ?w < 32" using tz(1) by simp
      ultimately show ?thesis unfolding WORD_LEN_eq by linarith
    qed
  qed
  moreover have "finite (two_bits b)"
    by (rule finite_subset[of _ "{..<WORD_LEN * length (second b)}"])
       (auto simp: two_bits_def div_WORD_LEN_lt)
  ultimately have "Min (two_bits b) = ?i" using mem by (intro Min_eqI_nat)
  moreover have "bm_find_set ops (first b) = Some (Some g)"
    using find_set_ok[of "first b"] isok False by (simp add: two_inv_def g_def)
  ultimately show ?thesis using g tz(1) mem by (auto simp: two_find_set_def WORD_LEN_eq)
qed

lemma two_level_prio_bitmap:
  "prio_bitmap (two_level_ops ops LEN) (valid \<and> LEN \<le> cap) (WORD_LEN * LEN)
     (two_inv isok set_of cap LEN) two_bits"
proof (unfold_locales, goal_cases)
  case 1
  then show ?case using init_ok
    by (auto simp: two_level_ops_def two_inv_def two_bits_def)
next
  case (2 b i)
  then show ?case using two_get_ok[OF 2] by (simp add: two_level_ops_def)
next
  case (3 b i)
  then show ?case using two_clear_ok[OF 3] by (simp add: two_level_ops_def)
next
  case (4 b i)
  then show ?case using two_set_ok[OF 4] by (simp add: two_level_ops_def)
next
  case (5 b)
  then show ?case using two_find_set_ok[OF 5] by (simp add: two_level_ops_def)
next
  case (6 b)
  then have "length (second b) = LEN" by (simp add: two_inv_def)
  then show ?case unfolding two_bits_def using div_WORD_LEN_lt by blast
qed

end

section \<open>One level meets the contract\<close>

definition ol_bits :: "'a::len word one_level \<Rightarrow> nat set" where
  "ol_bits b = {i. bit (bits b) i}"

definition ol_inv :: "nat \<Rightarrow> 'a::len word one_level \<Rightarrow> bool" where
  "ol_inv LEN b \<longleftrightarrow> LEN \<le> LENGTH('a) \<and> LEN \<le> usize_bits \<and> LENGTH('a) \<le> usize_bits \<and>
     ol_bits b \<subseteq> {..<LEN}"

lemma bits_lt_power:
  fixes x :: "'a::len word"
  assumes "\<And>i. bit x i \<Longrightarrow> i < n"
  shows "unat x < 2 ^ n"
proof -
  have "x AND mask n = x" by (rule bit_word_eqI) (use assms in \<open>auto simp: bit_and_iff\<close>)
  then have "unat x = unat x mod 2 ^ n"
    by (metis take_bit_eq_mask take_bit_eq_mod unsigned_take_bit_eq)
  then show ?thesis by (metis mod_less_divisor zero_less_numeral zero_less_power)
qed

lemma trailing_zeros_ucast:
  fixes x :: "'a::len word"
  assumes "LENGTH('a) \<le> LENGTH('b::len)" "x \<noteq> 0"
  shows "trailing_zeros (ucast x :: 'b word) = trailing_zeros x"
  using trailing_zeros_nonzero[OF assms(2)] assms(1)
  by (intro trailing_zeros_eqI) (auto simp: bit_ucast_iff)

lemma ol_find_set_ok:
  fixes b :: "'a::len word one_level"
  assumes "ol_inv LEN b"
  shows "ol_find_set t LEN b = Some (if ol_bits b = {} then None else Some (Min (ol_bits b)))"
proof -
  let ?x = "bits b"
  have len: "LEN \<le> 32" "LENGTH('a) \<le> 32" using assms by (simp_all add: ol_inv_def usize_bits_def)
  have "bit ?x i \<Longrightarrow> i < LEN" for i using assms by (auto simp: ol_inv_def ol_bits_def)
  then have lt: "unat ?x < 2 ^ LEN" by (rule bits_lt_power)
  then have lt32: "unat ?x < 2 ^ 32" using len(1) by (rule unat_lt_weaken)
  then have u: "to_usize ?x = Some (ucast ?x)" by (simp add: to_usize_def usize_bits_def)
  have "unat (ucast ?x :: usize_word) = unat ?x"
    using lt32 by (simp add: unsigned_ucast_eq take_bit_nat_eq_self)
  then have c: "ctz t LEN (ucast ?x) = Some (trailing_zeros (ucast ?x :: usize_word))"
    using lt by (intro ctz_correct len) simp
  show ?thesis
  proof (cases "?x = 0")
    case True
    then show ?thesis using c u len by (simp add: ol_find_set_def ol_bits_def usize_bits_def)
  next
    case False
    then have ne: "ol_bits b \<noteq> {}" using trailing_zeros_nonzero(2) by (auto simp: ol_bits_def)
    have "trailing_zeros (ucast ?x :: usize_word) = trailing_zeros ?x"
      using False len by (intro trailing_zeros_ucast) auto
    moreover have "trailing_zeros ?x = Min (ol_bits b)"
      using trailing_zeros_Min[OF False] by (simp add: ol_bits_def)
    moreover have "trailing_zeros ?x < 32"
      using trailing_zeros_nonzero(1)[OF False] len(2) by simp
    ultimately show ?thesis using c u len ne by (simp add: ol_find_set_def usize_bits_def)
  qed
qed

interpretation ol: prio_bitmap "one_level_ops t LEN :: ('a::len) word one_level bitmap_ops"
  "LEN \<le> LENGTH('a) \<and> LEN \<le> usize_bits \<and> LENGTH('a) \<le> usize_bits" LEN "ol_inv LEN" ol_bits
  for t LEN
proof (unfold_locales, goal_cases)
  case 1
  then show ?case by (auto simp: one_level_ops_def ol_inv_def ol_bits_def)
next
  case (2 b i)
  then show ?case
    by (auto simp: one_level_ops_def ol_get_def ol_inv_def ol_bits_def get_bit_eq)
next
  case (3 b i)
  then show ?case
    by (auto simp: one_level_ops_def ol_clear_def ol_inv_def ol_bits_def bit_clear_bit)
next
  case (4 b i)
  then show ?case
    by (auto simp: one_level_ops_def ol_set_def ol_inv_def ol_bits_def bit_set_bit')
next
  case (5 b)
  then show ?case using ol_find_set_ok[OF 5, of t] by (simp add: one_level_ops_def)
next
  case (6 b)
  then show ?case by (simp add: ol_inv_def)
qed

section \<open>The representations meet the contract\<close>

definition olb_bits :: "one_level_bitmap \<Rightarrow> nat set" where
  "olb_bits b = (case b of OL_Unit _ \<Rightarrow> {} | OL_U8 x \<Rightarrow> ol_bits x | OL_U16 x \<Rightarrow> ol_bits x
     | OL_U32 x \<Rightarrow> ol_bits x | OL_TooManyLevels \<Rightarrow> {})"

definition olb_inv :: "nat \<Rightarrow> one_level_bitmap \<Rightarrow> bool" where
  "olb_inv LEN b = (case b of OL_Unit _ \<Rightarrow> LEN = 0 | OL_U8 x \<Rightarrow> ol_inv LEN x
     | OL_U16 x \<Rightarrow> ol_inv LEN x | OL_U32 x \<Rightarrow> ol_inv LEN x | OL_TooManyLevels \<Rightarrow> False)"

lemma ol_init: "LEN \<le> LENGTH('a) \<Longrightarrow> LEN \<le> 32 \<Longrightarrow> LENGTH('a) \<le> 32 \<Longrightarrow>
   ol_inv LEN (\<lparr>bits = 0\<rparr> :: 'a::len word one_level) \<and> ol_bits (\<lparr>bits = 0\<rparr> :: 'a word one_level) = {}"
  by (simp add: ol_inv_def ol_bits_def usize_bits_def)

interpretation olb: prio_bitmap "one_level_bitmap_ops t LEN" "LEN \<le> WORD_LEN" LEN
  "olb_inv LEN" olb_bits
  for t LEN
proof (unfold_locales, goal_cases)
  case 1
  then show ?case
    by (simp add: one_level_bitmap_ops_def one_level_init_def WORD_LEN_eq olb_inv_def olb_bits_def ol_init)
next
  case (2 b i)
  then show ?case
    by (cases b) (auto simp: one_level_bitmap_ops_def olb_inv_def olb_bits_def ol.get_ok)
next
  case (3 b i)
  then show ?case
    using ol.clear_ok[of LEN _ i t, where ?'a = 8] ol.clear_ok[of LEN _ i t, where ?'a = 16]
      ol.clear_ok[of LEN _ i t, where ?'a = 32]
    by (cases b) (fastforce simp: one_level_bitmap_ops_def olb_inv_def olb_bits_def)+
next
  case (4 b i)
  then show ?case
    using ol.set_ok[of LEN _ i t, where ?'a = 8] ol.set_ok[of LEN _ i t, where ?'a = 16]
      ol.set_ok[of LEN _ i t, where ?'a = 32]
    by (cases b) (fastforce simp: one_level_bitmap_ops_def olb_inv_def olb_bits_def)+
next
  case (5 b)
  then show ?case
    by (cases b)
       (simp_all add: one_level_bitmap_ops_def olb_inv_def olb_bits_def ol.find_set_ok unit_bitmap_ops_def)
next
  case (6 b)
  then show ?case
    by (cases b) (auto simp: olb_inv_def olb_bits_def dest: ol.set_of_bounded[THEN subsetD])
qed

text \<open>Numbers of words.\<close>

definition groups1 :: "nat \<Rightarrow> nat" where
  "groups1 LEN = (LEN + WORD_LEN - 1) div WORD_LEN"

definition groups2 :: "nat \<Rightarrow> nat" where
  "groups2 LEN = (LEN + WORD_LEN * WORD_LEN - 1) div (WORD_LEN * WORD_LEN)"

lemma groups_bounds:
  "LEN \<le> WORD_LEN * groups1 LEN" "groups1 LEN \<le> WORD_LEN * groups2 LEN"
  "LEN \<le> WORD_LEN * WORD_LEN \<Longrightarrow> groups1 LEN \<le> WORD_LEN"
  "LEN \<le> WORD_LEN * WORD_LEN * WORD_LEN \<Longrightarrow> groups2 LEN \<le> WORD_LEN"
proof -
  have up: "n \<le> 32 * ((n + 31) div 32)" for n :: nat by presburger
  show "LEN \<le> WORD_LEN * groups1 LEN" using up[of LEN] by (simp add: groups1_def WORD_LEN_eq)
  have "LEN + 1023 = (LEN + 31) + 31 * 32" by simp
  then have "(LEN + 1023) div 32 = (LEN + 31) div 32 + 31" by (metis div_mult_self1 zero_neq_numeral add.commute)
  then have "(LEN + 1023) div (32 * 32) = ((LEN + 31) div 32 + 31) div 32"
    by (simp only: div_mult2_eq)
  then show "groups1 LEN \<le> WORD_LEN * groups2 LEN"
    using up[of "(LEN + 31) div 32"] by (simp add: groups1_def groups2_def WORD_LEN_eq)
  show "groups1 LEN \<le> WORD_LEN" if "LEN \<le> WORD_LEN * WORD_LEN"
    using that div_le_mono[of "LEN + 31" "1024 + 31" 32] by (simp add: groups1_def WORD_LEN_eq)
  show "groups2 LEN \<le> WORD_LEN" if "LEN \<le> WORD_LEN * WORD_LEN * WORD_LEN"
    using that div_le_mono[of "LEN + 1023" "32768 + 1023" 1024] by (simp add: groups2_def WORD_LEN_eq)
qed

definition fpb2_inv :: "nat \<Rightarrow> one_level_bitmap two_level \<Rightarrow> bool" where
  "fpb2_inv LEN = two_inv (olb_inv (groups1 LEN)) olb_bits (groups1 LEN) (groups1 LEN)"

definition fpb3_inv :: "nat \<Rightarrow> one_level_bitmap two_level two_level \<Rightarrow> bool" where
  "fpb3_inv LEN =
     two_inv (two_inv (olb_inv (groups2 LEN)) olb_bits (groups2 LEN) (groups2 LEN)) two_bits
       (WORD_LEN * groups2 LEN) (groups1 LEN)"

interpretation fpb2: prio_bitmap "fpb_ops2 t LEN" "groups1 LEN \<le> WORD_LEN \<and> groups1 LEN \<le> groups1 LEN"
  "WORD_LEN * groups1 LEN" "fpb2_inv LEN" two_bits
  for t LEN
  unfolding fpb_ops2_def fpb2_inv_def groups1_def[symmetric] by (rule olb.two_level_prio_bitmap)

interpretation fpb3: prio_bitmap "fpb_ops3 t LEN"
  "(groups2 LEN \<le> WORD_LEN \<and> groups2 LEN \<le> groups2 LEN) \<and> groups1 LEN \<le> WORD_LEN * groups2 LEN"
  "WORD_LEN * groups1 LEN" "fpb3_inv LEN" two_bits
  for t LEN
  unfolding fpb_ops3_def fpb3_inv_def groups1_def[symmetric] groups2_def[symmetric]
  by (rule prio_bitmap.two_level_prio_bitmap[OF olb.two_level_prio_bitmap])

definition fpb_bits :: "fixed_prio_bitmap \<Rightarrow> nat set" where
  "fpb_bits b = (case b of FPB_One x \<Rightarrow> olb_bits x | FPB_Two x \<Rightarrow> two_bits x
     | FPB_Three x \<Rightarrow> two_bits x | FPB_TooManyLevels \<Rightarrow> {})"

definition fpb_inv :: "nat \<Rightarrow> fixed_prio_bitmap \<Rightarrow> bool" where
  "fpb_inv LEN b \<longleftrightarrow> fpb_bits b \<subseteq> {..<LEN} \<and>
     (case b of FPB_One x \<Rightarrow> olb_inv LEN x | FPB_Two x \<Rightarrow> fpb2_inv LEN x
      | FPB_Three x \<Rightarrow> fpb3_inv LEN x | FPB_TooManyLevels \<Rightarrow> False)"

interpretation fpb: prio_bitmap "FixedPrioBitmap t LEN" "LEN \<le> FIXED_PRIO_BITMAP_MAX_LEN" LEN
  "fpb_inv LEN" fpb_bits
  for t LEN
proof (unfold_locales, goal_cases)
  case 1
  then show ?case
    using olb.init_ok[of LEN t] fpb2.init_ok[of LEN t] fpb3.init_ok[of LEN t] groups_bounds[of LEN]
    by (simp add: FixedPrioBitmap_def fpb_init_def FIXED_PRIO_BITMAP_MAX_LEN_def fpb_inv_def fpb_bits_def)
next
  case (2 b i)
  then have "i < WORD_LEN * groups1 LEN" using groups_bounds(1)[of LEN] by linarith
  with 2 show ?case
    by (cases b)
       (simp_all add: FixedPrioBitmap_def fpb_inv_def fpb_bits_def olb.get_ok fpb2.get_ok fpb3.get_ok)
next
  case (3 b i)
  then have "i < WORD_LEN * groups1 LEN" using groups_bounds(1)[of LEN] by linarith
  with 3 show ?case
    using olb.clear_ok[of LEN _ i t] fpb2.clear_ok[of LEN _ i t] fpb3.clear_ok[of LEN _ i t]
    by (cases b) (fastforce simp: FixedPrioBitmap_def fpb_inv_def fpb_bits_def)+
next
  case (4 b i)
  then have "i < WORD_LEN * groups1 LEN" using groups_bounds(1)[of LEN] by linarith
  with 4 show ?case
    using olb.set_ok[of LEN _ i t] fpb2.set_ok[of LEN _ i t] fpb3.set_ok[of LEN _ i t]
    by (cases b) (fastforce simp: FixedPrioBitmap_def fpb_inv_def fpb_bits_def)+
next
  case (5 b)
  then show ?case
    by (cases b) (simp_all add: FixedPrioBitmap_def fpb_inv_def fpb_bits_def olb.find_set_ok
        fpb2.find_set_ok fpb3.find_set_ok)
next
  case (6 b)
  then show ?case by (simp add: fpb_inv_def)
qed

end
