(* ===== verification/Ready_Queue.thy ===== *)
theory Ready_Queue
  imports Prio_Bitmap
begin

text \<open>
  \<^verbatim>\<open>r3_kernel/src/task/readyqueue.rs\<close>: the task ready queue.  A task is its number; the
  intrusive per-priority lists are lists of tasks (the pointer structure is the subject of the
  theory \<^verbatim>\<open>Intrusive_List\<close>).  \<^verbatim>\<open>unwrap_unchecked\<close> on a value which is not there is undefined
  behaviour in the source and, like a panic, the value \<open>None\<close> here.

  The locale \<open>ready_queue\<close> states the contract of the trait \<^verbatim>\<open>Queue\<close> over the per-priority
  lists and derives the specification in its documentation, the four abstract steps of
  \<^verbatim>\<open>pop_front_task\<close> on a queue sorted by priority.
\<close>

section \<open>The bit map queue\<close>

datatype schedule_decision = Keep | SwitchTo "nat option"

record 'b bitmap_queue =
  queues :: "nat list list"
  bitmap :: 'b

definition bq_init :: "'b bitmap_ops \<Rightarrow> nat \<Rightarrow> 'b bitmap_queue" where
  "bq_init B LEN = \<lparr> queues = replicate LEN [], bitmap = bm_init B \<rparr>"

text \<open>\<^verbatim>\<open>has_ready_task_in_priority_range(..range_end)\<close>\<close>

definition has_ready_task_in_priority_range ::
  "'b bitmap_ops \<Rightarrow> 'b bitmap_queue \<Rightarrow> nat \<Rightarrow> bool option" where
  "has_ready_task_in_priority_range B q range_end =
     (case bm_find_set B (bitmap q) of None \<Rightarrow> None | Some p \<Rightarrow>
        let highest_task_priority = (case p of None \<Rightarrow> usize_max | Some p \<Rightarrow> p)
        in Some (highest_task_priority < range_end))"

text \<open>
  \<open>push_back_task B q task pri\<close>: \<open>pri\<close> is the effective priority read from the task.  A task
  that is already linked (to any of the queues) is undefined behaviour.
\<close>

definition push_back_task ::
  "'b bitmap_ops \<Rightarrow> 'b bitmap_queue \<Rightarrow> nat \<Rightarrow> nat \<Rightarrow> 'b bitmap_queue option" where
  "push_back_task B q task pri =
     (case slice_get (queues q) pri of None \<Rightarrow> None | Some l \<Rightarrow>
        guard (\<forall>l' \<in> set (queues q). task \<notin> set l')
          (map_option (\<lambda>b. q\<lparr>queues := (queues q)[pri := l @ [task]], bitmap := b\<rparr>)
            (bm_set B (bitmap q) pri)))"

definition pop_front_task ::
  "'b bitmap_ops \<Rightarrow> nat \<Rightarrow> 'b bitmap_queue \<Rightarrow> nat \<Rightarrow> (schedule_decision \<times> 'b bitmap_queue) option" where
  "pop_front_task B LEN q prev_task_priority =
     (case bm_find_set B (bitmap q) of None \<Rightarrow> None | Some p \<Rightarrow>
        let next_task_priority = (case p of None \<Rightarrow> usize_max - 1 | Some p \<Rightarrow> p)
        in if prev_task_priority \<le> next_task_priority then Some (Keep, q)
           else if next_task_priority < LEN then
             (case slice_get (queues q) next_task_priority of
                Some (task # l) \<Rightarrow>
                  let q = q\<lparr>queues := (queues q)[next_task_priority := l]\<rparr>
                  in if l = []
                     then map_option (\<lambda>b. (SwitchTo (Some task), q\<lparr>bitmap := b\<rparr>))
                            (bm_clear B (bitmap q) next_task_priority)
                     else Some (SwitchTo (Some task), q)
              | _ \<Rightarrow> None)
           else Some (SwitchTo None, q))"

definition reorder_task ::
  "'b bitmap_ops \<Rightarrow> 'b bitmap_queue \<Rightarrow> nat \<Rightarrow> nat \<Rightarrow> nat \<Rightarrow> 'b bitmap_queue option" where
  "reorder_task B q task effective_priority old_effective_priority =
     guard (effective_priority \<noteq> old_effective_priority)
      (case slice_get (queues q) old_effective_priority of None \<Rightarrow> None | Some l \<Rightarrow>
        guard (task \<in> set l)
         (let l = remove1 task l;
              old_pri_empty = (l = []);
              q = q\<lparr>queues := (queues q)[old_effective_priority := l]\<rparr>
          in case slice_get (queues q) effective_priority of None \<Rightarrow> None | Some l' \<Rightarrow>
               guard (\<forall>l'' \<in> set (queues q). task \<notin> set l'')
                (let q = q\<lparr>queues := (queues q)[effective_priority := l' @ [task]]\<rparr>
                 in case bm_set B (bitmap q) effective_priority of None \<Rightarrow> None | Some b \<Rightarrow>
                      if old_pri_empty
                      then map_option (\<lambda>b. q\<lparr>bitmap := b\<rparr>) (bm_clear B b old_effective_priority)
                      else Some (q\<lparr>bitmap := b\<rparr>))))"

section \<open>The contract of the trait\<close>

text \<open>\<open>q_of q p\<close> is the list of the ready tasks of priority \<open>p\<close>.\<close>

locale ready_queue =
  fixes init :: 'q
    and has_ready :: "'q \<Rightarrow> nat \<Rightarrow> bool option"
    and push_back :: "'q \<Rightarrow> nat \<Rightarrow> nat \<Rightarrow> 'q option"
    and pop_front :: "'q \<Rightarrow> nat \<Rightarrow> (schedule_decision \<times> 'q) option"
    and reorder :: "'q \<Rightarrow> nat \<Rightarrow> nat \<Rightarrow> nat \<Rightarrow> 'q option"
    and valid :: bool
    and LEN :: nat
    and inv :: "'q \<Rightarrow> bool"
    and q_of :: "'q \<Rightarrow> nat \<Rightarrow> nat list"
  assumes init_ok: "valid \<Longrightarrow> inv init \<and> q_of init p = []"
    and LEN_bound: "valid \<Longrightarrow> LEN < usize_max - 1"
    and bounded: "inv q \<Longrightarrow> LEN \<le> p \<Longrightarrow> q_of q p = []"
    and has_ready_ok: "valid \<Longrightarrow> inv q \<Longrightarrow> e \<le> usize_max \<Longrightarrow>
      has_ready q e = Some (\<exists>p<e. q_of q p \<noteq> [])"
    and push_back_ok: "inv q \<Longrightarrow> p < LEN \<Longrightarrow> \<forall>p'. t \<notin> set (q_of q p') \<Longrightarrow>
      \<exists>q'. push_back q t p = Some q' \<and> inv q' \<and> q_of q' = (q_of q)(p := q_of q p @ [t])"
    and pop_front_keep: "valid \<Longrightarrow> inv q \<Longrightarrow> prev < usize_max \<Longrightarrow> \<forall>p<prev. q_of q p = [] \<Longrightarrow>
      pop_front q prev = Some (Keep, q)"
    and pop_front_none: "valid \<Longrightarrow> inv q \<Longrightarrow> \<forall>p. q_of q p = [] \<Longrightarrow>
      pop_front q usize_max = Some (SwitchTo None, q)"
    and pop_front_some: "valid \<Longrightarrow> inv q \<Longrightarrow> prev \<le> usize_max \<Longrightarrow> p < prev \<Longrightarrow>
      q_of q p = t # l \<Longrightarrow> \<forall>p'<p. q_of q p' = [] \<Longrightarrow>
      \<exists>q'. pop_front q prev = Some (SwitchTo (Some t), q') \<and> inv q' \<and> q_of q' = (q_of q)(p := l)"
    and reorder_ok: "inv q \<Longrightarrow> p < LEN \<Longrightarrow> p \<noteq> p_old \<Longrightarrow> t \<in> set (q_of q p_old) \<Longrightarrow>
      distinct (q_of q p_old) \<Longrightarrow> \<forall>p'. p' \<noteq> p_old \<longrightarrow> t \<notin> set (q_of q p') \<Longrightarrow>
      \<exists>q'. reorder q t p p_old = Some q' \<and> inv q' \<and>
        q_of q' = (q_of q)(p_old := remove1 t (q_of q p_old), p := q_of q p @ [t])"

section \<open>The documented specification\<close>

text \<open>A queue sorted by priority, each element with its priority.\<close>

definition sorted_view :: "nat \<Rightarrow> (nat \<Rightarrow> nat list) \<Rightarrow> (nat \<times> nat) list" where
  "sorted_view LEN f = concat (map (\<lambda>p. map (Pair p) (f p)) [0..<LEN])"

text \<open>\<open>x\<close> inserted as close to the back (front) as possible.\<close>

definition insert_back :: "nat \<Rightarrow> 'x \<Rightarrow> (nat \<times> 'x) list \<Rightarrow> (nat \<times> 'x) list" where
  "insert_back p x q = takeWhile (\<lambda>e. fst e \<le> p) q @ [(p, x)] @ dropWhile (\<lambda>e. fst e \<le> p) q"

definition insert_front :: "nat \<Rightarrow> 'x \<Rightarrow> (nat \<times> 'x) list \<Rightarrow> (nat \<times> 'x) list" where
  "insert_front p x q = takeWhile (\<lambda>e. fst e < p) q @ [(p, x)] @ dropWhile (\<lambda>e. fst e < p) q"

text \<open>The abstract steps 1 to 4; \<open>None\<close> is the imaginary task.\<close>

definition pop_front_spec :: "(nat \<times> nat) list \<Rightarrow> nat \<Rightarrow> schedule_decision \<times> (nat \<times> nat) list" where
  "pop_front_spec q prev_task_priority =
     (let q1 = map (map_prod id Some) q;
          q1 = (if prev_task_priority \<noteq> usize_max then insert_front prev_task_priority None q1 else q1)
      in case q1 of
           [] \<Rightarrow> (SwitchTo None, q)
         | (_, None) # _ \<Rightarrow> (Keep, q)
         | (_, Some t) # _ \<Rightarrow> (SwitchTo (Some t), tl q))"

lemma sorted_view_split:
  "p < LEN \<Longrightarrow> sorted_view LEN f =
     sorted_view p f @ map (Pair p) (f p) @
     concat (map (\<lambda>p. map (Pair p) (f p)) [Suc p..<LEN])"
proof -
  assume "p < LEN"
  then have "[0..<LEN] = [0..<p] @ p # [Suc p..<LEN]"
    using upt_add_eq_append[of 0 p "LEN - p"] upt_conv_Cons[of p LEN] by simp
  then show ?thesis by (simp add: sorted_view_def)
qed

lemma takeWhile_all_False: "\<forall>x\<in>set xs. \<not> P x \<Longrightarrow> takeWhile P xs = []"
  by (cases xs) auto

lemma dropWhile_all_False: "\<forall>x\<in>set xs. \<not> P x \<Longrightarrow> dropWhile P xs = xs"
  by (cases xs) auto

lemma insert_back_append:
  "\<forall>e\<in>set lo. fst e \<le> p \<Longrightarrow> \<forall>e\<in>set hi. \<not> fst e \<le> p \<Longrightarrow>
   insert_back p x (lo @ hi) = lo @ [(p, x)] @ hi"
  by (simp add: insert_back_def takeWhile_all_False dropWhile_all_False)

lemma sorted_view_empty: "\<forall>p<LEN. f p = [] \<Longrightarrow> sorted_view LEN f = []"
  by (simp add: sorted_view_def)

lemma sorted_view_fst: "(p, t) \<in> set (sorted_view LEN f) \<Longrightarrow> p < LEN"
  by (auto simp: sorted_view_def)

lemma sorted_view_cong: "(\<And>p. p < LEN \<Longrightarrow> f p = g p) \<Longrightarrow> sorted_view LEN f = sorted_view LEN g"
  unfolding sorted_view_def by (intro arg_cong[where f = concat] map_cong) auto

context ready_queue
begin

lemma push_back_spec:
  assumes "inv q" "p < LEN" "\<forall>p'. t \<notin> set (q_of q p')"
  shows "\<exists>q'. push_back q t p = Some q' \<and> inv q' \<and>
    sorted_view LEN (q_of q') = insert_back p t (sorted_view LEN (q_of q))"
proof -
  obtain q' where q': "push_back q t p = Some q'" "inv q'"
    "q_of q' = (q_of q)(p := q_of q p @ [t])"
    using push_back_ok[OF assms] by blast
  let ?hi = "concat (map (\<lambda>p. map (Pair p) (q_of q p)) [Suc p..<LEN])"
  let ?lo = "sorted_view p (q_of q) @ map (Pair p) (q_of q p)"
  have lo: "\<forall>e\<in>set ?lo. fst e \<le> p" using sorted_view_fst by fastforce
  have hi: "\<forall>e\<in>set ?hi. \<not> fst e \<le> p" by auto
  have "insert_back p t (sorted_view LEN (q_of q)) = ?lo @ [(p, t)] @ ?hi"
    using insert_back_append[OF lo hi] sorted_view_split[OF assms(2)] by simp
  moreover have "sorted_view LEN (q_of q') = ?lo @ [(p, t)] @ ?hi"
  proof -
    have "sorted_view p (q_of q') = sorted_view p (q_of q)"
      by (rule sorted_view_cong) (simp add: q')
    moreover have "concat (map (\<lambda>p. map (Pair p) (q_of q' p)) [Suc p..<LEN]) = ?hi"
      by (intro arg_cong[where f = concat] map_cong) (auto simp: q')
    moreover have "q_of q' p = q_of q p @ [t]" by (simp add: q')
    ultimately show ?thesis using sorted_view_split[OF assms(2), of "q_of q'"] by simp
  qed
  ultimately show ?thesis using q' by auto
qed

lemma view_cases:
  assumes "inv q"
  obtains (empty) "\<forall>p. q_of q p = []" "sorted_view LEN (q_of q) = []"
  | (task) p t l where "p < LEN" "q_of q p = t # l" "\<forall>p'<p. q_of q p' = []"
      "sorted_view LEN (q_of q) = (p, t) # tl (sorted_view LEN (q_of q))"
      "tl (sorted_view LEN (q_of q)) = sorted_view LEN ((q_of q)(p := l))"
proof (cases "\<exists>p. q_of q p \<noteq> []")
  case False
  then show ?thesis using empty by (simp add: sorted_view_empty)
next
  case True
  define p where "p = (LEAST p. q_of q p \<noteq> [])"
  have ne: "q_of q p \<noteq> []" unfolding p_def using True by (rule LeastI_ex)
  have lo: "\<forall>p'<p. q_of q p' = []" unfolding p_def using not_less_Least by blast
  obtain t l where tl: "q_of q p = t # l" using ne by (cases "q_of q p") auto
  have lt: "p < LEN" using bounded[OF assms] ne not_le by blast
  let ?f' = "(q_of q)(p := l)"
  let ?hi = "\<lambda>f. concat (map (\<lambda>p. map (Pair p) (f p)) [Suc p..<LEN])"
  have hi: "?hi ?f' = ?hi (q_of q)"
    by (intro arg_cong[where f = concat] map_cong) auto
  have "sorted_view p (q_of q) = []" "sorted_view p ?f' = []"
    using lo by (simp_all add: sorted_view_empty)
  then have "sorted_view LEN (q_of q) = (p, t) # sorted_view LEN ?f'"
    using sorted_view_split[OF lt, of "q_of q"] sorted_view_split[OF lt, of ?f', unfolded hi] tl by simp
  then show ?thesis using task[OF lt tl lo] by simp
qed

lemma pop_front_spec:
  assumes "valid" "inv q" "prev \<le> usize_max"
  shows "\<exists>d q'. pop_front q prev = Some (d, q') \<and> inv q' \<and>
    (d, sorted_view LEN (q_of q')) = pop_front_spec (sorted_view LEN (q_of q)) prev"
  using assms(2)
proof (cases rule: view_cases)
  case empty
  then show ?thesis
    using pop_front_keep[OF assms(1,2), of prev] pop_front_none[OF assms(1,2)] assms(2,3)
    by (cases "prev = usize_max") (simp_all add: pop_front_spec_def insert_front_def)
next
  case (task p t l)
  let ?v = "sorted_view LEN (q_of q)"
  show ?thesis
  proof (cases "p < prev")
    case True
    obtain q' where q': "pop_front q prev = Some (SwitchTo (Some t), q')" "inv q'"
      "q_of q' = (q_of q)(p := l)"
      using pop_front_some[OF assms True task(2,3)] by blast
    have "pop_front_spec ((p, t) # v) prev = (SwitchTo (Some t), v)" for v
      using True by (simp add: pop_front_spec_def insert_front_def Let_def)
    then have "pop_front_spec ?v prev = (SwitchTo (Some t), tl ?v)" using task(4) by metis
    then show ?thesis using q' task(5) by simp
  next
    case False
    then have lt: "prev < usize_max" using LEN_bound[OF assms(1)] task(1) by linarith
    have "pop_front_spec ((p, t) # v) prev = (Keep, (p, t) # v)" for v
      using False lt by (simp add: pop_front_spec_def insert_front_def Let_def)
    then have "pop_front_spec ?v prev = (Keep, ?v)" using task(4) by metis
    moreover have "pop_front q prev = Some (Keep, q)"
      using pop_front_keep[OF assms(1,2) lt] task(3) False by simp
    ultimately show ?thesis using assms(2) by simp
  qed
qed

end

section \<open>The bit map queue meets the contract\<close>

definition bq_of :: "'b bitmap_queue \<Rightarrow> nat \<Rightarrow> nat list" where
  "bq_of q p = (if p < length (queues q) then queues q ! p else [])"

text \<open>The invariant of the source: \<^verbatim>\<open>queues[i].first.is_some() == bitmap.get(i)\<close>.\<close>

definition bq_inv :: "('b \<Rightarrow> bool) \<Rightarrow> ('b \<Rightarrow> nat set) \<Rightarrow> nat \<Rightarrow> nat \<Rightarrow> 'b bitmap_queue \<Rightarrow> bool" where
  "bq_inv isok set_of cap LEN q \<longleftrightarrow>
     isok (bitmap q) \<and> length (queues q) = LEN \<and> LEN \<le> cap \<and>
     set_of (bitmap q) = {p. p < LEN \<and> queues q ! p \<noteq> []}"

context prio_bitmap
begin

lemma bq_find_set:
  assumes q: "bq_inv isok set_of cap LEN q"
  shows "bm_find_set ops (bitmap q) = Some None \<and> (\<forall>p. bq_of q p = []) \<or>
    (\<exists>p. bm_find_set ops (bitmap q) = Some (Some p) \<and> p < LEN \<and> bq_of q p \<noteq> [] \<and>
      (\<forall>p'<p. bq_of q p' = []))"
proof (cases "set_of (bitmap q) = {}")
  case True
  then show ?thesis using q find_set_ok[of "bitmap q"] by (auto simp: bq_inv_def bq_of_def)
next
  case False
  then obtain p where p: "bm_find_set ops (bitmap q) = Some (Some p)"
    using q find_set_ok[of "bitmap q"] by (auto simp: bq_inv_def)
  then have "p \<in> set_of (bitmap q)" "\<forall>j \<in> set_of (bitmap q). p \<le> j"
    using find_set_SomeD[of "bitmap q" p] q by (auto simp: bq_inv_def)
  moreover have S: "set_of (bitmap q) = {p. p < LEN \<and> bq_of q p \<noteq> []}" "length (queues q) = LEN"
    using q by (auto simp: bq_inv_def bq_of_def)
  ultimately have "p < LEN" "bq_of q p \<noteq> []" and le: "\<And>j. j < LEN \<Longrightarrow> bq_of q j \<noteq> [] \<Longrightarrow> p \<le> j"
    by simp_all
  moreover have "bq_of q j = []" if "j < p" for j
    using le[of j] that \<open>p < LEN\<close> by (meson not_le order.strict_trans)
  ultimately show ?thesis using p by blast
qed

lemma bq_has_ready:
  assumes "bq_inv isok set_of cap LEN q" "LEN < usize_max - 1" "e \<le> usize_max"
  shows "has_ready_task_in_priority_range ops q e = Some (\<exists>p<e. bq_of q p \<noteq> [])"
  using bq_find_set[OF assms(1)]
proof (elim disjE exE conjE)
  assume "bm_find_set ops (bitmap q) = Some None" "\<forall>p. bq_of q p = []"
  then show ?thesis using assms(3) by (simp add: has_ready_task_in_priority_range_def)
next
  fix p assume "bm_find_set ops (bitmap q) = Some (Some p)"
    and p: "bq_of q p \<noteq> []" "\<forall>p'<p. bq_of q p' = []"
  moreover have "p < e \<longleftrightarrow> (\<exists>p<e. bq_of q p \<noteq> [])" using p by (meson not_le order.strict_trans2)
  ultimately show ?thesis by (simp add: has_ready_task_in_priority_range_def)
qed

lemma bq_of_update:
  "p < length (queues q) \<Longrightarrow> bq_of (q\<lparr>queues := (queues q)[p := l]\<rparr>) = (bq_of q)(p := l)"
  by (auto simp: bq_of_def fun_eq_iff nth_list_update)

lemma bq_of_bitmap [simp]: "bq_of (q\<lparr>bitmap := b\<rparr>) = bq_of q"
  by (simp add: bq_of_def fun_eq_iff)

lemma bq_inv_update:
  assumes "bq_inv isok set_of cap LEN q" "p < LEN" "isok b"
    and "set_of b = (if l = [] then set_of (bitmap q) - {p} else insert p (set_of (bitmap q)))"
  shows "bq_inv isok set_of cap LEN (q\<lparr>queues := (queues q)[p := l], bitmap := b\<rparr>)"
proof -
  have S: "set_of (bitmap q) = {p. p < LEN \<and> queues q ! p \<noteq> []}" and len: "length (queues q) = LEN"
    using assms(1) by (simp_all add: bq_inv_def)
  have "set_of b = {i. i < LEN \<and> (queues q)[p := l] ! i \<noteq> []}"
    unfolding assms(4) S using assms(2) len by (auto simp: nth_list_update)
  then show ?thesis using assms len by (simp add: bq_inv_def)
qed

lemma bq_not_linked:
  "\<forall>p'. t \<notin> set (bq_of q p') \<Longrightarrow> \<forall>l \<in> set (queues q). t \<notin> set l"
  unfolding bq_of_def by (metis in_set_conv_nth)

lemma bq_push_back:
  assumes q: "bq_inv isok set_of cap LEN q" and p: "p < LEN" and t: "\<forall>p'. t \<notin> set (bq_of q p')"
  shows "\<exists>q'. push_back_task ops q t p = Some q' \<and> bq_inv isok set_of cap LEN q' \<and>
    bq_of q' = (bq_of q)(p := bq_of q p @ [t])"
proof -
  let ?q = "q\<lparr>queues := (queues q)[p := queues q ! p @ [t]]\<rparr>"
  have len: "p < length (queues q)" "p < cap" using q p by (auto simp: bq_inv_def)
  obtain b where b: "bm_set ops (bitmap q) p = Some b" "isok b"
    "set_of b = insert p (set_of (bitmap q))"
    using set_ok[of "bitmap q" p] q len by (auto simp: bq_inv_def)
  have "push_back_task ops q t p = Some (?q\<lparr>bitmap := b\<rparr>)"
    using len b(1) bq_not_linked[OF t] by (simp add: push_back_task_def)
  moreover have "bq_inv isok set_of cap LEN (?q\<lparr>bitmap := b\<rparr>)"
    using bq_inv_update[OF q p b(2), of "queues q ! p @ [t]"] b(3) by simp
  moreover have "bq_of (?q\<lparr>bitmap := b\<rparr>) = (bq_of q)(p := bq_of q p @ [t])"
    using bq_of_update[OF len(1)] len by (simp add: bq_of_def)
  ultimately show ?thesis by blast
qed

lemma bq_pop_some:
  assumes q: "bq_inv isok set_of cap LEN q" and L: "LEN < usize_max - 1"
    and p: "p < prev" "bq_of q p = t # l" "\<forall>p'<p. bq_of q p' = []"
  shows "\<exists>q'. pop_front_task ops LEN q prev = Some (SwitchTo (Some t), q') \<and>
    bq_inv isok set_of cap LEN q' \<and> bq_of q' = (bq_of q)(p := l)"
proof -
  have f: "bm_find_set ops (bitmap q) = Some (Some p)"
    using bq_find_set[OF q]
  proof (elim disjE exE conjE)
    assume "\<forall>p. bq_of q p = []"
    then show ?thesis using p(2) by simp
  next
    fix p1 assume 1: "bm_find_set ops (bitmap q) = Some (Some p1)" "bq_of q p1 \<noteq> []"
      "\<forall>p'<p1. bq_of q p' = []"
    have "p1 = p" using 1(2,3) p(2,3) by (metis linorder_neqE_nat list.distinct(1))
    with 1 show ?thesis by simp
  qed
  have len: "p < length (queues q)" "p < LEN" "p < cap" "queues q ! p = t # l"
    using q p(2) by (auto simp: bq_inv_def bq_of_def split: if_splits)
  let ?q = "q\<lparr>queues := (queues q)[p := l]\<rparr>"
  show ?thesis
  proof (cases "l = []")
    case True
    obtain b where b: "bm_clear ops (bitmap q) p = Some b" "isok b"
      "set_of b = set_of (bitmap q) - {p}"
      using clear_ok[of "bitmap q" p] q len by (auto simp: bq_inv_def)
    have "pop_front_task ops LEN q prev = Some (SwitchTo (Some t), ?q\<lparr>bitmap := b\<rparr>)"
      using f p(1) len b(1) True by (simp add: pop_front_task_def)
    moreover have "bq_inv isok set_of cap LEN (?q\<lparr>bitmap := b\<rparr>)"
      using bq_inv_update[OF q len(2) b(2), of l] b(3) True by simp
    ultimately show ?thesis using bq_of_update[OF len(1)] by fastforce
  next
    case False
    have "pop_front_task ops LEN q prev = Some (SwitchTo (Some t), ?q)"
      using f p(1) len False by (simp add: pop_front_task_def)
    moreover have "bq_inv isok set_of cap LEN ?q"
    proof -
      have "isok (bitmap q)" "p \<in> set_of (bitmap q)" using q len by (auto simp: bq_inv_def)
      then show ?thesis using bq_inv_update[OF q len(2), of "bitmap q" l] False
        by (simp add: insert_absorb)
    qed
    ultimately show ?thesis using bq_of_update[OF len(1)] by fastforce
  qed
qed

lemma bq_reorder:
  assumes q: "bq_inv isok set_of cap LEN q" and p: "p < LEN" "p \<noteq> po"
    and t: "t \<in> set (bq_of q po)" "distinct (bq_of q po)" "\<forall>p'. p' \<noteq> po \<longrightarrow> t \<notin> set (bq_of q p')"
  shows "\<exists>q'. reorder_task ops q t p po = Some q' \<and> bq_inv isok set_of cap LEN q' \<and>
    bq_of q' = (bq_of q)(po := remove1 t (bq_of q po), p := bq_of q p @ [t])"
proof -
  have len: "p < length (queues q)" "p < cap" "po < length (queues q)" "po < LEN" "po < cap"
    using q p t(1) by (auto simp: bq_inv_def bq_of_def split: if_splits)
  define l where "l = remove1 t (queues q ! po)"
  define q1 where "q1 = q\<lparr>queues := (queues q)[po := l]\<rparr>"
  define q2 where "q2 = q1\<lparr>queues := (queues q1)[p := queues q1 ! p @ [t]]\<rparr>"
  have len1: "length (queues q1) = length (queues q)" by (simp add: q1_def)
  have v1: "bq_of q1 = (bq_of q)(po := l)" unfolding q1_def by (rule bq_of_update[OF len(3)])
  have tin: "t \<in> set (queues q ! po)" "distinct (queues q ! po)"
    using t(1,2) len by (simp_all add: bq_of_def)
  then have "t \<notin> set l" by (simp add: l_def)
  then have "t \<notin> set (bq_of q1 p')" for p'
    unfolding v1 using t(3) by (cases "p' = po") simp_all
  then have nl: "\<forall>l' \<in> set (queues q1). t \<notin> set l'"
    by (intro bq_not_linked allI)
  have v2: "bq_of q2 = (bq_of q)(po := l, p := bq_of q p @ [t])"
    unfolding q2_def using bq_of_update[of p q1] len len1 p(2) v1
    by (simp add: bq_of_def q1_def)
  obtain b where b: "bm_set ops (bitmap q) p = Some b" "isok b" "set_of b = insert p (set_of (bitmap q))"
    using set_ok[of "bitmap q" p] q len by (auto simp: bq_inv_def)
  obtain b' where b': "bm_clear ops b po = Some b'" "isok b'" "set_of b' = set_of b - {po}"
    using clear_ok[OF b(2) len(5)] by blast
  let ?b = "if l = [] then b' else b"
  have "reorder_task ops q t p po = Some (q2\<lparr>bitmap := ?b\<rparr>)"
    using p(2) len tin(1) nl b(1) b'(1)
    by (simp add: reorder_task_def Let_def q1_def q2_def l_def[symmetric])
  moreover have "bq_inv isok set_of cap LEN (q2\<lparr>bitmap := ?b\<rparr>)"
  proof -
    have "queues q ! po \<noteq> []" using tin by auto
    then have po: "po \<in> set_of (bitmap q)" using q len by (simp add: bq_inv_def)
    obtain b0 where b0: "bm_clear ops (bitmap q) po = Some b0" "isok b0"
      "set_of b0 = set_of (bitmap q) - {po}"
      using clear_ok[of "bitmap q" po] q len by (auto simp: bq_inv_def)
    define q0 where "q0 = q\<lparr>queues := (queues q)[po := l], bitmap := if l = [] then b0 else bitmap q\<rparr>"
    have q0: "bq_inv isok set_of cap LEN q0"
      unfolding q0_def using q po b0 len(4) by (intro bq_inv_update) (auto simp: bq_inv_def)
    have "isok ?b" using b b' by simp
    moreover have "set_of ?b = insert p (set_of (bitmap q0))"
      using b(3) b'(3) b0(3) p(2) by (auto simp: q0_def)
    ultimately have "bq_inv isok set_of cap LEN
        (q0\<lparr>queues := (queues q0)[p := queues q ! p @ [t]], bitmap := ?b\<rparr>)"
      by (intro bq_inv_update[OF q0 p(1)]) simp_all
    moreover have "q2\<lparr>bitmap := ?b\<rparr> = q0\<lparr>queues := (queues q0)[p := queues q ! p @ [t]], bitmap := ?b\<rparr>"
      using p(2) by (simp add: q2_def q1_def q0_def)
    ultimately show ?thesis by (simp only:)
  qed
  moreover have "bq_of (q2\<lparr>bitmap := ?b\<rparr>) = (bq_of q)(po := remove1 t (bq_of q po), p := bq_of q p @ [t])"
    using len by (simp add: v2 l_def bq_of_def[of q po])
  ultimately show ?thesis by blast
qed

lemma bitmap_queue_ready_queue:
  "ready_queue (bq_init ops LEN) (has_ready_task_in_priority_range ops) (push_back_task ops)
     (pop_front_task ops LEN) (reorder_task ops)
     (valid \<and> LEN \<le> cap \<and> LEN < usize_max - 1) LEN (bq_inv isok set_of cap LEN) bq_of"
proof (unfold_locales, goal_cases)
  case (1 p)
  then show ?case using init_ok by (auto simp: bq_init_def bq_inv_def bq_of_def)
next
  case 2
  then show ?case by blast
next
  case (3 q p)
  then show ?case by (simp add: bq_inv_def bq_of_def)
next
  case (4 q e)
  then show ?case using bq_has_ready[of LEN q e] by blast
next
  case (5 q p t)
  then show ?case by (rule bq_push_back)
next
  case (6 q prev)
  show ?case using bq_find_set[OF 6(2)]
  proof (elim disjE exE conjE)
    assume "bm_find_set ops (bitmap q) = Some None"
    moreover have "prev \<le> usize_max - 1" using 6(3) by simp
    ultimately show ?case by (simp add: pop_front_task_def)
  next
    fix p assume p: "bm_find_set ops (bitmap q) = Some (Some p)" "bq_of q p \<noteq> []"
    then have "prev \<le> p" using 6(4) not_le by blast
    then show ?case using p by (simp add: pop_front_task_def)
  qed
next
  case (7 q)
  then show ?case using bq_find_set[OF 7(2)] by (auto simp: pop_front_task_def usize_max_eq)
next
  case (8 q prev p t l)
  then show ?case using bq_pop_some[of LEN q p prev t l] by blast
next
  case (9 q p po t)
  then show ?case by (rule bq_reorder)
qed

end

text \<open>The queue of the kernel: \<open>LEN\<close> priority levels over the bit map chosen for \<open>LEN\<close>.\<close>

abbreviation kernel_bq_inv :: "nat \<Rightarrow> fixed_prio_bitmap bitmap_queue \<Rightarrow> bool" where
  "kernel_bq_inv LEN \<equiv> bq_inv (fpb_inv LEN) fpb_bits LEN LEN"

interpretation bq: ready_queue "bq_init (FixedPrioBitmap t LEN) LEN"
  "has_ready_task_in_priority_range (FixedPrioBitmap t LEN)" "push_back_task (FixedPrioBitmap t LEN)"
  "pop_front_task (FixedPrioBitmap t LEN) LEN" "reorder_task (FixedPrioBitmap t LEN)"
  "LEN \<le> FIXED_PRIO_BITMAP_MAX_LEN \<and> LEN \<le> LEN \<and> LEN < usize_max - 1" LEN
  "kernel_bq_inv LEN" bq_of
  for t LEN
  by (rule fpb.bitmap_queue_ready_queue)

end
