(* ===== verification/Binary_Heap.thy ===== *)
theory Binary_Heap
  imports R3_Prelude
begin

text \<open>
  \<^verbatim>\<open>r3_core/src/utils/binary_heap/\<close>: the binary min-heap with a contextful comparator and
  position tracking.  The backing vector (\<^verbatim>\<open>VecLike\<close>, an \<^verbatim>\<open>ArrayVec\<close> of a fixed capacity)
  is a list and its capacity; the context \<^verbatim>\<open>BinaryHeapCtx\<close> is a record of two functions on
  the state \<open>'s\<close> it borrows, which every operation threads.  \<open>hole\<close> is the guard of
  \<^verbatim>\<open>helpers.rs\<close>, its drop the function \<open>hole_drop\<close>; its assertions are kept.

  The locale \<open>heap_ctx\<close> states what a context has to provide (the comparator is that of a key
  which moves leave alone, a move records the new position); under it pushing and removing keep
  the heap order and all recorded positions, and do to the multiset of elements what they say.
\<close>

section \<open>Vector and context\<close>

record ('s, 'e) heap_context =
  ctx_lt :: "'s \<Rightarrow> 'e \<Rightarrow> 'e \<Rightarrow> bool"
  ctx_on_move :: "'s \<Rightarrow> 'e \<Rightarrow> nat \<Rightarrow> 's"

definition vec_pop :: "'e list \<Rightarrow> ('e \<times> 'e list) option" where
  "vec_pop xs = (if xs = [] then None else Some (last xs, butlast xs))"

text \<open>Pushing onto a full \<^verbatim>\<open>ArrayVec\<close> panics.\<close>

definition vec_push :: "nat \<Rightarrow> 'e list \<Rightarrow> 'e \<Rightarrow> 'e list option" where
  "vec_push cap xs x = guard (length xs < cap) (Some (xs @ [x]))"

section \<open>Holes\<close>

record 'e hole =
  hole_data :: "'e list"
  hole_elt :: 'e
  hole_pos :: nat

definition hole_new :: "'e list \<Rightarrow> nat \<Rightarrow> 'e hole option" where
  "hole_new xs p = guard (p < length xs) (Some \<lparr>hole_data = xs, hole_elt = xs ! p, hole_pos = p\<rparr>)"

definition hole_get :: "'e hole \<Rightarrow> nat \<Rightarrow> 'e option" where
  "hole_get h i = guard (i \<noteq> hole_pos h) (slice_get (hole_data h) i)"

definition hole_move_to :: "'e hole \<Rightarrow> nat \<Rightarrow> 'e hole option" where
  "hole_move_to h i =
     guard (i \<noteq> hole_pos h) (guard (i < length (hole_data h))
       (Some (h\<lparr>hole_data := (hole_data h)[hole_pos h := hole_data h ! i], hole_pos := i\<rparr>)))"

definition hole_drop :: "'e hole \<Rightarrow> 'e list" where
  "hole_drop h = (hole_data h)[hole_pos h := hole_elt h]"

section \<open>Sifting\<close>

lemma hole_move_to_pos: "hole_move_to h i = Some h' \<Longrightarrow> hole_pos h' = i"
  by (auto simp: hole_move_to_def guard_def split: if_splits)

function sift_up_loop ::
  "('s, 'e) heap_context \<Rightarrow> nat \<Rightarrow> 'e hole \<Rightarrow> 's \<Rightarrow> ('e hole \<times> 's) option" where
  "sift_up_loop C start h s =
     (if start < hole_pos h then
        let parent = (hole_pos h - 1) div 2 in
        do { p \<leftarrow> hole_get h parent;
             if \<not> ctx_lt C s (hole_elt h) p then Some (h, s)
             else do {
               let prev_pos = hole_pos h;
               h' \<leftarrow> hole_move_to h parent;
               e \<leftarrow> hole_get h' prev_pos;
               sift_up_loop C start h' (ctx_on_move C s e prev_pos) } }
      else Some (h, s))"
  by pat_completeness auto
termination
  by (relation "measure (\<lambda>(C, start, h, s). hole_pos h)") (auto dest!: hole_move_to_pos)

declare sift_up_loop.simps [simp del]

definition sift_up ::
  "('s, 'e) heap_context \<Rightarrow> 'e list \<Rightarrow> nat \<Rightarrow> nat \<Rightarrow> 's \<Rightarrow> (nat \<times> 'e list \<times> 's) option" where
  "sift_up C this start p s =
     do { h \<leftarrow> hole_new this p;
          (h, s) \<leftarrow> sift_up_loop C start h s;
          Some (hole_pos h, hole_drop h, ctx_on_move C s (hole_elt h) (hole_pos h)) }"

definition smaller_child ::
  "('s, 'e) heap_context \<Rightarrow> 'e hole \<Rightarrow> nat \<Rightarrow> nat \<Rightarrow> 's \<Rightarrow> nat option" where
  "smaller_child C h child end' s =
     (let right = child + 1 in
      if right < end'
      then do { l \<leftarrow> hole_get h child; r \<leftarrow> hole_get h right;
                Some (if \<not> ctx_lt C s l r then right else child) }
      else Some child)"

lemma smaller_child_range: "smaller_child C h c n s = Some c' \<Longrightarrow> c < n \<Longrightarrow> c \<le> c' \<and> c' < n"
  by (auto simp: smaller_child_def Let_def split: if_splits Option.bind_splits)

function sift_down_loop ::
  "('s, 'e) heap_context \<Rightarrow> nat \<Rightarrow> 'e hole \<Rightarrow> nat \<Rightarrow> 's \<Rightarrow> ('e hole \<times> 's) option" where
  "sift_down_loop C end' h child s =
     (if child < end' then
        do { child \<leftarrow> smaller_child C h child end' s;
             c \<leftarrow> hole_get h child;
             if \<not> ctx_lt C s c (hole_elt h) then Some (h, s)
             else do {
               let prev_pos = hole_pos h;
               h' \<leftarrow> hole_move_to h child;
               e \<leftarrow> hole_get h' prev_pos;
               sift_down_loop C end' h' (2 * hole_pos h' + 1) (ctx_on_move C s e prev_pos) } }
      else Some (h, s))"
  by pat_completeness auto
termination
  by (relation "measure (\<lambda>(C, n, h, c, s). n - c)")
     (auto dest!: hole_move_to_pos smaller_child_range)

declare sift_down_loop.simps [simp del]

definition sift_down ::
  "('s, 'e) heap_context \<Rightarrow> 'e list \<Rightarrow> nat \<Rightarrow> 's \<Rightarrow> ('e list \<times> 's) option" where
  "sift_down C this p s =
     do { h \<leftarrow> hole_new this p;
          (h, s) \<leftarrow> sift_down_loop C (length this) h (2 * p + 1) s;
          Some (hole_drop h, ctx_on_move C s (hole_elt h) (hole_pos h)) }"

section \<open>Operations\<close>

definition heap_remove ::
  "('s, 'e) heap_context \<Rightarrow> 'e list \<Rightarrow> nat \<Rightarrow> 's \<Rightarrow> ('e option \<times> 'e list \<times> 's) option" where
  "heap_remove C xs i s =
     (if length xs \<le> i then Some (None, xs, s)
      else case vec_pop xs of None \<Rightarrow> None | Some (item, sl) \<Rightarrow>
        if i < length sl then
          let (sl, item) = (sl[i := item], sl ! i);
              s = ctx_on_move C s (sl ! i) i;
              should_sift_up = (0 < i \<and> ctx_lt C s (sl ! i) (sl ! ((i - 1) div 2)))
          in if should_sift_up
             then do { (_, sl, s) \<leftarrow> sift_up C sl 0 i s; Some (Some item, sl, s) }
             else do { (sl, s) \<leftarrow> sift_down C sl i s; Some (Some item, sl, s) }
        else Some (Some item, sl, s))"

definition heap_pop ::
  "('s, 'e) heap_context \<Rightarrow> 'e list \<Rightarrow> 's \<Rightarrow> ('e option \<times> 'e list \<times> 's) option" where
  "heap_pop C xs s = heap_remove C xs 0 s"

definition heap_push ::
  "('s, 'e) heap_context \<Rightarrow> nat \<Rightarrow> 'e list \<Rightarrow> 'e \<Rightarrow> 's \<Rightarrow> (nat \<times> 'e list \<times> 's) option" where
  "heap_push C cap xs item s =
     do { sl \<leftarrow> vec_push cap xs item;
          guard (length xs < length sl) (sift_up C sl 0 (length xs) s) }"

section \<open>Order and positions\<close>

definition parent :: "nat \<Rightarrow> nat" where
  "parent i = (i - 1) div 2"

text \<open>
  \<open>heap_from k xs\<close>: the keys along the vector are a heap; \<open>up_ok\<close> and \<open>down_ok\<close> allow the
  element at one position to be too small or too large.
\<close>

definition heap_ord :: "('e \<Rightarrow> 'k::linorder) \<Rightarrow> 'e list \<Rightarrow> bool" where
  "heap_ord key xs \<longleftrightarrow> (\<forall>i. 0 < i \<and> i < length xs \<longrightarrow> key (xs ! parent i) \<le> key (xs ! i))"

definition up_ok :: "('e \<Rightarrow> 'k::linorder) \<Rightarrow> 'e list \<Rightarrow> nat \<Rightarrow> bool" where
  "up_ok key xs p \<longleftrightarrow>
     (\<forall>i. 0 < i \<and> i < length xs \<and> i \<noteq> p \<longrightarrow> key (xs ! parent i) \<le> key (xs ! i)) \<and>
     (\<forall>i. 0 < p \<and> 0 < i \<and> i < length xs \<and> parent i = p \<longrightarrow> key (xs ! parent p) \<le> key (xs ! i))"

definition down_ok :: "('e \<Rightarrow> 'k::linorder) \<Rightarrow> 'e list \<Rightarrow> nat \<Rightarrow> bool" where
  "down_ok key xs p \<longleftrightarrow>
     (\<forall>i. 0 < i \<and> i < length xs \<and> parent i \<noteq> p \<longrightarrow> key (xs ! parent i) \<le> key (xs ! i)) \<and>
     (\<forall>i. 0 < p \<and> 0 < i \<and> i < length xs \<and> parent i = p \<longrightarrow> key (xs ! parent p) \<le> key (xs ! i))"

definition positions_ok :: "('e \<Rightarrow> nat) \<Rightarrow> 'e list \<Rightarrow> bool" where
  "positions_ok pos_of xs \<longleftrightarrow> (\<forall>i < length xs. pos_of (xs ! i) = i)"

lemma parent_less: "0 < i \<Longrightarrow> parent i < i"
  by (simp add: parent_def)

lemma parent_eq_iff: "0 < i \<Longrightarrow> parent i = p \<longleftrightarrow> i = 2 * p + 1 \<or> i = 2 * p + 2"
  by (simp add: parent_def) presburger

lemma heap_ord_root:
  assumes "heap_ord key xs" "x \<in> set xs"
  shows "key (xs ! 0) \<le> key x"
proof -
  have "i < length xs \<Longrightarrow> key (xs ! 0) \<le> key (xs ! i)" for i
  proof (induction i rule: less_induct)
    case (less i)
    show ?case
    proof (cases "i = 0")
      case False
      then have p: "parent i < i" by (simp add: parent_less)
      with less.prems have "key (xs ! 0) \<le> key (xs ! parent i)" by (intro less.IH) auto
      also have "\<dots> \<le> key (xs ! i)" using assms(1) False less.prems by (simp add: heap_ord_def)
      finally show ?thesis .
    qed simp
  qed
  then show ?thesis using assms(2) by (auto simp: in_set_conv_nth)
qed

definition swap :: "'e list \<Rightarrow> nat \<Rightarrow> nat \<Rightarrow> 'e list" where
  "swap xs i j = xs[i := xs ! j, j := xs ! i]"

lemma length_swap [simp]: "length (swap xs i j) = length xs"
  by (simp add: swap_def)

lemma nth_swap: "i < length xs \<Longrightarrow> j < length xs \<Longrightarrow> k < length xs \<Longrightarrow>
  swap xs i j ! k = (if k = j then xs ! i else if k = i then xs ! j else xs ! k)"
  by (auto simp: swap_def nth_list_update)

lemma mset_swap': "i < length xs \<Longrightarrow> j < length xs \<Longrightarrow> mset (swap xs i j) = mset xs"
  by (simp add: swap_def mset_swap)

lemma distinct_swap': "i < length xs \<Longrightarrow> j < length xs \<Longrightarrow> distinct (swap xs i j) = distinct xs"
  by (simp add: swap_def)

lemma up_ok_done:
  assumes "up_ok key xs p" "p = 0 \<or> \<not> key (xs ! p) < key (xs ! parent p)"
  shows "heap_ord key xs"
  using assms unfolding up_ok_def heap_ord_def by (metis not_le not_less_iff_gr_or_eq)

lemma up_ok_step:
  assumes "up_ok key xs p" "0 < p" "p < length xs" "key (xs ! p) < key (xs ! parent p)"
  shows "up_ok key (swap xs p (parent p)) (parent p)"
proof -
  let ?q = "parent p"
  have q: "?q < p" "?q < length xs" using assms(2,3) parent_less[of p] by auto
  note edge = assms(1)[unfolded up_ok_def, THEN conjunct1, rule_format]
  note grand = assms(1)[unfolded up_ok_def, THEN conjunct2, rule_format]
  note nth = nth_swap[OF assms(3) q(2)]
  show ?thesis
    unfolding up_ok_def length_swap
  proof (intro conjI allI impI)
    fix i assume i: "0 < i \<and> i < length xs \<and> i \<noteq> ?q"
    have pi: "parent i < length xs" using i parent_less[of i] by linarith
    consider "i = p" | "i \<noteq> p" "parent i = p" | "i \<noteq> p" "parent i = ?q"
      | "i \<noteq> p" "parent i \<noteq> p" "parent i \<noteq> ?q" by blast
    then show "key (swap xs p ?q ! parent i) \<le> key (swap xs p ?q ! i)"
    proof cases
      case 1
      then show ?thesis using assms(4) nth[of p] nth[of ?q] q assms(3) by simp
    next
      case 2
      then show ?thesis using grand[of i] i assms(2) q nth[of i] nth[of p] assms(3) by simp
    next
      case 3
      have "key (xs ! ?q) \<le> key (xs ! i)" using edge[of i] 3 i by simp
      then show ?thesis using 3 i nth[of i] nth[of ?q] q assms(4) by simp
    next
      case 4
      then show ?thesis using edge[of i] i nth[of i] nth[OF pi] by simp
    qed
  next
    fix i assume i: "0 < ?q \<and> 0 < i \<and> i < length xs \<and> parent i = ?q"
    have g: "parent ?q < ?q" using i by (simp add: parent_less)
    have e1: "key (xs ! parent ?q) \<le> key (xs ! ?q)" using edge[of ?q] i q by simp
    have "key (xs ! parent ?q) \<le> key (swap xs p ?q ! i)"
    proof (cases "i = p")
      case True
      then show ?thesis using e1 nth[of p] q assms(3) by simp
    next
      case False
      then have "key (xs ! ?q) \<le> key (xs ! i)" using edge[of i] i by simp
      moreover have "i \<noteq> ?q" using i parent_less[of i] by auto
      ultimately show ?thesis using e1 nth[of i] i False by simp
    qed
    then show "key (swap xs p ?q ! parent ?q) \<le> key (swap xs p ?q ! i)"
      using nth[of "parent ?q"] g q by simp
  qed
qed

lemma down_ok_done:
  assumes "down_ok key xs p"
    and "\<And>i. 0 < i \<Longrightarrow> i < length xs \<Longrightarrow> parent i = p \<Longrightarrow> key (xs ! p) \<le> key (xs ! i)"
  shows "heap_ord key xs"
  using assms unfolding down_ok_def heap_ord_def by metis

lemma down_ok_step:
  assumes ok: "down_ok key xs p" and c: "0 < c" "parent c = p" "c < length xs"
    and lt: "key (xs ! c) < key (xs ! p)"
    and least: "\<And>i. 0 < i \<Longrightarrow> i < length xs \<Longrightarrow> parent i = p \<Longrightarrow> key (xs ! c) \<le> key (xs ! i)"
  shows "down_ok key (swap xs p c) c"
proof -
  have p: "p < c" "p < length xs" using c parent_less[of c] by auto
  note edge = ok[unfolded down_ok_def, THEN conjunct1, rule_format]
  note grand = ok[unfolded down_ok_def, THEN conjunct2, rule_format]
  note nth = nth_swap[OF p(2) c(3)]
  show ?thesis
    unfolding down_ok_def length_swap
  proof (intro conjI allI impI)
    fix i assume i: "0 < i \<and> i < length xs \<and> parent i \<noteq> c"
    have pi: "parent i < length xs" using i parent_less[of i] by linarith
    consider "i = c" | "i \<noteq> c" "parent i = p" | "i = p" | "i \<noteq> c" "i \<noteq> p" "parent i \<noteq> p" by blast
    then show "key (swap xs p c ! parent i) \<le> key (swap xs p c ! i)"
    proof cases
      case 1
      then show ?thesis using c p nth[of c] nth[of p] lt by simp
    next
      case 2
      then have "i \<noteq> p" using parent_less[of i] i by auto
      then show ?thesis using 2 least[of i] i p nth[of p] nth[of i] by simp
    next
      case 3
      then have "parent p \<noteq> p" "parent p \<noteq> c" using parent_less[of i] i p by auto
      moreover have "key (xs ! parent p) \<le> key (xs ! c)" using grand[of c] 3 i c by simp
      ultimately show ?thesis using 3 p nth[of p] nth[of "parent p"] pi by simp
    next
      case 4
      then show ?thesis using edge[of i] i nth[of i] nth[OF pi] by simp
    qed
  next
    fix i assume i: "0 < c \<and> 0 < i \<and> i < length xs \<and> parent i = c"
    then have "c < i" using parent_less[of i] by auto
    then have "key (xs ! c) \<le> key (xs ! i)" using edge[of i] i p by simp
    then show "key (swap xs p c ! parent c) \<le> key (swap xs p c ! i)"
      using c p nth[of p] nth[of i] i \<open>c < i\<close> by simp
  qed
qed

section \<open>What a context provides\<close>

locale heap_ctx =
  fixes C :: "('s, 'e) heap_context"
    and key :: "'s \<Rightarrow> 'e \<Rightarrow> 'k::linorder"
    and pos_of :: "'s \<Rightarrow> 'e \<Rightarrow> nat"
    and rest :: "'s \<Rightarrow> 'r"
  assumes lt_key: "ctx_lt C s x y \<longleftrightarrow> key s x < key s y"
    and key_on_move: "key (ctx_on_move C s e i) = key s"
    and pos_on_move: "pos_of (ctx_on_move C s e i) = (pos_of s)(e := i)"
    and rest_on_move: "rest (ctx_on_move C s e i) = rest s"
begin

definition hole_ok :: "'s \<Rightarrow> 'e hole \<Rightarrow> bool" where
  "hole_ok s h \<longleftrightarrow> hole_pos h < length (hole_data h) \<and> distinct (hole_drop h) \<and>
     (\<forall>j < length (hole_data h). j \<noteq> hole_pos h \<longrightarrow> pos_of s (hole_drop h ! j) = j)"

text \<open>What the two loops do to the vector with the hole filled and to the state.\<close>

definition sifted :: "'s \<Rightarrow> 'e hole \<Rightarrow> 's \<Rightarrow> 'e hole \<Rightarrow> bool" where
  "sifted s h s' h' \<longleftrightarrow> hole_ok s' h' \<and> mset (hole_drop h') = mset (hole_drop h) \<and>
     length (hole_data h') = length (hole_data h) \<and>
     hole_elt h' = hole_elt h \<and> key s' = key s \<and> rest s' = rest s \<and>
     (\<forall>x. x \<notin> set (hole_drop h) \<longrightarrow> pos_of s' x = pos_of s x)"

definition heap_inv :: "'s \<Rightarrow> 'e list \<Rightarrow> bool" where
  "heap_inv s xs \<longleftrightarrow> heap_ord (key s) xs \<and> distinct xs \<and> positions_ok (pos_of s) xs"

lemma sifted_refl: "hole_ok s h \<Longrightarrow> sifted s h s h"
  by (simp add: sifted_def)

lemma sifted_trans:
  "sifted s h s1 h1 \<Longrightarrow> sifted s1 h1 s2 h2 \<Longrightarrow> sifted s h s2 h2"
  unfolding sifted_def by (metis set_mset_mset)

text \<open>Moving the hole is a swap of the filled vector.\<close>

lemma hole_move_swap:
  assumes h: "hole_ok s h" and i: "i < length (hole_data h)" "i \<noteq> hole_pos h"
  obtains h' e where "hole_move_to h i = Some h'" "hole_get h' (hole_pos h) = Some e"
    "hole_pos h' = i" "hole_drop h' = swap (hole_drop h) (hole_pos h) i"
    "sifted s h (ctx_on_move C s e (hole_pos h)) h'"
proof -
  let ?p = "hole_pos h" and ?xs = "hole_drop h" and ?n = "length (hole_data h)"
  let ?h' = "h\<lparr>hole_data := (hole_data h)[?p := hole_data h ! i], hole_pos := i\<rparr>"
  let ?e = "hole_data h ! i"
  have p: "?p < ?n" using h by (simp add: hole_ok_def)
  have len: "length ?xs = ?n" by (simp add: hole_drop_def)
  have m: "hole_move_to h i = Some ?h'" using i by (simp add: hole_move_to_def)
  have g: "hole_get ?h' ?p = Some ?e" using i p by (simp add: hole_get_def)
  have e: "?e = ?xs ! i" using i by (simp add: hole_drop_def)
  have sw: "hole_drop ?h' = swap ?xs ?p i"
    using i p by (auto simp: hole_drop_def swap_def list_eq_iff_nth_eq nth_list_update)
  have pos: "pos_of s (?xs ! j) = j" if "j < ?n" "j \<noteq> ?p" for j using h that by (simp add: hole_ok_def)
  have d: "distinct ?xs" using h by (simp add: hole_ok_def)
  have "((pos_of s)(?e := ?p)) (swap ?xs ?p i ! j) = j" if j: "j < ?n" "j \<noteq> i" for j
  proof (cases "j = ?p")
    case True
    then show ?thesis using i p j by (simp add: nth_swap len e)
  next
    case False
    then have "swap ?xs ?p i ! j = ?xs ! j" using i p j by (simp add: nth_swap len)
    moreover have "?xs ! j \<noteq> ?e" unfolding e using d i j by (simp add: nth_eq_iff_index_eq len)
    ultimately show ?thesis using pos[OF j(1) False] by simp
  qed
  then have "hole_ok (ctx_on_move C s ?e ?p) ?h'"
    using i p d by (simp add: hole_ok_def sw pos_on_move distinct_swap' len)
  moreover have "?e \<in> set ?xs" unfolding e using i len by simp
  ultimately have "sifted s h (ctx_on_move C s ?e ?p) ?h'"
    using i p by (auto simp: sifted_def sw mset_swap' len key_on_move rest_on_move pos_on_move)
  then show ?thesis using that[of ?h' ?e] m g sw by simp
qed

lemma hole_elt_nth: "hole_ok s h \<Longrightarrow> hole_drop h ! hole_pos h = hole_elt h"
  by (simp add: hole_ok_def hole_drop_def)

lemma hole_get_nth:
  "hole_ok s h \<Longrightarrow> i < length (hole_data h) \<Longrightarrow> i \<noteq> hole_pos h \<Longrightarrow>
   hole_get h i = Some (hole_drop h ! i)"
  by (simp add: hole_get_def hole_drop_def)

lemma length_hole_drop [simp]: "length (hole_drop h) = length (hole_data h)"
  by (simp add: hole_drop_def)

lemma sift_up_loop_ok:
  assumes "hole_ok s h" "up_ok (key s) (hole_drop h) (hole_pos h)"
  shows "\<exists>h' s'. sift_up_loop C 0 h s = Some (h', s') \<and> sifted s h s' h' \<and>
    heap_ord (key s) (hole_drop h')"
  using assms
proof (induction "hole_pos h" arbitrary: h s rule: less_induct)
  case less
  let ?p = "hole_pos h" and ?xs = "hole_drop h"
  let ?q = "parent ?p"
  have p: "?p < length (hole_data h)" using less.prems(1) by (simp add: hole_ok_def)
  show ?case
  proof (cases "?p = 0 \<or> \<not> key s (?xs ! ?p) < key s (?xs ! ?q)")
    case True
    have "sift_up_loop C 0 h s = Some (h, s)"
    proof (cases "?p = 0")
      case False
      then have "hole_get h ?q = Some (?xs ! ?q)"
        using p parent_less[of ?p] by (intro hole_get_nth[OF less.prems(1)]) auto
      then show ?thesis using True False
        unfolding sift_up_loop.simps[of C 0 h s] Let_def parent_def[symmetric]
        by (simp add: lt_key hole_elt_nth[OF less.prems(1)])
    qed (simp add: sift_up_loop.simps)
    then show ?thesis using up_ok_done[OF less.prems(2) True] sifted_refl[OF less.prems(1)] by blast
  next
    case False
    then have pos: "0 < ?p" and lt: "key s (?xs ! ?p) < key s (?xs ! ?q)" by auto
    have q: "?q < length (hole_data h)" "?q \<noteq> ?p" using p parent_less[OF pos] by auto
    obtain h1 e where m: "hole_move_to h ?q = Some h1" "hole_get h1 ?p = Some e" "hole_pos h1 = ?q"
        "hole_drop h1 = swap ?xs ?p ?q" and s1: "sifted s h (ctx_on_move C s e ?p) h1"
      using hole_move_swap[OF less.prems(1) q] by metis
    let ?s1 = "ctx_on_move C s e ?p"
    have up: "up_ok (key ?s1) (hole_drop h1) (hole_pos h1)"
      using up_ok_step[OF less.prems(2) pos _ lt] p by (simp add: m key_on_move)
    have ok: "hole_ok ?s1 h1" using s1 by (simp add: sifted_def)
    have "hole_pos h1 < ?p" using m(3) parent_less[OF pos] by simp
    from less.hyps[OF this ok up] obtain h' s' where
      IH: "sift_up_loop C 0 h1 ?s1 = Some (h', s')" "sifted ?s1 h1 s' h'"
        "heap_ord (key s) (hole_drop h')" by (auto simp: key_on_move)
    have "sift_up_loop C 0 h s = sift_up_loop C 0 h1 ?s1"
      using pos lt m hole_get_nth[OF less.prems(1) q]
      unfolding sift_up_loop.simps[of C 0 h s] Let_def parent_def[symmetric]
      by (simp add: lt_key hole_elt_nth[OF less.prems(1)])
    then show ?thesis using IH sifted_trans[OF s1 IH(2)] by auto
  qed
qed

lemma smaller_child_ok:
  assumes h: "hole_ok s h" and c: "2 * hole_pos h + 1 < length (hole_data h)"
  obtains c where "smaller_child C h (2 * hole_pos h + 1) (length (hole_data h)) s = Some c"
    "0 < c" "parent c = hole_pos h" "c < length (hole_data h)"
    "\<And>i. 0 < i \<Longrightarrow> i < length (hole_data h) \<Longrightarrow> parent i = hole_pos h \<Longrightarrow>
       key s (hole_drop h ! c) \<le> key s (hole_drop h ! i)"
proof -
  let ?p = "hole_pos h" and ?n = "length (hole_data h)" and ?xs = "hole_drop h"
  let ?l = "2 * ?p + 1" and ?r = "2 * ?p + 2"
  have l: "hole_get h ?l = Some (?xs ! ?l)" using c by (intro hole_get_nth[OF h]) auto
  have r: "hole_get h ?r = Some (?xs ! ?r)" if "?r < ?n"
    using that by (intro hole_get_nth[OF h]) auto
  let ?c = "if ?r < ?n \<and> \<not> key s (?xs ! ?l) < key s (?xs ! ?r) then ?r else ?l"
  show ?thesis
  proof (rule that)
    show "smaller_child C h ?l ?n s = Some ?c"
      using l r by (simp add: smaller_child_def Let_def lt_key)
    show "0 < ?c" "parent ?c = ?p" "?c < ?n" using c by (simp_all add: parent_eq_iff)
    show "key s (?xs ! ?c) \<le> key s (?xs ! i)" if "0 < i" "i < ?n" "parent i = ?p" for i
      using that by (auto simp: parent_eq_iff)
  qed
qed

lemma sift_down_loop_ok:
  assumes "hole_ok s h" "down_ok (key s) (hole_drop h) (hole_pos h)" "n = length (hole_data h)"
  shows "\<exists>h' s'. sift_down_loop C n h (2 * hole_pos h + 1) s = Some (h', s') \<and>
    sifted s h s' h' \<and> heap_ord (key s) (hole_drop h')"
  using assms
proof (induction "length (hole_data h) - hole_pos h" arbitrary: h s rule: less_induct)
  case less
  let ?p = "hole_pos h" and ?xs = "hole_drop h"
  note h = less.prems(1) and n = less.prems(3)
  have p: "?p < length (hole_data h)" using h by (simp add: hole_ok_def)
  show ?case
  proof (cases "2 * ?p + 1 < length (hole_data h)")
    case False
    then have "parent i \<noteq> ?p" if "0 < i" "i < length (hole_data h)" for i
      using that by (simp add: parent_eq_iff)
    then have "heap_ord (key s) ?xs" by (intro down_ok_done[OF less.prems(2)]) auto
    moreover have "sift_down_loop C n h (2 * ?p + 1) s = Some (h, s)"
      unfolding sift_down_loop.simps[of C n h "2 * ?p + 1" s] using False n by simp
    ultimately show ?thesis using sifted_refl[OF h] by blast
  next
    case True
    obtain c where c: "smaller_child C h (2 * ?p + 1) n s = Some c"
      "0 < c" "parent c = ?p" "c < length (hole_data h)"
      "\<And>i. 0 < i \<Longrightarrow> i < length (hole_data h) \<Longrightarrow> parent i = ?p \<Longrightarrow> key s (?xs ! c) \<le> key s (?xs ! i)"
      using smaller_child_ok[OF h True] n by metis
    have cp: "?p < c" "c \<noteq> ?p" using parent_less[OF c(2)] c(3) by auto
    note g = hole_get_nth[OF h c(4) cp(2)]
    show ?thesis
    proof (cases "key s (?xs ! c) < key s (?xs ! ?p)")
      case False
      have "heap_ord (key s) ?xs"
      proof (rule down_ok_done[OF less.prems(2)])
        fix i assume "0 < i" "i < length ?xs" "parent i = ?p"
        then have "key s (?xs ! c) \<le> key s (?xs ! i)" using c(5)[of i] by simp
        with False show "key s (?xs ! ?p) \<le> key s (?xs ! i)" by (meson not_le order.trans)
      qed
      moreover have "sift_down_loop C n h (2 * ?p + 1) s = Some (h, s)"
        using True n c(1) g False
        unfolding sift_down_loop.simps[of C n h "2 * ?p + 1" s]
        by (simp add: lt_key hole_elt_nth[OF h])
      ultimately show ?thesis using sifted_refl[OF h] by blast
    next
      case lt: True
      obtain h1 e where m: "hole_move_to h c = Some h1" "hole_get h1 ?p = Some e" "hole_pos h1 = c"
        "hole_drop h1 = swap ?xs ?p c" and s1: "sifted s h (ctx_on_move C s e ?p) h1"
        using hole_move_swap[OF h c(4) cp(2)] by metis
      let ?s1 = "ctx_on_move C s e ?p"
      have len1: "length (hole_data h1) = length (hole_data h)" using s1 by (simp add: sifted_def)
      have down: "down_ok (key ?s1) (hole_drop h1) (hole_pos h1)"
        using down_ok_step[OF less.prems(2) c(2,3) _ lt] c(4,5) by (simp add: m key_on_move)
      have ok: "hole_ok ?s1 h1" using s1 by (simp add: sifted_def)
      have "length (hole_data h1) - hole_pos h1 < length (hole_data h) - ?p"
        using m(3) cp c(4) len1 by simp
      from less.hyps[OF this ok down] n len1 obtain h' s' where
        IH: "sift_down_loop C n h1 (2 * hole_pos h1 + 1) ?s1 = Some (h', s')" "sifted ?s1 h1 s' h'"
          "heap_ord (key s) (hole_drop h')" by (auto simp: key_on_move)
      have "sift_down_loop C n h (2 * ?p + 1) s = sift_down_loop C n h1 (2 * hole_pos h1 + 1) ?s1"
        using True n c(1) g lt m
        unfolding sift_down_loop.simps[of C n h "2 * ?p + 1" s]
        by (simp add: lt_key hole_elt_nth[OF h])
      then show ?thesis using IH sifted_trans[OF s1 IH(2)] by auto
    qed
  qed
qed

section \<open>Pushing and removing\<close>

text \<open>The element in the hole is put back and its position recorded.\<close>

lemma sifted_finish:
  assumes s: "sifted s h s' h'" and o: "heap_ord (key s) (hole_drop h')"
  defines "t \<equiv> ctx_on_move C s' (hole_elt h') (hole_pos h')"
  shows "heap_inv t (hole_drop h')" "key t = key s" "rest t = rest s"
    and "\<And>x. x \<notin> set (hole_drop h) \<Longrightarrow> pos_of t x = pos_of s x"
    and "pos_of t (hole_elt h) = hole_pos h'"
proof -
  have ok: "hole_ok s' h'" and k: "key s' = key s" using s by (simp_all add: sifted_def)
  note e = hole_elt_nth[OF ok]
  have p: "hole_pos h' < length (hole_data h')" and d: "distinct (hole_drop h')"
    using ok by (simp_all add: hole_ok_def)
  have "pos_of t (hole_drop h' ! i) = i" if i: "i < length (hole_drop h')" for i
  proof (cases "i = hole_pos h'")
    case True
    then show ?thesis by (simp add: t_def pos_on_move e)
  next
    case False
    then have "hole_drop h' ! i \<noteq> hole_elt h'"
      using d i p unfolding e[symmetric] by (simp add: nth_eq_iff_index_eq)
    then show ?thesis using ok i False by (simp add: t_def pos_on_move hole_ok_def)
  qed
  then show "heap_inv t (hole_drop h')"
    using d o k by (simp add: heap_inv_def positions_ok_def t_def key_on_move)
  show "key t = key s" "rest t = rest s" using s by (simp_all add: t_def key_on_move rest_on_move sifted_def)
  have "hole_elt h' \<in> set (hole_drop h')" unfolding e[symmetric] using p by simp
  moreover have "set (hole_drop h') = set (hole_drop h)" using s by (metis sifted_def set_mset_mset)
  ultimately show "pos_of t x = pos_of s x" if "x \<notin> set (hole_drop h)" for x
    using that s by (auto simp: t_def pos_on_move sifted_def)
  show "pos_of t (hole_elt h) = hole_pos h'" using s by (simp add: t_def pos_on_move sifted_def)
qed

lemma sift_up_ok:
  assumes "p < length xs" "distinct xs" "\<And>j. j < length xs \<Longrightarrow> j \<noteq> p \<Longrightarrow> pos_of s (xs ! j) = j"
    and "up_ok (key s) xs p"
  shows "\<exists>p' xs' s'. sift_up C xs 0 p s = Some (p', xs', s') \<and> heap_inv s' xs' \<and>
    mset xs' = mset xs \<and> key s' = key s \<and> rest s' = rest s \<and> pos_of s' (xs ! p) = p' \<and>
    (\<forall>x. x \<notin> set xs \<longrightarrow> pos_of s' x = pos_of s x)"
proof -
  let ?h = "\<lparr>hole_data = xs, hole_elt = xs ! p, hole_pos = p\<rparr>"
  have dr: "hole_drop ?h = xs" by (simp add: hole_drop_def)
  have "hole_ok s ?h" using assms by (simp add: hole_ok_def dr)
  moreover have "up_ok (key s) (hole_drop ?h) (hole_pos ?h)" using assms(4) by (simp add: dr)
  ultimately obtain h' s' where l: "sift_up_loop C 0 ?h s = Some (h', s')" "sifted s ?h s' h'"
    "heap_ord (key s) (hole_drop h')" using sift_up_loop_ok by blast
  have "mset (hole_drop h') = mset xs" using l(2) by (simp add: sifted_def dr)
  then show ?thesis using sifted_finish[OF l(2,3)] l(1) assms(1)
    by (simp add: sift_up_def hole_new_def dr)
qed

lemma sift_down_ok:
  assumes "p < length xs" "distinct xs" "\<And>j. j < length xs \<Longrightarrow> j \<noteq> p \<Longrightarrow> pos_of s (xs ! j) = j"
    and "down_ok (key s) xs p"
  shows "\<exists>xs' s'. sift_down C xs p s = Some (xs', s') \<and> heap_inv s' xs' \<and>
    mset xs' = mset xs \<and> key s' = key s \<and> rest s' = rest s \<and>
    (\<forall>x. x \<notin> set xs \<longrightarrow> pos_of s' x = pos_of s x)"
proof -
  let ?h = "\<lparr>hole_data = xs, hole_elt = xs ! p, hole_pos = p\<rparr>"
  have dr: "hole_drop ?h = xs" by (simp add: hole_drop_def)
  have "hole_ok s ?h" using assms by (simp add: hole_ok_def dr)
  moreover have "down_ok (key s) (hole_drop ?h) (hole_pos ?h)" using assms(4) by (simp add: dr)
  ultimately obtain h' s' where l: "sift_down_loop C (length xs) ?h (2 * p + 1) s = Some (h', s')"
    "sifted s ?h s' h'" "heap_ord (key s) (hole_drop h')"
    using sift_down_loop_ok[of s ?h "length xs"] by auto
  have "mset (hole_drop h') = mset xs" using l(2) by (simp add: sifted_def dr)
  then show ?thesis using sifted_finish[OF l(2,3)] l(1) assms(1)
    by (simp add: sift_down_def hole_new_def dr)
qed

lemma heap_push_ok:
  assumes inv: "heap_inv s xs" and x: "x \<notin> set xs" and cap: "length xs < cap"
  shows "\<exists>p xs' s'. heap_push C cap xs x s = Some (p, xs', s') \<and> heap_inv s' xs' \<and>
    mset xs' = add_mset x (mset xs) \<and> key s' = key s \<and> rest s' = rest s \<and> pos_of s' x = p \<and>
    (\<forall>y. y \<notin> set xs' \<longrightarrow> pos_of s' y = pos_of s y)"
proof -
  let ?xs = "xs @ [x]" and ?p = "length xs"
  have "parent i \<noteq> ?p" if "0 < i" "i < length ?xs" for i using parent_less[of i] that by auto
  moreover have "key s (?xs ! parent i) \<le> key s (?xs ! i)" if "0 < i" "i < length ?xs" "i \<noteq> ?p" for i
    using inv that parent_less[of i] by (simp add: heap_inv_def heap_ord_def nth_append)
  ultimately have up: "up_ok (key s) ?xs ?p" by (auto simp: up_ok_def)
  have "distinct ?xs" using inv x by (simp add: heap_inv_def)
  moreover have "pos_of s (?xs ! j) = j" if "j < length ?xs" "j \<noteq> ?p" for j
    using inv that by (simp add: heap_inv_def positions_ok_def nth_append)
  ultimately obtain p' xs' s' where "sift_up C ?xs 0 ?p s = Some (p', xs', s')" "heap_inv s' xs'"
    and m: "mset xs' = mset ?xs" and "key s' = key s" "rest s' = rest s" "pos_of s' x = p'"
      "\<forall>x. x \<notin> set ?xs \<longrightarrow> pos_of s' x = pos_of s x"
    using sift_up_ok[of ?p ?xs s] up by auto
  moreover have "set xs' = set ?xs" using m by (metis set_mset_mset)
  ultimately show ?thesis using cap m by (simp add: heap_push_def vec_push_def)
qed

lemma heap_remove_none: "length xs \<le> i \<Longrightarrow> heap_remove C xs i s = Some (None, xs, s)"
  by (simp add: heap_remove_def)

text \<open>
  Removal does not look at the recorded position of the element it removes, which the caller may
  already have overwritten.
\<close>

definition heap_inv_but :: "'s \<Rightarrow> 'e list \<Rightarrow> nat \<Rightarrow> bool" where
  "heap_inv_but s xs i \<longleftrightarrow> heap_ord (key s) xs \<and> distinct xs \<and>
     (\<forall>j < length xs. j \<noteq> i \<longrightarrow> pos_of s (xs ! j) = j)"

lemma heap_inv_imp_but: "heap_inv s xs \<Longrightarrow> heap_inv_but s xs i"
  by (simp add: heap_inv_def heap_inv_but_def positions_ok_def)

lemma heap_remove_last:
  assumes "heap_inv_but s xs i" "Suc i = length xs"
  shows "heap_remove C xs i s = Some (Some (xs ! i), butlast xs, s) \<and> heap_inv s (butlast xs)"
proof -
  have "xs \<noteq> []" "last xs = xs ! i" using assms(2) by (cases xs rule: rev_cases; simp)+
  moreover have "parent j < length xs - 1" if "0 < j" "j < length xs - 1" for j
    using parent_less[of j] that by linarith
  ultimately show ?thesis using assms
    by (auto simp: heap_remove_def vec_pop_def heap_inv_def heap_inv_but_def heap_ord_def
        positions_ok_def distinct_butlast nth_butlast)
qed

lemma mset_replace_last:
  assumes "i < length (butlast xs)"
  shows "mset ((butlast xs)[i := last xs]) = mset xs - {#xs ! i#}"
    "set ((butlast xs)[i := last xs]) \<subseteq> set xs"
proof -
  have ne: "xs \<noteq> []" using assms by auto
  have "xs ! i = butlast xs ! i" using assms by (simp add: nth_butlast)
  moreover have "mset xs = add_mset (last xs) (mset (butlast xs))"
    by (metis ne append_butlast_last_id mset.simps mset_append union_mset_add_mset_right add.right_neutral)
  moreover have "butlast xs ! i \<in># mset (butlast xs)" using assms by (metis nth_mem set_mset_mset)
  ultimately show "mset ((butlast xs)[i := last xs]) = mset xs - {#xs ! i#}"
    using assms by (simp add: mset_update)
  then show "set ((butlast xs)[i := last xs]) \<subseteq> set xs" by (metis in_diffD set_mset_mset subsetI)
qed

lemma replaced_order:
  assumes inv: "heap_ord (key s) xs" and i: "i < length xs - 1"
  defines "ys \<equiv> (butlast xs)[i := last xs]"
  shows "0 < i \<Longrightarrow> key s (ys ! i) < key s (ys ! parent i) \<Longrightarrow> up_ok (key s) ys i"
    and "i = 0 \<or> \<not> key s (ys ! i) < key s (ys ! parent i) \<Longrightarrow> down_ok (key s) ys i"
proof -
  have len: "length ys = length xs - 1" by (simp add: ys_def)
  have old: "ys ! j = xs ! j" if "j \<noteq> i" "j < length ys" for j
    using that by (simp add: ys_def nth_butlast)
  have edge: "key s (xs ! parent j) \<le> key s (xs ! j)" if "0 < j" "j < length xs" for j
    using inv that by (simp add: heap_ord_def)
  have plt: "parent j < length ys" if "j < length ys" for j
    using that parent_less[of j] by (cases "j = 0") (auto simp: parent_def)
  have grand: "key s (ys ! parent i) \<le> key s (ys ! j)"
    if "0 < i" "0 < j" "j < length ys" "parent j = i" for j
  proof -
    have "key s (xs ! parent i) \<le> key s (xs ! i)" using edge[of i] that i by simp
    also have "\<dots> \<le> key s (xs ! j)" using edge[of j] that len by simp
    finally show ?thesis
      using old[of j] old[of "parent i"] parent_less[of i] parent_less[of j] that i len by simp
  qed
  show "up_ok (key s) ys i" if c: "0 < i" "key s (ys ! i) < key s (ys ! parent i)"
    unfolding up_ok_def
  proof (intro conjI allI impI)
    fix j assume j: "0 < j \<and> j < length ys \<and> j \<noteq> i"
    show "key s (ys ! parent j) \<le> key s (ys ! j)"
    proof (cases "parent j = i")
      case True
      then have "key s (ys ! parent i) \<le> key s (ys ! j)" using grand j c by simp
      with c True show ?thesis by simp
    next
      case False
      moreover have "j < length xs" using j[THEN conjunct2, THEN conjunct1] len by linarith
      ultimately show ?thesis using old[of j] old[of "parent j"] plt[of j] j edge[of j] by simp
    qed
  qed (use grand in blast)
  show "down_ok (key s) ys i" if c: "i = 0 \<or> \<not> key s (ys ! i) < key s (ys ! parent i)"
    unfolding down_ok_def
  proof (intro conjI allI impI)
    fix j assume j: "0 < j \<and> j < length ys \<and> parent j \<noteq> i"
    show "key s (ys ! parent j) \<le> key s (ys ! j)"
    proof (cases "j = i")
      case True
      then show ?thesis using c j by auto
    next
      case False
      moreover have "j < length xs" using j[THEN conjunct2, THEN conjunct1] len by linarith
      ultimately show ?thesis using old[of j] old[of "parent j"] plt[of j] j edge[of j] by simp
    qed
  qed (use grand in blast)
qed

lemma heap_remove_but_ok:
  assumes inv: "heap_inv_but s xs i" and i: "i < length xs"
  shows "\<exists>xs' s'. heap_remove C xs i s = Some (Some (xs ! i), xs', s') \<and> heap_inv s' xs' \<and>
    mset xs' = mset xs - {#xs ! i#} \<and> key s' = key s \<and> rest s' = rest s \<and>
    (\<forall>y. y \<notin> set xs' \<longrightarrow> pos_of s' y = pos_of s y)"
proof (cases "Suc i = length xs")
  case True
  then have "xs = butlast xs @ [xs ! i]"
    by (metis append_butlast_last_id diff_Suc_1 last_conv_nth length_0_conv nat.distinct(1))
  then have "mset (butlast xs) = mset xs - {#xs ! i#}"
    by (metis add_diff_cancel_right' mset.simps mset_append)
  with heap_remove_last[OF inv True] show ?thesis by auto
next
  case False
  with i have i': "i < length xs - 1" by simp
  define ys where "ys = (butlast xs)[i := last xs]"
  define s1 where "s1 = ctx_on_move C s (ys ! i) i"
  have ne: "xs \<noteq> []" and len: "length ys = length xs - 1" using i by (auto simp: ys_def)
  have ysi: "ys ! i = last xs" using i' by (simp add: ys_def)
  have m: "mset ys = mset xs - {#xs ! i#}" "set ys \<subseteq> set xs"
    using mset_replace_last[of i xs] i' by (simp_all add: ys_def)
  have dx: "distinct xs" and ord: "heap_ord (key s) xs" using inv by (simp_all add: heap_inv_but_def)
  have "mset xs = mset (xs ! i # ys)" using m(1) i by simp
  then have d: "distinct ys" using dx by (metis mset_eq_imp_distinct_iff distinct.simps(2))
  have pos: "pos_of s1 (ys ! j) = j" if "j < length ys" "j \<noteq> i" for j
  proof -
    have "ys ! j = xs ! j" using that by (simp add: ys_def nth_butlast)
    moreover have "ys ! j \<noteq> ys ! i" using d that i' len by (simp add: nth_eq_iff_index_eq)
    ultimately show ?thesis using inv that len
      by (simp add: s1_def pos_on_move heap_inv_but_def)
  qed
  have k: "key s1 = key s" "rest s1 = rest s" by (simp_all add: s1_def key_on_move rest_on_move)
  have p1: "pos_of s1 y = pos_of s y" if "y \<notin> set ys" for y
  proof -
    have "ys ! i \<in> set ys" using i' len by simp
    with that show ?thesis by (auto simp: s1_def pos_on_move)
  qed
  have iy: "i < length ys" using i' len by simp
  let ?up = "0 < i \<and> key s (ys ! i) < key s (ys ! parent i)"
  have split: "heap_remove C xs i s = (if ?up
      then do { (_, sl, s) \<leftarrow> sift_up C ys 0 i s1; Some (Some (xs ! i), sl, s) }
      else do { (sl, s) \<leftarrow> sift_down C ys i s1; Some (Some (xs ! i), sl, s) })"
  proof -
    have "vec_pop xs = Some (last xs, butlast xs)" using ne by (simp add: vec_pop_def)
    moreover have "\<not> length xs \<le> i" "i < length (butlast xs)" using i i' by simp_all
    moreover have "butlast xs ! i = xs ! i" using i' by (simp add: nth_butlast)
    ultimately show ?thesis
      unfolding heap_remove_def Let_def parent_def[symmetric]
      by (simp add: ys_def[symmetric] lt_key key_on_move s1_def Let_def)
  qed
  show ?thesis
  proof (cases ?up)
    case True
    then have "up_ok (key s1) ys i" using replaced_order(1)[OF ord i'] by (simp add: k ys_def)
    from sift_up_ok[OF iy d pos this] obtain p' xs' s' where r:
      "sift_up C ys 0 i s1 = Some (p', xs', s')" "heap_inv s' xs'" "mset xs' = mset ys"
      "key s' = key s1" "rest s' = rest s1" "\<forall>x. x \<notin> set ys \<longrightarrow> pos_of s' x = pos_of s1 x" by blast
    moreover have "set xs' = set ys" using r(3) by (metis set_mset_mset)
    ultimately show ?thesis unfolding split if_P[OF True] using m p1 k by simp
  next
    case False
    then have "down_ok (key s1) ys i" using replaced_order(2)[OF ord i'] by (simp add: k ys_def)
    from sift_down_ok[OF iy d pos this] obtain xs' s' where r:
      "sift_down C ys i s1 = Some (xs', s')" "heap_inv s' xs'" "mset xs' = mset ys"
      "key s' = key s1" "rest s' = rest s1" "\<forall>x. x \<notin> set ys \<longrightarrow> pos_of s' x = pos_of s1 x" by blast
    moreover have "set xs' = set ys" using r(3) by (metis set_mset_mset)
    ultimately show ?thesis unfolding split if_not_P[OF False] using m p1 k by simp
  qed
qed

lemmas heap_remove_ok = heap_remove_but_ok[OF heap_inv_imp_but]

lemma heap_pop_ok:
  assumes "heap_inv s xs" "xs \<noteq> []"
  shows "\<exists>xs' s'. heap_pop C xs s = Some (Some (xs ! 0), xs', s') \<and> heap_inv s' xs' \<and>
    mset xs' = mset xs - {#xs ! 0#} \<and> (\<forall>y \<in> set xs. key s (xs ! 0) \<le> key s y)"
  using heap_remove_ok[OF assms(1), of 0] assms heap_ord_root[of "key s" xs]
  by (auto simp: heap_pop_def heap_inv_def)

end

end
