(* ===== verification/Time_Types.thy ===== *)
theory Time_Types
  imports R3_Prelude "HOL-Library.Signed_Division"
begin

text \<open>
  \<^verbatim>\<open>r3_core/src/time/\<close>: the signed time span \<open>duration\<close> (microseconds in an \<^verbatim>\<open>i32\<close>) and the
  timestamp \<open>time\<close> (microseconds in a \<^verbatim>\<open>u64\<close>).  \<^verbatim>\<open>core::time::Duration\<close> is its number of
  microseconds, a natural number.  The checked operations return \<open>None\<close> on overflow; the
  operators built on them panic there, which is \<open>None\<close> as well.
\<close>

type_synonym i32 = "32 word"

datatype duration = Duration (micros: i32)

datatype time = Time (time_micros: u64)

section \<open>Checked arithmetic on i32\<close>

definition checked_i32 :: "int \<Rightarrow> i32 option" where
  "checked_i32 x = (if - (2 ^ 31) \<le> x \<and> x < 2 ^ 31 then Some (word_of_int x) else None)"

definition checked_div_i32 :: "i32 \<Rightarrow> i32 \<Rightarrow> i32 option" where
  "checked_div_i32 x y = (if y = 0 then None else checked_i32 (sint x sdiv sint y))"

lemma sint_i32_range: "- (2 ^ 31) \<le> sint (x :: i32)" "sint (x :: i32) < 2 ^ 31"
  using sint_greater_eq[of x] sint_less[of x] by simp_all

lemma checked_i32_Some: "checked_i32 x = Some w \<longleftrightarrow> sint w = x"
proof
  assume "checked_i32 x = Some w"
  then have "- (2 ^ 31) \<le> x \<and> x < 2 ^ 31" "w = word_of_int x"
    by (auto simp: checked_i32_def split: if_splits)
  then show "sint w = x" by (simp add: signed_take_bit_int_eq_self sint_sbintrunc')
next
  assume "sint w = x"
  then show "checked_i32 x = Some w" using sint_i32_range[of w] by (auto simp: checked_i32_def)
qed

lemma checked_i32_None: "checked_i32 x = None \<longleftrightarrow> \<not> (- (2 ^ 31) \<le> x \<and> x < 2 ^ 31)"
  by (simp add: checked_i32_def)

section \<open>Duration\<close>

definition from_micros :: "i32 \<Rightarrow> duration" where
  "from_micros x = Duration x"

definition duration_zero :: duration where
  "duration_zero = Duration 0"

definition duration_max :: duration where
  "duration_max = Duration 0x7fffffff"

definition duration_min :: duration where
  "duration_min = Duration 0x80000000"

definition from_millis :: "i32 \<Rightarrow> duration option" where
  "from_millis x = map_option from_micros (checked_i32 (sint x * 1000))"

definition from_secs :: "i32 \<Rightarrow> duration option" where
  "from_secs x = map_option from_micros (checked_i32 (sint x * 1000000))"

definition as_micros :: "duration \<Rightarrow> i32" where
  "as_micros d = micros d"

definition as_millis :: "duration \<Rightarrow> int" where
  "as_millis d = sint (micros d) sdiv 1000"

definition as_secs :: "duration \<Rightarrow> int" where
  "as_secs d = sint (micros d) sdiv 1000000"

definition is_positive :: "duration \<Rightarrow> bool" where
  "is_positive d \<longleftrightarrow> 0 < sint (micros d)"

definition is_negative :: "duration \<Rightarrow> bool" where
  "is_negative d \<longleftrightarrow> sint (micros d) < 0"

definition duration_checked_mul :: "duration \<Rightarrow> i32 \<Rightarrow> duration option" where
  "duration_checked_mul d x = map_option from_micros (checked_i32 (sint (micros d) * sint x))"

definition duration_checked_div :: "duration \<Rightarrow> i32 \<Rightarrow> duration option" where
  "duration_checked_div d x = map_option from_micros (checked_div_i32 (micros d) x)"

definition duration_checked_abs :: "duration \<Rightarrow> duration option" where
  "duration_checked_abs d = map_option from_micros (checked_i32 \<bar>sint (micros d)\<bar>)"

definition duration_checked_add :: "duration \<Rightarrow> duration \<Rightarrow> duration option" where
  "duration_checked_add a b =
     map_option from_micros (checked_i32 (sint (micros a) + sint (micros b)))"

definition duration_checked_sub :: "duration \<Rightarrow> duration \<Rightarrow> duration option" where
  "duration_checked_sub a b =
     map_option from_micros (checked_i32 (sint (micros a) - sint (micros b)))"

text \<open>The conversions from and to \<^verbatim>\<open>core::time::Duration\<close>; \<open>None\<close> is the error.\<close>

definition duration_try_from_core :: "nat \<Rightarrow> duration option" where
  "duration_try_from_core us = map_option from_micros (checked_i32 (int us))"

definition core_try_from_duration :: "duration \<Rightarrow> nat option" where
  "core_try_from_duration d =
     (if sint (micros d) < 0 then None else Some (nat (sint (micros d))))"

text \<open>The sum of an iterator of durations panics on overflow.\<close>

definition duration_sum :: "duration list \<Rightarrow> duration option" where
  "duration_sum ds =
     fold (\<lambda>y acc. do { x \<leftarrow> acc; duration_checked_add x y }) ds (Some duration_zero)"

section \<open>Time\<close>

definition time_from_micros :: "u64 \<Rightarrow> time" where
  "time_from_micros x = Time x"

definition checked_mul_u64 :: "u64 \<Rightarrow> nat \<Rightarrow> u64 option" where
  "checked_mul_u64 x k = (if unat x * k < 2 ^ 64 then Some (x * of_nat k) else None)"

definition time_from_millis :: "u64 \<Rightarrow> time option" where
  "time_from_millis x = map_option time_from_micros (checked_mul_u64 x 1000)"

definition time_from_secs :: "u64 \<Rightarrow> time option" where
  "time_from_secs x = map_option time_from_micros (checked_mul_u64 x 1000000)"

definition time_as_micros :: "time \<Rightarrow> u64" where
  "time_as_micros t = time_micros t"

definition time_as_millis :: "time \<Rightarrow> u64" where
  "time_as_millis t = time_micros t div 1000"

definition time_as_secs :: "time \<Rightarrow> u64" where
  "time_as_secs t = time_micros t div 1000000"

definition core_duration_since_origin :: "time \<Rightarrow> nat" where
  "core_duration_since_origin t = unat (time_micros t)"

definition core_duration_since :: "time \<Rightarrow> time \<Rightarrow> nat option" where
  "core_duration_since t reference =
     (if time_micros reference \<le> time_micros t then Some (unat (time_micros t)) else None)"

definition duration_since :: "time \<Rightarrow> time \<Rightarrow> duration option" where
  "duration_since t reference =
     map_option from_micros (checked_i32 (int (unat (time_micros t)) - int (unat (time_micros reference))))"

text \<open>\<^verbatim>\<open>duration.as_micros() as i64 as u64\<close> is the sign extension.\<close>

definition time_wrapping_add :: "time \<Rightarrow> duration \<Rightarrow> time" where
  "time_wrapping_add t d = time_from_micros (time_micros t + scast (as_micros d))"

definition time_wrapping_sub :: "time \<Rightarrow> duration \<Rightarrow> time" where
  "time_wrapping_sub t d = time_from_micros (time_micros t - scast (as_micros d))"

section \<open>What the operations compute\<close>

lemma duration_add_exact:
  "duration_checked_add a b = Some c \<longleftrightarrow> sint (micros c) = sint (micros a) + sint (micros b)"
  by (cases c) (auto simp: duration_checked_add_def from_micros_def checked_i32_Some)

lemma duration_sub_exact:
  "duration_checked_sub a b = Some c \<longleftrightarrow> sint (micros c) = sint (micros a) - sint (micros b)"
  by (cases c) (auto simp: duration_checked_sub_def from_micros_def checked_i32_Some)

lemma duration_mul_exact:
  "duration_checked_mul a k = Some c \<longleftrightarrow> sint (micros c) = sint (micros a) * sint k"
  by (cases c) (auto simp: duration_checked_mul_def from_micros_def checked_i32_Some)

lemma duration_div_exact:
  "duration_checked_div a k = Some c \<longleftrightarrow> k \<noteq> 0 \<and> sint (micros c) = sint (micros a) sdiv sint k"
  by (cases c) (auto simp: duration_checked_div_def checked_div_i32_def from_micros_def checked_i32_Some)

lemma duration_sum_exact:
  "duration_sum ds = Some c \<Longrightarrow> sint (micros c) = (\<Sum>d\<leftarrow>ds. sint (micros d))"
proof -
  have none: "fold (\<lambda>y acc. do { x \<leftarrow> acc; duration_checked_add x y }) ds None = None" for ds
    by (induction ds) auto
  have g: "fold (\<lambda>y acc. do { x \<leftarrow> acc; duration_checked_add x y }) ds (Some a) = Some c \<Longrightarrow>
    sint (micros c) = sint (micros a) + (\<Sum>d\<leftarrow>ds. sint (micros d))" for a
  proof (induction ds arbitrary: a)
    case (Cons d ds)
    then obtain b where b: "duration_checked_add a d = Some b"
      by (cases "duration_checked_add a d") (simp_all add: none)
    then have "sint (micros b) = sint (micros a) + sint (micros d)" by (simp add: duration_add_exact)
    with Cons.IH[of b] Cons.prems b show ?case by simp
  qed simp
  show "duration_sum ds = Some c \<Longrightarrow> sint (micros c) = (\<Sum>d\<leftarrow>ds. sint (micros d))"
    using g[of duration_zero] by (simp add: duration_sum_def) (simp add: duration_zero_def)
qed

lemma unat_time_wrapping_add:
  "int (unat (time_micros (time_wrapping_add t d))) =
   (int (unat (time_micros t)) + sint (micros d)) mod 2 ^ 64"
proof -
  have "(word_of_int (int (unat (time_micros t)) + sint (micros d)) :: u64) =
      word_of_int (int (unat (time_micros t))) + word_of_int (sint (micros d))"
    by (rule wi_hom_add[symmetric])
  also have "word_of_int (int (unat (time_micros t))) = time_micros t" by simp
  also have "(word_of_int (sint (micros d)) :: u64) = scast (micros d)" by (rule scast_eq[symmetric])
  finally have "uint (time_micros t + scast (micros d)) =
      uint (word_of_int (int (unat (time_micros t)) + sint (micros d)) :: u64)" by (simp only:)
  also have "\<dots> = (int (unat (time_micros t)) + sint (micros d)) mod 2 ^ 64"
    by (simp only: uint_word_of_int) simp
  finally show ?thesis
    by (simp only: time_wrapping_add_def time_from_micros_def as_micros_def time.sel uint_nat)
qed

end
