(* ===== verification/Timeout.thy ===== *)
theory Timeout
  imports Binary_Heap Time_Types
begin

text \<open>
  \<^verbatim>\<open>r3_kernel/src/timeout.rs\<close>: timed events and the system clock.  \<open>timekeeping\<close> is
  \<^verbatim>\<open>TimeoutGlobals\<close> with the contents of every \<^verbatim>\<open>Timeout\<close> (the cells which the property token
  unlocks) and the two things the port keeps, the present value of \<^verbatim>\<open>PortTimer::tick_count\<close>
  and the delay of the last \<^verbatim>\<open>pend_tick\<close> or \<^verbatim>\<open>pend_tick_after\<close>.  \<open>port_timer\<close> holds the
  constants of the trait \<^verbatim>\<open>PortTimer\<close> and the capacity of the heap.  A \<^verbatim>\<open>TimeoutRef\<close> names
  its owner: the blocked call of a task (its timeout lives on the stack of that task) or a timer.

  \<open>tk_inv\<close> is the invariant of the module: the heap is ordered by the distance of each arrival
  time from the critical point of the current event time, whatever that is, and no arrival time
  is further than the frontier permits.  It is kept by every operation, by the passage of time
  as long as no timeout goes past the critical point, and by \<^verbatim>\<open>adjust_time\<close>.

  The loop of \<^verbatim>\<open>handle_tick\<close> runs callbacks that work on the whole kernel; one iteration of it
  is \<open>take_expired\<close> here, the loop is in the theory of the kernel.
\<close>

section \<open>Constants and conversions\<close>

type_synonym time32 = u32

definition BAD_DURATION32 :: time32 where
  "BAD_DURATION32 = 0xffffffff"

definition USER_HEADROOM :: time32 where
  "USER_HEADROOM = 0x20000000"

definition HARD_HEADROOM :: time32 where
  "HARD_HEADROOM = 0x40000000"

definition HEAP_POS_NONE :: nat where
  "HEAP_POS_NONE = usize_max"

text \<open>The error of a conversion is \<^verbatim>\<open>BadParam\<close>; here \<open>None\<close>.\<close>

definition time32_from_duration :: "duration \<Rightarrow> time32 option" where
  "time32_from_duration d = (if 0 \<le> sint (as_micros d) then Some (as_micros d) else None)"

definition time32_from_neg_duration :: "duration \<Rightarrow> time32 option" where
  "time32_from_neg_duration d = (if 0 < sint (as_micros d) then None else Some (0 - as_micros d))"

definition wrapping_time32_from_duration :: "duration \<Rightarrow> time32" where
  "wrapping_time32_from_duration d = as_micros d"

definition wrapping_time64_from_duration :: "duration \<Rightarrow> u64" where
  "wrapping_time64_from_duration d = scast (as_micros d)"

section \<open>State\<close>

datatype timeout_callback = Interrupt_Task_By_Timeout | Timer_Timeout_Handler

datatype timeout_ref = TaskTimeout nat | TimerTimeout nat

record timeout =
  at :: time32
  heap_pos :: nat
  callback :: timeout_callback
  callback_param :: nat

definition Timeout_new :: "timeout_callback \<Rightarrow> nat \<Rightarrow> timeout" where
  "Timeout_new cb param = \<lparr>at = 0, heap_pos = HEAP_POS_NONE, callback = cb, callback_param = param\<rparr>"

definition with_at_raw :: "timeout \<Rightarrow> time32 \<Rightarrow> timeout" where
  "with_at_raw t x = t\<lparr>at := x\<rparr>"

definition with_expiration_at :: "timeout \<Rightarrow> time32 \<Rightarrow> timeout option" where
  "with_expiration_at t x = guard (x \<noteq> BAD_DURATION32) (Some (with_at_raw t x))"

record port_timer =
  MAX_TICK_COUNT :: u32
  MAX_TIMEOUT :: u32
  HEAP_CAPACITY :: nat

datatype pended_tick = PendTick | PendTickAfter u32

record timekeeping =
  tick_count :: u32
  pended_tick :: "pended_tick option"
  last_tick_count :: u32
  last_tick_time :: time32
  last_tick_sys_time :: u64
  frontier_gap :: time32
  heap :: "timeout_ref list"
  timeouts :: "timeout_ref \<Rightarrow> timeout"
  handle_tick_in_progress :: bool

section \<open>The heap context\<close>

definition TimeoutHeapCtx :: "time32 \<Rightarrow> (timeout_ref \<Rightarrow> timeout, timeout_ref) heap_context" where
  "TimeoutHeapCtx critical_point =
     \<lparr> ctx_lt = (\<lambda>s x y. at (s x) - critical_point < at (s y) - critical_point),
       ctx_on_move = (\<lambda>s e new_index. s(e := (s e)\<lparr>heap_pos := new_index\<rparr>)) \<rparr>"

section \<open>Ticks\<close>

definition checked_sub32 :: "u32 \<Rightarrow> u32 \<Rightarrow> u32 option" where
  "checked_sub32 x y = guard (y \<le> x) (Some (x - y))"

definition checked_add32 :: "u32 \<Rightarrow> u32 \<Rightarrow> u32 option" where
  "checked_add32 x y = guard (unat x + unat y < 2 ^ 32) (Some (x + y))"

definition saturating_sub32 :: "u32 \<Rightarrow> u32 \<Rightarrow> u32" where
  "saturating_sub32 x y = (if y \<le> x then x - y else 0)"

definition init_timekeeping :: "port_timer \<Rightarrow> timekeeping \<Rightarrow> timekeeping" where
  "init_timekeeping P g =
     g\<lparr>last_tick_count := tick_count g, pended_tick := Some (PendTickAfter (MAX_TIMEOUT P))\<rparr>"

definition duration_since_last_tick :: "port_timer \<Rightarrow> timekeeping \<Rightarrow> (time32 \<times> time32) option" where
  "duration_since_last_tick P g =
     do { elapsed \<leftarrow>
            (if MAX_TICK_COUNT P = 0xffffffff \<or> last_tick_count g \<le> tick_count g
             then Some (tick_count g - last_tick_count g)
             else checked_sub32 (tick_count g - last_tick_count g) (0xffffffff - MAX_TICK_COUNT P));
          Some (elapsed, tick_count g) }"

definition mark_tick :: "port_timer \<Rightarrow> timekeeping \<Rightarrow> timekeeping option" where
  "mark_tick P g =
     do { (d, count) \<leftarrow> duration_since_last_tick P g;
          Some (g\<lparr>last_tick_count := count,
                  last_tick_time := last_tick_time g + d,
                  last_tick_sys_time := last_tick_sys_time g + ucast d,
                  frontier_gap := saturating_sub32 (frontier_gap g) d\<rparr>) }"

definition current_time :: "port_timer \<Rightarrow> timekeeping \<Rightarrow> time32 option" where
  "current_time P g =
     do { (d, _) \<leftarrow> duration_since_last_tick P g; Some (last_tick_time g + d) }"

definition critical_point :: "time32 \<Rightarrow> time32" where
  "critical_point now = now - (HARD_HEADROOM + USER_HEADROOM)"

definition saturating_duration_until_timeout :: "timeout \<Rightarrow> time32 \<Rightarrow> time32" where
  "saturating_duration_until_timeout t now =
     saturating_sub32 (at t - critical_point now) (HARD_HEADROOM + USER_HEADROOM)"

definition saturating_duration_before_timeout_exhausting_user_headroom :: "timeout \<Rightarrow> time32 \<Rightarrow> time32" where
  "saturating_duration_before_timeout_exhausting_user_headroom t now =
     saturating_sub32 (at t - critical_point now) HARD_HEADROOM"

definition pend_next_tick :: "port_timer \<Rightarrow> timekeeping \<Rightarrow> time32 \<Rightarrow> timekeeping" where
  "pend_next_tick P g now =
     (let delay = MAX_TIMEOUT P;
          delay = (case heap g of [] \<Rightarrow> delay
                   | r # _ \<Rightarrow> min delay (saturating_duration_until_timeout (timeouts g r) now))
      in g\<lparr>pended_tick := Some (if delay = 0 then PendTick else PendTickAfter delay)\<rparr>)"

section \<open>Operations on one timeout\<close>

definition is_linked :: "timekeeping \<Rightarrow> timeout_ref \<Rightarrow> bool" where
  "is_linked g r \<longleftrightarrow> heap_pos (timeouts g r) \<noteq> HEAP_POS_NONE"

definition set_timeout :: "timeout_ref \<Rightarrow> timeout \<Rightarrow> timekeeping \<Rightarrow> timekeeping" where
  "set_timeout r t g = g\<lparr>timeouts := (timeouts g)(r := t)\<rparr>"

definition set_expiration_after ::
  "port_timer \<Rightarrow> timekeeping \<Rightarrow> timeout_ref \<Rightarrow> time32 \<Rightarrow> timekeeping option" where
  "set_expiration_after P g r d =
     guard (d \<noteq> BAD_DURATION32)
      (do { now \<leftarrow> current_time P g; Some (set_timeout r ((timeouts g r)\<lparr>at := now + d\<rparr>) g) })"

definition adjust_expiration :: "timekeeping \<Rightarrow> timeout_ref \<Rightarrow> time32 \<Rightarrow> timekeeping option" where
  "adjust_expiration g r d =
     guard (d \<noteq> BAD_DURATION32)
       (Some (set_timeout r ((timeouts g r)\<lparr>at := at (timeouts g r) + d\<rparr>) g))"

definition timeout_saturating_duration :: "port_timer \<Rightarrow> timekeeping \<Rightarrow> timeout_ref \<Rightarrow> time32 option" where
  "timeout_saturating_duration P g r =
     do { now \<leftarrow> current_time P g; Some (saturating_duration_until_timeout (timeouts g r) now) }"

definition at_raw :: "timekeeping \<Rightarrow> timeout_ref \<Rightarrow> time32" where
  "at_raw g r = at (timeouts g r)"

definition set_at_raw :: "timekeeping \<Rightarrow> timeout_ref \<Rightarrow> time32 \<Rightarrow> timekeeping" where
  "set_at_raw g r x = set_timeout r ((timeouts g r)\<lparr>at := x\<rparr>) g"

definition insert_timeout :: "port_timer \<Rightarrow> timekeeping \<Rightarrow> timeout_ref \<Rightarrow> timekeeping option" where
  "insert_timeout P g r =
     guard (heap_pos (timeouts g r) = HEAP_POS_NONE)
      (do { now \<leftarrow> current_time P g;
            (p, hp, ts) \<leftarrow> heap_push (TimeoutHeapCtx (critical_point now)) (HEAP_CAPACITY P)
                             (heap g) r (timeouts g);
            let g = g\<lparr>heap := hp, timeouts := ts\<rparr>;
            guard (heap_pos (timeouts g r) = p)
              (Some (if \<not> handle_tick_in_progress g then pend_next_tick P g now else g)) })"

definition remove_timeout_inner :: "port_timer \<Rightarrow> timekeeping \<Rightarrow> timeout_ref \<Rightarrow> timekeeping option" where
  "remove_timeout_inner P g r =
     do { now \<leftarrow> current_time P g;
          let pos = heap_pos (timeouts g r);
          (removed, hp, ts) \<leftarrow> heap_remove (TimeoutHeapCtx (critical_point now)) (heap g) pos (timeouts g);
          let g = g\<lparr>heap := hp, timeouts := ts\<rparr>;
          case removed of
            None \<Rightarrow> guard (pos = HEAP_POS_NONE) (Some g)
          | Some e \<Rightarrow> guard (e = r)
              (Some (if \<not> handle_tick_in_progress g then pend_next_tick P g now else g)) }"

definition remove_timeout :: "port_timer \<Rightarrow> timekeeping \<Rightarrow> timeout_ref \<Rightarrow> timekeeping option" where
  "remove_timeout P g r =
     do { g \<leftarrow> remove_timeout_inner P g r;
          Some (set_timeout r ((timeouts g r)\<lparr>heap_pos := HEAP_POS_NONE\<rparr>) g) }"

text \<open>
  One iteration of the loop of \<^verbatim>\<open>handle_tick\<close>, up to the call of the callback: the expired
  timeout at the top of the heap, already removed, or \<open>None\<close> when the loop ends.
\<close>

definition take_expired :: "timekeeping \<Rightarrow> time32 \<Rightarrow> (timeout_ref option \<times> timekeeping) option" where
  "take_expired g now =
     (case heap g of
        [] \<Rightarrow> Some (None, g)
      | r # _ \<Rightarrow>
          if 0 < saturating_duration_until_timeout (timeouts g r) now then Some (None, g)
          else guard (heap_pos (timeouts g r) = 0)
            (do { let g = set_timeout r ((timeouts g r)\<lparr>heap_pos := HEAP_POS_NONE\<rparr>) g;
                  (_, hp, ts) \<leftarrow> heap_remove (TimeoutHeapCtx (critical_point now)) (heap g) 0 (timeouts g);
                  Some (Some r, g\<lparr>heap := hp, timeouts := ts\<rparr>) }))"

section \<open>The global clock\<close>

definition tk_system_time :: "port_timer \<Rightarrow> timekeeping \<Rightarrow> u64 option" where
  "tk_system_time P g =
     do { (d, _) \<leftarrow> duration_since_last_tick P g; Some (last_tick_sys_time g + ucast d) }"

definition tk_set_system_time :: "port_timer \<Rightarrow> timekeeping \<Rightarrow> u64 \<Rightarrow> timekeeping option" where
  "tk_set_system_time P g new =
     do { (d, _) \<leftarrow> duration_since_last_tick P g; Some (g\<lparr>last_tick_sys_time := new - ucast d\<rparr>) }"

text \<open>\<open>False\<close> is the error \<^verbatim>\<open>BadObjectState\<close>.\<close>

definition tk_adjust_time :: "port_timer \<Rightarrow> timekeeping \<Rightarrow> duration \<Rightarrow> (bool \<times> timekeeping) option" where
  "tk_adjust_time P g delta =
     do { g \<leftarrow> mark_tick P g;
          r \<leftarrow>
           (if is_negative delta then
              do { delta_abs \<leftarrow> time32_from_neg_duration delta;
                   new_frontier_gap \<leftarrow> checked_add32 (frontier_gap g) delta_abs;
                   Some (if USER_HEADROOM < new_frontier_gap then None
                         else Some (g\<lparr>frontier_gap := new_frontier_gap\<rparr>)) }
            else if is_positive delta then
              do { delta_abs \<leftarrow> time32_from_duration delta;
                   Some (if heap g \<noteq> [] \<and>
                            saturating_duration_before_timeout_exhausting_user_headroom
                              (timeouts g (hd (heap g))) (last_tick_time g) < delta_abs
                         then None
                         else Some (g\<lparr>frontier_gap := saturating_sub32 (frontier_gap g) delta_abs\<rparr>)) }
            else Some (Some g));
          case r of
            None \<Rightarrow> Some (False, g)
          | Some g \<Rightarrow>
              if \<not> is_negative delta \<and> \<not> is_positive delta then Some (True, g)
              else
                let g = g\<lparr>last_tick_time := last_tick_time g + wrapping_time32_from_duration delta,
                          last_tick_sys_time := last_tick_sys_time g + wrapping_time64_from_duration delta\<rparr>
                in Some (True, pend_next_tick P g (last_tick_time g)) }"

text \<open>The passage of time: the hardware counter counts \<open>d\<close> ticks.\<close>

definition pass_time :: "port_timer \<Rightarrow> nat \<Rightarrow> timekeeping \<Rightarrow> timekeeping" where
  "pass_time P d g =
     g\<lparr>tick_count := of_nat ((unat (tick_count g) + d) mod (unat (MAX_TICK_COUNT P) + 1))\<rparr>"

section \<open>Elapsed time\<close>

definition elapsed :: "port_timer \<Rightarrow> timekeeping \<Rightarrow> nat" where
  "elapsed P g =
     (if last_tick_count g \<le> tick_count g then unat (tick_count g) - unat (last_tick_count g)
      else unat (tick_count g) + (unat (MAX_TICK_COUNT P) + 1) - unat (last_tick_count g))"

definition counts_ok :: "port_timer \<Rightarrow> timekeeping \<Rightarrow> bool" where
  "counts_ok P g \<longleftrightarrow> tick_count g \<le> MAX_TICK_COUNT P \<and> last_tick_count g \<le> MAX_TICK_COUNT P"

text \<open>The current event time.\<close>

definition event_time :: "port_timer \<Rightarrow> timekeeping \<Rightarrow> time32" where
  "event_time P g = last_tick_time g + of_nat (elapsed P g)"

lemma elapsed_le: "counts_ok P g \<Longrightarrow> elapsed P g \<le> unat (MAX_TICK_COUNT P)"
  by (auto simp: counts_ok_def elapsed_def word_le_nat_alt)

lemma elapsed_lt_2p32: "counts_ok P g \<Longrightarrow> elapsed P g < 2 ^ 32"
  using elapsed_le[of P g] unat_u32_lt[of "MAX_TICK_COUNT P"] by simp

lemma word_sub_as_nat:
  fixes x y :: u32
  shows "y \<le> x \<Longrightarrow> x - y = of_nat (unat x - unat y)"
    and "x < y \<Longrightarrow> x - y = of_nat (unat x + 2 ^ 32 - unat y)"
proof -
  show "y \<le> x \<Longrightarrow> x - y = of_nat (unat x - unat y)"
    by (simp add: of_nat_diff word_le_nat_alt)
  assume "x < y"
  then have "unat y \<le> unat x + 2 ^ 32" using unat_u32_lt[of y] by simp
  moreover have "(of_nat (2 ^ 32) :: u32) = 0" by simp
  ultimately show "x - y = of_nat (unat x + 2 ^ 32 - unat y)"
    by (simp only: of_nat_diff of_nat_add) simp
qed

lemma duration_since_last_tick_eq:
  assumes "counts_ok P g"
  shows "duration_since_last_tick P g = Some (of_nat (elapsed P g), tick_count g)"
proof (cases "last_tick_count g \<le> tick_count g")
  case True
  then show ?thesis
    by (simp add: duration_since_last_tick_def elapsed_def word_sub_as_nat)
next
  case False
  then have lt: "tick_count g < last_tick_count g" by simp
  let ?t = "unat (tick_count g)" and ?l = "unat (last_tick_count g)" and ?m = "unat (MAX_TICK_COUNT P)"
  have b: "?t < ?l" "?l \<le> ?m" "?m < 2 ^ 32"
    using lt assms unat_u32_lt[of "MAX_TICK_COUNT P"]
    by (simp_all add: counts_ok_def word_le_nat_alt word_less_nat_alt)
  have wrap: "tick_count g - last_tick_count g = of_nat (?t + 2 ^ 32 - ?l)"
    by (rule word_sub_as_nat(2)[OF lt])
  show ?thesis
  proof (cases "MAX_TICK_COUNT P = 0xffffffff")
    case True
    then have "?m + 1 = 2 ^ 32" by simp
    then show ?thesis using False wrap
      by (simp add: duration_since_last_tick_def elapsed_def True)
  next
    case ne: False
    have mx: "(0xffffffff - MAX_TICK_COUNT P) = of_nat (2 ^ 32 - 1 - ?m)"
      using word_sub_as_nat(1)[of "MAX_TICK_COUNT P" "0xffffffff"] b(3) by (simp add: word_le_nat_alt)
    have u1: "unat (of_nat (?t + 2 ^ 32 - ?l) :: u32) = ?t + 2 ^ 32 - ?l"
      by (rule unat_of_nat_lt) (use b in simp)
    have u2: "unat (of_nat (2 ^ 32 - 1 - ?m) :: u32) = 2 ^ 32 - 1 - ?m"
      by (rule unat_of_nat_lt) simp
    have le: "(of_nat (2 ^ 32 - 1 - ?m) :: u32) \<le> of_nat (?t + 2 ^ 32 - ?l)"
      unfolding word_le_nat_alt u1 u2 using b by linarith
    have "checked_sub32 (tick_count g - last_tick_count g) (0xffffffff - MAX_TICK_COUNT P) =
        Some (of_nat (?t + 2 ^ 32 - ?l - (2 ^ 32 - 1 - ?m)))"
      unfolding checked_sub32_def wrap mx word_sub_as_nat(1)[OF le] u1 u2 using le
      by (simp only: guard_simps)
    moreover have "?t + 2 ^ 32 - ?l - (2 ^ 32 - 1 - ?m) = elapsed P g"
      using False b by (simp add: elapsed_def)
    ultimately show ?thesis using False ne by (simp add: duration_since_last_tick_def)
  qed
qed

section \<open>Distances from the critical point\<close>

text \<open>
  \<open>HEADROOM\<close> is the width of the overdue zone, \<open>DURATION_MAX\<close> that of the zone in which new
  timeouts arrive.  The distance of a timeout from the critical point orders the heap.
\<close>

definition HEADROOM :: nat where
  "HEADROOM = 0x60000000"

definition DURATION_MAX :: nat where
  "DURATION_MAX = 0x7fffffff"

definition distance :: "timekeeping \<Rightarrow> time32 \<Rightarrow> timeout_ref \<Rightarrow> nat" where
  "distance g now r = unat (at (timeouts g r) - critical_point now)"

lemma headroom_word: "HARD_HEADROOM + USER_HEADROOM = 0x60000000"
  by (simp add: HARD_HEADROOM_def USER_HEADROOM_def)

lemma critical_point_diff: "x - critical_point now = (x - now) + 0x60000000"
  by (simp add: critical_point_def headroom_word)

lemma word_less_diff_iff: "(x :: u32) - c < y - c \<longleftrightarrow> unat (x - c) < unat (y - c)"
  by (simp add: word_less_nat_alt)

lemma saturating_until_eq:
  "unat (saturating_duration_until_timeout (timeouts g r) now) = distance g now r - HEADROOM"
  by (simp add: saturating_duration_until_timeout_def saturating_sub32_def headroom_word distance_def
      HEADROOM_def word_le_nat_alt unat_sub)

lemma saturating_user_headroom_eq:
  "unat (saturating_duration_before_timeout_exhausting_user_headroom (timeouts g r) now) =
   distance g now r - 0x40000000"
  by (simp add: saturating_duration_before_timeout_exhausting_user_headroom_def saturating_sub32_def
      HARD_HEADROOM_def distance_def word_le_nat_alt unat_sub)

text \<open>The current event time moves forward (backward) by \<open>d\<close>.\<close>

lemma distance_forward:
  assumes "d \<le> distance g now r"
  shows "distance g (now + of_nat d) r = distance g now r - d"
proof -
  let ?x = "at (timeouts g r) - critical_point now"
  have d: "unat (of_nat d :: u32) = d"
    using assms unat_u32_lt[of ?x] by (intro unat_of_nat_lt) (simp add: distance_def)
  have "at (timeouts g r) - critical_point (now + of_nat d) = ?x - of_nat d"
    by (simp add: critical_point_diff)
  moreover have "(of_nat d :: u32) \<le> ?x" using assms d by (simp add: word_le_nat_alt distance_def)
  ultimately show ?thesis using d by (simp only: distance_def unat_sub)
qed

lemma distance_backward:
  assumes "distance g now r + d < 2 ^ 32"
  shows "distance g (now - of_nat d) r = distance g now r + d"
proof -
  let ?x = "at (timeouts g r) - critical_point now"
  have d: "unat (of_nat d :: u32) = d" using assms by (intro unat_of_nat_lt) simp
  have "at (timeouts g r) - critical_point (now - of_nat d) = ?x + of_nat d"
    by (simp add: critical_point_diff)
  moreover have "unat (?x + of_nat d) = unat ?x + d"
    using assms d unat_add_lem[of ?x "of_nat d"] by (simp add: distance_def)
  ultimately show ?thesis by (simp only: distance_def)
qed

section \<open>The invariant\<close>

definition heap_ok :: "time32 \<Rightarrow> timekeeping \<Rightarrow> bool" where
  "heap_ok now g \<longleftrightarrow>
     heap_ord (distance g now) (heap g) \<and> distinct (heap g) \<and>
     positions_ok (\<lambda>r. heap_pos (timeouts g r)) (heap g) \<and>
     (\<forall>r. r \<notin> set (heap g) \<longrightarrow> heap_pos (timeouts g r) = HEAP_POS_NONE)"

text \<open>\<open>frontier g now gap\<close>: no arrival time is beyond the frontier plus the longest duration.\<close>

definition frontier_ok :: "time32 \<Rightarrow> nat \<Rightarrow> timekeeping \<Rightarrow> bool" where
  "frontier_ok now gap g \<longleftrightarrow>
     (\<forall>r \<in> set (heap g). distance g now r \<le> HEADROOM + DURATION_MAX + gap)"

definition tk_inv :: "port_timer \<Rightarrow> timekeeping \<Rightarrow> bool" where
  "tk_inv P g \<longleftrightarrow>
     counts_ok P g \<and> frontier_gap g \<le> USER_HEADROOM \<and>
     length (heap g) < HEAP_POS_NONE \<and>
     heap_ok (event_time P g) g \<and>
     frontier_ok (event_time P g) (unat (frontier_gap g) - elapsed P g) g"

lemma current_time_eq: "counts_ok P g \<Longrightarrow> current_time P g = Some (event_time P g)"
  by (simp add: current_time_def duration_since_last_tick_eq event_time_def)

lemma is_linked_iff:
  assumes "tk_inv P g"
  shows "is_linked g r \<longleftrightarrow> r \<in> set (heap g)"
proof
  assume "r \<in> set (heap g)"
  then obtain i where "i < length (heap g)" "heap g ! i = r" by (auto simp: in_set_conv_nth)
  then show "is_linked g r"
    using assms by (auto simp: is_linked_def tk_inv_def heap_ok_def positions_ok_def)
next
  assume "is_linked g r"
  then show "r \<in> set (heap g)" using assms by (auto simp: is_linked_def tk_inv_def heap_ok_def)
qed

lemma heap_ord_mono:
  assumes "heap_ord key xs" "\<And>x y. x \<in> set xs \<Longrightarrow> y \<in> set xs \<Longrightarrow> key x \<le> key y \<Longrightarrow> key' x \<le> key' y"
  shows "heap_ord key' xs"
  using assms parent_less by (auto simp: heap_ord_def) (meson nth_mem order.strict_trans)

text \<open>The context of the heap meets the contract of the heap, for every critical point.\<close>

interpretation hp: heap_ctx "TimeoutHeapCtx cp"
  "\<lambda>s r. unat (at (s r) - cp)" "\<lambda>s r. heap_pos (s r)" "\<lambda>s r. (s r)\<lparr>heap_pos := 0\<rparr>"
  for cp
  by unfold_locales (auto simp: TimeoutHeapCtx_def word_less_nat_alt)

lemma same_but_pos:
  fixes t t' :: timeout
  assumes "t\<lparr>heap_pos := 0\<rparr> = t'\<lparr>heap_pos := 0\<rparr>" "heap_pos t = heap_pos t'"
  shows "t = t'"
  using assms by (cases t; cases t') simp

text \<open>Only the positions of the elements of the heap change.\<close>

definition same_timeouts :: "(timeout_ref \<Rightarrow> timeout) \<Rightarrow> (timeout_ref \<Rightarrow> timeout) \<Rightarrow> bool" where
  "same_timeouts ts ts' \<longleftrightarrow> (\<forall>r. (ts r)\<lparr>heap_pos := 0\<rparr> = (ts' r)\<lparr>heap_pos := 0\<rparr>)"

lemma same_timeouts_at: "same_timeouts ts ts' \<Longrightarrow> at (ts' r) = at (ts r)"
  unfolding same_timeouts_def by (metis timeout.select_convs(1) timeout.surjective timeout.update_convs(2))

lemma same_timeouts_refl [simp]: "same_timeouts ts ts"
  by (simp add: same_timeouts_def)

lemma same_timeouts_trans: "same_timeouts a b \<Longrightarrow> same_timeouts b c \<Longrightarrow> same_timeouts a c"
  by (simp add: same_timeouts_def)

lemma same_timeouts_pos_upd [simp]:
  "same_timeouts (s(r := (s r)\<lparr>heap_pos := x\<rparr>)) ts = same_timeouts s ts"
  unfolding same_timeouts_def by (rule iff_allI) simp

lemma distance_same: "same_timeouts (timeouts g) (timeouts g') \<Longrightarrow> distance g' now = distance g now"
  by (simp add: distance_def fun_eq_iff same_timeouts_at)

section \<open>The heap operations on the timekeeping state\<close>

definition with_heap :: "timeout_ref list \<Rightarrow> (timeout_ref \<Rightarrow> timeout) \<Rightarrow> timekeeping \<Rightarrow> timekeeping" where
  "with_heap hp ts g = g\<lparr>heap := hp, timeouts := ts\<rparr>"

lemma push_timeout:
  assumes ok: "heap_ok now g" and r: "r \<notin> set (heap g)" and cap: "length (heap g) < cap"
  shows "\<exists>p hp ts. heap_push (TimeoutHeapCtx (critical_point now)) cap (heap g) r (timeouts g) = Some (p, hp, ts)
    \<and> heap_pos (ts r) = p \<and> heap_ok now (with_heap hp ts g) \<and> mset hp = add_mset r (mset (heap g))
    \<and> same_timeouts (timeouts g) ts"
proof -
  let ?c = "critical_point now"
  have "hp.heap_inv ?c (timeouts g) (heap g)"
    using ok by (simp add: heap_ok_def hp.heap_inv_def distance_def[abs_def])
  from hp.heap_push_ok[OF this r cap] obtain p hp ts where h:
    "heap_push (TimeoutHeapCtx ?c) cap (heap g) r (timeouts g) = Some (p, hp, ts)"
    "hp.heap_inv ?c ts hp" "mset hp = add_mset r (mset (heap g))"
    "(\<lambda>r. (ts r)\<lparr>heap_pos := 0\<rparr>) = (\<lambda>r. (timeouts g r)\<lparr>heap_pos := 0\<rparr>)" "heap_pos (ts r) = p"
    "\<forall>y. y \<notin> set hp \<longrightarrow> heap_pos (ts y) = heap_pos (timeouts g y)" by blast
  have st: "same_timeouts (timeouts g) ts" using h(4) by (simp add: same_timeouts_def fun_eq_iff)
  have "set hp = insert r (set (heap g))" using h(3) by (metis set_mset_add_mset_insert set_mset_mset)
  then have "heap_ok now (with_heap hp ts g)"
    using h(2,6) ok by (simp add: heap_ok_def hp.heap_inv_def distance_def[abs_def] with_heap_def)
  with h st show ?thesis by blast
qed

text \<open>Removal, when the position recorded in the removed timeout may have been overwritten.\<close>

definition heap_ok_but :: "time32 \<Rightarrow> timekeeping \<Rightarrow> nat \<Rightarrow> bool" where
  "heap_ok_but now g i \<longleftrightarrow>
     heap_ord (distance g now) (heap g) \<and> distinct (heap g) \<and>
     (\<forall>j < length (heap g). j \<noteq> i \<longrightarrow> heap_pos (timeouts g (heap g ! j)) = j) \<and>
     (\<forall>r. r \<notin> set (heap g) \<longrightarrow> heap_pos (timeouts g r) = HEAP_POS_NONE)"

lemma remove_timeout_at:
  assumes ok: "heap_ok_but now g i" and i: "i < length (heap g)"
  shows "\<exists>hp ts. heap_remove (TimeoutHeapCtx (critical_point now)) (heap g) i (timeouts g)
      = Some (Some (heap g ! i), hp, ts)
    \<and> heap_ord (distance g now) hp \<and> distinct hp \<and> positions_ok (\<lambda>r. heap_pos (ts r)) hp
    \<and> mset hp = mset (heap g) - {#heap g ! i#} \<and> same_timeouts (timeouts g) ts
    \<and> (\<forall>y. y \<notin> set hp \<longrightarrow> heap_pos (ts y) = heap_pos (timeouts g y))"
proof -
  let ?c = "critical_point now"
  have "hp.heap_inv_but ?c (timeouts g) (heap g) i"
    using ok by (simp add: heap_ok_but_def hp.heap_inv_but_def distance_def[abs_def])
  from hp.heap_remove_but_ok[OF this i] obtain hp ts where h:
    "heap_remove (TimeoutHeapCtx ?c) (heap g) i (timeouts g) = Some (Some (heap g ! i), hp, ts)"
    "hp.heap_inv ?c ts hp" "mset hp = mset (heap g) - {#heap g ! i#}"
    "(\<lambda>r. unat (at (ts r) - ?c)) = (\<lambda>r. unat (at (timeouts g r) - ?c))"
    "(\<lambda>r. (ts r)\<lparr>heap_pos := 0\<rparr>) = (\<lambda>r. (timeouts g r)\<lparr>heap_pos := 0\<rparr>)"
    "\<forall>y. y \<notin> set hp \<longrightarrow> heap_pos (ts y) = heap_pos (timeouts g y)" by blast
  have "same_timeouts (timeouts g) ts" using h(5) by (simp add: same_timeouts_def fun_eq_iff)
  with h show ?thesis by (auto simp: hp.heap_inv_def distance_def[abs_def])
qed

section \<open>Every operation keeps the invariant\<close>

text \<open>What operations on timeouts leave alone: the clocks, and all of a timeout but its position.\<close>

definition tk_same :: "timekeeping \<Rightarrow> timekeeping \<Rightarrow> bool" where
  "tk_same g g' \<longleftrightarrow>
     tick_count g' = tick_count g \<and> last_tick_count g' = last_tick_count g \<and>
     last_tick_time g' = last_tick_time g \<and> last_tick_sys_time g' = last_tick_sys_time g \<and>
     frontier_gap g' = frontier_gap g \<and> handle_tick_in_progress g' = handle_tick_in_progress g"

text \<open>The present gap between the frontier and the current event time.\<close>

definition present_gap :: "port_timer \<Rightarrow> timekeeping \<Rightarrow> nat" where
  "present_gap P g = unat (frontier_gap g) - elapsed P g"

text \<open>The pended tick does not come after any timeout.\<close>

definition tick_delay :: "pended_tick \<Rightarrow> nat" where
  "tick_delay p = (case p of PendTick \<Rightarrow> 0 | PendTickAfter d \<Rightarrow> unat d)"

definition tick_scheduled :: "port_timer \<Rightarrow> time32 \<Rightarrow> timekeeping \<Rightarrow> bool" where
  "tick_scheduled P now g \<longleftrightarrow>
     (case pended_tick g of None \<Rightarrow> False
      | Some p \<Rightarrow> tick_delay p \<le> unat (MAX_TIMEOUT P) \<and>
          (\<forall>r \<in> set (heap g). tick_delay p \<le> distance g now r - HEADROOM))"

lemma tk_same_refl [simp]: "tk_same g g"
  by (simp add: tk_same_def)

lemma tk_same_trans: "tk_same a b \<Longrightarrow> tk_same b c \<Longrightarrow> tk_same a c"
  by (simp add: tk_same_def)

lemma tk_same_elapsed: "tk_same g g' \<Longrightarrow> elapsed P g' = elapsed P g"
  by (simp add: tk_same_def elapsed_def)

lemma tk_same_event_time: "tk_same g g' \<Longrightarrow> event_time P g' = event_time P g"
  by (simp add: tk_same_def event_time_def elapsed_def)

lemma tk_same_gap: "tk_same g g' \<Longrightarrow> present_gap P g' = present_gap P g"
  by (simp add: present_gap_def tk_same_elapsed) (simp add: tk_same_def)

lemma tk_same_counts: "tk_same g g' \<Longrightarrow> counts_ok P g' = counts_ok P g"
  by (simp add: tk_same_def counts_ok_def)

lemma tk_inv_alt:
  "tk_inv P g \<longleftrightarrow> counts_ok P g \<and> frontier_gap g \<le> USER_HEADROOM \<and>
     length (heap g) < HEAP_POS_NONE \<and> heap_ok (event_time P g) g \<and>
     frontier_ok (event_time P g) (present_gap P g) g"
  by (simp add: tk_inv_def present_gap_def)

lemma pend_next_tick_scheduled:
  assumes "heap_ord (distance g now) (heap g)"
  shows "tick_scheduled P now (pend_next_tick P g now)"
proof -
  let ?m = "MAX_TIMEOUT P"
  have dist: "distance (pend_next_tick P g now) now = distance g now"
    by (simp add: distance_def fun_eq_iff pend_next_tick_def Let_def)
  show ?thesis
  proof (cases "heap g")
    case Nil
    then show ?thesis by (simp add: pend_next_tick_def tick_scheduled_def tick_delay_def Let_def)
  next
    case (Cons r rs)
    let ?d = "min ?m (saturating_duration_until_timeout (timeouts g r) now)"
    have "unat ?d \<le> unat ?m" by (metis min.cobounded1 word_le_nat_alt)
    moreover have "unat ?d \<le> distance g now x - HEADROOM" if "x \<in> set (heap g)" for x
    proof -
      have "unat ?d \<le> distance g now r - HEADROOM"
        unfolding saturating_until_eq[symmetric] by (metis min.cobounded2 word_le_nat_alt)
      also have "distance g now r \<le> distance g now x"
        using heap_ord_root[OF assms that] Cons by simp
      then have "distance g now r - HEADROOM \<le> distance g now x - HEADROOM" by (rule diff_le_mono)
      finally show ?thesis .
    qed
    moreover have "tick_delay (if ?d = 0 then PendTick else PendTickAfter ?d) = unat ?d"
      by (simp add: tick_delay_def)
    moreover have "pended_tick (pend_next_tick P g now) = Some (if ?d = 0 then PendTick else PendTickAfter ?d)"
      "heap (pend_next_tick P g now) = heap g"
      using Cons by (simp_all add: pend_next_tick_def Let_def)
    ultimately show ?thesis by (auto simp only: tick_scheduled_def dist option.case)
  qed
qed

lemma pend_next_tick_simps [simp]:
  "tk_same h (pend_next_tick P g now) = tk_same h g" "heap (pend_next_tick P g now) = heap g"
  "timeouts (pend_next_tick P g now) = timeouts g"
  "tk_same (pend_next_tick P g now) h = tk_same g h"
  by (simp_all add: pend_next_tick_def Let_def tk_same_def)

text \<open>The invariant depends on the clocks, the heap and the contents of the timeouts only.\<close>

lemma tk_inv_cong:
  assumes "tk_same g g'" "heap g' = heap g" "timeouts g' = timeouts g"
  shows "tk_inv P g' = tk_inv P g"
proof -
  have d: "distance g' = distance g" by (simp add: distance_def fun_eq_iff assms(3))
  have f: "frontier_gap g' = frontier_gap g" using assms(1) by (simp add: tk_same_def)
  show ?thesis
    unfolding tk_inv_alt tk_same_counts[OF assms(1)] tk_same_event_time[OF assms(1)]
      tk_same_gap[OF assms(1)] heap_ok_def frontier_ok_def d f assms(2,3) ..
qed

lemma tk_invI:
  assumes "tk_inv P g" "tk_same g g'" "length (heap g') < HEAP_POS_NONE"
    and "heap_ok (event_time P g) g'" "frontier_ok (event_time P g) (present_gap P g) g'"
  shows "tk_inv P g'"
proof -
  have "frontier_gap g' \<le> USER_HEADROOM" using assms(1,2) by (simp add: tk_same_def tk_inv_alt)
  then show ?thesis
    unfolding tk_inv_alt tk_same_counts[OF assms(2)] tk_same_event_time[OF assms(2)] tk_same_gap[OF assms(2)]
    using assms by (simp add: tk_inv_alt)
qed

lemma tk_inv_pend [simp]: "tk_inv P (pend_next_tick P g now) = tk_inv P g"
  by (rule tk_inv_cong) simp_all

lemma tk_same_with_heap [simp]: "tk_same h (with_heap hp ts g) = tk_same h g" "tk_same (with_heap hp ts g) h = tk_same g h"
  by (simp_all add: tk_same_def with_heap_def)

lemma with_heap_simps [simp]: "heap (with_heap hp ts g) = hp" "timeouts (with_heap hp ts g) = ts"
  by (simp_all add: with_heap_def)

text \<open>
  Inserting a timeout succeeds whatever its arrival time is: the heap is ordered and the next tick
  is scheduled afterwards.  The invariant holds if and only if the arrival time is within the frontier.
\<close>

lemma insert_timeout_any:
  assumes inv: "tk_inv P g" and r: "r \<notin> set (heap g)"
    and cap: "length (heap g) < HEAP_CAPACITY P" "HEAP_CAPACITY P < HEAP_POS_NONE"
  shows "\<exists>g'. insert_timeout P g r = Some g' \<and> tk_same g g' \<and>
    (tk_inv P g' \<longleftrightarrow> distance g (event_time P g) r \<le> HEADROOM + DURATION_MAX + present_gap P g) \<and>
    same_timeouts (timeouts g) (timeouts g') \<and> mset (heap g') = add_mset r (mset (heap g)) \<and>
    (\<not> handle_tick_in_progress g \<longrightarrow> tick_scheduled P (event_time P g) g')"
proof -
  let ?now = "event_time P g"
  have ok: "heap_ok ?now g" and cnt: "counts_ok P g" using inv by (simp_all add: tk_inv_def)
  obtain p hp ts where h:
    "heap_push (TimeoutHeapCtx (critical_point ?now)) (HEAP_CAPACITY P) (heap g) r (timeouts g) = Some (p, hp, ts)"
    "heap_pos (ts r) = p" "heap_ok ?now (with_heap hp ts g)" "mset hp = add_mset r (mset (heap g))"
    "same_timeouts (timeouts g) ts"
    using push_timeout[OF ok r cap(1)] by blast
  let ?g = "with_heap hp ts g"
  have hpset: "set hp = insert r (set (heap g))" using h(4) by (metis set_mset_add_mset_insert set_mset_mset)
  have "length hp = Suc (length (heap g))" using h(4) by (metis size_add_mset size_mset)
  then have len: "length hp < HEAP_POS_NONE" using cap by linarith
  have dist: "distance ?g ?now = distance g ?now" using h(5) by (simp add: distance_same)
  have s: "tk_same g ?g" by simp
  have "frontier_ok ?now (present_gap P g) ?g \<longleftrightarrow>
      distance g ?now r \<le> HEADROOM + DURATION_MAX + present_gap P g"
    using inv by (auto simp: frontier_ok_def hpset dist tk_inv_alt)
  then have inv': "tk_inv P ?g \<longleftrightarrow> distance g ?now r \<le> HEADROOM + DURATION_MAX + present_gap P g"
    using tk_invI[OF inv s] h(3) len
    by (auto simp: tk_inv_alt[of P ?g] tk_same_event_time[OF s] tk_same_gap[OF s])
  let ?g' = "if \<not> handle_tick_in_progress g then pend_next_tick P ?g ?now else ?g"
  have ins: "insert_timeout P g r = Some ?g'"
    using h(1,2) ok r cnt
    by (simp add: insert_timeout_def current_time_eq heap_ok_def with_heap_def)
  have sched: "tick_scheduled P ?now (pend_next_tick P ?g ?now)"
    using h(3) by (intro pend_next_tick_scheduled) (simp add: heap_ok_def)
  show ?thesis
    by (rule exI[of _ ?g'], intro conjI) (use ins inv' h(4,5) sched in \<open>simp_all\<close>)
qed

lemma insert_timeout_ok:
  assumes inv: "tk_inv P g" and r: "r \<notin> set (heap g)"
    and cap: "length (heap g) < HEAP_CAPACITY P" "HEAP_CAPACITY P < HEAP_POS_NONE"
    and d: "distance g (event_time P g) r \<le> HEADROOM + DURATION_MAX + present_gap P g"
  shows "\<exists>g'. insert_timeout P g r = Some g' \<and> tk_inv P g' \<and> tk_same g g' \<and>
    same_timeouts (timeouts g) (timeouts g') \<and> mset (heap g') = add_mset r (mset (heap g)) \<and>
    (\<not> handle_tick_in_progress g \<longrightarrow> tick_scheduled P (event_time P g) g')"
  using insert_timeout_any[OF inv r cap] d by blast

text \<open>The state after a removal, with the position of the removed timeout reset.\<close>

lemma distinct_mem_mset_remove: "distinct xs \<Longrightarrow> mset ys = mset xs - {#x#} \<Longrightarrow> x \<notin> set ys"
  by (metis mset_remove1 mset_eq_setD set_remove1_eq Diff_iff singletonI)

lemma removed_ok:
  assumes inv: "tk_inv P g" and s: "tk_same g g'"
    and hp: "heap_ord (distance g (event_time P g)) (heap g')" "distinct (heap g')"
    and pos: "positions_ok (\<lambda>r. heap_pos (timeouts g' r)) (heap g')"
    and m: "mset (heap g') = mset (heap g) - {#r#}" "r \<in> set (heap g)"
    and st: "same_timeouts (timeouts g) (timeouts g')"
    and out: "\<forall>y. y \<notin> set (heap g') \<longrightarrow> heap_pos (timeouts g' y) = HEAP_POS_NONE"
  shows "tk_inv P g'" "set (heap g') = set (heap g) - {r}"
proof -
  let ?now = "event_time P g"
  have dist: "distance g' ?now = distance g ?now" using st by (simp add: distance_same)
  have d: "distinct (heap g)" using inv by (simp add: tk_inv_def heap_ok_def)
  have sub: "set (heap g') \<subseteq> set (heap g)" using m(1) by (metis in_diffD set_mset_mset subsetI)
  show "set (heap g') = set (heap g) - {r}"
  proof -
    have "mset (heap g') = mset (remove1 r (heap g))" using m(1) by simp
    then show ?thesis using set_remove1_eq[OF d, of r] by (metis mset_eq_setD)
  qed
  have "size (mset (heap g')) \<le> size (mset (heap g))" unfolding m(1) by (rule size_mset_mono) simp
  then have "length (heap g') < HEAP_POS_NONE" using inv by (simp add: tk_inv_def)
  moreover have "heap_ok ?now g'" using hp pos out by (simp add: heap_ok_def dist)
  moreover have "frontier_ok ?now (present_gap P g) g'"
    using inv sub by (auto simp: frontier_ok_def dist tk_inv_alt)
  ultimately show "tk_inv P g'" using inv s by (intro tk_invI[OF inv])
qed

lemma timeouts_set_timeout [simp]:
  "timeouts (set_timeout r t g) = (timeouts g)(r := t)" "heap (set_timeout r t g) = heap g"
  "tk_same h (set_timeout r t g) = tk_same h g" "tk_same (set_timeout r t g) h = tk_same g h"
  "pended_tick (set_timeout r t g) = pended_tick g"
  by (simp_all add: set_timeout_def tk_same_def)

text \<open>Writing to a timeout which is not in the heap.\<close>

lemma set_timeout_inv:
  assumes inv: "tk_inv P g" and r: "r \<notin> set (heap g)" and p: "heap_pos t = HEAP_POS_NONE"
  shows "tk_inv P (set_timeout r t g)"
proof -
  let ?g = "set_timeout r t g" and ?now = "event_time P g"
  have dist: "distance ?g ?now x = distance g ?now x" if "x \<in> set (heap g)" for x
    using that r by (auto simp: distance_def)
  have "heap_ord (distance ?g ?now) (heap g)"
    using inv dist by (auto simp: tk_inv_def heap_ok_def intro: heap_ord_mono)
  moreover have "positions_ok (\<lambda>x. heap_pos (timeouts ?g x)) (heap g)"
    using inv r by (auto simp: tk_inv_def heap_ok_def positions_ok_def)
  ultimately have "heap_ok ?now ?g" using inv p by (simp add: tk_inv_def heap_ok_def)
  moreover have "frontier_ok ?now (present_gap P g) ?g"
    using inv dist by (simp add: tk_inv_alt frontier_ok_def)
  ultimately show ?thesis using inv by (intro tk_invI[OF inv]) (simp_all add: tk_inv_def)
qed

lemma set_expiration_after_ok:
  assumes inv: "tk_inv P g" and r: "r \<notin> set (heap g)" and d: "d \<noteq> BAD_DURATION32"
  defines "g' \<equiv> set_timeout r ((timeouts g r)\<lparr>at := event_time P g + d\<rparr>) g"
  shows "set_expiration_after P g r d = Some g'" "tk_inv P g'"
    "unat d \<le> DURATION_MAX + gap \<Longrightarrow> gap \<le> unat USER_HEADROOM \<Longrightarrow>
       distance g' (event_time P g) r \<le> HEADROOM + DURATION_MAX + gap"
proof -
  have cnt: "counts_ok P g" using inv by (simp add: tk_inv_def)
  show "set_expiration_after P g r d = Some g'"
    using d by (simp add: set_expiration_after_def current_time_eq[OF cnt] g'_def)
  have "heap_pos (timeouts g r) = HEAP_POS_NONE" using inv r by (simp add: tk_inv_def heap_ok_def)
  then show "tk_inv P g'" unfolding g'_def by (intro set_timeout_inv[OF inv r]) simp
  assume "unat d \<le> DURATION_MAX + gap" "gap \<le> unat USER_HEADROOM"
  moreover have "distance g' (event_time P g) r = unat (d + 0x60000000)"
    by (simp add: distance_def critical_point_diff g'_def)
  moreover have "unat (d + 0x60000000) = unat d + 0x60000000"
    using calculation(1,2) unat_add_lem[of d "0x60000000"]
    by (simp add: DURATION_MAX_def USER_HEADROOM_def)
  ultimately show "distance g' (event_time P g) r \<le> HEADROOM + DURATION_MAX + gap"
    by (simp add: HEADROOM_def)
qed

lemma remove_timeout_ok:
  assumes inv: "tk_inv P g"
  shows "\<exists>g'. remove_timeout P g r = Some g' \<and> tk_inv P g' \<and> tk_same g g' \<and>
    same_timeouts (timeouts g) (timeouts g') \<and> set (heap g') = set (heap g) - {r} \<and>
    (r \<in> set (heap g) \<longrightarrow> \<not> handle_tick_in_progress g \<longrightarrow> tick_scheduled P (event_time P g) g')"
proof -
  let ?now = "event_time P g"
  have cnt: "counts_ok P g" and ok: "heap_ok ?now g" and len: "length (heap g) < HEAP_POS_NONE"
    using inv by (simp_all add: tk_inv_def)
  show ?thesis
  proof (cases "r \<in> set (heap g)")
    case False
    then have none: "heap_pos (timeouts g r) = HEAP_POS_NONE" using ok by (simp add: heap_ok_def)
    then have "timeouts g r = (timeouts g r)\<lparr>heap_pos := HEAP_POS_NONE\<rparr>" by simp
    then have id: "set_timeout r ((timeouts g r)\<lparr>heap_pos := HEAP_POS_NONE\<rparr>) g = g"
      by (simp add: set_timeout_def fun_upd_idem)
    have "remove_timeout_inner P g r = Some g"
      using none len by (simp add: remove_timeout_inner_def current_time_eq[OF cnt] hp.heap_remove_none)
    then have "remove_timeout P g r = Some g" using id by (simp add: remove_timeout_def)
    then show ?thesis using inv False by simp
  next
    case True
    then obtain i where i: "i < length (heap g)" "heap g ! i = r" by (auto simp: in_set_conv_nth)
    then have pos: "heap_pos (timeouts g r) = i" using ok by (auto simp: heap_ok_def positions_ok_def)
    have "heap_ok_but ?now g i" using ok by (simp add: heap_ok_def heap_ok_but_def positions_ok_def)
    from remove_timeout_at[OF this i(1)] obtain hp ts where h:
      "heap_remove (TimeoutHeapCtx (critical_point ?now)) (heap g) i (timeouts g) = Some (Some r, hp, ts)"
      "heap_ord (distance g ?now) hp" "distinct hp" "positions_ok (\<lambda>r. heap_pos (ts r)) hp"
      "mset hp = mset (heap g) - {#r#}" "same_timeouts (timeouts g) ts"
      "\<forall>y. y \<notin> set hp \<longrightarrow> heap_pos (ts y) = heap_pos (timeouts g y)" using i(2) by auto
    let ?g = "with_heap hp ts g"
    let ?g1 = "if \<not> handle_tick_in_progress g then pend_next_tick P ?g ?now else ?g"
    let ?g' = "set_timeout r ((ts r)\<lparr>heap_pos := HEAP_POS_NONE\<rparr>) ?g1"
    have "remove_timeout_inner P g r = Some ?g1"
      using h(1) pos by (simp add: remove_timeout_inner_def current_time_eq[OF cnt] with_heap_def)
    then have rm: "remove_timeout P g r = Some ?g'" by (simp add: remove_timeout_def)
    have heap': "heap ?g' = hp" and ts': "timeouts ?g' = ts(r := (ts r)\<lparr>heap_pos := HEAP_POS_NONE\<rparr>)"
      and same: "tk_same g ?g'" by simp_all
    have st: "same_timeouts (timeouts g) (timeouts ?g')"
      using h(6) unfolding ts' by (simp add: same_timeouts_def)
    have "distinct (heap g)" using ok by (simp add: heap_ok_def)
    then have nin: "r \<notin> set hp" using h(5) by (metis distinct_mem_mset_remove True)
    have p': "positions_ok (\<lambda>r. heap_pos (timeouts ?g' r)) (heap ?g')"
      using h(4) nin unfolding heap' ts' by (auto simp: positions_ok_def)
    have out: "\<forall>y. y \<notin> set (heap ?g') \<longrightarrow> heap_pos (timeouts ?g' y) = HEAP_POS_NONE"
    proof (intro allI impI)
      fix y assume "y \<notin> set (heap ?g')"
      then have y: "y \<notin> set hp" by (simp only: heap' not_False_eq_True)
      show "heap_pos (timeouts ?g' y) = HEAP_POS_NONE"
      proof (cases "y = r")
        case False
        have "y \<notin> set (heap g)" using y h(5) False
          by (metis mset_remove1 mset_eq_setD in_set_remove1)
        then show ?thesis using False h(7) y ok by (simp add: heap_ok_def)
      qed simp
    qed
    note res = removed_ok[OF inv same, unfolded heap', OF h(2,3) p'[unfolded heap'] h(5) True st out[unfolded heap']]
    have sched: "tick_scheduled P ?now (set_timeout r t (pend_next_tick P ?g ?now))" for t
    proof -
      have "heap_ord (distance ?g ?now) hp" using h(2,6) by (simp add: distance_same)
      then have "tick_scheduled P ?now (pend_next_tick P ?g ?now)"
        by (intro pend_next_tick_scheduled) simp
      moreover have "distance (set_timeout r t (pend_next_tick P ?g ?now)) ?now x =
          distance (pend_next_tick P ?g ?now) ?now x" if "x \<in> set hp" for x
        using that nin by (auto simp: distance_def)
      ultimately show ?thesis by (auto simp: tick_scheduled_def split: option.splits)
    qed
    show ?thesis
      by (rule exI[of _ ?g'], intro conjI) (use rm res same st sched in \<open>simp_all\<close>)
  qed
qed

lemma take_expired_ok:
  assumes inv: "tk_inv P g" and now: "now = event_time P g"
  shows "\<exists>res g'. take_expired g now = Some (res, g') \<and> tk_inv P g' \<and> tk_same g g' \<and>
    same_timeouts (timeouts g) (timeouts g') \<and> pended_tick g' = pended_tick g \<and>
    (case res of
       None \<Rightarrow> g' = g \<and> (\<forall>r \<in> set (heap g). HEADROOM < distance g now r)
     | Some r \<Rightarrow> r \<in> set (heap g) \<and> distance g now r \<le> HEADROOM \<and>
         (\<forall>x \<in> set (heap g). distance g now r \<le> distance g now x) \<and>
         mset (heap g') = mset (heap g) - {#r#})"
proof (cases "heap g")
  case Nil
  then show ?thesis using inv by (simp add: take_expired_def)
next
  case (Cons r rs)
  have ok: "heap_ok now g" using inv by (simp add: tk_inv_def now)
  have r: "r \<in> set (heap g)" using Cons by simp
  have root: "distance g now r \<le> distance g now x" if "x \<in> set (heap g)" for x
    using heap_ord_root[of "distance g now" "heap g" x] ok that Cons by (simp add: heap_ok_def)
  have exp: "(0 < saturating_duration_until_timeout (timeouts g r) now) = (HEADROOM < distance g now r)"
    using saturating_until_eq[of g r now] by (simp add: word_less_nat_alt)
  show ?thesis
  proof (cases "HEADROOM < distance g now r")
    case True
    then have "\<forall>x \<in> set (heap g). HEADROOM < distance g now x" using root order.strict_trans2 by blast
    then show ?thesis using inv True exp Cons by (simp add: take_expired_def)
  next
    case False
    let ?g = "set_timeout r ((timeouts g r)\<lparr>heap_pos := HEAP_POS_NONE\<rparr>) g"
    have pos: "heap_pos (timeouts g r) = 0" using ok Cons by (auto simp: heap_ok_def positions_ok_def)
    have d: "distinct (heap g)" using ok by (simp add: heap_ok_def)
    have dist: "distance ?g now = distance g now" by (simp add: distance_def fun_eq_iff)
    have "heap_pos (timeouts g (heap g ! j)) = j \<and> heap g ! j \<noteq> r" if "j < length (heap g)" "j \<noteq> 0" for j
    proof -
      have "heap g ! j \<noteq> heap g ! 0" using d that Cons by (subst nth_eq_iff_index_eq) auto
      moreover have "heap_pos (timeouts g (heap g ! j)) = j"
        using ok that(1) by (simp add: heap_ok_def positions_ok_def)
      ultimately show ?thesis using Cons by simp
    qed
    then have "heap_ok_but now ?g 0" using ok r by (auto simp: heap_ok_but_def heap_ok_def dist)
    from remove_timeout_at[OF this] obtain hp ts where h:
      "heap_remove (TimeoutHeapCtx (critical_point now)) (heap g) 0 (timeouts ?g) = Some (Some r, hp, ts)"
      "heap_ord (distance g now) hp" "distinct hp" "positions_ok (\<lambda>r. heap_pos (ts r)) hp"
      "mset hp = mset (heap g) - {#r#}" "same_timeouts (timeouts ?g) ts"
      "\<forall>y. y \<notin> set hp \<longrightarrow> heap_pos (ts y) = heap_pos (timeouts ?g y)"
      using Cons dist by auto
    let ?g' = "with_heap hp ts ?g"
    have st: "same_timeouts (timeouts g) ts" using h(6) by simp
    have out: "\<forall>y. y \<notin> set (heap ?g') \<longrightarrow> heap_pos (timeouts ?g' y) = HEAP_POS_NONE"
    proof (intro allI impI)
      fix y assume "y \<notin> set (heap ?g')"
      then have y: "y \<notin> set hp" by simp
      show "heap_pos (timeouts ?g' y) = HEAP_POS_NONE"
      proof (cases "y = r")
        case False
        have "y \<notin> set (heap g)" using y h(5) False
          by (metis mset_remove1 mset_eq_setD in_set_remove1)
        then show ?thesis using False h(7) y ok by (simp add: heap_ok_def)
      qed (use h(7) y in simp)
    qed
    have "take_expired g now = Some (Some r, ?g')"
      using Cons exp False pos h(1) by (simp add: take_expired_def with_heap_def)
    moreover have "tk_inv P ?g'"
      by (rule removed_ok(1)[OF inv, of _ r]) (use h out st r in \<open>simp_all add: now[symmetric]\<close>)
    moreover have "pended_tick ?g' = pended_tick g" by (simp add: with_heap_def)
    ultimately show ?thesis using r root False st h(5) by (auto intro!: exI)
  qed
qed

section \<open>The clocks\<close>

text \<open>The present system time; \<open>mark_tick\<close> changes neither clock.\<close>

definition system_time_now :: "port_timer \<Rightarrow> timekeeping \<Rightarrow> u64" where
  "system_time_now P g = last_tick_sys_time g + of_nat (elapsed P g)"

lemma ucast_of_nat_u32: "n < 2 ^ 32 \<Longrightarrow> (ucast (of_nat n :: u32) :: u64) = of_nat n"
  by (simp add: word_unat_eq_iff unat_of_nat unsigned_ucast_eq take_bit_nat_eq_self)

lemma tk_system_time_eq: "counts_ok P g \<Longrightarrow> tk_system_time P g = Some (system_time_now P g)"
  using elapsed_lt_2p32[of P g]
  by (simp add: tk_system_time_def duration_since_last_tick_eq system_time_now_def ucast_of_nat_u32)

lemma tk_set_system_time_ok:
  assumes "counts_ok P g"
  shows "\<exists>g'. tk_set_system_time P g t = Some g' \<and> system_time_now P g' = t \<and>
    event_time P g' = event_time P g \<and> tk_inv P g' = tk_inv P g \<and> timeouts g' = timeouts g \<and> heap g' = heap g"
proof -
  let ?g = "g\<lparr>last_tick_sys_time := t - of_nat (elapsed P g)\<rparr>"
  have el: "elapsed P ?g = elapsed P g" by (simp add: elapsed_def)
  have dist: "distance ?g = distance g" by (simp add: distance_def fun_eq_iff)
  have "tk_set_system_time P g t = Some ?g"
    using elapsed_lt_2p32[OF assms] assms
    by (simp add: tk_set_system_time_def duration_since_last_tick_eq ucast_of_nat_u32)
  moreover have "tk_inv P ?g = tk_inv P g"
    by (simp add: tk_inv_def counts_ok_def heap_ok_def frontier_ok_def dist event_time_def el)
  ultimately show ?thesis by (simp add: system_time_now_def event_time_def el)
qed

lemma mark_tick_ok:
  assumes inv: "tk_inv P g"
  shows "\<exists>g'. mark_tick P g = Some g' \<and> tk_inv P g' \<and> elapsed P g' = 0 \<and>
    last_tick_time g' = event_time P g \<and> event_time P g' = event_time P g \<and>
    system_time_now P g' = system_time_now P g \<and> present_gap P g' = present_gap P g \<and>
    unat (frontier_gap g') = present_gap P g \<and>
    heap g' = heap g \<and> timeouts g' = timeouts g \<and> tick_count g' = tick_count g \<and>
    handle_tick_in_progress g' = handle_tick_in_progress g"
proof -
  have cnt: "counts_ok P g" using inv by (simp add: tk_inv_def)
  let ?d = "of_nat (elapsed P g) :: u32"
  have d: "unat ?d = elapsed P g" by (rule unat_of_nat_lt) (use elapsed_lt_2p32[OF cnt] in simp)
  let ?g = "g\<lparr>last_tick_count := tick_count g, last_tick_time := last_tick_time g + ?d,
     last_tick_sys_time := last_tick_sys_time g + ucast ?d,
     frontier_gap := saturating_sub32 (frontier_gap g) ?d\<rparr>"
  have mt: "mark_tick P g = Some ?g" by (simp add: mark_tick_def duration_since_last_tick_eq[OF cnt])
  have el: "elapsed P ?g = 0" by (simp add: elapsed_def)
  have ev: "event_time P ?g = event_time P g" using el by (simp add: event_time_def)
  have gap: "unat (saturating_sub32 (frontier_gap g) ?d) = present_gap P g"
    by (simp add: saturating_sub32_def present_gap_def word_le_nat_alt unat_sub d)
  have pg: "present_gap P ?g = present_gap P g" unfolding present_gap_def[of P ?g] el using gap by simp
  have dist: "distance ?g = distance g" by (simp add: distance_def fun_eq_iff)
  have "saturating_sub32 (frontier_gap g) ?d \<le> USER_HEADROOM"
  proof -
    have "unat (frontier_gap g) \<le> unat USER_HEADROOM" using inv by (simp add: tk_inv_def word_le_nat_alt)
    then show ?thesis unfolding word_le_nat_alt gap present_gap_def by linarith
  qed
  then have "tk_inv P ?g"
    using inv cnt unfolding tk_inv_alt ev pg
    by (simp add: counts_ok_def heap_ok_def frontier_ok_def dist)
  moreover have "system_time_now P ?g = system_time_now P g"
    unfolding system_time_now_def el using elapsed_lt_2p32[OF cnt] by (simp add: ucast_of_nat_u32)
  ultimately show ?thesis using mt el ev pg gap by (simp add: event_time_def)
qed

text \<open>
  Time passes.  The port must tick often enough for the counter not to wrap past the last tick,
  and no timeout may go past the critical point.
\<close>

lemma pass_time_elapsed:
  assumes cnt: "counts_ok P g" and d: "elapsed P g + d \<le> unat (MAX_TICK_COUNT P)"
  shows "elapsed P (pass_time P d g) = elapsed P g + d" "counts_ok P (pass_time P d g)"
proof -
  let ?m = "unat (MAX_TICK_COUNT P) + 1" and ?t = "unat (tick_count g)" and ?l = "unat (last_tick_count g)"
  have b: "?t < ?m" "?l < ?m" using cnt by (auto simp: counts_ok_def word_le_nat_alt)
  have m: "?m \<le> 2 ^ 32" using unat_u32_lt[of "MAX_TICK_COUNT P"] by simp
  have t': "unat (tick_count (pass_time P d g)) = (?t + d) mod ?m"
  proof -
    have "(?t + d) mod ?m < ?m" by simp
    then have "(?t + d) mod ?m < 2 ^ LENGTH(32)" using m by (simp del: mod_less_divisor)
    moreover have "tick_count (pass_time P d g) = of_nat ((?t + d) mod ?m)" by (simp add: pass_time_def)
    ultimately show ?thesis by (simp only: unat_of_nat_lt)
  qed
  have l': "last_tick_count (pass_time P d g) = last_tick_count g" by (simp add: pass_time_def)
  show "counts_ok P (pass_time P d g)"
    using b cnt mod_less_divisor[of ?m "?t + d"] by (simp add: counts_ok_def word_le_nat_alt t' l' del: mod_less_divisor)
  show "elapsed P (pass_time P d g) = elapsed P g + d"
  proof (cases "?l \<le> ?t")
    case True
    then have e: "elapsed P g = ?t - ?l" by (simp add: elapsed_def word_le_nat_alt)
    show ?thesis
    proof (cases "?t + d < ?m")
      case lt: True
      then show ?thesis using True e by (simp add: elapsed_def word_le_nat_alt t' l')
    next
      case False
      have lt: "?t + d - ?m < ?l" "?l \<le> ?t" using True False d e b by (simp_all add: word_le_nat_alt)
      have "(?t + d) mod ?m = (?t + d - ?m) mod ?m" using False by (intro le_mod_geq) simp
      also have "\<dots> = ?t + d - ?m" using lt b by (intro mod_less) linarith
      finally have "unat (tick_count (pass_time P d g)) = ?t + d - ?m" by (simp only: t')
      moreover from this have "\<not> last_tick_count (pass_time P d g) \<le> tick_count (pass_time P d g)"
        using lt by (simp only: word_le_nat_alt l' not_le)
      ultimately show ?thesis using e lt False by (simp add: elapsed_def l')
    qed
  next
    case False
    then have e: "elapsed P g = ?t + ?m - ?l" by (simp add: elapsed_def word_le_nat_alt)
    then have lt: "?t + d < ?l" using d b False by (simp add: word_le_nat_alt)
    then have "(?t + d) mod ?m = ?t + d" using b by (intro mod_less) linarith
    then have "\<not> last_tick_count (pass_time P d g) \<le> tick_count (pass_time P d g)"
      "unat (tick_count (pass_time P d g)) = ?t + d"
      using lt by (simp_all only: word_le_nat_alt t' l' not_le)
    then show ?thesis using e b by (simp add: elapsed_def l')
  qed
qed

lemma pass_time_ok:
  assumes inv: "tk_inv P g" and d: "elapsed P g + d \<le> unat (MAX_TICK_COUNT P)"
    and crit: "\<forall>r \<in> set (heap g). d \<le> distance g (event_time P g) r"
  shows "tk_inv P (pass_time P d g)" "event_time P (pass_time P d g) = event_time P g + of_nat d"
    "system_time_now P (pass_time P d g) = system_time_now P g + of_nat d"
proof -
  let ?g = "pass_time P d g" and ?now = "event_time P g"
  have cnt: "counts_ok P g" using inv by (simp add: tk_inv_def)
  note el = pass_time_elapsed[OF cnt d]
  show ev: "event_time P ?g = ?now + of_nat d"
    unfolding event_time_def el(1) by (simp add: pass_time_def)
  show "system_time_now P ?g = system_time_now P g + of_nat d"
    unfolding system_time_now_def el(1) by (simp add: pass_time_def)
  have hp: "heap ?g = heap g" "timeouts ?g = timeouts g" "frontier_gap ?g = frontier_gap g"
    by (simp_all add: pass_time_def)
  have gap: "present_gap P ?g = present_gap P g - d" by (simp add: present_gap_def el(1) hp(3))
  have dist: "distance ?g (?now + of_nat d) r = distance g ?now r - d" if "r \<in> set (heap g)" for r
  proof -
    have "distance ?g = distance g" by (simp add: distance_def fun_eq_iff hp(2))
    then show ?thesis using distance_forward[of d g ?now r] crit that by simp
  qed
  have "heap_ord (distance ?g (?now + of_nat d)) (heap g)"
    using inv by (auto simp: tk_inv_def heap_ok_def dist intro: heap_ord_mono diff_le_mono)
  moreover have "frontier_ok (?now + of_nat d) (present_gap P g - d) ?g"
    using inv by (fastforce simp: tk_inv_alt frontier_ok_def hp(1) dist)
  ultimately show "tk_inv P ?g"
    using inv el(2) unfolding tk_inv_alt ev gap by (simp add: heap_ok_def hp)
qed

section \<open>Adjusting the time\<close>

text \<open>
  The adjustment succeeds exactly if the frontier stays within the user headroom (backward), or
  the earliest timeout stays within it (forward).  It then moves both clocks by \<open>delta\<close>; otherwise
  it moves neither.
\<close>

definition adjust_allowed :: "port_timer \<Rightarrow> timekeeping \<Rightarrow> duration \<Rightarrow> bool" where
  "adjust_allowed P g delta \<longleftrightarrow>
     (if is_negative delta then int (present_gap P g) - sint (micros delta) \<le> int (unat USER_HEADROOM)
      else if is_positive delta then
        \<forall>r \<in> set (heap g). sint (micros delta) \<le> int (distance g (event_time P g) r) - int (unat HARD_HEADROOM)
      else True)"

lemma int_unat_sint: "int (unat (x :: u32)) = sint x mod 2 ^ 32"
proof -
  have "int (unat x) = uint x" by (rule uint_nat[symmetric])
  also have "\<dots> = take_bit LENGTH(32) (sint x)" by (rule uint_sint)
  finally show ?thesis by (simp only: take_bit_eq_mod) simp
qed

lemma sint_unat_nonneg: "0 \<le> sint (x :: u32) \<Longrightarrow> int (unat x) = sint x"
  unfolding int_unat_sint using sint_less[of x] by (intro mod_pos_pos_trivial) simp_all

lemma neg_micros:
  assumes "sint (x :: u32) < 0"
  shows "int (unat (0 - x)) = - sint x"
proof -
  have "int (unat (- x)) = (- int (unat x)) mod 2 ^ 32"
  proof -
    have "int (unat (- x)) = uint (- x)" by (rule uint_nat[symmetric])
    also have "\<dots> = (- uint x) mod 2 ^ LENGTH(32)" by (rule uint_word_ariths(4))
    also have "uint x = int (unat x)" by (rule uint_nat)
    finally show ?thesis by simp
  qed
  also have "\<dots> = (- sint x) mod 2 ^ 32" unfolding int_unat_sint by (rule mod_minus_eq)
  also have "\<dots> = - sint x"
    using assms sint_greater_eq[of x] by (intro mod_pos_pos_trivial) simp_all
  finally show ?thesis by simp
qed

lemma tk_adjust_time_ok:
  assumes inv: "tk_inv P g"
  shows "\<exists>g'. tk_adjust_time P g delta = Some (adjust_allowed P g delta, g') \<and> tk_inv P g' \<and>
    heap g' = heap g \<and> timeouts g' = timeouts g \<and> tick_count g' = tick_count g \<and>
    handle_tick_in_progress g' = handle_tick_in_progress g \<and>
    event_time P g' = (if adjust_allowed P g delta then event_time P g + micros delta else event_time P g) \<and>
    system_time_now P g' =
      (if adjust_allowed P g delta then system_time_now P g + scast (micros delta) else system_time_now P g) \<and>
    (adjust_allowed P g delta \<and> micros delta \<noteq> 0 \<longrightarrow> tick_scheduled P (event_time P g') g')"
proof -
  obtain g1 where m: "mark_tick P g = Some g1" "tk_inv P g1" "elapsed P g1 = 0"
    "last_tick_time g1 = event_time P g" "event_time P g1 = event_time P g"
    "system_time_now P g1 = system_time_now P g" "present_gap P g1 = present_gap P g"
    "unat (frontier_gap g1) = present_gap P g"
    "heap g1 = heap g" "timeouts g1 = timeouts g" "tick_count g1 = tick_count g"
    "handle_tick_in_progress g1 = handle_tick_in_progress g"
    using mark_tick_ok[OF inv] by blast
  let ?x = "micros delta" and ?now = "event_time P g"
  have dist1: "distance g1 = distance g" by (simp add: distance_def fun_eq_iff m)
  have uh: "unat USER_HEADROOM = 0x20000000" and hh: "unat HARD_HEADROOM = 0x40000000"
    by (simp_all add: USER_HEADROOM_def HARD_HEADROOM_def)
  have gap1: "present_gap P g \<le> 0x20000000" using m(2,8) uh by (simp add: tk_inv_def word_le_nat_alt)
  define moved where "moved gap = g1\<lparr>frontier_gap := gap, last_tick_time := last_tick_time g1 + ?x,
      last_tick_sys_time := last_tick_sys_time g1 + scast ?x\<rparr>" for gap
  have el: "elapsed P (moved gap) = 0" for gap
  proof -
    have "elapsed P (moved gap) = elapsed P g1" by (simp add: moved_def elapsed_def)
    then show ?thesis using m(3) by simp
  qed
  have ev: "event_time P (moved gap) = ?now + ?x" for gap
    unfolding event_time_def[of P "moved gap"] el by (simp add: moved_def m(4))
  have sys: "system_time_now P (moved gap) = system_time_now P g + scast ?x" for gap
    using m(6) unfolding system_time_now_def[of P "moved gap"] system_time_now_def[of P g1] el m(3)
    by (simp add: moved_def)
  have pg: "present_gap P (moved gap) = unat gap" for gap
    by (simp add: present_gap_def el) (simp add: moved_def)
  have same: "heap (moved gap) = heap g" "timeouts (moved gap) = timeouts g"
    "tick_count (moved gap) = tick_count g"
    "handle_tick_in_progress (moved gap) = handle_tick_in_progress g" for gap
    by (simp_all add: moved_def m)
  have distm: "distance (moved gap) = distance g" for gap by (simp add: distance_def fun_eq_iff same)
  have cntm: "counts_ok P (moved gap)" for gap
    using m(2) by (simp add: tk_inv_def counts_ok_def moved_def)
  \<comment> \<open>the state after a move in which every distance changes by the same amount\<close>
  have inv_moved: "tk_inv P (moved gap)"
    if "unat gap \<le> 0x20000000"
      and mono: "\<And>r r'. r \<in> set (heap g) \<Longrightarrow> r' \<in> set (heap g) \<Longrightarrow>
        distance g ?now r \<le> distance g ?now r' \<Longrightarrow> distance g (?now + ?x) r \<le> distance g (?now + ?x) r'"
      and bound: "\<And>r. r \<in> set (heap g) \<Longrightarrow> distance g (?now + ?x) r \<le> HEADROOM + DURATION_MAX + unat gap"
    for gap
  proof -
    have "heap_ord (distance g (?now + ?x)) (heap g)"
      using inv mono by (auto simp: tk_inv_def heap_ok_def intro: heap_ord_mono)
    then show ?thesis
      using inv that(1) bound cntm[of gap] unfolding tk_inv_alt ev pg
      by (simp add: heap_ok_def frontier_ok_def distm same uh word_le_nat_alt) (simp add: moved_def uh)
  qed
  have fin: "tk_inv P (pend_next_tick P (moved gap) (?now + ?x)) \<and>
      event_time P (pend_next_tick P (moved gap) (?now + ?x)) = ?now + ?x \<and>
      system_time_now P (pend_next_tick P (moved gap) (?now + ?x)) = system_time_now P g + scast ?x \<and>
      tick_count (pend_next_tick P (moved gap) (?now + ?x)) = tick_count g \<and>
      handle_tick_in_progress (pend_next_tick P (moved gap) (?now + ?x)) = handle_tick_in_progress g \<and>
      tick_scheduled P (?now + ?x) (pend_next_tick P (moved gap) (?now + ?x))"
    if "tk_inv P (moved gap)" for gap
  proof -
    let ?p = "pend_next_tick P (moved gap) (?now + ?x)"
    have s: "tk_same (moved gap) ?p" by simp
    have "heap_ord (distance (moved gap) (?now + ?x)) (heap (moved gap))"
      using that by (simp add: tk_inv_def heap_ok_def ev)
    then have "tick_scheduled P (?now + ?x) ?p" by (rule pend_next_tick_scheduled)
    moreover have "system_time_now P ?p = system_time_now P (moved gap)"
      unfolding system_time_now_def tk_same_elapsed[OF s]
      using s[unfolded tk_same_def] by argo
    moreover have "tick_count ?p = tick_count (moved gap)"
      "handle_tick_in_progress ?p = handle_tick_in_progress (moved gap)"
      using s[unfolded tk_same_def] by argo+
    ultimately show ?thesis using that tk_same_event_time[OF s, of P] by (simp add: ev sys same)
  qed
  consider (neg) "sint ?x < 0" | (pos) "0 < sint ?x" | (zero) "sint ?x = 0" by linarith
  then show ?thesis
  proof cases
    case neg
    define dn where "dn = unat (0 - ?x)"
    have dn: "int dn = - sint ?x" unfolding dn_def by (rule neg_micros[OF neg])
    have dn31: "dn \<le> 2 ^ 31" using dn sint_greater_eq[of ?x] by simp
    have isneg: "is_negative delta" and t32: "time32_from_neg_duration delta = Some (0 - ?x)"
      using neg by (simp_all add: is_negative_def time32_from_neg_duration_def as_micros_def)
    have sum: "unat (frontier_gap g1) + unat (0 - ?x) < 2 ^ 32"
      using m(8) gap1 dn31 by (simp add: dn_def)
    let ?gap = "frontier_gap g1 + (0 - ?x)"
    have ugap: "unat ?gap = present_gap P g + dn"
      using sum unat_add_lem[of "frontier_gap g1" "0 - ?x"] m(8) by (simp add: dn_def)
    have add: "checked_add32 (frontier_gap g1) (0 - ?x) = Some ?gap"
      using sum by (simp add: checked_add32_def)
    have over: "USER_HEADROOM < ?gap \<longleftrightarrow> 0x20000000 < present_gap P g + dn"
      unfolding word_less_nat_alt ugap uh ..
    have allowed: "adjust_allowed P g delta \<longleftrightarrow> \<not> USER_HEADROOM < ?gap"
      unfolding over adjust_allowed_def if_P[OF isneg] uh using dn by linarith
    show ?thesis
    proof (cases "USER_HEADROOM < ?gap")
      case True
      then have "tk_adjust_time P g delta = Some (False, g1)"
        using m(1) isneg t32 add by (simp add: tk_adjust_time_def)
      then show ?thesis using True allowed m by simp
    next
      case False
      then have le: "present_gap P g + dn \<le> 0x20000000" unfolding over by simp
      have xdn: "?now + ?x = ?now - of_nat dn" by (simp add: dn_def)
      have d: "distance g (?now + ?x) r = distance g ?now r + dn" if "r \<in> set (heap g)" for r
        unfolding xdn using inv that le
        by (intro distance_backward)
           (fastforce simp: tk_inv_alt frontier_ok_def HEADROOM_def DURATION_MAX_def)
      have "tk_inv P (moved ?gap)"
      proof (rule inv_moved)
        show "unat ?gap \<le> 0x20000000" unfolding ugap by (rule le)
        show "distance g (?now + ?x) r \<le> HEADROOM + DURATION_MAX + unat ?gap"
          if "r \<in> set (heap g)" for r
        proof -
          have "distance g ?now r \<le> HEADROOM + DURATION_MAX + present_gap P g"
            using inv that by (simp add: tk_inv_alt frontier_ok_def)
          then show ?thesis unfolding ugap d[OF that] by linarith
        qed
      qed (simp add: d)
      moreover have "tk_adjust_time P g delta = Some (True, pend_next_tick P (moved ?gap) (?now + ?x))"
        using m(1) isneg t32 add False
        by (simp add: tk_adjust_time_def moved_def wrapping_time32_from_duration_def
            wrapping_time64_from_duration_def as_micros_def m(4))
      ultimately show ?thesis using fin[of ?gap] False allowed by (simp add: same)
    qed
  next
    case pos
    define dp where "dp = unat ?x"
    have dp: "int dp = sint ?x" unfolding dp_def using pos by (intro sint_unat_nonneg) simp
    have ispos: "is_positive delta" "\<not> is_negative delta" and t32: "time32_from_duration delta = Some ?x"
      using pos by (simp_all add: is_positive_def is_negative_def time32_from_duration_def as_micros_def)
    let ?gap = "saturating_sub32 (frontier_gap g1) ?x"
    let ?fail = "heap g \<noteq> [] \<and> saturating_duration_before_timeout_exhausting_user_headroom
        (timeouts g (hd (heap g))) ?now < ?x"
    have fail: "?fail \<longleftrightarrow> heap g \<noteq> [] \<and> distance g ?now (hd (heap g)) - 0x40000000 < dp"
      by (simp add: word_less_nat_alt saturating_user_headroom_eq dp_def)
    have root: "distance g ?now (hd (heap g)) \<le> distance g ?now r" if "r \<in> set (heap g)" for r
    proof -
      have "hd (heap g) = heap g ! 0" using that by (cases "heap g") auto
      then show ?thesis using heap_ord_root[of "distance g ?now" "heap g" r] inv that
        by (simp add: tk_inv_def heap_ok_def)
    qed
    have dp0: "0 < dp" using dp pos by linarith
    have allowed: "adjust_allowed P g delta \<longleftrightarrow> \<not> ?fail"
    proof
      assume "adjust_allowed P g delta"
      then have all: "\<forall>r \<in> set (heap g). int dp \<le> int (distance g ?now r) - 0x40000000"
        using ispos dp by (simp add: adjust_allowed_def hh)
      have "\<not> distance g ?now (hd (heap g)) - 0x40000000 < dp" if "heap g \<noteq> []"
      proof -
        have "int dp \<le> int (distance g ?now (hd (heap g))) - 0x40000000"
          using all that by (simp add: list.set_sel(1))
        then show ?thesis by linarith
      qed
      then show "\<not> ?fail" unfolding fail by blast
    next
      assume "\<not> ?fail"
      then have *: "heap g \<noteq> [] \<Longrightarrow> dp \<le> distance g ?now (hd (heap g)) - 0x40000000"
        unfolding fail by auto
      have "int dp \<le> int (distance g ?now r) - 0x40000000" if "r \<in> set (heap g)" for r
      proof -
        have ne: "heap g \<noteq> []" using that by auto
        show ?thesis using *[OF ne] root[OF that] dp0 by linarith
      qed
      then show "adjust_allowed P g delta" using ispos dp by (simp add: adjust_allowed_def hh)
    qed
    show ?thesis
    proof (cases ?fail)
      case True
      then have "tk_adjust_time P g delta = Some (False, g1)"
        using m(1) ispos t32 by (simp add: tk_adjust_time_def m)
      then show ?thesis using True allowed m by simp
    next
      case False
      have ugap: "unat ?gap = present_gap P g - dp"
        by (simp add: saturating_sub32_def word_le_nat_alt unat_sub m(8) dp_def)
      have xdp: "?now + ?x = ?now + of_nat dp" by (simp add: dp_def)
      have far: "dp \<le> distance g ?now r" if "r \<in> set (heap g)" for r
      proof -
        have "heap g \<noteq> []" using that by auto
        then show ?thesis using False[unfolded fail] root[OF that] by linarith
      qed
      have d: "distance g (?now + ?x) r = distance g ?now r - dp" if "r \<in> set (heap g)" for r
        unfolding xdp using far[OF that] by (rule distance_forward)
      have "distance g ?now r - dp \<le> HEADROOM + DURATION_MAX + (present_gap P g - dp)"
        if "r \<in> set (heap g)" for r
      proof -
        have "distance g ?now r \<le> HEADROOM + DURATION_MAX + present_gap P g"
          using inv that by (simp add: tk_inv_alt frontier_ok_def)
        then show ?thesis by linarith
      qed
      then have "tk_inv P (moved ?gap)"
        by (intro inv_moved) (use gap1 in \<open>auto simp: ugap d intro: diff_le_mono\<close>)
      moreover have "tk_adjust_time P g delta = Some (True, pend_next_tick P (moved ?gap) (?now + ?x))"
        using m(1) ispos t32 False
        by (simp add: tk_adjust_time_def moved_def wrapping_time32_from_duration_def
            wrapping_time64_from_duration_def as_micros_def m(4) m(9) m(10))
      ultimately show ?thesis using fin[of ?gap] False allowed by (simp add: same)
    qed
  next
    case zero
    then have "int (unat ?x) = 0" by (simp only: int_unat_sint) simp
    then have "unat ?x = 0" by (simp only: of_nat_eq_0_iff)
    then have x0: "?x = 0" by (rule unat_eq_0[THEN iffD1])
    have nn: "\<not> is_negative delta" "\<not> is_positive delta"
      using zero by (simp_all add: is_negative_def is_positive_def)
    then have "tk_adjust_time P g delta = Some (True, g1)"
      using m(1) by (simp add: tk_adjust_time_def)
    then show ?thesis using m nn by (simp add: adjust_allowed_def x0)
  qed
qed

end
