(* ===== verification/Kernel_State.thy ===== *)
theory Kernel_State
  imports Ready_Queue Timeout
begin

text \<open>
  The state of the kernel (\<^verbatim>\<open>r3_kernel/src/lib.rs\<close>, \<^verbatim>\<open>task.rs\<close>, \<^verbatim>\<open>wait.rs\<close>, \<^verbatim>\<open>mutex.rs\<close>,
  \<^verbatim>\<open>semaphore.rs\<close>, \<^verbatim>\<open>event_group.rs\<close>, \<^verbatim>\<open>timer.rs\<close>, \<^verbatim>\<open>klock.rs\<close>, \<^verbatim>\<open>state.rs\<close>).  A control
  block is named by its index in its pool; the pools are functions from indices to control
  blocks, with the pool sizes in the configuration \<open>kcfg\<close>.  A wait object lives on the stack of
  the waiting task, which has one at a time: \<^verbatim>\<open>WaitRef\<close> is the number of that task.  What the
  source keeps on the stack of a task blocked in a system call is the field \<open>blocked_in\<close>.

  The port contributes four fields: whether CPU Lock is active, whether the current context is a
  task context, whether the scheduler has been started and whether \<^verbatim>\<open>yield_cpu\<close> has been
  called since the last dispatch.

  A system call has the type \<open>kernel \<Rightarrow> ('a ret \<times> kernel) option\<close>: \<open>None\<close> is a panic or undefined
  behaviour, \<open>Blocked\<close> means that the call has not returned yet.
\<close>

section \<open>Results\<close>

datatype result_code =
    Success | NotSupported | BadParam | NoAccess | BadContext | NotOwner | WouldDeadlock | BadObjectState
  | QueueOverflow | Abandoned | Interrupted | Timeout

datatype 'a ret = Ok 'a | Err result_code | Blocked

text \<open>\<^verbatim>\<open>Result<(), WaitTimeoutError>\<close>\<close>

datatype wait_result = WaitOk | WaitInterrupted | WaitTimeout

definition result_code_value :: "result_code \<Rightarrow> int" where
  "result_code_value e = (case e of
     Success \<Rightarrow> 0 | NotSupported \<Rightarrow> -2 | BadParam \<Rightarrow> -5 | NoAccess \<Rightarrow> -3 | BadContext \<Rightarrow> -1 | NotOwner \<Rightarrow> -4
   | WouldDeadlock \<Rightarrow> -8 | BadObjectState \<Rightarrow> -9 | QueueOverflow \<Rightarrow> -11 | Abandoned \<Rightarrow> -6
   | Interrupted \<Rightarrow> -7 | Timeout \<Rightarrow> -10)"

section \<open>Control blocks\<close>

datatype task_st = Dormant | Ready | Running | Waiting | PendingActivation

datatype queue_order = Fifo | TaskPriority

datatype wait_queue_id = EventGroupQ nat | SemaphoreQ nat | MutexQ nat

record wait_queue =
  waits :: "nat list"
  order :: queue_order

record wait_flags =
  flag_ALL :: bool
  flag_CLEAR :: bool

datatype wait_payload =
    EventGroupBits (eg_bits: u32) (eg_flags: wait_flags) (orig_bits: u32)
  | SemaphoreWait
  | MutexWait nat
  | ParkWait
  | SleepWait

record wait =
  wait_task :: nat
  wait_in :: "wait_queue_id option"
  payload :: wait_payload

text \<open>The system call a task is suspended in, and whether it has a timeout on the stack.\<close>

datatype blocking_call = ParkCall | SleepCall | SemaphoreCall | EventGroupCall | MutexCall nat

record task_cb =
  attr_priority :: nat
  base_priority :: nat
  effective_priority :: nat
  st :: task_st
  park_token :: bool
  current_wait :: "nat option"
  wait_result :: wait_result
  last_mutex_held :: "nat option"
  blocked_in :: "(blocking_call \<times> bool) option"

record semaphore_cb =
  sem_value :: nat
  max_value :: nat
  sem_queue :: wait_queue

record event_group_cb =
  group_bits :: u32
  group_queue :: wait_queue

record mutex_cb =
  ceiling :: "nat option"
  inconsistent :: bool
  mutex_queue :: wait_queue
  prev_mutex_held :: "nat option"
  owning_task :: "nat option"

record timer_cb =
  init_active :: bool
  timer_active :: bool
  timer_period :: time32

section \<open>The kernel\<close>

record kcfg =
  TARGET :: target
  PRIORITY_LEVELS :: nat
  N_TASKS :: nat
  N_SEMAPHORES :: nat
  N_EVENT_GROUPS :: nat
  N_MUTEXES :: nat
  N_TIMERS :: nat
  PORT_TIMER :: port_timer

record kernel =
  running_task :: "nat option"
  task_ready_queue :: "fixed_prio_bitmap bitmap_queue"
  priority_boost :: bool
  tk :: timekeeping
  tasks :: "nat \<Rightarrow> task_cb"
  semaphores :: "nat \<Rightarrow> semaphore_cb"
  event_groups :: "nat \<Rightarrow> event_group_cb"
  mutexes :: "nat \<Rightarrow> mutex_cb"
  timers :: "nat \<Rightarrow> timer_cb"
  wait_objs :: "nat \<Rightarrow> wait"
  cpu_lock :: bool
  task_context :: bool
  scheduler_active :: bool
  yield_pending :: bool

text \<open>The bit map type of the ready queue.\<close>

definition rq_bitmap :: "kcfg \<Rightarrow> fixed_prio_bitmap bitmap_ops" where
  "rq_bitmap K = FixedPrioBitmap (TARGET K) (PRIORITY_LEVELS K)"

section \<open>Control blocks by identifier\<close>

text \<open>
  An identifier is the index plus one; a bad one is a panic or undefined behaviour
  (\<^verbatim>\<open>bad_id\<close>), never \<^verbatim>\<open>NoAccess\<close>.
\<close>

definition pool_index :: "nat \<Rightarrow> nat \<Rightarrow> nat option" where
  "pool_index len this = guard (0 < this \<and> this - 1 < len) (Some (this - 1))"

definition task_index :: "kcfg \<Rightarrow> nat \<Rightarrow> nat option" where
  "task_index K this = pool_index (N_TASKS K) this"

definition semaphore_index :: "kcfg \<Rightarrow> nat \<Rightarrow> nat option" where
  "semaphore_index K this = pool_index (N_SEMAPHORES K) this"

definition event_group_index :: "kcfg \<Rightarrow> nat \<Rightarrow> nat option" where
  "event_group_index K this = pool_index (N_EVENT_GROUPS K) this"

definition mutex_index :: "kcfg \<Rightarrow> nat \<Rightarrow> nat option" where
  "mutex_index K this = pool_index (N_MUTEXES K) this"

definition timer_index :: "kcfg \<Rightarrow> nat \<Rightarrow> nat option" where
  "timer_index K this = pool_index (N_TIMERS K) this"

lemma pool_index_Some: "pool_index n this = Some i \<longleftrightarrow> 0 < this \<and> i = this - 1 \<and> i < n"
  by (auto simp: pool_index_def guard_def)

section \<open>Updating control blocks\<close>

definition upd_task :: "nat \<Rightarrow> (task_cb \<Rightarrow> task_cb) \<Rightarrow> kernel \<Rightarrow> kernel" where
  "upd_task t f k = k\<lparr>tasks := (tasks k)(t := f (tasks k t))\<rparr>"

definition upd_semaphore :: "nat \<Rightarrow> (semaphore_cb \<Rightarrow> semaphore_cb) \<Rightarrow> kernel \<Rightarrow> kernel" where
  "upd_semaphore i f k = k\<lparr>semaphores := (semaphores k)(i := f (semaphores k i))\<rparr>"

definition upd_event_group :: "nat \<Rightarrow> (event_group_cb \<Rightarrow> event_group_cb) \<Rightarrow> kernel \<Rightarrow> kernel" where
  "upd_event_group i f k = k\<lparr>event_groups := (event_groups k)(i := f (event_groups k i))\<rparr>"

definition upd_mutex :: "nat \<Rightarrow> (mutex_cb \<Rightarrow> mutex_cb) \<Rightarrow> kernel \<Rightarrow> kernel" where
  "upd_mutex i f k = k\<lparr>mutexes := (mutexes k)(i := f (mutexes k i))\<rparr>"

definition upd_timer :: "nat \<Rightarrow> (timer_cb \<Rightarrow> timer_cb) \<Rightarrow> kernel \<Rightarrow> kernel" where
  "upd_timer i f k = k\<lparr>timers := (timers k)(i := f (timers k i))\<rparr>"

definition upd_wait_obj :: "nat \<Rightarrow> wait \<Rightarrow> kernel \<Rightarrow> kernel" where
  "upd_wait_obj t w k = k\<lparr>wait_objs := (wait_objs k)(t := w)\<rparr>"

definition wait_queue_of :: "kernel \<Rightarrow> wait_queue_id \<Rightarrow> wait_queue" where
  "wait_queue_of k q = (case q of
     EventGroupQ i \<Rightarrow> group_queue (event_groups k i)
   | SemaphoreQ i \<Rightarrow> sem_queue (semaphores k i)
   | MutexQ i \<Rightarrow> mutex_queue (mutexes k i))"

definition set_waits :: "wait_queue_id \<Rightarrow> nat list \<Rightarrow> kernel \<Rightarrow> kernel" where
  "set_waits q ws k = (case q of
     EventGroupQ i \<Rightarrow> upd_event_group i (\<lambda>e. e\<lparr>group_queue := (group_queue e)\<lparr>waits := ws\<rparr>\<rparr>) k
   | SemaphoreQ i \<Rightarrow> upd_semaphore i (\<lambda>e. e\<lparr>sem_queue := (sem_queue e)\<lparr>waits := ws\<rparr>\<rparr>) k
   | MutexQ i \<Rightarrow> upd_mutex i (\<lambda>e. e\<lparr>mutex_queue := (mutex_queue e)\<lparr>waits := ws\<rparr>\<rparr>) k)"

abbreviation waits_of :: "kernel \<Rightarrow> wait_queue_id \<Rightarrow> nat list" where
  "waits_of k q \<equiv> waits (wait_queue_of k q)"

text \<open>Operations on the timekeeping state.\<close>

definition on_tk :: "(timekeeping \<Rightarrow> timekeeping option) \<Rightarrow> kernel \<Rightarrow> kernel option" where
  "on_tk f k = do { g \<leftarrow> f (tk k); Some (k\<lparr>tk := g\<rparr>) }"

section \<open>CPU Lock and contexts\<close>

text \<open>
  \<^verbatim>\<open>lock_cpu\<close> and the guard it returns: CPU Lock is released when the guard goes out of scope,
  at every return of the body.
\<close>

definition lock_cpu :: "kernel \<Rightarrow> kernel option" where
  "lock_cpu k = (if cpu_lock k then None else Some (k\<lparr>cpu_lock := True\<rparr>))"

definition leave_cpu_lock :: "kernel \<Rightarrow> kernel" where
  "leave_cpu_lock k = k\<lparr>cpu_lock := False\<rparr>"

definition with_cpu_lock :: "(kernel \<Rightarrow> ('a ret \<times> kernel) option) \<Rightarrow> kernel \<Rightarrow> ('a ret \<times> kernel) option" where
  "with_cpu_lock body k =
     (case lock_cpu k of
        None \<Rightarrow> Some (Err BadContext, k)
      | Some k \<Rightarrow> do { (r, k) \<leftarrow> body k; Some (r, leave_cpu_lock k) })"

definition expect_task_context :: "kernel \<Rightarrow> bool" where
  "expect_task_context k = task_context k"

definition expect_waitable_context :: "kernel \<Rightarrow> bool" where
  "expect_waitable_context k = (\<not> (\<not> task_context k \<or> priority_boost k))"

definition raw_acquire_cpu_lock :: "kernel \<Rightarrow> (unit ret \<times> kernel) option" where
  "raw_acquire_cpu_lock k =
     (if cpu_lock k then Some (Err BadContext, k) else Some (Ok (), k\<lparr>cpu_lock := True\<rparr>))"

definition raw_release_cpu_lock :: "kernel \<Rightarrow> (unit ret \<times> kernel) option" where
  "raw_release_cpu_lock k =
     (if \<not> cpu_lock k then Some (Err BadContext, k) else Some (Ok (), leave_cpu_lock k))"

definition boost_priority :: "kernel \<Rightarrow> (unit ret \<times> kernel) option" where
  "boost_priority k =
     (if cpu_lock k \<or> \<not> task_context k \<or> priority_boost k then Some (Err BadContext, k)
      else Some (Ok (), k\<lparr>priority_boost := True\<rparr>))"

text \<open>\<^verbatim>\<open>yield_cpu\<close> of the port: a dispatch will follow.\<close>

definition yield_cpu :: "kernel \<Rightarrow> kernel" where
  "yield_cpu k = k\<lparr>yield_pending := True\<rparr>"

end
