(* ===== verification/Kernel_Sched.thy ===== *)
theory Kernel_Sched
  imports Kernel_State
begin

text \<open>
  The scheduler (\<^verbatim>\<open>r3_kernel/src/task.rs\<close>, \<^verbatim>\<open>state.rs\<close>): making a task Ready, releasing CPU Lock
  with the check for preemption, and the choice of the next running task.
\<close>

definition make_ready :: "kcfg \<Rightarrow> nat \<Rightarrow> kernel \<Rightarrow> kernel option" where
  "make_ready K t k =
     do { let k = upd_task t (\<lambda>c. c\<lparr>st := Ready\<rparr>) k;
          q \<leftarrow> push_back_task (rq_bitmap K) (task_ready_queue k) t (effective_priority (tasks k t));
          Some (k\<lparr>task_ready_queue := q\<rparr>) }"

text \<open>The priority that a preempting task must beat.\<close>

definition prev_task_priority :: "kernel \<Rightarrow> nat" where
  "prev_task_priority k =
     (case running_task k of
        Some t \<Rightarrow> if st (tasks k t) = Running then effective_priority (tasks k t) else usize_max
      | None \<Rightarrow> usize_max)"

text \<open>\<^verbatim>\<open>debug_assert_eq!(running_task.unwrap().st, Running)\<close>\<close>

definition running_task_is_running :: "kernel \<Rightarrow> bool" where
  "running_task_is_running k =
     (case running_task k of None \<Rightarrow> False | Some t \<Rightarrow> st (tasks k t) = Running)"

definition unlock_cpu_and_check_preemption :: "kcfg \<Rightarrow> kernel \<Rightarrow> kernel option" where
  "unlock_cpu_and_check_preemption K k =
     (if priority_boost k then guard (running_task_is_running k) (Some (leave_cpu_lock k))
      else
        do { has_preempting_task \<leftarrow>
               has_ready_task_in_priority_range (rq_bitmap K) (task_ready_queue k) (prev_task_priority k);
             let k = leave_cpu_lock k;
             Some (if has_preempting_task then yield_cpu k else k) })"

definition choose_next_running_task :: "kcfg \<Rightarrow> kernel \<Rightarrow> kernel option" where
  "choose_next_running_task K k =
     (if priority_boost k then guard (running_task_is_running k) (Some k)
      else
        do { (decision, q) \<leftarrow>
               pop_front_task (rq_bitmap K) (PRIORITY_LEVELS K) (task_ready_queue k) (prev_task_priority k);
             let prev_running_task = running_task k;
             let prev_priority = prev_task_priority k;
             let k = k\<lparr>task_ready_queue := q\<rparr>;
             case decision of
               Keep \<Rightarrow> guard (prev_priority \<noteq> usize_max) (Some k)
             | SwitchTo next_running_task \<Rightarrow>
                 (let k = (case next_running_task of
                             Some task \<Rightarrow> upd_task task (\<lambda>c. c\<lparr>st := Running\<rparr>) k
                           | None \<Rightarrow> k)
                  in if next_running_task \<noteq> None \<and> prev_running_task = next_running_task then Some k
                     else
                       do { k \<leftarrow>
                              (case prev_running_task of
                                 None \<Rightarrow> Some k
                               | Some t \<Rightarrow>
                                   guard (prev_running_task \<noteq> next_running_task)
                                    (case st (tasks k t) of
                                       Running \<Rightarrow> make_ready K t k
                                     | Waiting \<Rightarrow> Some k
                                     | Ready \<Rightarrow> Some k
                                     | Dormant \<Rightarrow> None
                                     | PendingActivation \<Rightarrow> None));
                            Some (k\<lparr>running_task := next_running_task\<rparr>) }) })"

definition unboost_priority :: "kcfg \<Rightarrow> kernel \<Rightarrow> (unit ret \<times> kernel) option" where
  "unboost_priority K k =
     (if \<not> task_context k \<or> \<not> priority_boost k then Some (Err BadContext, k)
      else with_cpu_lock (\<lambda>k.
        do { let k = k\<lparr>priority_boost := False\<rparr>;
             k \<leftarrow> unlock_cpu_and_check_preemption K k;
             Some (Ok (), k) }) k)"

end
