(* ===== verification/Kernel_Inv.thy ===== *)
theory Kernel_Inv
  imports Kernel_Sched
begin

unbundle bit_operations_syntax

text \<open>
  The invariants of the kernel and the facts about the update functions that the component
  theories share.  \<open>base_inv\<close> collects the invariants of the scheduler, the wait queues, the
  semaphores, the event groups and the timers; \<open>mutex_inv\<close> is that of the mutexes.
\<close>

section \<open>Projections of updated states\<close>

named_theorems upd_simps

lemma upd_task_simps [simp, upd_simps]:
  "tasks (upd_task t f k) = (tasks k)(t := f (tasks k t))"
  "running_task (upd_task t f k) = running_task k"
  "task_ready_queue (upd_task t f k) = task_ready_queue k"
  "priority_boost (upd_task t f k) = priority_boost k"
  "tk (upd_task t f k) = tk k"
  "semaphores (upd_task t f k) = semaphores k"
  "event_groups (upd_task t f k) = event_groups k"
  "mutexes (upd_task t f k) = mutexes k"
  "timers (upd_task t f k) = timers k"
  "wait_objs (upd_task t f k) = wait_objs k"
  "cpu_lock (upd_task t f k) = cpu_lock k"
  "task_context (upd_task t f k) = task_context k"
  "yield_pending (upd_task t f k) = yield_pending k"
  "wait_queue_of (upd_task t f k) q = wait_queue_of k q"
  by (simp_all add: upd_task_def wait_queue_of_def split: wait_queue_id.split)

lemma upd_semaphore_simps [simp, upd_simps]:
  "semaphores (upd_semaphore i f k) = (semaphores k)(i := f (semaphores k i))"
  "running_task (upd_semaphore i f k) = running_task k"
  "task_ready_queue (upd_semaphore i f k) = task_ready_queue k"
  "priority_boost (upd_semaphore i f k) = priority_boost k"
  "tk (upd_semaphore i f k) = tk k"
  "tasks (upd_semaphore i f k) = tasks k"
  "event_groups (upd_semaphore i f k) = event_groups k"
  "mutexes (upd_semaphore i f k) = mutexes k"
  "timers (upd_semaphore i f k) = timers k"
  "wait_objs (upd_semaphore i f k) = wait_objs k"
  "cpu_lock (upd_semaphore i f k) = cpu_lock k"
  "task_context (upd_semaphore i f k) = task_context k"
  "yield_pending (upd_semaphore i f k) = yield_pending k"
  by (simp_all add: upd_semaphore_def)

lemma upd_event_group_simps [simp, upd_simps]:
  "event_groups (upd_event_group i f k) = (event_groups k)(i := f (event_groups k i))"
  "running_task (upd_event_group i f k) = running_task k"
  "task_ready_queue (upd_event_group i f k) = task_ready_queue k"
  "priority_boost (upd_event_group i f k) = priority_boost k"
  "tk (upd_event_group i f k) = tk k"
  "tasks (upd_event_group i f k) = tasks k"
  "semaphores (upd_event_group i f k) = semaphores k"
  "mutexes (upd_event_group i f k) = mutexes k"
  "timers (upd_event_group i f k) = timers k"
  "wait_objs (upd_event_group i f k) = wait_objs k"
  "cpu_lock (upd_event_group i f k) = cpu_lock k"
  "task_context (upd_event_group i f k) = task_context k"
  "yield_pending (upd_event_group i f k) = yield_pending k"
  by (simp_all add: upd_event_group_def)

lemma upd_mutex_simps [simp, upd_simps]:
  "mutexes (upd_mutex i f k) = (mutexes k)(i := f (mutexes k i))"
  "running_task (upd_mutex i f k) = running_task k"
  "task_ready_queue (upd_mutex i f k) = task_ready_queue k"
  "priority_boost (upd_mutex i f k) = priority_boost k"
  "tk (upd_mutex i f k) = tk k"
  "tasks (upd_mutex i f k) = tasks k"
  "semaphores (upd_mutex i f k) = semaphores k"
  "event_groups (upd_mutex i f k) = event_groups k"
  "timers (upd_mutex i f k) = timers k"
  "wait_objs (upd_mutex i f k) = wait_objs k"
  "cpu_lock (upd_mutex i f k) = cpu_lock k"
  "task_context (upd_mutex i f k) = task_context k"
  "yield_pending (upd_mutex i f k) = yield_pending k"
  by (simp_all add: upd_mutex_def)

lemma upd_timer_simps [simp, upd_simps]:
  "timers (upd_timer i f k) = (timers k)(i := f (timers k i))"
  "running_task (upd_timer i f k) = running_task k"
  "task_ready_queue (upd_timer i f k) = task_ready_queue k"
  "priority_boost (upd_timer i f k) = priority_boost k"
  "tk (upd_timer i f k) = tk k"
  "tasks (upd_timer i f k) = tasks k"
  "semaphores (upd_timer i f k) = semaphores k"
  "event_groups (upd_timer i f k) = event_groups k"
  "mutexes (upd_timer i f k) = mutexes k"
  "wait_objs (upd_timer i f k) = wait_objs k"
  "cpu_lock (upd_timer i f k) = cpu_lock k"
  "task_context (upd_timer i f k) = task_context k"
  "yield_pending (upd_timer i f k) = yield_pending k"
  "wait_queue_of (upd_timer i f k) q = wait_queue_of k q"
  by (simp_all add: upd_timer_def wait_queue_of_def split: wait_queue_id.split)

lemma upd_wait_obj_simps [simp, upd_simps]:
  "wait_objs (upd_wait_obj t w k) = (wait_objs k)(t := w)"
  "running_task (upd_wait_obj t w k) = running_task k"
  "task_ready_queue (upd_wait_obj t w k) = task_ready_queue k"
  "priority_boost (upd_wait_obj t w k) = priority_boost k"
  "tk (upd_wait_obj t w k) = tk k"
  "tasks (upd_wait_obj t w k) = tasks k"
  "semaphores (upd_wait_obj t w k) = semaphores k"
  "event_groups (upd_wait_obj t w k) = event_groups k"
  "mutexes (upd_wait_obj t w k) = mutexes k"
  "timers (upd_wait_obj t w k) = timers k"
  "cpu_lock (upd_wait_obj t w k) = cpu_lock k"
  "task_context (upd_wait_obj t w k) = task_context k"
  "yield_pending (upd_wait_obj t w k) = yield_pending k"
  "wait_queue_of (upd_wait_obj t w k) q = wait_queue_of k q"
  by (simp_all add: upd_wait_obj_def wait_queue_of_def split: wait_queue_id.split)

lemma set_waits_simps [simp, upd_simps]:
  "running_task (set_waits q ws k) = running_task k"
  "task_ready_queue (set_waits q ws k) = task_ready_queue k"
  "priority_boost (set_waits q ws k) = priority_boost k"
  "tk (set_waits q ws k) = tk k"
  "tasks (set_waits q ws k) = tasks k"
  "timers (set_waits q ws k) = timers k"
  "wait_objs (set_waits q ws k) = wait_objs k"
  "cpu_lock (set_waits q ws k) = cpu_lock k"
  "task_context (set_waits q ws k) = task_context k"
  "yield_pending (set_waits q ws k) = yield_pending k"
  "sem_value (semaphores (set_waits q ws k) i) = sem_value (semaphores k i)"
  "max_value (semaphores (set_waits q ws k) i) = max_value (semaphores k i)"
  "group_bits (event_groups (set_waits q ws k) i) = group_bits (event_groups k i)"
  "ceiling (mutexes (set_waits q ws k) i) = ceiling (mutexes k i)"
  "inconsistent (mutexes (set_waits q ws k) i) = inconsistent (mutexes k i)"
  "prev_mutex_held (mutexes (set_waits q ws k) i) = prev_mutex_held (mutexes k i)"
  "owning_task (mutexes (set_waits q ws k) i) = owning_task (mutexes k i)"
  "waits (wait_queue_of (set_waits q ws k) q') = (if q' = q then ws else waits_of k q')"
  "order (wait_queue_of (set_waits q ws k) q') = order (wait_queue_of k q')"
  by (auto simp: set_waits_def wait_queue_of_def split: wait_queue_id.split)

text \<open>Updates of a record field do not concern the wait queues, if the field is not a pool.\<close>

lemma wait_queue_of_record [simp, upd_simps]:
  "wait_queue_of (k\<lparr>running_task := a\<rparr>) q = wait_queue_of k q"
  "wait_queue_of (k\<lparr>task_ready_queue := b\<rparr>) q = wait_queue_of k q"
  "wait_queue_of (k\<lparr>priority_boost := c\<rparr>) q = wait_queue_of k q"
  "wait_queue_of (k\<lparr>tk := d\<rparr>) q = wait_queue_of k q"
  "wait_queue_of (k\<lparr>tasks := e\<rparr>) q = wait_queue_of k q"
  "wait_queue_of (k\<lparr>cpu_lock := f\<rparr>) q = wait_queue_of k q"
  "wait_queue_of (k\<lparr>task_context := g\<rparr>) q = wait_queue_of k q"
  "wait_queue_of (k\<lparr>scheduler_active := h\<rparr>) q = wait_queue_of k q"
  "wait_queue_of (k\<lparr>yield_pending := i\<rparr>) q = wait_queue_of k q"
  by (simp_all add: wait_queue_of_def split: wait_queue_id.split)

lemma wait_queue_of_semaphore [simp, upd_simps]:
  "wait_queue_of (upd_semaphore i f k) q =
     (if q = SemaphoreQ i then sem_queue (f (semaphores k i)) else wait_queue_of k q)"
  by (simp add: upd_semaphore_def wait_queue_of_def split: wait_queue_id.split)

lemma wait_queue_of_event_group [simp, upd_simps]:
  "wait_queue_of (upd_event_group i f k) q =
     (if q = EventGroupQ i then group_queue (f (event_groups k i)) else wait_queue_of k q)"
  by (simp add: upd_event_group_def wait_queue_of_def split: wait_queue_id.split)

lemma wait_queue_of_mutex [simp, upd_simps]:
  "wait_queue_of (upd_mutex i f k) q =
     (if q = MutexQ i then mutex_queue (f (mutexes k i)) else wait_queue_of k q)"
  by (simp add: upd_mutex_def wait_queue_of_def split: wait_queue_id.split)

lemma wait_queue_of_pools [simp]:
  "sem_queue (semaphores k i) = wait_queue_of k (SemaphoreQ i)"
  "group_queue (event_groups k i) = wait_queue_of k (EventGroupQ i)"
  "mutex_queue (mutexes k i) = wait_queue_of k (MutexQ i)"
  by (simp_all add: wait_queue_of_def)

lemma lock_simps [simp, upd_simps]:
  "running_task (leave_cpu_lock k) = running_task k" "running_task (yield_cpu k) = running_task k"
  "task_ready_queue (leave_cpu_lock k) = task_ready_queue k" "task_ready_queue (yield_cpu k) = task_ready_queue k"
  "priority_boost (leave_cpu_lock k) = priority_boost k" "priority_boost (yield_cpu k) = priority_boost k"
  "tk (leave_cpu_lock k) = tk k" "tk (yield_cpu k) = tk k"
  "tasks (leave_cpu_lock k) = tasks k" "tasks (yield_cpu k) = tasks k"
  "semaphores (leave_cpu_lock k) = semaphores k" "semaphores (yield_cpu k) = semaphores k"
  "event_groups (leave_cpu_lock k) = event_groups k" "event_groups (yield_cpu k) = event_groups k"
  "mutexes (leave_cpu_lock k) = mutexes k" "mutexes (yield_cpu k) = mutexes k"
  "timers (leave_cpu_lock k) = timers k" "timers (yield_cpu k) = timers k"
  "wait_objs (leave_cpu_lock k) = wait_objs k" "wait_objs (yield_cpu k) = wait_objs k"
  "task_context (leave_cpu_lock k) = task_context k" "task_context (yield_cpu k) = task_context k"
  "cpu_lock (leave_cpu_lock k) = False" "cpu_lock (yield_cpu k) = cpu_lock k"
  "yield_pending (leave_cpu_lock k) = yield_pending k" "yield_pending (yield_cpu k) = True"
  "wait_queue_of (leave_cpu_lock k) q = wait_queue_of k q" "wait_queue_of (yield_cpu k) q = wait_queue_of k q"
  by (simp_all add: leave_cpu_lock_def yield_cpu_def)

section \<open>The configuration\<close>

definition kcfg_ok :: "kcfg \<Rightarrow> bool" where
  "kcfg_ok K \<longleftrightarrow>
     0 < PRIORITY_LEVELS K \<and> PRIORITY_LEVELS K \<le> FIXED_PRIO_BITMAP_MAX_LEN \<and>
     HEAP_CAPACITY (PORT_TIMER K) = N_TASKS K + N_TIMERS K \<and>
     HEAP_CAPACITY (PORT_TIMER K) < HEAP_POS_NONE"

lemma kcfg_levels:
  assumes "kcfg_ok K"
  shows "PRIORITY_LEVELS K \<le> FIXED_PRIO_BITMAP_MAX_LEN \<and> PRIORITY_LEVELS K \<le> PRIORITY_LEVELS K \<and>
    PRIORITY_LEVELS K < usize_max - 1"
  using assms by (simp add: kcfg_ok_def FIXED_PRIO_BITMAP_MAX_LEN_def WORD_LEN_def usize_bits_def usize_max_def)

section \<open>The invariants\<close>

abbreviation eff :: "kernel \<Rightarrow> nat \<Rightarrow> nat" where
  "eff k t \<equiv> effective_priority (tasks k t)"

text \<open>The ready queue holds exactly the Ready tasks, each at its effective priority.\<close>

definition ready_inv :: "kcfg \<Rightarrow> kernel \<Rightarrow> bool" where
  "ready_inv K k \<longleftrightarrow>
     kernel_bq_inv (PRIORITY_LEVELS K) (task_ready_queue k) \<and>
     (\<forall>p. distinct (bq_of (task_ready_queue k) p)) \<and>
     (\<forall>p t. t \<in> set (bq_of (task_ready_queue k) p) \<longleftrightarrow>
        t < N_TASKS K \<and> st (tasks k t) = Ready \<and> eff k t = p)"

text \<open>Priorities are in range.\<close>

definition pri_inv :: "kcfg \<Rightarrow> kernel \<Rightarrow> bool" where
  "pri_inv K k \<longleftrightarrow>
     (\<forall>t<N_TASKS K. attr_priority (tasks k t) < PRIORITY_LEVELS K \<and>
        base_priority (tasks k t) < PRIORITY_LEVELS K \<and> eff k t < PRIORITY_LEVELS K) \<and>
     (\<forall>m<N_MUTEXES K. \<forall>c. ceiling (mutexes k m) = Some c \<longrightarrow> c < PRIORITY_LEVELS K)"

text \<open>At most one task is Running, and it is \<open>running_task\<close>, which is never Dormant.\<close>

definition run_inv :: "kcfg \<Rightarrow> kernel \<Rightarrow> bool" where
  "run_inv K k \<longleftrightarrow>
     (\<forall>t. running_task k = Some t \<longrightarrow>
        t < N_TASKS K \<and> st (tasks k t) \<in> {Running, Waiting, Ready}) \<and>
     (\<forall>t<N_TASKS K. st (tasks k t) = Running \<longrightarrow> running_task k = Some t)"

text \<open>The wait object and its queue belong to the operation.\<close>

definition wait_in_ok :: "kcfg \<Rightarrow> wait \<Rightarrow> bool" where
  "wait_in_ok K w =
     (case payload w of
        EventGroupBits _ _ _ \<Rightarrow>
          (case wait_in w of Some (EventGroupQ i) \<Rightarrow> i < N_EVENT_GROUPS K | _ \<Rightarrow> False)
      | SemaphoreWait \<Rightarrow> (case wait_in w of Some (SemaphoreQ i) \<Rightarrow> i < N_SEMAPHORES K | _ \<Rightarrow> False)
      | MutexWait m \<Rightarrow> m < N_MUTEXES K \<and> wait_in w = Some (MutexQ m)
      | ParkWait \<Rightarrow> wait_in w = None
      | SleepWait \<Rightarrow> wait_in w = None)"

text \<open>\<^verbatim>\<open>call_of\<close>: what a suspended task is suspended in, as its wait object says.\<close>

definition call_of :: "wait_payload \<Rightarrow> blocking_call" where
  "call_of p = (case p of
     EventGroupBits _ _ _ \<Rightarrow> EventGroupCall | SemaphoreWait \<Rightarrow> SemaphoreCall
   | MutexWait m \<Rightarrow> MutexCall m | ParkWait \<Rightarrow> ParkCall | SleepWait \<Rightarrow> SleepCall)"

text \<open>A result is possible for a system call: a timeout needs one, a sleep does not succeed.\<close>

definition result_ok :: "blocking_call \<times> bool \<Rightarrow> wait_result \<Rightarrow> bool" where
  "result_ok c r \<longleftrightarrow> (r = WaitTimeout \<longrightarrow> snd c) \<and> (fst c = SleepCall \<longrightarrow> r \<noteq> WaitOk)"

definition task_wait_ok :: "kcfg \<Rightarrow> task_cb \<Rightarrow> wait \<Rightarrow> nat \<Rightarrow> bool" where
  "task_wait_ok K c w t \<longleftrightarrow>
     (st c = Waiting \<longrightarrow> current_wait c = Some t \<and> wait_task w = t \<and> wait_in_ok K w \<and> blocked_in c \<noteq> None) \<and>
     (st c \<noteq> Waiting \<longrightarrow> current_wait c = None) \<and>
     (st c \<in> {Dormant, PendingActivation} \<longrightarrow> blocked_in c = None \<and> last_mutex_held c = None) \<and>
     (\<forall>b. blocked_in c = Some b \<longrightarrow>
        fst b = call_of (payload w) \<and> (st c \<noteq> Waiting \<longrightarrow> result_ok b (wait_result c)))"

definition wait_inv :: "kcfg \<Rightarrow> kernel \<Rightarrow> bool" where
  "wait_inv K k \<longleftrightarrow> (\<forall>t<N_TASKS K. task_wait_ok K (tasks k t) (wait_objs k t) t)"

text \<open>
  A wait queue holds exactly the tasks that wait in it; a queue ordered by priority is sorted.
\<close>

definition queue_inv :: "kcfg \<Rightarrow> kernel \<Rightarrow> bool" where
  "queue_inv K k \<longleftrightarrow>
     (\<forall>q. distinct (waits_of k q) \<and>
        (\<forall>t. t \<in> set (waits_of k q) \<longleftrightarrow>
           t < N_TASKS K \<and> st (tasks k t) = Waiting \<and> wait_in (wait_objs k t) = Some q) \<and>
        (order (wait_queue_of k q) = TaskPriority \<longrightarrow> sorted (map (eff k) (waits_of k q))))"

text \<open>No permit is left while a task waits for one.\<close>

definition sem_inv :: "kcfg \<Rightarrow> kernel \<Rightarrow> bool" where
  "sem_inv K k \<longleftrightarrow>
     (\<forall>i<N_SEMAPHORES K. sem_value (semaphores k i) \<le> max_value (semaphores k i) \<and>
        (waits_of k (SemaphoreQ i) \<noteq> [] \<longrightarrow> sem_value (semaphores k i) = 0))"

text \<open>The wait condition of an event group.\<close>

definition event_condition :: "u32 \<Rightarrow> u32 \<Rightarrow> wait_flags \<Rightarrow> bool" where
  "event_condition value req flags =
     (if flag_ALL flags then (value AND req) = req else (value AND req) \<noteq> 0)"

definition event_waiter_ok :: "u32 \<Rightarrow> wait_payload \<Rightarrow> bool" where
  "event_waiter_ok value p =
     (case p of EventGroupBits req flags _ \<Rightarrow> \<not> event_condition value req flags | _ \<Rightarrow> False)"

text \<open>No task waits for bits that are set.\<close>

definition event_inv :: "kcfg \<Rightarrow> kernel \<Rightarrow> bool" where
  "event_inv K k \<longleftrightarrow>
     (\<forall>i<N_EVENT_GROUPS K. \<forall>t\<in>set (waits_of k (EventGroupQ i)).
        event_waiter_ok (group_bits (event_groups k i)) (payload (wait_objs k t)))"

text \<open>
  A linked timeout belongs to a suspended system call with a timeout, or to an active timer.
\<close>

definition period_ok :: "time32 \<Rightarrow> bool" where
  "period_ok p \<longleftrightarrow> p = BAD_DURATION32 \<or> unat p \<le> DURATION_MAX"

definition linked_ok :: "kcfg \<Rightarrow> kernel \<Rightarrow> timeout_ref \<Rightarrow> bool" where
  "linked_ok K k r =
     (case r of
        TaskTimeout t \<Rightarrow> t < N_TASKS K \<and> (\<exists>c. blocked_in (tasks k t) = Some (c, True)) \<and>
          callback (timeouts (tk k) r) = Interrupt_Task_By_Timeout \<and>
          callback_param (timeouts (tk k) r) = t
      | TimerTimeout i \<Rightarrow> i < N_TIMERS K \<and> timer_active (timers k i))"

definition timer_inv :: "kcfg \<Rightarrow> kernel \<Rightarrow> bool" where
  "timer_inv K k \<longleftrightarrow>
     tk_inv (PORT_TIMER K) (tk k) \<and>
     (\<forall>r\<in>set (heap (tk k)). linked_ok K k r) \<and>
     (\<forall>i<N_TIMERS K. callback (timeouts (tk k) (TimerTimeout i)) = Timer_Timeout_Handler \<and>
        callback_param (timeouts (tk k) (TimerTimeout i)) = i \<and> period_ok (timer_period (timers k i)))"

definition base_inv :: "kcfg \<Rightarrow> kernel \<Rightarrow> bool" where
  "base_inv K k \<longleftrightarrow>
     ready_inv K k \<and> pri_inv K k \<and> run_inv K k \<and> wait_inv K k \<and> queue_inv K k \<and>
     sem_inv K k \<and> event_inv K k \<and> timer_inv K k"

text \<open>The chain of mutexes that starts at \<open>start\<close>.\<close>

fun chain :: "(nat \<Rightarrow> nat option) \<Rightarrow> nat option \<Rightarrow> nat list \<Rightarrow> bool" where
  "chain nxt start [] \<longleftrightarrow> start = None"
| "chain nxt start (m # ms) \<longleftrightarrow> start = Some m \<and> chain nxt (nxt m) ms"

definition live :: "task_st \<Rightarrow> bool" where
  "live s \<longleftrightarrow> s \<notin> {Dormant, PendingActivation}"

text \<open>
  The effective priority of a task as documented at the field: the minimum of the base priority
  and the ceilings of the held mutexes.
\<close>

definition ceilings_held :: "kcfg \<Rightarrow> nat set \<Rightarrow> kernel \<Rightarrow> nat \<Rightarrow> nat set" where
  "ceilings_held K D k t =
     {c. \<exists>m<N_MUTEXES K. m \<notin> D \<and> owning_task (mutexes k m) = Some t \<and> ceiling (mutexes k m) = Some c}"

definition documented_priority :: "kcfg \<Rightarrow> nat set \<Rightarrow> kernel \<Rightarrow> nat \<Rightarrow> nat \<Rightarrow> nat" where
  "documented_priority K D k t base_pri = Min (insert base_pri (ceilings_held K D k t))"

text \<open>
  The invariant of the mutexes.  \<open>D\<close> is the set of the mutexes that are being released, which no
  chain holds any more; \<open>X\<close> names the exiting task, with the rest of its chain, which it does not
  hold under \<open>last_mutex_held\<close> and which its effective priority does not follow any more.
\<close>

definition chain_head :: "(nat \<times> nat option) option \<Rightarrow> kernel \<Rightarrow> nat \<Rightarrow> nat option" where
  "chain_head X k t =
     (case X of None \<Rightarrow> last_mutex_held (tasks k t)
      | Some (e, rest) \<Rightarrow> if t = e then rest else last_mutex_held (tasks k t))"

definition held_by :: "kcfg \<Rightarrow> nat set \<Rightarrow> kernel \<Rightarrow> nat \<Rightarrow> nat set" where
  "held_by K D k t = {m. m < N_MUTEXES K \<and> m \<notin> D \<and> owning_task (mutexes k m) = Some t}"

definition chains_ok :: "kcfg \<Rightarrow> (nat \<times> nat option) option \<Rightarrow> nat set \<Rightarrow> kernel \<Rightarrow> bool" where
  "chains_ok K X D k \<longleftrightarrow>
     (\<forall>t<N_TASKS K. \<exists>ms. chain (\<lambda>m. prev_mutex_held (mutexes k m)) (chain_head X k t) ms \<and>
        distinct ms \<and> set ms = held_by K D k t)"

definition owners_ok :: "kcfg \<Rightarrow> kernel \<Rightarrow> bool" where
  "owners_ok K k \<longleftrightarrow>
     (\<forall>m<N_MUTEXES K. order (wait_queue_of k (MutexQ m)) = TaskPriority \<and>
        (\<forall>t. owning_task (mutexes k m) = Some t \<longrightarrow>
           t < N_TASKS K \<and> live (st (tasks k t)) \<and>
           (\<forall>c. ceiling (mutexes k m) = Some c \<longrightarrow> c \<le> base_priority (tasks k t))))"

definition priorities_ok :: "kcfg \<Rightarrow> (nat \<times> nat option) option \<Rightarrow> nat set \<Rightarrow> kernel \<Rightarrow> bool" where
  "priorities_ok K X D k \<longleftrightarrow>
     (\<forall>t<N_TASKS K. live (st (tasks k t)) \<longrightarrow> t \<notin> fst ` set_option X \<longrightarrow>
        eff k t = documented_priority K D k t (base_priority (tasks k t)))"

text \<open>
  A task waits only for a mutex that another task owns; a task that has been woken up with
  success owns the mutex.
\<close>

definition mutex_waits_ok :: "kcfg \<Rightarrow> kernel \<Rightarrow> bool" where
  "mutex_waits_ok K k \<longleftrightarrow>
     (\<forall>t<N_TASKS K. \<forall>m b. blocked_in (tasks k t) = Some (MutexCall m, b) \<longrightarrow>
        (st (tasks k t) = Waiting \<longrightarrow>
           owning_task (mutexes k m) \<noteq> None \<and> owning_task (mutexes k m) \<noteq> Some t \<and>
           (\<forall>c. ceiling (mutexes k m) = Some c \<longrightarrow> c \<le> base_priority (tasks k t))) \<and>
        (st (tasks k t) \<noteq> Waiting \<longrightarrow> wait_result (tasks k t) = WaitOk \<longrightarrow>
           owning_task (mutexes k m) = Some t))"

definition mutex_inv :: "kcfg \<Rightarrow> (nat \<times> nat option) option \<Rightarrow> nat set \<Rightarrow> kernel \<Rightarrow> bool" where
  "mutex_inv K X D k \<longleftrightarrow>
     chains_ok K X D k \<and> owners_ok K k \<and> priorities_ok K X D k \<and> mutex_waits_ok K k"

text \<open>Nothing that is Ready should preempt the running task, unless a dispatch is pending.\<close>

definition preempt_inv :: "kernel \<Rightarrow> bool" where
  "preempt_inv k \<longleftrightarrow>
     (\<not> priority_boost k \<longrightarrow> \<not> yield_pending k \<longrightarrow>
        (\<forall>p<prev_task_priority k. bq_of (task_ready_queue k) p = []))"

text \<open>Priority Boost is active only while a task is Running.\<close>

definition boost_inv :: "kernel \<Rightarrow> bool" where
  "boost_inv k \<longleftrightarrow> (priority_boost k \<longrightarrow> running_task_is_running k)"

section \<open>What the invariants depend on\<close>

lemma base_invD:
  assumes "base_inv K k"
  shows "ready_inv K k" "pri_inv K k" "run_inv K k" "wait_inv K k" "queue_inv K k" "sem_inv K k"
    "event_inv K k" "timer_inv K k"
  using assms by (simp_all add: base_inv_def)

lemma inv_lock_simps [simp]:
  "base_inv K (leave_cpu_lock k) = base_inv K k" "base_inv K (yield_cpu k) = base_inv K k"
  "mutex_inv K X D (leave_cpu_lock k) = mutex_inv K X D k" "mutex_inv K X D (yield_cpu k) = mutex_inv K X D k"
  "boost_inv (leave_cpu_lock k) = boost_inv k" "boost_inv (yield_cpu k) = boost_inv k"
  "preempt_inv (leave_cpu_lock k) = preempt_inv k" "preempt_inv (yield_cpu k)"
  by (simp_all add: base_inv_def ready_inv_def pri_inv_def run_inv_def wait_inv_def queue_inv_def
      sem_inv_def event_inv_def timer_inv_def linked_ok_def mutex_inv_def chains_ok_def chain_head_def
      held_by_def owners_ok_def priorities_ok_def documented_priority_def ceilings_held_def
      mutex_waits_ok_def boost_inv_def running_task_is_running_def preempt_inv_def prev_task_priority_def
      cong: timeout_ref.case_cong option.case_cong prod.case_cong if_cong)

lemma inv_record_simps [simp]:
  "base_inv K (k\<lparr>cpu_lock := b\<rparr>) = base_inv K k"
  "base_inv K (k\<lparr>task_context := b\<rparr>) = base_inv K k"
  "base_inv K (k\<lparr>yield_pending := b\<rparr>) = base_inv K k"
  "base_inv K (k\<lparr>scheduler_active := b\<rparr>) = base_inv K k"
  "base_inv K (k\<lparr>priority_boost := b\<rparr>) = base_inv K k"
  "mutex_inv K X D (k\<lparr>cpu_lock := b\<rparr>) = mutex_inv K X D k"
  "mutex_inv K X D (k\<lparr>task_context := b\<rparr>) = mutex_inv K X D k"
  "mutex_inv K X D (k\<lparr>yield_pending := b\<rparr>) = mutex_inv K X D k"
  "mutex_inv K X D (k\<lparr>scheduler_active := b\<rparr>) = mutex_inv K X D k"
  "mutex_inv K X D (k\<lparr>priority_boost := b\<rparr>) = mutex_inv K X D k"
  by (simp_all add: base_inv_def ready_inv_def pri_inv_def run_inv_def wait_inv_def queue_inv_def
      sem_inv_def event_inv_def timer_inv_def linked_ok_def mutex_inv_def chains_ok_def chain_head_def
      held_by_def owners_ok_def priorities_ok_def documented_priority_def ceilings_held_def
      mutex_waits_ok_def cong: timeout_ref.case_cong option.case_cong prod.case_cong if_cong)

text \<open>Two states that differ in which tasks are Ready and which one is Running.\<close>

definition sched_equiv :: "kernel \<Rightarrow> kernel \<Rightarrow> bool" where
  "sched_equiv k k' \<longleftrightarrow>
     (\<forall>t. \<exists>s. tasks k' t = (tasks k t)\<lparr>st := s\<rparr> \<and>
        (s = st (tasks k t) \<or> s \<in> {Ready, Running} \<and> st (tasks k t) \<in> {Ready, Running})) \<and>
     semaphores k' = semaphores k \<and> event_groups k' = event_groups k \<and> mutexes k' = mutexes k \<and>
     timers k' = timers k \<and> wait_objs k' = wait_objs k \<and> tk k' = tk k"

lemma sched_equiv_fields:
  assumes "sched_equiv k k'"
  shows "attr_priority (tasks k' t) = attr_priority (tasks k t)"
    "base_priority (tasks k' t) = base_priority (tasks k t)" "eff k' t = eff k t"
    "park_token (tasks k' t) = park_token (tasks k t)"
    "current_wait (tasks k' t) = current_wait (tasks k t)"
    "wait_result (tasks k' t) = wait_result (tasks k t)"
    "last_mutex_held (tasks k' t) = last_mutex_held (tasks k t)"
    "blocked_in (tasks k' t) = blocked_in (tasks k t)"
    "st (tasks k' t) = Waiting \<longleftrightarrow> st (tasks k t) = Waiting"
    "st (tasks k' t) = Dormant \<longleftrightarrow> st (tasks k t) = Dormant"
    "st (tasks k' t) = PendingActivation \<longleftrightarrow> st (tasks k t) = PendingActivation"
    "live (st (tasks k' t)) = live (st (tasks k t))"
proof -
  obtain s where "tasks k' t = (tasks k t)\<lparr>st := s\<rparr>"
    "s = st (tasks k t) \<or> s \<in> {Ready, Running} \<and> st (tasks k t) \<in> {Ready, Running}"
    using assms unfolding sched_equiv_def by blast
  then show "attr_priority (tasks k' t) = attr_priority (tasks k t)"
    "base_priority (tasks k' t) = base_priority (tasks k t)" "eff k' t = eff k t"
    "park_token (tasks k' t) = park_token (tasks k t)"
    "current_wait (tasks k' t) = current_wait (tasks k t)"
    "wait_result (tasks k' t) = wait_result (tasks k t)"
    "last_mutex_held (tasks k' t) = last_mutex_held (tasks k t)"
    "blocked_in (tasks k' t) = blocked_in (tasks k t)"
    "st (tasks k' t) = Waiting \<longleftrightarrow> st (tasks k t) = Waiting"
    "st (tasks k' t) = Dormant \<longleftrightarrow> st (tasks k t) = Dormant"
    "st (tasks k' t) = PendingActivation \<longleftrightarrow> st (tasks k t) = PendingActivation"
    "live (st (tasks k' t)) = live (st (tasks k t))"
    by (auto simp: live_def)
qed

lemma sched_equiv_pools:
  assumes "sched_equiv k k'"
  shows "semaphores k' = semaphores k" "event_groups k' = event_groups k" "mutexes k' = mutexes k"
    "timers k' = timers k" "wait_objs k' = wait_objs k" "tk k' = tk k"
    "wait_queue_of k' q = wait_queue_of k q"
  using assms
  by (auto simp: sched_equiv_def wait_queue_of_def split: wait_queue_id.split simp del: wait_queue_of_pools)

lemma sched_equiv_inv:
  assumes e: "sched_equiv k k'"
  shows "pri_inv K k' = pri_inv K k" "wait_inv K k' = wait_inv K k" "queue_inv K k' = queue_inv K k"
    "sem_inv K k' = sem_inv K k" "event_inv K k' = event_inv K k" "timer_inv K k' = timer_inv K k"
    "mutex_inv K X D k' = mutex_inv K X D k"
  by (simp_all add: pri_inv_def wait_inv_def task_wait_ok_def queue_inv_def sem_inv_def event_inv_def
      timer_inv_def linked_ok_def mutex_inv_def chains_ok_def chain_head_def held_by_def owners_ok_def
      priorities_ok_def documented_priority_def ceilings_held_def mutex_waits_ok_def
      sched_equiv_fields[OF e] sched_equiv_pools[OF e] cong: timeout_ref.case_cong option.case_cong prod.case_cong if_cong)

lemma sched_equiv_refl [simp]: "sched_equiv k k"
  by (simp add: sched_equiv_def) (metis task_cb.surjective task_cb.update_convs(4))

lemma sched_equivI:
  assumes "\<And>t. tasks k' t = tasks k t \<or>
      (\<exists>s. tasks k' t = (tasks k t)\<lparr>st := s\<rparr> \<and> s \<in> {Ready, Running} \<and> st (tasks k t) \<in> {Ready, Running})"
    and "semaphores k' = semaphores k" "event_groups k' = event_groups k" "mutexes k' = mutexes k"
    "timers k' = timers k" "wait_objs k' = wait_objs k" "tk k' = tk k"
  shows "sched_equiv k k'"
proof -
  have "\<exists>s. tasks k' t = (tasks k t)\<lparr>st := s\<rparr> \<and>
      (s = st (tasks k t) \<or> s \<in> {Ready, Running} \<and> st (tasks k t) \<in> {Ready, Running})" for t
    using assms(1)[of t]
  proof
    assume "tasks k' t = tasks k t"
    then show ?thesis by (intro exI[of _ "st (tasks k t)"]) simp
  qed blast
  then show ?thesis using assms(2-) by (simp add: sched_equiv_def)
qed

lemma sched_equiv_running_task [simp]: "sched_equiv k (k\<lparr>running_task := r\<rparr>)"
  by (simp add: sched_equiv_def) (metis task_cb.surjective task_cb.update_convs(4))

section \<open>The scheduler\<close>

lemma prev_task_priority_record [simp]:
  "prev_task_priority (k\<lparr>cpu_lock := b\<rparr>) = prev_task_priority k"
  "prev_task_priority (k\<lparr>yield_pending := b\<rparr>) = prev_task_priority k"
  "prev_task_priority (k\<lparr>task_context := b\<rparr>) = prev_task_priority k"
  "prev_task_priority (k\<lparr>scheduler_active := b\<rparr>) = prev_task_priority k"
  "prev_task_priority (k\<lparr>priority_boost := b\<rparr>) = prev_task_priority k"
  "prev_task_priority (k\<lparr>tk := g\<rparr>) = prev_task_priority k"
  "running_task_is_running (k\<lparr>cpu_lock := b\<rparr>) = running_task_is_running k"
  "running_task_is_running (k\<lparr>yield_pending := b\<rparr>) = running_task_is_running k"
  "running_task_is_running (k\<lparr>task_context := b\<rparr>) = running_task_is_running k"
  "running_task_is_running (k\<lparr>scheduler_active := b\<rparr>) = running_task_is_running k"
  "running_task_is_running (k\<lparr>priority_boost := b\<rparr>) = running_task_is_running k"
  "running_task_is_running (k\<lparr>tk := g\<rparr>) = running_task_is_running k"
  by (simp_all add: prev_task_priority_def running_task_is_running_def cong: option.case_cong if_cong)

lemma make_ready_ok:
  assumes K: "kcfg_ok K" and inv: "ready_inv K k" and t: "t < N_TASKS K" "st (tasks k t) \<noteq> Ready"
    and p: "eff k t < PRIORITY_LEVELS K"
  shows "\<exists>q. make_ready K t k = Some (upd_task t (\<lambda>c. c\<lparr>st := Ready\<rparr>) k\<lparr>task_ready_queue := q\<rparr>) \<and>
    ready_inv K (upd_task t (\<lambda>c. c\<lparr>st := Ready\<rparr>) k\<lparr>task_ready_queue := q\<rparr>) \<and>
    bq_of q = (bq_of (task_ready_queue k))(eff k t := bq_of (task_ready_queue k) (eff k t) @ [t])"
proof -
  let ?q = "task_ready_queue k"
  have bq: "kernel_bq_inv (PRIORITY_LEVELS K) ?q" using inv by (simp add: ready_inv_def)
  have notin: "\<forall>p'. t \<notin> set (bq_of ?q p')" using inv t by (simp add: ready_inv_def)
  obtain q where q: "push_back_task (rq_bitmap K) ?q t (eff k t) = Some q"
    "kernel_bq_inv (PRIORITY_LEVELS K) q" "bq_of q = (bq_of ?q)(eff k t := bq_of ?q (eff k t) @ [t])"
    using bq.push_back_ok[OF bq p notin, of "TARGET K"] unfolding rq_bitmap_def by blast
  have "ready_inv K (upd_task t (\<lambda>c. c\<lparr>st := Ready\<rparr>) k\<lparr>task_ready_queue := q\<rparr>)"
    using inv q(2,3) t notin by (auto simp: ready_inv_def)
  then show ?thesis using q by (intro exI[of _ q]) (simp add: make_ready_def)
qed

lemma ready_levels:
  assumes "ready_inv K k" "PRIORITY_LEVELS K \<le> p"
  shows "bq_of (task_ready_queue k) p = []"
  using bq.bounded[of "PRIORITY_LEVELS K" "task_ready_queue k" p] assms by (simp add: ready_inv_def)

lemma prev_task_priority_le:
  assumes "kcfg_ok K" "pri_inv K k" "run_inv K k"
  shows "prev_task_priority k \<le> usize_max"
    "prev_task_priority k = usize_max \<longleftrightarrow> \<not> running_task_is_running k"
proof -
  have "PRIORITY_LEVELS K < usize_max" using kcfg_levels[OF assms(1)] by linarith
  moreover have "running_task k = Some t \<Longrightarrow> eff k t < PRIORITY_LEVELS K" for t
    using assms(2,3) by (simp add: pri_inv_def run_inv_def)
  ultimately show "prev_task_priority k \<le> usize_max"
    "prev_task_priority k = usize_max \<longleftrightarrow> \<not> running_task_is_running k"
    by (force simp: prev_task_priority_def running_task_is_running_def split: option.split)+
qed

lemma same_yield_pending [simp]: "k\<lparr>cpu_lock := b, yield_pending := yield_pending k\<rparr> = k\<lparr>cpu_lock := b\<rparr>"
  by (cases k) simp

lemma unlock_cpu_and_check_preemption_ok:
  assumes K: "kcfg_ok K" and inv: "ready_inv K k" "pri_inv K k" "run_inv K k" and b: "boost_inv k"
  shows "\<exists>y. unlock_cpu_and_check_preemption K k = Some (k\<lparr>cpu_lock := False, yield_pending := y\<rparr>) \<and>
    (yield_pending k \<longrightarrow> y) \<and> preempt_inv (k\<lparr>cpu_lock := False, yield_pending := y\<rparr>)"
proof (cases "priority_boost k")
  case True
  then have "unlock_cpu_and_check_preemption K k = Some (k\<lparr>cpu_lock := False\<rparr>)"
    using b by (simp add: unlock_cpu_and_check_preemption_def boost_inv_def leave_cpu_lock_def)
  then show ?thesis using True by (intro exI[of _ "yield_pending k"]) (simp add: preempt_inv_def)
next
  case False
  define h where "h \<longleftrightarrow> (\<exists>p<prev_task_priority k. bq_of (task_ready_queue k) p \<noteq> [])"
  have "has_ready_task_in_priority_range (rq_bitmap K) (task_ready_queue k) (prev_task_priority k) = Some h"
    unfolding rq_bitmap_def h_def
    by (rule bq.has_ready_ok[OF kcfg_levels[OF K]])
      (use inv prev_task_priority_le[OF K] in \<open>auto simp: ready_inv_def\<close>)
  then have "unlock_cpu_and_check_preemption K k =
      Some (k\<lparr>cpu_lock := False, yield_pending := yield_pending k \<or> h\<rparr>)"
    using False by (cases h)
      (simp_all add: unlock_cpu_and_check_preemption_def leave_cpu_lock_def yield_cpu_def Let_def)
  moreover have "preempt_inv (k\<lparr>cpu_lock := False, yield_pending := yield_pending k \<or> h\<rparr>)"
    by (auto simp: preempt_inv_def h_def)
  ultimately show ?thesis by blast
qed

text \<open>The running task has the highest priority of the tasks that can run.\<close>

definition scheduled :: "kernel \<Rightarrow> bool" where
  "scheduled k \<longleftrightarrow>
     (case running_task k of
        None \<Rightarrow> (\<forall>p. bq_of (task_ready_queue k) p = [])
      | Some t \<Rightarrow> st (tasks k t) = Running \<and> (\<forall>p<eff k t. bq_of (task_ready_queue k) p = []))"

lemma pop_front_cases:
  assumes K: "kcfg_ok K" and inv: "ready_inv K k" "pri_inv K k" "run_inv K k"
  obtains
    (keep) "pop_front_task (rq_bitmap K) (PRIORITY_LEVELS K) (task_ready_queue k) (prev_task_priority k) =
      Some (Keep, task_ready_queue k)" "running_task_is_running k"
      "\<forall>p<prev_task_priority k. bq_of (task_ready_queue k) p = []"
  | (idle) "pop_front_task (rq_bitmap K) (PRIORITY_LEVELS K) (task_ready_queue k) (prev_task_priority k) =
      Some (SwitchTo None, task_ready_queue k)" "\<not> running_task_is_running k"
      "\<forall>p. bq_of (task_ready_queue k) p = []"
  | (switch) p t l q where
      "pop_front_task (rq_bitmap K) (PRIORITY_LEVELS K) (task_ready_queue k) (prev_task_priority k) =
       Some (SwitchTo (Some t), q)" "p < prev_task_priority k" "bq_of (task_ready_queue k) p = t # l"
      "\<forall>p'<p. bq_of (task_ready_queue k) p' = []" "kernel_bq_inv (PRIORITY_LEVELS K) q"
      "bq_of q = (bq_of (task_ready_queue k))(p := l)"
proof -
  note L = kcfg_levels[OF K] and le = prev_task_priority_le[OF K inv(2,3)]
  have bq: "kernel_bq_inv (PRIORITY_LEVELS K) (task_ready_queue k)" using inv by (simp add: ready_inv_def)
  show thesis
  proof (cases "\<exists>p<prev_task_priority k. bq_of (task_ready_queue k) p \<noteq> []")
    case True
    define p where "p = (LEAST p. p < prev_task_priority k \<and> bq_of (task_ready_queue k) p \<noteq> [])"
    have p: "p < prev_task_priority k" "bq_of (task_ready_queue k) p \<noteq> []"
      using LeastI_ex[of "\<lambda>p. p < prev_task_priority k \<and> bq_of (task_ready_queue k) p \<noteq> []"] True
      by (auto simp: p_def)
    have least: "\<forall>p'<p. bq_of (task_ready_queue k) p' = []"
      using p(1) not_less_Least[of _ "\<lambda>p. p < prev_task_priority k \<and> bq_of (task_ready_queue k) p \<noteq> []"]
      by (force simp: p_def[symmetric])
    obtain t l where tl: "bq_of (task_ready_queue k) p = t # l" using p(2) by (cases "bq_of (task_ready_queue k) p") auto
    obtain q where "pop_front_task (rq_bitmap K) (PRIORITY_LEVELS K) (task_ready_queue k) (prev_task_priority k) =
       Some (SwitchTo (Some t), q)" "kernel_bq_inv (PRIORITY_LEVELS K) q"
      "bq_of q = (bq_of (task_ready_queue k))(p := l)"
      using bq.pop_front_some[OF L bq le(1) p(1) tl least, of "TARGET K"] unfolding rq_bitmap_def by blast
    then show thesis using switch p(1) tl least by blast
  next
    case False
    then have empty: "\<forall>p<prev_task_priority k. bq_of (task_ready_queue k) p = []" by blast
    show thesis
    proof (cases "running_task_is_running k")
      case True
      then have "prev_task_priority k < usize_max" using le by linarith
      from bq.pop_front_keep[OF L bq this empty, of "TARGET K"] show thesis
        using keep True empty unfolding rq_bitmap_def by blast
    next
      case False
      then have prev: "prev_task_priority k = usize_max" using le by blast
      have all: "\<forall>p. bq_of (task_ready_queue k) p = []"
      proof
        fix p
        show "bq_of (task_ready_queue k) p = []"
          using empty ready_levels[OF inv(1), of p] L prev by (cases "PRIORITY_LEVELS K \<le> p") auto
      qed
      from bq.pop_front_none[OF L bq all, of "TARGET K"] show thesis
        using idle False all prev unfolding rq_bitmap_def by simp
    qed
  qed
qed

text \<open>Removing the head of the ready queue and making it Running.\<close>

lemma ready_inv_pop:
  assumes inv: "ready_inv K k" and p: "bq_of (task_ready_queue k) p = t # l"
    and q: "kernel_bq_inv (PRIORITY_LEVELS K) q" "bq_of q = (bq_of (task_ready_queue k))(p := l)"
  shows "ready_inv K (upd_task t (\<lambda>c. c\<lparr>st := Running\<rparr>) (k\<lparr>task_ready_queue := q\<rparr>))"
    "t < N_TASKS K" "st (tasks k t) = Ready" "eff k t = p"
proof -
  have mem: "t' \<in> set (bq_of (task_ready_queue k) p') \<longleftrightarrow>
      t' < N_TASKS K \<and> st (tasks k t') = Ready \<and> eff k t' = p'" for t' p'
    using inv by (simp add: ready_inv_def)
  have d: "distinct (t # l)" using inv p unfolding ready_inv_def by metis
  show t: "t < N_TASKS K" "st (tasks k t) = Ready" "eff k t = p" using mem[of t p] p by simp_all
  have "t' \<in> set l \<longleftrightarrow> t' \<noteq> t \<and> t' < N_TASKS K \<and> st (tasks k t') = Ready \<and> eff k t' = p" for t'
    using mem[of t' p] p d by auto
  then show "ready_inv K (upd_task t (\<lambda>c. c\<lparr>st := Running\<rparr>) (k\<lparr>task_ready_queue := q\<rparr>))"
    using inv q d t by (auto simp: ready_inv_def)
qed

lemma inv_task_ready_queue [simp]:
  "pri_inv K (k\<lparr>task_ready_queue := q\<rparr>) = pri_inv K k"
  "ready_inv K (k\<lparr>running_task := r\<rparr>) = ready_inv K k"
  by (simp_all add: pri_inv_def ready_inv_def)

lemma run_invD: "run_inv K k \<Longrightarrow> st (tasks k t) = Running \<Longrightarrow> t < N_TASKS K \<Longrightarrow> running_task k = Some t"
  unfolding run_inv_def by blast

lemma run_inv_state: "run_inv K k \<Longrightarrow> running_task k = Some t \<Longrightarrow>
    t < N_TASKS K \<and> st (tasks k t) \<in> {Running, Waiting, Ready}"
  unfolding run_inv_def by blast

lemma nobody_running:
  assumes "run_inv K k" "\<not> running_task_is_running k" "t < N_TASKS K"
  shows "st (tasks k t) \<noteq> Running"
proof
  assume r: "st (tasks k t) = Running"
  then have "running_task k = Some t" using assms(1,3) by (blast dest: run_invD)
  then show False using r assms(2) by (simp add: running_task_is_running_def)
qed

lemma choose_next_running_task_ok:
  assumes K: "kcfg_ok K" and inv: "base_inv K k" and b: "boost_inv k"
  shows "\<exists>k'. choose_next_running_task K k = Some k' \<and> base_inv K k' \<and> sched_equiv k k' \<and>
    boost_inv k' \<and> priority_boost k' = priority_boost k \<and> cpu_lock k' = cpu_lock k \<and>
    task_context k' = task_context k \<and> (priority_boost k \<longrightarrow> k' = k) \<and> (\<not> priority_boost k \<longrightarrow> scheduled k')"
proof (cases "priority_boost k")
  case True
  then have "choose_next_running_task K k = Some k"
    using b by (simp add: choose_next_running_task_def boost_inv_def)
  then show ?thesis using inv b True by simp
next
  case boost: False
  note I = base_invD[OF inv]
  have base: "base_inv K k'" if "sched_equiv k k'" "ready_inv K k'" "run_inv K k'" for k'
    using inv that by (simp add: base_inv_def sched_equiv_inv[OF that(1)])
  show ?thesis
    using K I(1,2,3)
  proof (cases rule: pop_front_cases)
    case keep
    then have "prev_task_priority k \<noteq> usize_max" using prev_task_priority_le[OF K I(2,3)] by blast
    then have "choose_next_running_task K k = Some k"
      using keep boost by (simp add: choose_next_running_task_def)
    moreover have "scheduled k"
      using keep(2,3) by (auto simp: scheduled_def running_task_is_running_def prev_task_priority_def
          split: option.splits)
    ultimately show ?thesis using inv b boost by auto
  next
    case idle
    let ?k = "k\<lparr>running_task := None\<rparr>"
    have "running_task k = Some t \<Longrightarrow> st (tasks k t) = Waiting \<or> st (tasks k t) = Ready" for t
      using idle(2) I(3) by (auto simp: running_task_is_running_def run_inv_def)
    then have "choose_next_running_task K k = Some ?k"
      using idle boost by (cases "running_task k") (auto simp: choose_next_running_task_def Let_def)
    moreover have "sched_equiv k ?k" by simp
    moreover have "t < N_TASKS K \<Longrightarrow> st (tasks k t) \<noteq> Running" for t
      by (rule nobody_running[OF I(3) idle(2)])
    then have "run_inv K ?k" by (simp add: run_inv_def)
    moreover have "boost_inv ?k" "scheduled ?k" using boost idle(3) by (simp_all add: boost_inv_def scheduled_def)
    ultimately show ?thesis using base[of ?k] I(1) boost by (intro exI[of _ ?k]) simp
  next
    case (switch p t l q)
    let ?k1 = "upd_task t (\<lambda>c. c\<lparr>st := Running\<rparr>) (k\<lparr>task_ready_queue := q\<rparr>)"
    note P = ready_inv_pop[OF I(1) switch(3,5,6)]
    have pop: "choose_next_running_task K k =
        (if running_task k = Some t then Some ?k1
         else do { k \<leftarrow> (case running_task k of None \<Rightarrow> Some ?k1
                          | Some u \<Rightarrow> (case st (tasks k u) of Running \<Rightarrow> make_ready K u ?k1
                              | Waiting \<Rightarrow> Some ?k1 | Ready \<Rightarrow> Some ?k1
                              | Dormant \<Rightarrow> None | PendingActivation \<Rightarrow> None));
                   Some (k\<lparr>running_task := Some t\<rparr>) })"
      using switch(1) boost
      by (auto simp: choose_next_running_task_def Let_def split: option.split task_st.split)
    have unique: "st (tasks k u) = Running \<Longrightarrow> u < N_TASKS K \<Longrightarrow> running_task k = Some u" for u
      using run_invD[OF I(3)] by blast
    have lt: "\<forall>p'<p. bq_of q p' = []" using switch(4,6) by simp
    have equiv1: "sched_equiv k ?k1" using P(3) by (intro sched_equivI) auto
    show ?thesis
    proof (cases "running_task k = Some t")
      case True
      have "run_inv K ?k1" using P True by (auto simp: run_inv_def dest: unique)
      then show ?thesis using base[OF equiv1 P(1)] equiv1 True pop P lt boost
        by (auto simp: boost_inv_def scheduled_def)
    next
      case False
      show ?thesis
      proof (cases "running_task_is_running k")
        case True
        then obtain u where u: "running_task k = Some u" "st (tasks k u) = Running" "u \<noteq> t"
          using False by (auto simp: running_task_is_running_def split: option.splits)
        have uN: "u < N_TASKS K" using run_inv_state[OF I(3) u(1)] by blast
        have pu: "eff k u < PRIORITY_LEVELS K" "p < eff k u"
          using I(2) uN u switch(2) by (simp_all add: pri_inv_def prev_task_priority_def)
        obtain q2 where q2: "make_ready K u ?k1 = Some (upd_task u (\<lambda>c. c\<lparr>st := Ready\<rparr>) ?k1\<lparr>task_ready_queue := q2\<rparr>)"
          "ready_inv K (upd_task u (\<lambda>c. c\<lparr>st := Ready\<rparr>) ?k1\<lparr>task_ready_queue := q2\<rparr>)"
          "bq_of q2 = (bq_of q)(eff k u := bq_of q (eff k u) @ [u])"
          using make_ready_ok[OF K P(1) uN] u pu by auto
        let ?k2 = "upd_task u (\<lambda>c. c\<lparr>st := Ready\<rparr>) ?k1\<lparr>task_ready_queue := q2, running_task := Some t\<rparr>"
        have "choose_next_running_task K k = Some ?k2" using pop False u q2(1) by simp
        moreover have equiv2: "sched_equiv k ?k2"
          using P(3) u by (intro sched_equivI) auto
        moreover have "run_inv K ?k2" using P u(1,3) by (auto simp: run_inv_def dest: unique)
        moreover have "ready_inv K ?k2" using q2(2) by simp
        moreover have "scheduled ?k2" using u pu lt q2(3) P(4) by (simp add: scheduled_def)
        ultimately show ?thesis using base[of ?k2] boost by (auto simp: boost_inv_def)
      next
        case not_running: False
        let ?k2 = "?k1\<lparr>running_task := Some t\<rparr>"
        have "running_task k = Some u \<Longrightarrow> st (tasks k u) = Waiting \<or> st (tasks k u) = Ready" for u
          using run_inv_state[OF I(3), of u] nobody_running[OF I(3) not_running, of u] by auto
        then have "choose_next_running_task K k = Some ?k2"
          using pop False by (cases "running_task k") (auto split: task_st.split)
        moreover have equiv2: "sched_equiv k ?k2"
          using P(3) by (intro sched_equivI) auto
        moreover have "run_inv K ?k2"
          using P nobody_running[OF I(3) not_running] by (auto simp: run_inv_def)
        moreover have "ready_inv K ?k2" using P(1) by simp
        moreover have "scheduled ?k2" using lt P(4) by (simp add: scheduled_def)
        ultimately show ?thesis using base[of ?k2] boost by (auto simp: boost_inv_def)
      qed
    qed
  qed
qed

end
