(* ===== verification/Kernel_Timeouts.thy ===== *)
theory Kernel_Timeouts
  imports Kernel_Inv
begin

text \<open>
  The timeouts of the kernel: the heap has room for every timeout object there is, so arming a
  timeout never fails, and what the operations of \<open>Timeout\<close> mean for \<open>timer_inv\<close>.
\<close>

section \<open>The timeout objects\<close>

definition timeout_objects :: "kcfg \<Rightarrow> timeout_ref set" where
  "timeout_objects K = TaskTimeout ` {..<N_TASKS K} \<union> TimerTimeout ` {..<N_TIMERS K}"

lemma card_timeout_objects: "card (timeout_objects K) \<le> N_TASKS K + N_TIMERS K"
  unfolding timeout_objects_def
  by (rule card_Un_le[THEN order.trans]) (use card_image_le[of "{..<_}"] in \<open>force intro: add_mono\<close>)

lemma finite_timeout_objects [simp]: "finite (timeout_objects K)"
  by (simp add: timeout_objects_def)

lemma linked_object: "linked_ok K k r \<Longrightarrow> r \<in> timeout_objects K"
  by (cases r) (auto simp: linked_ok_def timeout_objects_def)

lemma heap_has_room:
  assumes K: "kcfg_ok K" and inv: "timer_inv K k" and r: "r \<in> timeout_objects K" "r \<notin> set (heap (tk k))"
  shows "length (heap (tk k)) < HEAP_CAPACITY (PORT_TIMER K)"
proof -
  have "distinct (heap (tk k))" using inv by (simp add: timer_inv_def tk_inv_def heap_ok_def)
  then have "length (heap (tk k)) = card (set (heap (tk k)))" by (rule distinct_card[symmetric])
  also have "\<dots> < card (timeout_objects K)"
    using inv r by (intro psubset_card_mono) (auto simp: timer_inv_def dest: linked_object)
  also have "\<dots> \<le> HEAP_CAPACITY (PORT_TIMER K)" using card_timeout_objects K by (simp add: kcfg_ok_def)
  finally show ?thesis .
qed

section \<open>Arming a timeout\<close>

text \<open>The callbacks of the timeouts do not change.\<close>

definition same_callbacks :: "timekeeping \<Rightarrow> timekeeping \<Rightarrow> bool" where
  "same_callbacks g g' \<longleftrightarrow>
     (\<forall>r. callback (timeouts g' r) = callback (timeouts g r) \<and>
        callback_param (timeouts g' r) = callback_param (timeouts g r))"

lemma same_timeouts_callbacks: "same_timeouts (timeouts g) (timeouts g') \<Longrightarrow> same_callbacks g g'"
  unfolding same_timeouts_def same_callbacks_def
  by (metis timeout.select_convs(3,4) timeout.surjective timeout.update_convs(2))

lemma same_callbacks_refl [simp]: "same_callbacks g g"
  by (simp add: same_callbacks_def)

lemma same_callbacks_trans: "same_callbacks a b \<Longrightarrow> same_callbacks b c \<Longrightarrow> same_callbacks a c"
  by (simp add: same_callbacks_def)

lemma arm_timeout_ok:
  assumes inv: "tk_inv P g" and r: "r \<notin> set (heap g)"
    and cap: "length (heap g) < HEAP_CAPACITY P" "HEAP_CAPACITY P < HEAP_POS_NONE"
    and d: "d \<noteq> BAD_DURATION32" "unat d \<le> DURATION_MAX + present_gap P g"
  shows "\<exists>g1 g2. set_expiration_after P g r d = Some g1 \<and> insert_timeout P g1 r = Some g2 \<and>
    tk_inv P g2 \<and> tk_same g g2 \<and> same_callbacks g g2 \<and> set (heap g2) = insert r (set (heap g)) \<and>
    at (timeouts g2 r) = event_time P g + d \<and>
    (\<not> handle_tick_in_progress g \<longrightarrow> tick_scheduled P (event_time P g) g2)"
proof -
  let ?g1 = "set_timeout r ((timeouts g r)\<lparr>at := event_time P g + d\<rparr>) g"
  have gap: "present_gap P g \<le> unat USER_HEADROOM"
    using inv unfolding tk_inv_def present_gap_def word_le_nat_alt by linarith
  note e = set_expiration_after_ok[OF inv r d(1)]
  have same: "tk_same g ?g1" by simp
  have "distance ?g1 (event_time P ?g1) r \<le> HEADROOM + DURATION_MAX + present_gap P ?g1"
    using e(3)[OF d(2) gap] by (simp only: tk_same_event_time[OF same] tk_same_gap[OF same])
  with e(2) obtain g2 where g2: "insert_timeout P ?g1 r = Some g2" "tk_inv P g2" "tk_same ?g1 g2"
    "same_timeouts (timeouts ?g1) (timeouts g2)" "mset (heap g2) = add_mset r (mset (heap ?g1))"
    "\<not> handle_tick_in_progress ?g1 \<longrightarrow> tick_scheduled P (event_time P ?g1) g2"
    using insert_timeout_ok[OF e(2), of r] r cap by auto
  have "set (heap g2) = insert r (set (heap g))"
    using g2(5) by (metis set_mset_add_mset_insert set_mset_mset timeouts_set_timeout(2))
  moreover have "same_callbacks ?g1 g2" by (rule same_timeouts_callbacks[OF g2(4)])
  then have "same_callbacks g g2" by (simp add: same_callbacks_def split: if_splits)
  moreover have "at (timeouts g2 r) = event_time P g + d" using same_timeouts_at[OF g2(4), of r] by simp
  ultimately show ?thesis
    using e(1) g2(1,2,6) tk_same_trans[OF same g2(3)]
    by (intro exI[of _ ?g1] exI[of _ g2]) (simp add: tk_same_event_time[OF same], simp add: set_timeout_def)
qed

text \<open>
  Arming a timeout with any duration: what happens does not depend on it, but the invariant of the
  timekeeping does.
\<close>

lemma unat_time32: "unat (d :: time32) < 2 ^ 32"
  using unsigned_less[of d, where ?'a = nat] by simp

lemma distance_after:
  "unat (now + d - critical_point now) =
     (if unat d < 2 ^ 32 - HEADROOM then HEADROOM + unat d else HEADROOM + unat d - 2 ^ 32)"
proof -
  have "unat (now + d - critical_point now) = unat (0x60000000 + d)"
    unfolding critical_point_diff by (simp add: add.commute)
  also have "\<dots> = (HEADROOM + unat d) mod 2 ^ 32" by (simp add: unat_word_ariths HEADROOM_def)
  also have "\<dots> = (if unat d < 2 ^ 32 - HEADROOM then HEADROOM + unat d else HEADROOM + unat d - 2 ^ 32)"
    using unat_time32[of d] by (simp add: HEADROOM_def mod_if)
  finally show ?thesis .
qed

lemma arm_timeout_any:
  assumes inv: "tk_inv P g" and r: "r \<notin> set (heap g)"
    and cap: "length (heap g) < HEAP_CAPACITY P" "HEAP_CAPACITY P < HEAP_POS_NONE" and d: "d \<noteq> BAD_DURATION32"
  shows "\<exists>g1 g2. set_expiration_after P g r d = Some g1 \<and> insert_timeout P g1 r = Some g2 \<and>
    tk_same g g2 \<and> same_callbacks g g2 \<and> set (heap g2) = insert r (set (heap g)) \<and>
    at (timeouts g2 r) = event_time P g + d \<and>
    (\<forall>x. x \<noteq> r \<longrightarrow> at (timeouts g2 x) = at (timeouts g x)) \<and>
    (tk_inv P g2 \<longleftrightarrow> unat d \<le> DURATION_MAX + present_gap P g \<or> 2 ^ 32 - HEADROOM \<le> unat d) \<and>
    (\<not> handle_tick_in_progress g \<longrightarrow> tick_scheduled P (event_time P g) g2)"
proof -
  let ?g1 = "set_timeout r ((timeouts g r)\<lparr>at := event_time P g + d\<rparr>) g"
  note e = set_expiration_after_ok[OF inv r d]
  have same: "tk_same g ?g1" by simp
  have "distance ?g1 (event_time P g) r = unat (event_time P g + d - critical_point (event_time P g))"
    by (simp add: distance_def)
  then have dist: "distance ?g1 (event_time P g) r \<le> HEADROOM + DURATION_MAX + present_gap P g \<longleftrightarrow>
      unat d \<le> DURATION_MAX + present_gap P g \<or> 2 ^ 32 - HEADROOM \<le> unat d"
    using unat_time32[of d] by (auto simp: distance_after HEADROOM_def)
  obtain g2 where g2: "insert_timeout P ?g1 r = Some g2" "tk_same ?g1 g2"
    "tk_inv P g2 \<longleftrightarrow> distance ?g1 (event_time P ?g1) r \<le> HEADROOM + DURATION_MAX + present_gap P ?g1"
    "same_timeouts (timeouts ?g1) (timeouts g2)" "mset (heap g2) = add_mset r (mset (heap ?g1))"
    "\<not> handle_tick_in_progress ?g1 \<longrightarrow> tick_scheduled P (event_time P ?g1) g2"
    using insert_timeout_any[OF e(2), of r] r cap by auto
  have "set (heap g2) = insert r (set (heap g))"
    using g2(5) by (metis set_mset_add_mset_insert set_mset_mset timeouts_set_timeout(2))
  moreover have "same_callbacks ?g1 g2" by (rule same_timeouts_callbacks[OF g2(4)])
  then have "same_callbacks g g2" by (simp add: same_callbacks_def split: if_splits)
  moreover have "at (timeouts g2 x) = (if x = r then event_time P g + d else at (timeouts g x))" for x
    using same_timeouts_at[OF g2(4), of x] by simp
  moreover have "tk_inv P g2 \<longleftrightarrow> unat d \<le> DURATION_MAX + present_gap P g \<or> 2 ^ 32 - HEADROOM \<le> unat d"
    using g2(3) dist by (simp only: tk_same_event_time[OF same] tk_same_gap[OF same])
  moreover have "tk_same g g2" by (rule tk_same_trans[OF same g2(2)])
  ultimately show ?thesis using e(1) g2(1,6)
    by (intro exI[of _ ?g1] exI[of _ g2]) (simp add: tk_same_event_time[OF same], simp add: set_timeout_def)
qed

text \<open>A state whose timekeeping part has changed.\<close>

lemma timer_inv_tkI:
  assumes "timer_inv K k" "tk_inv (PORT_TIMER K) g" "same_callbacks (tk k) g"
    and "\<And>r. r \<in> set (heap g) \<Longrightarrow> r \<in> set (heap (tk k)) \<or> linked_ok K (k\<lparr>tk := g\<rparr>) r"
  shows "timer_inv K (k\<lparr>tk := g\<rparr>)"
  unfolding timer_inv_def
proof (intro conjI ballI allI impI)
  fix r
  assume "r \<in> set (heap (tk (k\<lparr>tk := g\<rparr>)))"
  then have "r \<in> set (heap (tk k)) \<or> linked_ok K (k\<lparr>tk := g\<rparr>) r" using assms(4) by simp
  moreover have "linked_ok K k r \<Longrightarrow> linked_ok K (k\<lparr>tk := g\<rparr>) r"
    using assms(3) by (simp add: linked_ok_def same_callbacks_def split: timeout_ref.splits)
  ultimately show "linked_ok K (k\<lparr>tk := g\<rparr>) r" using assms(1) by (auto simp: timer_inv_def)
qed (use assms in \<open>auto simp: timer_inv_def same_callbacks_def\<close>)

lemma timer_inv_tk_same:
  assumes "timer_inv K k" "tk_inv (PORT_TIMER K) g" "heap g = heap (tk k)" "timeouts g = timeouts (tk k)"
  shows "timer_inv K (k\<lparr>tk := g\<rparr>)"
  by (rule timer_inv_tkI) (use assms in \<open>auto simp: same_callbacks_def\<close>)

text \<open>The invariants other than \<open>timer_inv\<close> do not depend on the timekeeping part.\<close>

lemma inv_tk [simp]:
  "ready_inv K (k\<lparr>tk := g\<rparr>) = ready_inv K k" "pri_inv K (k\<lparr>tk := g\<rparr>) = pri_inv K k"
  "run_inv K (k\<lparr>tk := g\<rparr>) = run_inv K k" "wait_inv K (k\<lparr>tk := g\<rparr>) = wait_inv K k"
  "queue_inv K (k\<lparr>tk := g\<rparr>) = queue_inv K k" "sem_inv K (k\<lparr>tk := g\<rparr>) = sem_inv K k"
  "event_inv K (k\<lparr>tk := g\<rparr>) = event_inv K k" "mutex_inv K X D (k\<lparr>tk := g\<rparr>) = mutex_inv K X D k"
  "boost_inv (k\<lparr>tk := g\<rparr>) = boost_inv k" "preempt_inv (k\<lparr>tk := g\<rparr>) = preempt_inv k"
  by (simp_all add: ready_inv_def pri_inv_def run_inv_def wait_inv_def queue_inv_def
      sem_inv_def event_inv_def mutex_inv_def chains_ok_def chain_head_def
      held_by_def owners_ok_def priorities_ok_def documented_priority_def ceilings_held_def
      mutex_waits_ok_def boost_inv_def preempt_inv_def cong: option.case_cong prod.case_cong if_cong)

lemma base_inv_tk: "base_inv K k \<Longrightarrow> timer_inv K (k\<lparr>tk := g\<rparr>) \<Longrightarrow> base_inv K (k\<lparr>tk := g\<rparr>)"
  by (simp add: base_inv_def)

section \<open>Operations on the timeouts of a kernel\<close>

lemma remove_timeout_inv:
  assumes inv: "timer_inv K k"
  shows "\<exists>g. remove_timeout (PORT_TIMER K) (tk k) r = Some g \<and> timer_inv K (k\<lparr>tk := g\<rparr>) \<and>
    tk_same (tk k) g \<and> set (heap g) = set (heap (tk k)) - {r} \<and> same_timeouts (timeouts (tk k)) (timeouts g)"
proof -
  have "tk_inv (PORT_TIMER K) (tk k)" using inv by (simp add: timer_inv_def)
  then obtain g where g: "remove_timeout (PORT_TIMER K) (tk k) r = Some g" "tk_inv (PORT_TIMER K) g"
    "tk_same (tk k) g" "same_timeouts (timeouts (tk k)) (timeouts g)" "set (heap g) = set (heap (tk k)) - {r}"
    using remove_timeout_ok by blast
  have "timer_inv K (k\<lparr>tk := g\<rparr>)"
    by (rule timer_inv_tkI[OF inv g(2) same_timeouts_callbacks[OF g(4)]]) (simp add: g(5))
  then show ?thesis using g by blast
qed

text \<open>A timeout that is not linked may be written.\<close>

lemma set_timeout_timer_inv:
  assumes inv: "timer_inv K k" and r: "r \<notin> set (heap (tk k))"
    and t: "heap_pos t = HEAP_POS_NONE" "callback t = callback (timeouts (tk k) r)"
      "callback_param t = callback_param (timeouts (tk k) r)"
  shows "timer_inv K (k\<lparr>tk := set_timeout r t (tk k)\<rparr>)"
proof (rule timer_inv_tkI[OF inv])
  show "tk_inv (PORT_TIMER K) (set_timeout r t (tk k))"
    using inv r t(1) by (intro set_timeout_inv) (simp_all add: timer_inv_def)
  show "same_callbacks (tk k) (set_timeout r t (tk k))" using t by (simp add: same_callbacks_def)
qed simp

lemma not_linked_pos: "timer_inv K k \<Longrightarrow> r \<notin> set (heap (tk k)) \<Longrightarrow> heap_pos (timeouts (tk k) r) = HEAP_POS_NONE"
  by (simp add: timer_inv_def tk_inv_def heap_ok_def)

section \<open>Durations given by the application\<close>

lemma time32_from_duration_max:
  assumes "time32_from_duration x = Some d"
  shows "unat d \<le> DURATION_MAX"
proof -
  have "0 \<le> sint d" using assms by (auto simp: time32_from_duration_def split: if_splits)
  then have "int (unat d) = sint d" by (rule sint_unat_nonneg)
  also have "\<dots> < 2147483648" using sint_lt[of d] by simp
  finally have "unat d < 2147483648" by linarith
  then show ?thesis by (simp add: DURATION_MAX_def)
qed

end
