(* ===== verification/Kernel_Contract.thy ===== *)
theory Kernel_Contract
  imports Kernel_Timeouts
begin

text \<open>
  The contract of a system call: from a state that satisfies the invariants of the kernel, it
  returns without a panic, in a state that satisfies them, and it leaves alone what a system call
  does not concern.
\<close>

section \<open>The invariant of the running system\<close>

text \<open>After booting no task is pending activation.\<close>

definition activated :: "kcfg \<Rightarrow> kernel \<Rightarrow> bool" where
  "activated K k \<longleftrightarrow> (\<forall>t<N_TASKS K. st (tasks k t) \<noteq> PendingActivation)"

definition kinv :: "kcfg \<Rightarrow> kernel \<Rightarrow> bool" where
  "kinv K k \<longleftrightarrow> base_inv K k \<and> mutex_inv K None {} k \<and> boost_inv k \<and> activated K k"

lemma kinvD:
  assumes "kinv K k"
  shows "base_inv K k" "mutex_inv K None {} k" "boost_inv k" "activated K k"
    "ready_inv K k" "pri_inv K k" "run_inv K k" "wait_inv K k" "queue_inv K k" "sem_inv K k"
    "event_inv K k" "timer_inv K k"
  using assms by (simp_all add: kinv_def base_inv_def)

lemma activated_simps [simp]:
  "activated K (leave_cpu_lock k) = activated K k" "activated K (yield_cpu k) = activated K k"
  "activated K (k\<lparr>cpu_lock := b\<rparr>) = activated K k" "activated K (k\<lparr>task_context := b\<rparr>) = activated K k"
  "activated K (k\<lparr>yield_pending := b\<rparr>) = activated K k" "activated K (k\<lparr>priority_boost := b\<rparr>) = activated K k"
  "activated K (k\<lparr>scheduler_active := b\<rparr>) = activated K k" "activated K (k\<lparr>tk := g\<rparr>) = activated K k"
  "activated K (k\<lparr>running_task := r\<rparr>) = activated K k"
  by (simp_all add: activated_def)

lemma boost_inv_record [simp]:
  "boost_inv (k\<lparr>cpu_lock := b\<rparr>) = boost_inv k" "boost_inv (k\<lparr>task_context := b\<rparr>) = boost_inv k"
  "boost_inv (k\<lparr>yield_pending := b\<rparr>) = boost_inv k" "boost_inv (k\<lparr>scheduler_active := b\<rparr>) = boost_inv k"
  by (simp_all add: boost_inv_def)

lemma preempt_inv_record [simp]:
  "preempt_inv (k\<lparr>cpu_lock := b\<rparr>) = preempt_inv k" "preempt_inv (k\<lparr>task_context := b\<rparr>) = preempt_inv k"
  "preempt_inv (k\<lparr>scheduler_active := b\<rparr>) = preempt_inv k" "preempt_inv (k\<lparr>yield_pending := True\<rparr>)"
  by (simp_all add: preempt_inv_def)

lemma kinv_simps [simp]:
  "kinv K (leave_cpu_lock k) = kinv K k" "kinv K (yield_cpu k) = kinv K k"
  "kinv K (k\<lparr>cpu_lock := b\<rparr>) = kinv K k" "kinv K (k\<lparr>task_context := b\<rparr>) = kinv K k"
  "kinv K (k\<lparr>yield_pending := b\<rparr>) = kinv K k" "kinv K (k\<lparr>scheduler_active := b\<rparr>) = kinv K k"
  by (simp_all add: kinv_def)

lemma activated_sched: "sched_equiv k k' \<Longrightarrow> activated K k' = activated K k"
  by (simp add: activated_def sched_equiv_fields)

section \<open>The caller\<close>

text \<open>A system call from a task is made by the running task, which is not inside another one.\<close>

definition caller_ok :: "kernel \<Rightarrow> bool" where
  "caller_ok k \<longleftrightarrow>
     (task_context k \<longrightarrow>
        (\<exists>t. running_task k = Some t \<and> st (tasks k t) = Running \<and> blocked_in (tasks k t) = None))"

lemma caller_ok_lock [simp]: "caller_ok (k\<lparr>cpu_lock := b\<rparr>) = caller_ok k"
  by (simp add: caller_ok_def)

section \<open>What a call leaves alone\<close>

text \<open>
  \<open>frame k k'\<close>: the running task and the context are the same, no dispatch is forgotten, a task
  that was Running still is unless it has to give up the processor, and while the tick handler
  runs the clocks do not move.
\<close>

definition frame :: "kernel \<Rightarrow> kernel \<Rightarrow> bool" where
  "frame k k' \<longleftrightarrow>
     running_task k' = running_task k \<and> task_context k' = task_context k \<and>
     scheduler_active k' = scheduler_active k \<and>
     (yield_pending k \<longrightarrow> yield_pending k') \<and>
     (running_task_is_running k \<longrightarrow> \<not> yield_pending k' \<longrightarrow> running_task_is_running k') \<and>
     handle_tick_in_progress (tk k') = handle_tick_in_progress (tk k) \<and>
     (handle_tick_in_progress (tk k) \<longrightarrow> tk_same (tk k) (tk k'))"

lemma frame_refl [simp]: "frame k k"
  by (simp add: frame_def)

lemma frame_trans: "frame a b \<Longrightarrow> frame b c \<Longrightarrow> frame a c"
  by (auto simp: frame_def intro: tk_same_trans)

lemma frame_lock [simp]:
  "frame (k\<lparr>cpu_lock := b\<rparr>) k' = frame k k'" "frame k (k'\<lparr>cpu_lock := b\<rparr>) = frame k k'"
  "frame k (leave_cpu_lock k') = frame k k'"
  by (simp_all add: frame_def leave_cpu_lock_def)

definition call_ok :: "kcfg \<Rightarrow> kernel \<Rightarrow> ('a ret \<times> kernel) option \<Rightarrow> bool" where
  "call_ok K k r \<longleftrightarrow>
     (\<exists>x k'. r = Some (x, k') \<and> kinv K k' \<and> (preempt_inv k \<longrightarrow> preempt_inv k') \<and> frame k k' \<and>
        (x = Blocked \<longrightarrow> task_context k \<and> yield_pending k'))"

lemma call_okI:
  assumes "r = Some (x, k')" "kinv K k'" "preempt_inv k \<Longrightarrow> preempt_inv k'" "frame k k'"
    "x = Blocked \<Longrightarrow> task_context k \<and> yield_pending k'"
  shows "call_ok K k r"
  using assms by (auto simp: call_ok_def)

lemma call_ok_same: "kinv K k \<Longrightarrow> x \<noteq> Blocked \<Longrightarrow> call_ok K k (Some (x, k))"
  by (rule call_okI) auto

lemma with_cpu_lock_ok:
  assumes "kinv K k" "\<not> cpu_lock k \<Longrightarrow> call_ok K (k\<lparr>cpu_lock := True\<rparr>) (body (k\<lparr>cpu_lock := True\<rparr>))"
  shows "call_ok K k (with_cpu_lock body k)"
proof (cases "cpu_lock k")
  case True
  then show ?thesis using assms(1) by (intro call_okI[of _ "Err BadContext" k]) (simp_all add: with_cpu_lock_def lock_cpu_def)
next
  case False
  then obtain x k' where "body (k\<lparr>cpu_lock := True\<rparr>) = Some (x, k')" "kinv K k'"
    "preempt_inv k \<longrightarrow> preempt_inv k'" "frame k k'" "x = Blocked \<longrightarrow> task_context k \<and> yield_pending k'"
    using assms(2) by (auto simp: call_ok_def)
  then show ?thesis using False
    by (intro call_okI[of _ x "leave_cpu_lock k'"]) (simp_all add: with_cpu_lock_def lock_cpu_def)
qed

section \<open>Checking for preemption\<close>

text \<open>
  The check at the end of an operation: whatever the operation has made Ready, the state is one
  in which nothing is missed.
\<close>

lemma unlock_check_ok:
  assumes K: "kcfg_ok K" and inv: "kinv K k"
  obtains y where "unlock_cpu_and_check_preemption K k = Some (k\<lparr>cpu_lock := False, yield_pending := y\<rparr>)"
    "kinv K (k\<lparr>cpu_lock := False, yield_pending := y\<rparr>)"
    "preempt_inv (k\<lparr>cpu_lock := False, yield_pending := y\<rparr>)" "yield_pending k \<longrightarrow> y"
    "frame k (k\<lparr>cpu_lock := False, yield_pending := y\<rparr>)"
proof -
  note I = kinvD[OF inv]
  obtain y where "unlock_cpu_and_check_preemption K k = Some (k\<lparr>cpu_lock := False, yield_pending := y\<rparr>)"
    "yield_pending k \<longrightarrow> y" "preempt_inv (k\<lparr>cpu_lock := False, yield_pending := y\<rparr>)"
    using unlock_cpu_and_check_preemption_ok[OF K I(5,6,7,3)] by blast
  moreover from this have "frame k (k\<lparr>cpu_lock := False, yield_pending := y\<rparr>)" by (auto simp: frame_def)
  ultimately show thesis using inv by (intro that) simp_all
qed

lemma finish_with_check:
  assumes K: "kcfg_ok K" and k': "kinv K k'" "frame k k'" and x: "x \<noteq> Blocked"
  shows "call_ok K k (do { k \<leftarrow> unlock_cpu_and_check_preemption K k'; Some (x, k) })"
proof -
  obtain y where "unlock_cpu_and_check_preemption K k' = Some (k'\<lparr>cpu_lock := False, yield_pending := y\<rparr>)"
    "kinv K (k'\<lparr>cpu_lock := False, yield_pending := y\<rparr>)"
    "preempt_inv (k'\<lparr>cpu_lock := False, yield_pending := y\<rparr>)"
    "frame k' (k'\<lparr>cpu_lock := False, yield_pending := y\<rparr>)"
    using unlock_check_ok[OF K k'(1)] by metis
  then show ?thesis using x frame_trans[OF k'(2)] by (auto intro!: call_okI)
qed

end
