(* ===== verification/Wait.thy ===== *)
theory Wait
  imports Kernel_Contract
begin

text \<open>
  Wait queues and wait objects (\<^verbatim>\<open>r3_kernel/src/wait.rs\<close>, \<^verbatim>\<open>task.rs\<close>).  A blocking operation is cut
  in two at the point where the task loses the processor: the first part ends in
  \<open>wait_until_woken_up\<close>, which leaves the task Waiting; the second, \<open>wait_finish\<close>, runs when the
  scheduler has made the task Running again.
\<close>

section \<open>Wait queues\<close>

text \<open>
  The position at which a new wait object is inserted: the cursor moves from the back over the
  tasks with a lower priority (a larger value).  \<open>pri\<close> is the effective priority of a waiter.
\<close>

fun find_insertion_position :: "(nat \<Rightarrow> nat) \<Rightarrow> nat \<Rightarrow> nat list \<Rightarrow> nat option \<Rightarrow> nat option" where
  "find_insertion_position pri cur_task_pri [] insert_at = insert_at"
| "find_insertion_position pri cur_task_pri (next_cursor # rest) insert_at =
     (if cur_task_pri < pri next_cursor
      then find_insertion_position pri cur_task_pri rest (Some next_cursor)
      else insert_at)"

definition find_insertion_position_by_task_priority :: "kernel \<Rightarrow> nat \<Rightarrow> nat list \<Rightarrow> nat option" where
  "find_insertion_position_by_task_priority k cur_task_pri ws =
     find_insertion_position (\<lambda>t. effective_priority (tasks k t)) cur_task_pri (rev ws) None"

text \<open>\<^verbatim>\<open>ListAccessorCell::insert\<close>: before the given element, or at the back.\<close>

definition insert_wait :: "nat \<Rightarrow> nat option \<Rightarrow> nat list \<Rightarrow> nat list option" where
  "insert_wait t pos ws =
     guard (t \<notin> set ws)
       (case pos of
          None \<Rightarrow> Some (ws @ [t])
        | Some u \<Rightarrow> guard (u \<in> set ws)
            (Some (takeWhile (\<lambda>x. x \<noteq> u) ws @ t # dropWhile (\<lambda>x. x \<noteq> u) ws)))"

text \<open>\<^verbatim>\<open>ListAccessorCell::remove\<close>\<close>

definition remove_wait :: "nat \<Rightarrow> nat list \<Rightarrow> nat list option" where
  "remove_wait t ws = guard (t \<in> set ws) (Some (remove1 t ws))"

text \<open>The tail of \<^verbatim>\<open>wait_inner\<close> and of \<^verbatim>\<open>reorder_wait\<close>: link the wait object of task \<open>t\<close>.\<close>

definition link_wait :: "wait_queue_id \<Rightarrow> nat \<Rightarrow> kernel \<Rightarrow> kernel option" where
  "link_wait q t k =
     (let ws = waits_of k q;
          insert_at = (case order (wait_queue_of k q) of
            Fifo \<Rightarrow> None
          | TaskPriority \<Rightarrow>
              find_insertion_position_by_task_priority k (effective_priority (tasks k t)) ws)
      in do { ws \<leftarrow> insert_wait t insert_at ws; Some (set_waits q ws k) })"

definition reorder_wait :: "wait_queue_id \<Rightarrow> nat \<Rightarrow> kernel \<Rightarrow> kernel option" where
  "reorder_wait q w k =
     (case order (wait_queue_of k q) of
        Fifo \<Rightarrow> Some k
      | TaskPriority \<Rightarrow>
          guard (wait_in (wait_objs k w) = Some q)
           (do { ws \<leftarrow> remove_wait w (waits_of k q);
                 link_wait q (wait_task (wait_objs k w)) (set_waits q ws k) }))"

definition first_waiting_task :: "wait_queue_id \<Rightarrow> kernel \<Rightarrow> nat option" where
  "first_waiting_task q k =
     (case waits_of k q of [] \<Rightarrow> None | w # _ \<Rightarrow> Some (wait_task (wait_objs k w)))"

section \<open>Waking up\<close>

definition complete_wait :: "kcfg \<Rightarrow> nat \<Rightarrow> wait_result \<Rightarrow> kernel \<Rightarrow> kernel option" where
  "complete_wait K w res k =
     (let t = wait_task (wait_objs k w)
      in guard (current_wait (tasks k t) = Some w)
          (let k = upd_task t (\<lambda>c. c\<lparr>current_wait := None, wait_result := res\<rparr>) k
           in guard (st (tasks k t) = Waiting) (make_ready K t k)))"

definition wake_up_one :: "kcfg \<Rightarrow> wait_queue_id \<Rightarrow> kernel \<Rightarrow> (bool \<times> kernel) option" where
  "wake_up_one K q k =
     (case waits_of k q of
        [] \<Rightarrow> Some (False, k)
      | w # ws \<Rightarrow>
          (let k = set_waits q ws k
           in guard (wait_in (wait_objs k w) = Some q)
               (do { k \<leftarrow> complete_wait K w WaitOk k; Some (True, k) })))"

text \<open>
  \<open>cond\<close> is the closure of the source: it reads and writes its captured variables and the cell in
  the payload.  The cursor of the source is advanced before the current wait object is possibly
  unlinked and nothing else changes the queue, so the loop visits the objects that were in the
  queue at the beginning, in this order.
\<close>

fun wake_up_loop ::
  "kcfg \<Rightarrow> wait_queue_id \<Rightarrow> (wait_payload \<Rightarrow> 's \<Rightarrow> (bool \<times> wait_payload \<times> 's) option) \<Rightarrow>
   nat list \<Rightarrow> 's \<Rightarrow> kernel \<Rightarrow> ('s \<times> kernel) option" where
  "wake_up_loop K q cond [] s k = Some (s, k)"
| "wake_up_loop K q cond (w # cur) s k =
     guard (wait_in (wait_objs k w) = Some q)
      (do { (wake, p, s) \<leftarrow> cond (payload (wait_objs k w)) s;
            let k = upd_wait_obj w ((wait_objs k w)\<lparr>payload := p\<rparr>) k;
            k \<leftarrow> (if \<not> wake then Some k
                  else do { ws \<leftarrow> remove_wait w (waits_of k q);
                            complete_wait K w WaitOk (set_waits q ws k) });
            wake_up_loop K q cond cur s k })"

definition wake_up_all_conditional ::
  "kcfg \<Rightarrow> wait_queue_id \<Rightarrow> (wait_payload \<Rightarrow> 's \<Rightarrow> (bool \<times> wait_payload \<times> 's) option) \<Rightarrow>
   's \<Rightarrow> kernel \<Rightarrow> ('s \<times> kernel) option" where
  "wake_up_all_conditional K q cond s k = wake_up_loop K q cond (waits_of k q) s k"

definition with_current_wait_payload :: "kernel \<Rightarrow> nat \<Rightarrow> (wait_payload option \<Rightarrow> 'r) \<Rightarrow> 'r" where
  "with_current_wait_payload k t f =
     f (map_option (\<lambda>w. payload (wait_objs k w)) (current_wait (tasks k t)))"

definition reorder_wait_of_task :: "nat \<Rightarrow> kernel \<Rightarrow> kernel option" where
  "reorder_wait_of_task t k =
     (case current_wait (tasks k t) of
        None \<Rightarrow> Some k
      | Some w \<Rightarrow>
          (case wait_in (wait_objs k w) of None \<Rightarrow> Some k | Some q \<Rightarrow> reorder_wait q w k))"

text \<open>\<open>False\<close> is the error \<^verbatim>\<open>BadObjectState\<close>.\<close>

definition interrupt_task :: "kcfg \<Rightarrow> nat \<Rightarrow> wait_result \<Rightarrow> kernel \<Rightarrow> (bool \<times> kernel) option" where
  "interrupt_task K t res k =
     (if st (tasks k t) = Waiting then
        do { w \<leftarrow> current_wait (tasks k t);
             k \<leftarrow> (case wait_in (wait_objs k w) of
                     None \<Rightarrow> Some k
                   | Some q \<Rightarrow> do { ws \<leftarrow> remove_wait w (waits_of k q); Some (set_waits q ws k) });
             k \<leftarrow> complete_wait K w res k;
             Some (True, k) }
      else Some (False, k))"

definition interrupt_task_by_timeout :: "kcfg \<Rightarrow> nat \<Rightarrow> kernel \<Rightarrow> kernel option" where
  "interrupt_task_by_timeout K t k = do { (_, k) \<leftarrow> interrupt_task K t WaitTimeout k; Some k }"

section \<open>Starting to wait\<close>

text \<open>
  Up to the first \<^verbatim>\<open>yield_cpu\<close> of the loop in \<^verbatim>\<open>wait_until_woken_up\<close>.
\<close>

definition wait_until_woken_up :: "kernel \<Rightarrow> kernel option" where
  "wait_until_woken_up k =
     guard (expect_waitable_context k)
      (do { t \<leftarrow> running_task k;
            guard (st (tasks k t) = Running)
             (Some (yield_cpu (leave_cpu_lock (upd_task t (\<lambda>c. c\<lparr>st := Waiting\<rparr>) k)))) })"

text \<open>The wait object on the stack of the running task.\<close>

definition new_wait :: "wait_queue_id option \<Rightarrow> wait_payload \<Rightarrow> bool \<Rightarrow> nat \<Rightarrow> kernel \<Rightarrow> kernel" where
  "new_wait q p timed t k =
     upd_task t (\<lambda>c. c\<lparr>blocked_in := Some (call_of p, timed)\<rparr>)
       (upd_wait_obj t \<lparr>wait_task = t, wait_in = q, payload = p\<rparr> k)"

definition new_timeout_object_for_task :: "kcfg \<Rightarrow> nat \<Rightarrow> time32 \<Rightarrow> timekeeping \<Rightarrow> timekeeping option" where
  "new_timeout_object_for_task K t d g =
     set_expiration_after (PORT_TIMER K)
       (set_timeout (TaskTimeout t) (Timeout_new Interrupt_Task_By_Timeout t) g) (TaskTimeout t) d"

definition setup_timeout_wait :: "kcfg \<Rightarrow> nat \<Rightarrow> time32 \<Rightarrow> kernel \<Rightarrow> kernel option" where
  "setup_timeout_wait K t d k =
     on_tk (\<lambda>g. do { g \<leftarrow> new_timeout_object_for_task K t d g;
                     insert_timeout (PORT_TIMER K) g (TaskTimeout t) }) k"

definition wait_inner :: "wait_queue_id \<Rightarrow> nat \<Rightarrow> kernel \<Rightarrow> kernel option" where
  "wait_inner q w k =
     (let t = wait_task (wait_objs k w)
      in guard (running_task k = Some t \<and> wait_in (wait_objs k w) = Some q)
          (do { k \<leftarrow> link_wait q t k;
                wait_until_woken_up (upd_task t (\<lambda>c. c\<lparr>current_wait := Some w\<rparr>) k) }))"

definition wait_no_queue_inner :: "nat \<Rightarrow> kernel \<Rightarrow> kernel option" where
  "wait_no_queue_inner w k =
     (let t = wait_task (wait_objs k w)
      in guard (running_task k = Some t \<and> wait_in (wait_objs k w) = None)
          (wait_until_woken_up (upd_task t (\<lambda>c. c\<lparr>current_wait := Some w\<rparr>) k)))"

definition wait_on :: "kcfg \<Rightarrow> wait_queue_id \<Rightarrow> wait_payload \<Rightarrow> kernel \<Rightarrow> kernel option" where
  "wait_on K q p k =
     do { t \<leftarrow> running_task k; wait_inner q t (new_wait (Some q) p False t k) }"

definition wait_on_timeout ::
  "kcfg \<Rightarrow> wait_queue_id \<Rightarrow> wait_payload \<Rightarrow> time32 \<Rightarrow> kernel \<Rightarrow> kernel option" where
  "wait_on_timeout K q p d k =
     do { t \<leftarrow> running_task k;
          k \<leftarrow> setup_timeout_wait K t d (new_wait (Some q) p True t k);
          wait_inner q t k }"

definition wait_no_queue :: "kcfg \<Rightarrow> wait_payload \<Rightarrow> kernel \<Rightarrow> kernel option" where
  "wait_no_queue K p k =
     do { t \<leftarrow> running_task k; wait_no_queue_inner t (new_wait None p False t k) }"

definition wait_no_queue_timeout :: "kcfg \<Rightarrow> wait_payload \<Rightarrow> time32 \<Rightarrow> kernel \<Rightarrow> kernel option" where
  "wait_no_queue_timeout K p d k =
     do { t \<leftarrow> running_task k;
          k \<leftarrow> setup_timeout_wait K t d (new_wait None p True t k);
          wait_no_queue_inner t k }"

section \<open>Returning from a wait\<close>

text \<open>
  The rest of \<^verbatim>\<open>wait_until_woken_up\<close>, \<^verbatim>\<open>wait_inner\<close> and the four functions above: CPU Lock is taken
  again, the assertions on the wait object are checked, the timeout of the call is unregistered
  by its guard and the wait result is read; \<^verbatim>\<open>Timeout\<close> panics if the call has no timeout.
\<close>

definition expect_not_timeout :: "wait_result \<Rightarrow> wait_result option" where
  "expect_not_timeout r = guard (r \<noteq> WaitTimeout) (Some r)"

definition wait_finish :: "kcfg \<Rightarrow> nat \<Rightarrow> kernel \<Rightarrow> (wait_result \<times> kernel) option" where
  "wait_finish K t k =
     guard (st (tasks k t) = Running)
      (guard (case wait_in (wait_objs k t) of None \<Rightarrow> True | Some q \<Rightarrow> t \<notin> set (waits_of k q))
        (guard (current_wait (tasks k t) = None)
          (do { (_, timed) \<leftarrow> blocked_in (tasks k t);
                let r = wait_result (tasks k t);
                k \<leftarrow> (if timed then on_tk (\<lambda>g. remove_timeout (PORT_TIMER K) g (TaskTimeout t)) k else Some k);
                r \<leftarrow> (if timed then Some r else expect_not_timeout r);
                Some (r, upd_task t (\<lambda>c. c\<lparr>blocked_in := None\<rparr>) k) })))"

text \<open>The conversions of \<^verbatim>\<open>WaitError\<close> and \<^verbatim>\<open>WaitTimeoutError\<close> by the operator \<^verbatim>\<open>?\<close>.\<close>

definition wait_ret :: "wait_result \<Rightarrow> 'a \<Rightarrow> 'a ret" where
  "wait_ret r x = (case r of WaitOk \<Rightarrow> Ok x | WaitInterrupted \<Rightarrow> Err Interrupted | WaitTimeout \<Rightarrow> Err Timeout)"

section \<open>The order of a wait queue\<close>

text \<open>
  The specification of the insertion: at the back, or behind all tasks of the same or a higher
  priority.
\<close>

definition enqueue :: "(nat \<Rightarrow> nat) \<Rightarrow> queue_order \<Rightarrow> nat \<Rightarrow> nat list \<Rightarrow> nat list" where
  "enqueue pri ord t ws =
     (case ord of
        Fifo \<Rightarrow> ws @ [t]
      | TaskPriority \<Rightarrow>
          takeWhile (\<lambda>x. pri x \<le> pri t) ws @ t # dropWhile (\<lambda>x. pri x \<le> pri t) ws)"

lemma set_enqueue [simp]: "set (enqueue pri ord t ws) = insert t (set ws)"
proof -
  have "set (takeWhile P ws) \<union> set (dropWhile P ws) = set ws" for P
    by (metis set_append takeWhile_dropWhile_id)
  then show ?thesis by (auto simp: enqueue_def split: queue_order.split)
qed

lemma enqueue_not_empty [simp]: "enqueue pri ord t ws \<noteq> []"
  by (simp add: enqueue_def split: queue_order.split)

lemma distinct_enqueue [simp]: "distinct (enqueue pri ord t ws) \<longleftrightarrow> t \<notin> set ws \<and> distinct ws"
proof -
  have *: "distinct (xs @ t # ys) \<longleftrightarrow> t \<notin> set (xs @ ys) \<and> distinct (xs @ ys)" for xs ys
    by auto
  show ?thesis
  proof (cases ord)
    case Fifo
    then show ?thesis by (auto simp: enqueue_def)
  next
    case TaskPriority
    show ?thesis unfolding enqueue_def TaskPriority queue_order.case * takeWhile_dropWhile_id by (rule refl)
  qed
qed

lemma sorted_dropWhile_gt:
  "sorted (map pri ws) \<Longrightarrow> x \<in> set (dropWhile (\<lambda>x. pri x \<le> (p :: nat)) ws) \<Longrightarrow> p < pri x"
  by (induction ws) (auto split: if_splits)

lemma sorted_enqueue:
  assumes "sorted (map pri ws)"
  shows "sorted (map pri (enqueue pri TaskPriority t ws))"
proof -
  let ?A = "takeWhile (\<lambda>x. pri x \<le> pri t) ws" and ?B = "dropWhile (\<lambda>x. pri x \<le> pri t) ws"
  have "sorted (map pri (?A @ ?B))" using assms by simp
  then have "sorted (map pri ?A)" "sorted (map pri ?B)" by (simp_all only: map_append sorted_append)
  moreover have "\<forall>x\<in>set ?A. pri x \<le> pri t" by (auto dest: set_takeWhileD)
  moreover have "\<forall>x\<in>set ?B. pri t < pri x" using sorted_dropWhile_gt[OF assms, of _ "pri t"] by blast
  ultimately show ?thesis
    by (force simp: enqueue_def sorted_append)
qed

lemma find_insertion_position_eq:
  "find_insertion_position pri p rws acc =
     (let big = takeWhile (\<lambda>x. p < pri x) rws in if big = [] then acc else Some (last big))"
  by (induction rws arbitrary: acc) (auto simp: Let_def)

lemma insertion_position:
  assumes s: "sorted (map pri ws)"
  shows "find_insertion_position pri p (rev ws) None =
    (case dropWhile (\<lambda>x. pri x \<le> p) ws of [] \<Rightarrow> None | u # _ \<Rightarrow> Some u)"
proof -
  let ?A = "takeWhile (\<lambda>x. pri x \<le> p) ws" and ?B = "dropWhile (\<lambda>x. pri x \<le> p) ws"
  have "rev ws = rev ?B @ rev ?A" by (metis rev_append takeWhile_dropWhile_id)
  moreover have "takeWhile (\<lambda>x. p < pri x) (rev ?A) = []"
    by (rule takeWhile_all_False) (auto dest: set_takeWhileD)
  moreover have "\<And>x. x \<in> set (rev ?B) \<Longrightarrow> p < pri x" using sorted_dropWhile_gt[OF s, of _ p] by simp
  ultimately have "takeWhile (\<lambda>x. p < pri x) (rev ws) = rev ?B"
    by (simp only: takeWhile_append2 append_Nil2)
  then have "find_insertion_position pri p (rev ws) None = (if ?B = [] then None else Some (hd ?B))"
    by (simp only: find_insertion_position_eq Let_def rev_is_Nil_conv last_rev)
  also have "(if xs = [] then None else Some (hd xs)) = (case xs of [] \<Rightarrow> None | u # _ \<Rightarrow> Some u)" for xs :: "nat list"
    by (cases xs) simp_all
  finally show ?thesis .
qed

lemma insert_before_hd:
  assumes "distinct (as @ u # bs)"
  shows "takeWhile (\<lambda>x. x \<noteq> u) (as @ u # bs) = as" "dropWhile (\<lambda>x. x \<noteq> u) (as @ u # bs) = u # bs"
proof -
  have "\<And>x. x \<in> set as \<Longrightarrow> x \<noteq> u" using assms by auto
  then show "takeWhile (\<lambda>x. x \<noteq> u) (as @ u # bs) = as" "dropWhile (\<lambda>x. x \<noteq> u) (as @ u # bs) = u # bs"
    by simp_all
qed

lemma link_wait_eq:
  assumes d: "distinct (waits_of k q)" "t \<notin> set (waits_of k q)"
    and s: "order (wait_queue_of k q) = TaskPriority \<longrightarrow> sorted (map (eff k) (waits_of k q))"
  shows "link_wait q t k =
    Some (set_waits q (enqueue (eff k) (order (wait_queue_of k q)) t (waits_of k q)) k)"
proof (cases "order (wait_queue_of k q)")
  case Fifo
  then show ?thesis using d by (simp add: link_wait_def insert_wait_def enqueue_def)
next
  case TaskPriority
  define as bs where "as = takeWhile (\<lambda>x. eff k x \<le> eff k t) (waits_of k q)"
    and "bs = dropWhile (\<lambda>x. eff k x \<le> eff k t) (waits_of k q)"
  then have ws: "waits_of k q = as @ bs" by simp
  have pos: "find_insertion_position_by_task_priority k (eff k t) (waits_of k q) =
      (case bs of [] \<Rightarrow> None | u # _ \<Rightarrow> Some u)"
    unfolding find_insertion_position_by_task_priority_def bs_def
    using s TaskPriority by (intro insertion_position) simp
  have enq: "enqueue (eff k) (order (wait_queue_of k q)) t (waits_of k q) = as @ t # bs"
    by (simp add: enqueue_def TaskPriority as_def bs_def)
  show ?thesis
  proof (cases bs)
    case Nil
    then show ?thesis unfolding link_wait_def TaskPriority queue_order.case Let_def pos enq[unfolded TaskPriority]
      using d ws by (simp add: insert_wait_def)
  next
    case (Cons u us)
    then show ?thesis unfolding link_wait_def TaskPriority queue_order.case Let_def pos enq[unfolded TaskPriority]
      using d ws insert_before_hd[of as u us] by (simp add: insert_wait_def)
  qed
qed

section \<open>Waking up a task\<close>

text \<open>The queue without the task, and the state in which the task has been woken up.\<close>

definition unlink_wait :: "nat \<Rightarrow> kernel \<Rightarrow> kernel" where
  "unlink_wait t k =
     (case wait_in (wait_objs k t) of
        None \<Rightarrow> k | Some q \<Rightarrow> set_waits q (remove1 t (waits_of k q)) k)"

definition woken :: "nat \<Rightarrow> wait_result \<Rightarrow> fixed_prio_bitmap bitmap_queue \<Rightarrow> kernel \<Rightarrow> kernel" where
  "woken t res q k =
     upd_task t (\<lambda>c. c\<lparr>current_wait := None, wait_result := res, st := Ready\<rparr>) (unlink_wait t k)
       \<lparr>task_ready_queue := q\<rparr>"

lemma unlink_wait_simps [simp]:
  "tasks (unlink_wait t k) = tasks k" "running_task (unlink_wait t k) = running_task k"
  "task_ready_queue (unlink_wait t k) = task_ready_queue k"
  "priority_boost (unlink_wait t k) = priority_boost k" "tk (unlink_wait t k) = tk k"
  "timers (unlink_wait t k) = timers k" "wait_objs (unlink_wait t k) = wait_objs k"
  "cpu_lock (unlink_wait t k) = cpu_lock k" "task_context (unlink_wait t k) = task_context k"
  "yield_pending (unlink_wait t k) = yield_pending k"
  "sem_value (semaphores (unlink_wait t k) i) = sem_value (semaphores k i)"
  "max_value (semaphores (unlink_wait t k) i) = max_value (semaphores k i)"
  "group_bits (event_groups (unlink_wait t k) i) = group_bits (event_groups k i)"
  "ceiling (mutexes (unlink_wait t k) i) = ceiling (mutexes k i)"
  "inconsistent (mutexes (unlink_wait t k) i) = inconsistent (mutexes k i)"
  "prev_mutex_held (mutexes (unlink_wait t k) i) = prev_mutex_held (mutexes k i)"
  "owning_task (mutexes (unlink_wait t k) i) = owning_task (mutexes k i)"
  "waits_of (unlink_wait t k) q =
     (if wait_in (wait_objs k t) = Some q then remove1 t (waits_of k q) else waits_of k q)"
  "order (wait_queue_of (unlink_wait t k) q) = order (wait_queue_of k q)"
  by (auto simp: unlink_wait_def split: option.split)

lemma woken_simps [simp]:
  "tasks (woken t res q k) = (tasks k)(t := (tasks k t)\<lparr>current_wait := None, wait_result := res, st := Ready\<rparr>)"
  "running_task (woken t res q k) = running_task k" "task_ready_queue (woken t res q k) = q"
  "priority_boost (woken t res q k) = priority_boost k" "tk (woken t res q k) = tk k"
  "timers (woken t res q k) = timers k" "wait_objs (woken t res q k) = wait_objs k"
  "cpu_lock (woken t res q k) = cpu_lock k" "task_context (woken t res q k) = task_context k"
  "yield_pending (woken t res q k) = yield_pending k"
  "sem_value (semaphores (woken t res q k) i) = sem_value (semaphores k i)"
  "max_value (semaphores (woken t res q k) i) = max_value (semaphores k i)"
  "group_bits (event_groups (woken t res q k) i) = group_bits (event_groups k i)"
  "ceiling (mutexes (woken t res q k) i) = ceiling (mutexes k i)"
  "inconsistent (mutexes (woken t res q k) i) = inconsistent (mutexes k i)"
  "prev_mutex_held (mutexes (woken t res q k) i) = prev_mutex_held (mutexes k i)"
  "owning_task (mutexes (woken t res q k) i) = owning_task (mutexes k i)"
  "wait_queue_of (woken t res q k) q' = wait_queue_of (unlink_wait t k) q'"
  by (simp_all add: woken_def)

text \<open>A task that waits, as the invariants describe it.\<close>

lemma waiting_task:
  assumes "wait_inv K k" "t < N_TASKS K" "st (tasks k t) = Waiting"
  obtains timed where "current_wait (tasks k t) = Some t" "wait_task (wait_objs k t) = t"
    "wait_in_ok K (wait_objs k t)"
    "blocked_in (tasks k t) = Some (call_of (payload (wait_objs k t)), timed)"
  using assms by (fastforce simp: wait_inv_def task_wait_ok_def)

lemma wait_queue_member:
  assumes "queue_inv K k" "t \<in> set (waits_of k q)"
  shows "t < N_TASKS K" "st (tasks k t) = Waiting" "wait_in (wait_objs k t) = Some q"
  using assms by (auto simp: queue_inv_def)

lemma queue_inv_mem:
  "queue_inv K k \<Longrightarrow> t \<in> set (waits_of k q) \<longleftrightarrow>
     t < N_TASKS K \<and> st (tasks k t) = Waiting \<and> wait_in (wait_objs k t) = Some q"
  by (simp add: queue_inv_def)

lemma sorted_remove1: "sorted (map f xs) \<Longrightarrow> sorted (map f (remove1 x xs))"
  by (induction xs) (auto dest: in_set_remove1[THEN iffD1] notin_set_remove1)

lemma sorted_map_cong_set: "sorted (map f xs) \<Longrightarrow> (\<And>x. x \<in> set xs \<Longrightarrow> g x = f x) \<Longrightarrow> sorted (map g xs)"
  by (metis map_cong)

lemma complete_wait_ok:
  assumes K: "kcfg_ok K" and inv: "base_inv K k" and t: "t < N_TASKS K" "st (tasks k t) = Waiting"
    and res: "\<And>b. blocked_in (tasks k t) = Some b \<Longrightarrow> result_ok b res"
  shows "\<exists>q. complete_wait K t res (unlink_wait t k) = Some (woken t res q k) \<and>
    base_inv K (woken t res q k) \<and>
    bq_of q = (bq_of (task_ready_queue k))(eff k t := bq_of (task_ready_queue k) (eff k t) @ [t])"
proof -
  note I = base_invD[OF inv]
  obtain timed where w: "current_wait (tasks k t) = Some t" "wait_task (wait_objs k t) = t"
    "wait_in_ok K (wait_objs k t)" "blocked_in (tasks k t) = Some (call_of (payload (wait_objs k t)), timed)"
    using waiting_task[OF I(4) t] by blast
  let ?k1 = "upd_task t (\<lambda>c. c\<lparr>current_wait := None, wait_result := res\<rparr>) (unlink_wait t k)"
  have r1: "ready_inv K ?k1" using I(1) by (simp add: ready_inv_def)
  have p1: "eff ?k1 t < PRIORITY_LEVELS K" using I(2) t by (simp add: pri_inv_def)
  obtain q where q: "make_ready K t ?k1 = Some (upd_task t (\<lambda>c. c\<lparr>st := Ready\<rparr>) ?k1\<lparr>task_ready_queue := q\<rparr>)"
    "ready_inv K (upd_task t (\<lambda>c. c\<lparr>st := Ready\<rparr>) ?k1\<lparr>task_ready_queue := q\<rparr>)"
    "bq_of q = (bq_of (task_ready_queue k))(eff k t := bq_of (task_ready_queue k) (eff k t) @ [t])"
    using make_ready_ok[OF K r1 t(1) _ p1] t(2) by auto
  have k': "upd_task t (\<lambda>c. c\<lparr>st := Ready\<rparr>) ?k1\<lparr>task_ready_queue := q\<rparr> = woken t res q k"
    by (simp add: woken_def upd_task_def)
  have c: "complete_wait K t res (unlink_wait t k) = Some (woken t res q k)"
    using q(1) w t(2) by (simp add: complete_wait_def k' Let_def)
  have "ready_inv K (woken t res q k)" using q(2) by (simp only: k')
  moreover have "pri_inv K (woken t res q k)" using I(2) by (simp add: pri_inv_def)
  moreover have "run_inv K (woken t res q k)"
    using t(2) by (auto simp: run_inv_def dest: run_invD[OF I(3)] run_inv_state[OF I(3)])
  moreover have "wait_inv K (woken t res q k)"
    unfolding wait_inv_def
  proof (intro allI impI)
    fix u
    assume u: "u < N_TASKS K"
    show "task_wait_ok K (tasks (woken t res q k) u) (wait_objs (woken t res q k) u) u"
    proof (cases "u = t")
      case True
      then show ?thesis using w res[OF w(4)] by (simp add: task_wait_ok_def)
    next
      case False
      then show ?thesis using I(4) u by (simp add: wait_inv_def)
    qed
  qed
  moreover have "queue_inv K (woken t res q k)"
    unfolding queue_inv_def
  proof (intro allI conjI impI)
    fix q'
    have d: "distinct (waits_of k q')" using I(5) by (simp add: queue_inv_def)
    show "distinct (waits_of (woken t res q k) q')" using d by simp
    fix u
    show "u \<in> set (waits_of (woken t res q k) q') \<longleftrightarrow> u < N_TASKS K \<and>
        st (tasks (woken t res q k) u) = Waiting \<and> wait_in (wait_objs (woken t res q k) u) = Some q'"
      using queue_inv_mem[OF I(5)] t by (auto simp: set_remove1_eq[OF d])
  next
    fix q'
    assume "order (wait_queue_of (woken t res q k) q') = TaskPriority"
    then have s: "sorted (map (eff k) (waits_of k q'))" using I(5) by (simp add: queue_inv_def)
    have "eff (woken t res q k) = eff k" by auto
    then show "sorted (map (eff (woken t res q k)) (waits_of (woken t res q k) q'))"
      using s sorted_remove1[OF s] by simp
  qed
  moreover have "sem_inv K (woken t res q k)" using I(6) by (auto simp: sem_inv_def)
  moreover have "event_inv K (woken t res q k)"
    using I(7) by (auto simp: event_inv_def dest: notin_set_remove1[rotated] in_set_remove1[THEN iffD1])
  moreover have "timer_inv K (woken t res q k)"
    using I(8) by (auto simp: timer_inv_def linked_ok_def split: timeout_ref.split)
  ultimately have "base_inv K (woken t res q k)" by (simp add: base_inv_def)
  then show ?thesis using c q(3) by blast
qed

end
