(* ===== verification/Blocking.thy ===== *)
theory Blocking
  imports Wait
begin

text \<open>
  What waking up a task, starting to wait and returning from a wait mean for the invariants of the
  kernel.
\<close>

section \<open>Operations that leave the tasks alone\<close>

definition same_tasks :: "kernel \<Rightarrow> kernel \<Rightarrow> bool" where
  "same_tasks k k' \<longleftrightarrow>
     tasks k' = tasks k \<and> running_task k' = running_task k \<and> task_ready_queue k' = task_ready_queue k \<and>
     wait_objs k' = wait_objs k \<and> priority_boost k' = priority_boost k \<and> yield_pending k' = yield_pending k"

lemma same_tasks_inv:
  assumes "same_tasks k k'"
  shows "ready_inv K k' = ready_inv K k" "run_inv K k' = run_inv K k" "wait_inv K k' = wait_inv K k"
    "boost_inv k' = boost_inv k" "activated K k' = activated K k" "preempt_inv k' = preempt_inv k"
    "running_task_is_running k' = running_task_is_running k"
  using assms
  by (simp_all add: same_tasks_def ready_inv_def run_inv_def wait_inv_def boost_inv_def activated_def
      preempt_inv_def prev_task_priority_def running_task_is_running_def cong: option.case_cong if_cong)

text \<open>Operations that leave alone what the invariant of the mutexes is about.\<close>

definition same_mutexes :: "kernel \<Rightarrow> kernel \<Rightarrow> bool" where
  "same_mutexes k k' \<longleftrightarrow> tasks k' = tasks k \<and>
     (\<forall>m. ceiling (mutexes k' m) = ceiling (mutexes k m) \<and>
        owning_task (mutexes k' m) = owning_task (mutexes k m) \<and>
        prev_mutex_held (mutexes k' m) = prev_mutex_held (mutexes k m) \<and>
        order (wait_queue_of k' (MutexQ m)) = order (wait_queue_of k (MutexQ m)))"

lemma same_mutexes_inv:
  assumes "same_mutexes k k'"
  shows "mutex_inv K X D k' = mutex_inv K X D k"
proof -
  have e: "tasks k' = tasks k" "ceiling (mutexes k' m) = ceiling (mutexes k m)"
    "owning_task (mutexes k' m) = owning_task (mutexes k m)"
    "prev_mutex_held (mutexes k' m) = prev_mutex_held (mutexes k m)"
    "order (wait_queue_of k' (MutexQ m)) = order (wait_queue_of k (MutexQ m))" for m
    using assms by (simp_all add: same_mutexes_def)
  show ?thesis
    unfolding mutex_inv_def chains_ok_def owners_ok_def priorities_ok_def mutex_waits_ok_def
      documented_priority_def ceilings_held_def held_by_def chain_head_def e ..
qed

section \<open>Waking up\<close>

text \<open>A task that waits for a mutex may succeed only as its owner.\<close>

definition wake_allowed :: "kernel \<Rightarrow> nat \<Rightarrow> wait_result \<Rightarrow> bool" where
  "wake_allowed k t res \<longleftrightarrow>
     (\<forall>c timed. blocked_in (tasks k t) = Some (c, timed) \<longrightarrow>
        result_ok (c, timed) res \<and>
        (\<forall>m. c = MutexCall m \<longrightarrow> res = WaitOk \<longrightarrow> owning_task (mutexes k m) = Some t))"

lemma chain_head_woken [simp]: "chain_head X (woken t res q k) u = chain_head X k u"
  by (simp add: chain_head_def split: option.split)

lemma mutex_inv_woken:
  assumes inv: "mutex_inv K X D k" and t: "st (tasks k t) = Waiting" and ok: "wake_allowed k t res"
  shows "mutex_inv K X D (woken t res q k)"
proof -
  have f: "held_by K D (woken t res q k) u = held_by K D k u"
    "ceilings_held K D (woken t res q k) u = ceilings_held K D k u"
    "documented_priority K D (woken t res q k) u b = documented_priority K D k u b"
    "live (st (tasks (woken t res q k) u)) = live (st (tasks k u))"
    "base_priority (tasks (woken t res q k) u) = base_priority (tasks k u)"
    "eff (woken t res q k) u = eff k u" for u b
    using t by (simp_all add: held_by_def ceilings_held_def documented_priority_def live_def)
  have "mutex_waits_ok K (woken t res q k)"
    using inv t ok by (auto simp: mutex_inv_def mutex_waits_ok_def wake_allowed_def)
  then show ?thesis
    using inv unfolding mutex_inv_def chains_ok_def owners_ok_def priorities_ok_def f by (simp cong: conj_cong)
qed

lemma running_woken:
  "st (tasks k t) = Waiting \<Longrightarrow> running_task_is_running (woken t res q k) = running_task_is_running k"
  by (auto simp: running_task_is_running_def split: option.splits)

lemma scheduler_active_unlink [simp]: "scheduler_active (set_waits q ws k) = scheduler_active k"
  "scheduler_active (unlink_wait t k) = scheduler_active k"
  "scheduler_active (woken t res r k) = scheduler_active k"
  by (auto simp: set_waits_def upd_semaphore_def upd_event_group_def upd_mutex_def upd_task_def
      unlink_wait_def woken_def split: wait_queue_id.split option.split)

lemma frame_woken:
  "st (tasks k t) = Waiting \<Longrightarrow> frame k (woken t res q k)"
  by (simp add: frame_def running_woken)

lemma woken_ok:
  assumes K: "kcfg_ok K" and inv: "base_inv K k" "mutex_inv K X D k" and t: "t < N_TASKS K" "st (tasks k t) = Waiting"
    and ok: "wake_allowed k t res"
  obtains q where "complete_wait K t res (unlink_wait t k) = Some (woken t res q k)"
    "base_inv K (woken t res q k)" "mutex_inv K X D (woken t res q k)"
    "bq_of q = (bq_of (task_ready_queue k))(eff k t := bq_of (task_ready_queue k) (eff k t) @ [t])"
proof -
  have "\<And>b. blocked_in (tasks k t) = Some b \<Longrightarrow> result_ok b res"
    using ok by (auto simp: wake_allowed_def)
  then show thesis
    using complete_wait_ok[OF K inv(1) t] mutex_inv_woken[OF inv(2) t(2) ok] that by blast
qed

lemma kinv_woken:
  assumes "kinv K k" "st (tasks k t) = Waiting" "base_inv K (woken t res q k)" "mutex_inv K None {} (woken t res q k)"
  shows "kinv K (woken t res q k)"
  using assms by (auto simp: kinv_def boost_inv_def running_woken activated_def)

section \<open>\<open>interrupt_task\<close>\<close>

lemma interrupt_task_eq:
  assumes inv: "base_inv K k" and t: "t < N_TASKS K" "st (tasks k t) = Waiting"
  shows "interrupt_task K t res k =
    (case complete_wait K t res (unlink_wait t k) of None \<Rightarrow> None | Some k \<Rightarrow> Some (True, k))"
proof -
  note I = base_invD[OF inv]
  obtain timed where w: "current_wait (tasks k t) = Some t"
    using waiting_task[OF I(4) t] by blast
  show ?thesis
  proof (cases "wait_in (wait_objs k t)")
    case None
    then show ?thesis using w t by (simp add: interrupt_task_def unlink_wait_def split: option.split)
  next
    case (Some q)
    then have "t \<in> set (waits_of k q)" using queue_inv_mem[OF I(5)] t by simp
    then show ?thesis using w t Some
      by (simp add: interrupt_task_def unlink_wait_def remove_wait_def split: option.split)
  qed
qed

lemma interrupt_task_ok:
  assumes K: "kcfg_ok K" and inv: "kinv K k" and t: "t < N_TASKS K" "st (tasks k t) = Waiting"
    and ok: "wake_allowed k t res"
  obtains q where "interrupt_task K t res k = Some (True, woken t res q k)" "kinv K (woken t res q k)"
    "frame k (woken t res q k)"
proof -
  note I = kinvD[OF inv]
  obtain q where q: "complete_wait K t res (unlink_wait t k) = Some (woken t res q k)"
    "base_inv K (woken t res q k)" "mutex_inv K None {} (woken t res q k)"
    using woken_ok[OF K I(1,2) t ok] by metis
  show thesis
    by (rule that[of q]) (use q kinv_woken[OF inv t(2)] frame_woken[OF t(2)] interrupt_task_eq[OF I(1) t] in simp_all)
qed

lemma wake_allowed_interrupted [simp]: "wake_allowed k t WaitInterrupted"
  by (simp add: wake_allowed_def result_ok_def)

lemma wake_allowed_timeout:
  "blocked_in (tasks k t) = Some (c, True) \<Longrightarrow> wake_allowed k t WaitTimeout"
  by (simp add: wake_allowed_def result_ok_def)

section \<open>\<open>wake_up_one\<close>\<close>

lemma wake_up_one_empty: "waits_of k q = [] \<Longrightarrow> wake_up_one K q k = Some (False, k)"
  by (simp add: wake_up_one_def)

lemma wake_up_one_eq:
  assumes inv: "base_inv K k" and w: "waits_of k q = t # ws"
  shows "wake_up_one K q k =
    (case complete_wait K t WaitOk (unlink_wait t k) of None \<Rightarrow> None | Some k \<Rightarrow> Some (True, k))"
    "t < N_TASKS K" "st (tasks k t) = Waiting" "wait_in (wait_objs k t) = Some q"
proof -
  note I = base_invD[OF inv]
  show m: "t < N_TASKS K" "st (tasks k t) = Waiting" "wait_in (wait_objs k t) = Some q"
    using wait_queue_member[OF I(5), of t q] w by simp_all
  have "set_waits q ws k = unlink_wait t k" using m w by (simp add: unlink_wait_def)
  then show "wake_up_one K q k =
    (case complete_wait K t WaitOk (unlink_wait t k) of None \<Rightarrow> None | Some k \<Rightarrow> Some (True, k))"
    using w m by (simp add: wake_up_one_def split: option.split)
qed

section \<open>Starting to wait\<close>

text \<open>The condition under which a task may wait with this wait object.\<close>

definition resource_unavailable :: "kernel \<Rightarrow> nat \<Rightarrow> wait_queue_id option \<Rightarrow> wait_payload \<Rightarrow> bool" where
  "resource_unavailable k t q p =
     (case p of
        EventGroupBits _ _ _ \<Rightarrow>
          (case q of Some (EventGroupQ i) \<Rightarrow> event_waiter_ok (group_bits (event_groups k i)) p | _ \<Rightarrow> False)
      | SemaphoreWait \<Rightarrow> (case q of Some (SemaphoreQ i) \<Rightarrow> sem_value (semaphores k i) = 0 | _ \<Rightarrow> False)
      | MutexWait m \<Rightarrow>
          owning_task (mutexes k m) \<noteq> None \<and> owning_task (mutexes k m) \<noteq> Some t \<and>
          (\<forall>c. ceiling (mutexes k m) = Some c \<longrightarrow> c \<le> base_priority (tasks k t))
      | ParkWait \<Rightarrow> True
      | SleepWait \<Rightarrow> True)"

definition may_wait :: "kcfg \<Rightarrow> kernel \<Rightarrow> nat \<Rightarrow> wait_queue_id option \<Rightarrow> wait_payload \<Rightarrow> bool" where
  "may_wait K k t q p \<longleftrightarrow>
     running_task k = Some t \<and> st (tasks k t) = Running \<and> blocked_in (tasks k t) = None \<and>
     expect_waitable_context k \<and>
     wait_in_ok K \<lparr>wait_task = t, wait_in = q, payload = p\<rparr> \<and> resource_unavailable k t q p"

text \<open>The state in which the task has been suspended.\<close>

definition linked :: "wait_queue_id option \<Rightarrow> nat \<Rightarrow> kernel \<Rightarrow> kernel" where
  "linked q t k =
     (case q of None \<Rightarrow> k
      | Some q \<Rightarrow> set_waits q (enqueue (eff k) (order (wait_queue_of k q)) t (waits_of k q)) k)"

definition suspended :: "nat \<Rightarrow> wait_queue_id option \<Rightarrow> wait_payload \<Rightarrow> bool \<Rightarrow> timekeeping \<Rightarrow> kernel \<Rightarrow> kernel" where
  "suspended t q p timed g k =
     (upd_task t (\<lambda>c. c\<lparr>blocked_in := Some (call_of p, timed), current_wait := Some t, st := Waiting\<rparr>)
       (upd_wait_obj t \<lparr>wait_task = t, wait_in = q, payload = p\<rparr> (linked q t k)))
     \<lparr>tk := g, cpu_lock := False, yield_pending := True\<rparr>"

lemma linked_simps [simp]:
  "tasks (linked q t k) = tasks k" "running_task (linked q t k) = running_task k"
  "task_ready_queue (linked q t k) = task_ready_queue k"
  "priority_boost (linked q t k) = priority_boost k" "tk (linked q t k) = tk k"
  "timers (linked q t k) = timers k" "wait_objs (linked q t k) = wait_objs k"
  "cpu_lock (linked q t k) = cpu_lock k" "task_context (linked q t k) = task_context k"
  "yield_pending (linked q t k) = yield_pending k" "scheduler_active (linked q t k) = scheduler_active k"
  "sem_value (semaphores (linked q t k) i) = sem_value (semaphores k i)"
  "max_value (semaphores (linked q t k) i) = max_value (semaphores k i)"
  "group_bits (event_groups (linked q t k) i) = group_bits (event_groups k i)"
  "ceiling (mutexes (linked q t k) i) = ceiling (mutexes k i)"
  "inconsistent (mutexes (linked q t k) i) = inconsistent (mutexes k i)"
  "prev_mutex_held (mutexes (linked q t k) i) = prev_mutex_held (mutexes k i)"
  "owning_task (mutexes (linked q t k) i) = owning_task (mutexes k i)"
  "waits_of (linked q t k) q' =
     (if q = Some q' then enqueue (eff k) (order (wait_queue_of k q')) t (waits_of k q') else waits_of k q')"
  "order (wait_queue_of (linked q t k) q') = order (wait_queue_of k q')"
  by (auto simp: linked_def split: option.split)

lemma upd_task_scheduler [simp]: "scheduler_active (upd_task t f k) = scheduler_active k"
  "scheduler_active (upd_wait_obj t w k) = scheduler_active k"
  by (simp_all add: upd_task_def upd_wait_obj_def)

lemma suspended_simps [simp]:
  "tasks (suspended t q p timed g k) = (tasks k)(t := (tasks k t)
     \<lparr>blocked_in := Some (call_of p, timed), current_wait := Some t, st := Waiting\<rparr>)"
  "wait_objs (suspended t q p timed g k) = (wait_objs k)(t := \<lparr>wait_task = t, wait_in = q, payload = p\<rparr>)"
  "running_task (suspended t q p timed g k) = running_task k"
  "task_ready_queue (suspended t q p timed g k) = task_ready_queue k"
  "priority_boost (suspended t q p timed g k) = priority_boost k" "tk (suspended t q p timed g k) = g"
  "timers (suspended t q p timed g k) = timers k" "cpu_lock (suspended t q p timed g k) = False"
  "task_context (suspended t q p timed g k) = task_context k" "yield_pending (suspended t q p timed g k) = True"
  "scheduler_active (suspended t q p timed g k) = scheduler_active k"
  "sem_value (semaphores (suspended t q p timed g k) i) = sem_value (semaphores k i)"
  "max_value (semaphores (suspended t q p timed g k) i) = max_value (semaphores k i)"
  "group_bits (event_groups (suspended t q p timed g k) i) = group_bits (event_groups k i)"
  "ceiling (mutexes (suspended t q p timed g k) i) = ceiling (mutexes k i)"
  "inconsistent (mutexes (suspended t q p timed g k) i) = inconsistent (mutexes k i)"
  "prev_mutex_held (mutexes (suspended t q p timed g k) i) = prev_mutex_held (mutexes k i)"
  "owning_task (mutexes (suspended t q p timed g k) i) = owning_task (mutexes k i)"
  "waits_of (suspended t q p timed g k) q' = waits_of (linked q t k) q'"
  "order (wait_queue_of (suspended t q p timed g k) q') = order (wait_queue_of k q')"
  by (simp_all add: suspended_def)

text \<open>The timekeeping part after the timeout of the wait has been set up.\<close>

definition timeout_set_up :: "kcfg \<Rightarrow> nat \<Rightarrow> bool \<Rightarrow> kernel \<Rightarrow> timekeeping \<Rightarrow> bool" where
  "timeout_set_up K t timed k g \<longleftrightarrow>
     tk_inv (PORT_TIMER K) g \<and> tk_same (tk k) g \<and>
     (\<forall>r. r \<noteq> TaskTimeout t \<longrightarrow> callback (timeouts g r) = callback (timeouts (tk k) r) \<and>
        callback_param (timeouts g r) = callback_param (timeouts (tk k) r)) \<and>
     (if timed then set (heap g) = insert (TaskTimeout t) (set (heap (tk k))) \<and>
        callback (timeouts g (TaskTimeout t)) = Interrupt_Task_By_Timeout \<and>
        callback_param (timeouts g (TaskTimeout t)) = t
      else g = tk k)"

lemma suspended_base_inv:
  assumes inv: "base_inv K k" and w: "may_wait K k t q p" and g: "timeout_set_up K t timed k g"
  shows "base_inv K (suspended t q p timed g k)"
proof -
  note I = base_invD[OF inv]
  let ?k = "suspended t q p timed g k"
  have t: "t < N_TASKS K" "running_task k = Some t" "st (tasks k t) = Running" "blocked_in (tasks k t) = None"
    using w run_inv_state[OF I(3), of t] by (simp_all add: may_wait_def)
  have notin: "t \<notin> set (waits_of k q')" for q' using queue_inv_mem[OF I(5)] t by simp
  have eff: "eff ?k = eff k" by auto
  have "ready_inv K ?k" using I(1) t by (auto simp: ready_inv_def)
  moreover have "pri_inv K ?k" using I(2) by (simp add: pri_inv_def)
  moreover have "run_inv K ?k"
    unfolding run_inv_def using t by (auto dest: run_invD[OF I(3)])
  moreover have "wait_inv K ?k"
    using I(4) w by (auto simp: wait_inv_def task_wait_ok_def may_wait_def)
  moreover have "queue_inv K ?k"
    unfolding queue_inv_def
  proof (intro allI conjI impI)
    fix q'
    have "distinct (waits_of k q')" using I(5) by (simp add: queue_inv_def)
    then show "distinct (waits_of ?k q')" using notin by simp
    fix u
    show "u \<in> set (waits_of ?k q') \<longleftrightarrow> u < N_TASKS K \<and> st (tasks ?k u) = Waiting \<and> wait_in (wait_objs ?k u) = Some q'"
      using queue_inv_mem[OF I(5)] t by auto
  next
    fix q'
    assume "order (wait_queue_of ?k q') = TaskPriority"
    then have o: "order (wait_queue_of k q') = TaskPriority" by simp
    then have "sorted (map (eff k) (waits_of k q'))" using I(5) by (simp add: queue_inv_def)
    then show "sorted (map (eff ?k) (waits_of ?k q'))"
      unfolding eff using sorted_enqueue[of "eff k"] o by simp
  qed
  moreover have "sem_inv K ?k"
    using I(6) w by (auto simp: sem_inv_def may_wait_def resource_unavailable_def wait_in_ok_def
        split: wait_payload.splits option.splits wait_queue_id.splits)
  moreover have "event_inv K ?k"
    using I(7) w notin by (auto simp: event_inv_def may_wait_def resource_unavailable_def wait_in_ok_def
        split: wait_payload.splits option.splits wait_queue_id.splits)
  moreover have "timer_inv K ?k"
  proof -
    have "linked_ok K ?k r" if "r \<in> set (heap g)" for r
    proof (cases "r = TaskTimeout t")
      case True
      then have timed
        using that g I(8) t(4) by (auto simp: timeout_set_up_def timer_inv_def linked_ok_def split: if_splits)
      then show ?thesis using True g t(1) by (simp add: linked_ok_def timeout_set_up_def)
    next
      case False
      then have "linked_ok K k r"
        using that g I(8) by (auto simp: timeout_set_up_def timer_inv_def split: if_splits)
      then show ?thesis using False g t(1)
        by (auto simp: linked_ok_def timeout_set_up_def split: timeout_ref.splits)
    qed
    then show ?thesis using I(8) g by (simp add: timer_inv_def timeout_set_up_def)
  qed
  ultimately show ?thesis by (simp add: base_inv_def)
qed

lemma suspended_mutex_inv:
  assumes inv: "mutex_inv K X D k" and w: "may_wait K k t q p"
  shows "mutex_inv K X D (suspended t q p timed g k)"
proof -
  let ?k = "suspended t q p timed g k"
  have t: "st (tasks k t) = Running" using w by (simp add: may_wait_def)
  have f: "held_by K D ?k u = held_by K D k u" "ceilings_held K D ?k u = ceilings_held K D k u"
    "documented_priority K D ?k u b = documented_priority K D k u b"
    "live (st (tasks ?k u)) = live (st (tasks k u))"
    "base_priority (tasks ?k u) = base_priority (tasks k u)" "eff ?k u = eff k u"
    "chain_head X ?k u = chain_head X k u" for u b
    using t by (simp_all add: held_by_def ceilings_held_def documented_priority_def live_def chain_head_def
        split: option.split)
  have "mutex_waits_ok K ?k"
    unfolding mutex_waits_ok_def
  proof (intro allI impI)
    fix u m b
    assume u: "u < N_TASKS K" and b: "blocked_in (tasks ?k u) = Some (MutexCall m, b)"
    show "(st (tasks ?k u) = Waiting \<longrightarrow> owning_task (mutexes ?k m) \<noteq> None \<and> owning_task (mutexes ?k m) \<noteq> Some u \<and>
        (\<forall>c. ceiling (mutexes ?k m) = Some c \<longrightarrow> c \<le> base_priority (tasks ?k u))) \<and>
      (st (tasks ?k u) \<noteq> Waiting \<longrightarrow> wait_result (tasks ?k u) = WaitOk \<longrightarrow> owning_task (mutexes ?k m) = Some u)"
    proof (cases "u = t")
      case True
      then show ?thesis using b w
        by (cases p) (auto simp: call_of_def may_wait_def resource_unavailable_def)
    next
      case False
      then show ?thesis using inv u b by (simp add: mutex_inv_def mutex_waits_ok_def)
    qed
  qed
  then show ?thesis
    using inv unfolding mutex_inv_def chains_ok_def owners_ok_def priorities_ok_def f by simp
qed

lemma suspended_ok:
  assumes inv: "kinv K k" and w: "may_wait K k t q p" and g: "timeout_set_up K t timed k g"
  shows "kinv K (suspended t q p timed g k)" "preempt_inv (suspended t q p timed g k)"
    "frame k (suspended t q p timed g k)" "task_context k"
proof -
  have b: "\<not> priority_boost k" "task_context k" using w by (auto simp: may_wait_def expect_waitable_context_def)
  show "kinv K (suspended t q p timed g k)"
    using suspended_base_inv[OF kinvD(1)[OF inv] w g] suspended_mutex_inv[OF kinvD(2)[OF inv] w] b kinvD(4)[OF inv]
    by (auto simp: kinv_def boost_inv_def activated_def)
  show "preempt_inv (suspended t q p timed g k)" by (simp add: preempt_inv_def)
  show "frame k (suspended t q p timed g k)" using g by (simp add: frame_def timeout_set_up_def tk_same_def)
  show "task_context k" by (rule b(2))
qed

lemma kernel_eqI:
  assumes "running_task k = running_task k'" "task_ready_queue k = task_ready_queue k'"
    "priority_boost k = priority_boost k'" "tk k = tk k'" "tasks k = tasks k'"
    "semaphores k = semaphores k'" "event_groups k = event_groups k'" "mutexes k = mutexes k'"
    "timers k = timers k'" "wait_objs k = wait_objs k'" "cpu_lock k = cpu_lock k'"
    "task_context k = task_context k'" "scheduler_active k = scheduler_active k'"
    "yield_pending k = yield_pending k'"
  shows "k = (k' :: kernel)"
  using assms by (cases k; cases k') simp

lemma wait_inner_eq:
  assumes inv: "queue_inv K k" and w: "may_wait K k t (Some q) p"
  shows "wait_inner q t ((new_wait (Some q) p timed t k)\<lparr>tk := g\<rparr>) = Some (suspended t (Some q) p timed g k)"
proof -
  let ?k = "(new_wait (Some q) p timed t k)\<lparr>tk := g\<rparr>"
  have t: "running_task k = Some t" "st (tasks k t) = Running" "expect_waitable_context k"
    using w by (simp_all add: may_wait_def)
  have waits: "wait_queue_of ?k = wait_queue_of k" and eff: "eff ?k = eff k"
    by (auto simp: new_wait_def fun_eq_iff)
  have "link_wait q t ?k = Some (set_waits q (enqueue (eff k) (order (wait_queue_of k q)) t (waits_of k q)) ?k)"
    using link_wait_eq[of ?k q t] inv queue_inv_mem[OF inv] t unfolding waits eff by (simp add: queue_inv_def)
  moreover have "wait_until_woken_up (upd_task t (\<lambda>c. c\<lparr>current_wait := Some t\<rparr>)
      (set_waits q (enqueue (eff k) (order (wait_queue_of k q)) t (waits_of k q)) ?k)) =
    Some (suspended t (Some q) p timed g k)"
    using t by (cases q) (simp_all add: wait_until_woken_up_def expect_waitable_context_def new_wait_def suspended_def linked_def
        leave_cpu_lock_def yield_cpu_def set_waits_def upd_task_def upd_wait_obj_def upd_semaphore_def
        upd_event_group_def upd_mutex_def)
  ultimately show ?thesis using t
    by (simp add: wait_inner_def Let_def) (simp add: new_wait_def)
qed

lemma wait_no_queue_inner_eq:
  assumes w: "may_wait K k t None p"
  shows "wait_no_queue_inner t ((new_wait None p timed t k)\<lparr>tk := g\<rparr>) = Some (suspended t None p timed g k)"
  using w
  by (simp add: wait_no_queue_inner_def Let_def may_wait_def wait_until_woken_up_def expect_waitable_context_def
      new_wait_def suspended_def linked_def leave_cpu_lock_def yield_cpu_def upd_task_def upd_wait_obj_def)

lemma new_wait_tk: "(new_wait q p timed t k)\<lparr>tk := tk k\<rparr> = new_wait q p timed t k"
  by (simp add: new_wait_def upd_task_def upd_wait_obj_def)

lemma no_timeout_set_up [simp]: "timer_inv K k \<Longrightarrow> timeout_set_up K t False k (tk k)"
  by (simp add: timeout_set_up_def timer_inv_def)

lemma setup_timeout_wait_ok:
  assumes K: "kcfg_ok K" and inv: "timer_inv K k" and t: "t < N_TASKS K" "blocked_in (tasks k t) = None"
    and d: "unat d \<le> DURATION_MAX"
  obtains g where "setup_timeout_wait K t d (new_wait q p True t k) = Some ((new_wait q p True t k)\<lparr>tk := g\<rparr>)"
    "timeout_set_up K t True k g" "at (timeouts g (TaskTimeout t)) = event_time (PORT_TIMER K) (tk k) + d"
    "\<not> handle_tick_in_progress (tk k) \<longrightarrow> tick_scheduled (PORT_TIMER K) (event_time (PORT_TIMER K) (tk k)) g"
proof -
  let ?P = "PORT_TIMER K" and ?r = "TaskTimeout t"
  let ?g0 = "set_timeout ?r (Timeout_new Interrupt_Task_By_Timeout t) (tk k)"
  have inv0: "tk_inv ?P (tk k)" using inv by (simp add: timer_inv_def)
  have r: "?r \<notin> set (heap (tk k))" using inv t(2) by (auto simp: timer_inv_def linked_ok_def)
  have room: "length (heap (tk k)) < HEAP_CAPACITY ?P"
    using t(1) by (intro heap_has_room[OF K inv _ r]) (simp add: timeout_objects_def)
  have inv1: "tk_inv ?P ?g0" by (rule set_timeout_inv[OF inv0 r]) (simp add: Timeout_new_def)
  have same0: "tk_same (tk k) ?g0" by simp
  have cap: "HEAP_CAPACITY ?P < HEAP_POS_NONE" using K by (simp add: kcfg_ok_def)
  have bad: "d \<noteq> BAD_DURATION32" using d by (auto simp: BAD_DURATION32_def DURATION_MAX_def)
  obtain g1 g where g: "set_expiration_after ?P ?g0 ?r d = Some g1" "insert_timeout ?P g1 ?r = Some g"
    "tk_inv ?P g" "tk_same ?g0 g" "same_callbacks ?g0 g" "set (heap g) = insert ?r (set (heap ?g0))"
    "at (timeouts g ?r) = event_time ?P ?g0 + d"
    "\<not> handle_tick_in_progress ?g0 \<longrightarrow> tick_scheduled ?P (event_time ?P ?g0) g"
    using arm_timeout_ok[OF inv1, of ?r d] r room cap bad d by auto
  have "setup_timeout_wait K t d (new_wait q p True t k) = Some ((new_wait q p True t k)\<lparr>tk := g\<rparr>)"
    using g(1,2) by (simp add: setup_timeout_wait_def on_tk_def new_timeout_object_for_task_def new_wait_def)
  moreover have "timeout_set_up K t True k g"
    using g(3,5,6) tk_same_trans[OF same0 g(4)]
    by (auto simp: timeout_set_up_def same_callbacks_def Timeout_new_def)
  moreover have "handle_tick_in_progress ?g0 = handle_tick_in_progress (tk k)" by (simp add: set_timeout_def)
  ultimately show thesis using g(7,8) that by (simp add: tk_same_event_time[OF same0])
qed

text \<open>A blocking operation that has to wait.\<close>

definition blocks :: "kcfg \<Rightarrow> nat \<Rightarrow> wait_queue_id option \<Rightarrow> wait_payload \<Rightarrow> bool \<Rightarrow> kernel \<Rightarrow> kernel option \<Rightarrow> bool" where
  "blocks K t q p timed k r \<longleftrightarrow>
     (\<exists>g. timeout_set_up K t timed k g \<and> r = Some (suspended t q p timed g k))"

lemma may_waitD: "may_wait K k t q p \<Longrightarrow> running_task k = Some t \<and> blocked_in (tasks k t) = None"
  by (simp add: may_wait_def)

lemma wait_on_ok:
  assumes inv: "kinv K k" and w: "may_wait K k t (Some q) p"
  shows "blocks K t (Some q) p False k (wait_on K q p k)"
proof -
  have "wait_on K q p k = Some (suspended t (Some q) p False (tk k) k)"
    using wait_inner_eq[OF kinvD(9)[OF inv] w, where timed = False and g = "tk k"] may_waitD[OF w]
    by (simp add: wait_on_def new_wait_tk)
  then show ?thesis using kinvD(12)[OF inv] unfolding blocks_def by (intro exI[of _ "tk k"]) simp
qed

lemma wait_no_queue_ok:
  assumes inv: "kinv K k" and w: "may_wait K k t None p"
  shows "blocks K t None p False k (wait_no_queue K p k)"
proof -
  have "wait_no_queue K p k = Some (suspended t None p False (tk k) k)"
    using wait_no_queue_inner_eq[OF w, where timed = False and g = "tk k"] may_waitD[OF w]
    by (simp add: wait_no_queue_def new_wait_tk)
  then show ?thesis using kinvD(12)[OF inv] unfolding blocks_def by (intro exI[of _ "tk k"]) simp
qed

lemma wait_on_timeout_ok:
  assumes K: "kcfg_ok K" and inv: "kinv K k" and w: "may_wait K k t (Some q) p" and d: "unat d \<le> DURATION_MAX"
  shows "blocks K t (Some q) p True k (wait_on_timeout K q p d k)"
proof -
  note t = may_waitD[OF w]
  have "t < N_TASKS K" using run_inv_state[OF kinvD(7)[OF inv], of t] t by blast
  then obtain g where "setup_timeout_wait K t d (new_wait (Some q) p True t k) = Some ((new_wait (Some q) p True t k)\<lparr>tk := g\<rparr>)"
    "timeout_set_up K t True k g"
    using setup_timeout_wait_ok[OF K kinvD(12)[OF inv] _ _ d] t by metis
  then show ?thesis using wait_inner_eq[OF kinvD(9)[OF inv] w, where timed = True and g = g] t
    by (auto simp: wait_on_timeout_def blocks_def)
qed

lemma wait_no_queue_timeout_ok:
  assumes K: "kcfg_ok K" and inv: "kinv K k" and w: "may_wait K k t None p" and d: "unat d \<le> DURATION_MAX"
  shows "blocks K t None p True k (wait_no_queue_timeout K p d k)"
proof -
  note t = may_waitD[OF w]
  have "t < N_TASKS K" using run_inv_state[OF kinvD(7)[OF inv], of t] t by blast
  then obtain g where "setup_timeout_wait K t d (new_wait None p True t k) = Some ((new_wait None p True t k)\<lparr>tk := g\<rparr>)"
    "timeout_set_up K t True k g"
    using setup_timeout_wait_ok[OF K kinvD(12)[OF inv] _ _ d] t by metis
  then show ?thesis using wait_no_queue_inner_eq[OF w, where timed = True and g = g] t
    by (auto simp: wait_no_queue_timeout_def blocks_def)
qed

lemma blocks_call_ok:
  assumes inv: "kinv K k" and w: "may_wait K k t q p" and b: "blocks K t q p timed k r"
  shows "call_ok K k (do { k \<leftarrow> r; Some (Blocked, k) })"
proof -
  obtain g where "timeout_set_up K t timed k g" "r = Some (suspended t q p timed g k)"
    using b by (auto simp: blocks_def)
  then show ?thesis using suspended_ok[OF inv w] by (auto intro!: call_okI)
qed

section \<open>Returning from a wait\<close>

text \<open>
  The second half of a blocking operation: the timeout is unregistered, the result is the one that
  the waker has stored.
\<close>

lemma wait_finish_ok:
  assumes inv: "kinv K k" and t: "running_task k = Some t" "st (tasks k t) = Running"
    and b: "blocked_in (tasks k t) = Some (c, timed)"
  obtains k' where "wait_finish K t k = Some (wait_result (tasks k t), k')" "kinv K k'" "frame k k'"
    "preempt_inv k' = preempt_inv k"
    "tasks k' = (tasks k)(t := (tasks k t)\<lparr>blocked_in := None\<rparr>)" "wait_objs k' = wait_objs k"
    "mutexes k' = mutexes k" "yield_pending k' = yield_pending k" "result_ok (c, timed) (wait_result (tasks k t))"
    "c = call_of (payload (wait_objs k t))" "TaskTimeout t \<notin> set (heap (tk k'))"
proof -
  note I = kinvD[OF inv]
  have tN: "t < N_TASKS K" using run_inv_state[OF I(7) t(1)] by blast
  have w: "current_wait (tasks k t) = None" "result_ok (c, timed) (wait_result (tasks k t))"
    "c = call_of (payload (wait_objs k t))"
    using I(8) tN t(2) b by (auto simp: wait_inv_def task_wait_ok_def)
  have q: "t \<notin> set (waits_of k q)" for q using queue_inv_mem[OF I(9)] t by simp
  obtain g where g: "remove_timeout (PORT_TIMER K) (tk k) (TaskTimeout t) = Some g" "timer_inv K (k\<lparr>tk := g\<rparr>)"
    "tk_same (tk k) g" "set (heap g) = set (heap (tk k)) - {TaskTimeout t}"
    using remove_timeout_inv[OF I(12)] by blast
  define g' where "g' = (if timed then g else tk k)"
  have g': "timer_inv K (k\<lparr>tk := g'\<rparr>)" "tk_same (tk k) g'" "TaskTimeout t \<notin> set (heap g')"
  proof -
    have same: "k\<lparr>tk := tk k\<rparr> = k" by simp
    show "timer_inv K (k\<lparr>tk := g'\<rparr>)" "tk_same (tk k) g'" using g(2,3) I(12) by (simp_all add: g'_def same)
    show "TaskTimeout t \<notin> set (heap g')"
      using g(4) I(12) b by (auto simp: g'_def timer_inv_def linked_ok_def)
  qed
  let ?k = "upd_task t (\<lambda>c. c\<lparr>blocked_in := None\<rparr>) (k\<lparr>tk := g'\<rparr>)"
  have fin: "wait_finish K t k = Some (wait_result (tasks k t), ?k)"
  proof (cases timed)
    case True
    then show ?thesis using t(2) w q b g(1)
      by (auto simp: wait_finish_def on_tk_def g'_def split: option.split)
  next
    case False
    then have "wait_result (tasks k t) \<noteq> WaitTimeout" using w(2) by (simp add: result_ok_def)
    then show ?thesis using t(2) w q b False
      by (auto simp: wait_finish_def expect_not_timeout_def g'_def split: option.split)
  qed
  have base: "base_inv K (k\<lparr>tk := g'\<rparr>)" by (rule base_inv_tk[OF I(1) g'(1)])
  have "timer_inv K ?k" using g' by (auto simp: timer_inv_def linked_ok_def split: timeout_ref.splits)
  moreover have "wait_inv K ?k" using I(8) t(2) by (auto simp: wait_inv_def task_wait_ok_def)
  moreover have "ready_inv K ?k" using I(5) by (simp add: ready_inv_def)
  moreover have "pri_inv K ?k" using I(6) by (simp add: pri_inv_def)
  moreover have "run_inv K ?k"
    unfolding run_inv_def using tN t by (auto dest: run_invD[OF I(7)] run_inv_state[OF I(7)])
  moreover have eff: "eff ?k = eff k" by auto
  then have "queue_inv K ?k" using I(9) unfolding queue_inv_def eff by simp
  moreover have "sem_inv K ?k" "event_inv K ?k" using I(10,11) by (simp_all add: sem_inv_def event_inv_def)
  ultimately have "base_inv K ?k" by (simp add: base_inv_def)
  moreover have "mutex_inv K None {} ?k"
  proof -
    have f: "held_by K {} ?k u = held_by K {} k u" "chain_head None ?k u = chain_head None k u"
      "documented_priority K {} ?k u b = documented_priority K {} k u b"
      "st (tasks ?k u) = st (tasks k u)" "base_priority (tasks ?k u) = base_priority (tasks k u)"
      "eff ?k u = eff k u" for u b
      by (simp_all add: held_by_def chain_head_def documented_priority_def ceilings_held_def)
    have "mutex_waits_ok K ?k" using I(2) by (simp add: mutex_inv_def mutex_waits_ok_def)
    then show ?thesis using I(2)
      unfolding mutex_inv_def chains_ok_def owners_ok_def priorities_ok_def f by simp
  qed
  moreover have run: "running_task_is_running ?k = running_task_is_running k"
    using t by (simp add: running_task_is_running_def)
  ultimately have "kinv K ?k" using I(3,4) by (simp add: kinv_def boost_inv_def activated_def)
  moreover have "frame k ?k"
    using g'(2) run by (simp add: frame_def tk_same_def)
  moreover have "preempt_inv ?k = preempt_inv k"
    using t by (simp add: preempt_inv_def prev_task_priority_def)
  ultimately show thesis using fin w(2,3) g'(3) by (intro that[of ?k]) simp_all
qed

section \<open>The waiters of a queue\<close>

lemma queue_waiter:
  assumes inv: "base_inv K k" and t: "t \<in> set (waits_of k q)"
  shows "t < N_TASKS K" "st (tasks k t) = Waiting" "wait_in (wait_objs k t) = Some q"
    "wait_in_ok K (wait_objs k t)" "wait_task (wait_objs k t) = t"
    "\<exists>timed. blocked_in (tasks k t) = Some (call_of (payload (wait_objs k t)), timed)"
proof -
  note I = base_invD[OF inv]
  show m: "t < N_TASKS K" "st (tasks k t) = Waiting" "wait_in (wait_objs k t) = Some q"
    by (fact wait_queue_member[OF I(5) t])+
  show "wait_in_ok K (wait_objs k t)" "wait_task (wait_objs k t) = t"
    "\<exists>timed. blocked_in (tasks k t) = Some (call_of (payload (wait_objs k t)), timed)"
    using waiting_task[OF I(4) m(1,2)] by metis+
qed

lemma semaphore_waiter:
  assumes "base_inv K k" "t \<in> set (waits_of k (SemaphoreQ i))"
  shows "payload (wait_objs k t) = SemaphoreWait" "i < N_SEMAPHORES K" "wake_allowed k t WaitOk"
  using queue_waiter[OF assms]
  by (auto simp: wait_in_ok_def wake_allowed_def result_ok_def call_of_def split: wait_payload.splits)

lemma event_group_waiter:
  assumes "base_inv K k" "t \<in> set (waits_of k (EventGroupQ i))"
  shows "\<exists>req flags orig. payload (wait_objs k t) = EventGroupBits req flags orig" "i < N_EVENT_GROUPS K"
    "wake_allowed k t WaitOk"
  using queue_waiter[OF assms]
  by (auto simp: wait_in_ok_def wake_allowed_def result_ok_def call_of_def split: wait_payload.splits)

lemma mutex_waiter:
  assumes "base_inv K k" "t \<in> set (waits_of k (MutexQ m))"
  shows "payload (wait_objs k t) = MutexWait m" "m < N_MUTEXES K"
    "\<exists>timed. blocked_in (tasks k t) = Some (MutexCall m, timed)"
  using queue_waiter[OF assms] by (auto simp: wait_in_ok_def call_of_def split: wait_payload.splits)

lemma wake_up_one_ok:
  assumes K: "kcfg_ok K" and inv: "kinv K k" and w: "waits_of k q = t # ws" and ok: "wake_allowed k t WaitOk"
  obtains r where "wake_up_one K q k = Some (True, woken t WaitOk r k)" "kinv K (woken t WaitOk r k)"
    "frame k (woken t WaitOk r k)" "waits_of (woken t WaitOk r k) q = ws"
    "\<And>q'. q' \<noteq> q \<Longrightarrow> waits_of (woken t WaitOk r k) q' = waits_of k q'"
proof -
  note I = kinvD[OF inv] and e = wake_up_one_eq[OF kinvD(1)[OF inv] w]
  obtain r where "complete_wait K t WaitOk (unlink_wait t k) = Some (woken t WaitOk r k)"
    "base_inv K (woken t WaitOk r k)" "mutex_inv K None {} (woken t WaitOk r k)"
    using woken_ok[OF K I(1,2) e(2,3) ok] by metis
  then show thesis using e w by (intro that[of r]) (simp_all add: kinv_woken[OF inv e(3)] frame_woken)
qed

end
