(* ===== verification/Semaphore.thy ===== *)
theory Semaphore
  imports Blocking
begin

text \<open>Semaphores (\<^verbatim>\<open>r3_kernel/src/semaphore.rs\<close>).\<close>

definition semaphore_poll_core :: "nat \<Rightarrow> bool \<times> nat" where
  "semaphore_poll_core value = (if 0 < value then (True, value - 1) else (False, value))"

text \<open>\<^verbatim>\<open>poll_core(semaphore_cb.value.write(..))\<close>\<close>

definition semaphore_poll :: "nat \<Rightarrow> kernel \<Rightarrow> bool \<times> kernel" where
  "semaphore_poll i k =
     (let (b, v) = semaphore_poll_core (sem_value (semaphores k i))
      in (b, upd_semaphore i (\<lambda>s. s\<lparr>sem_value := v\<rparr>) k))"

definition poll_one :: "nat \<Rightarrow> kernel \<Rightarrow> unit ret \<times> kernel" where
  "poll_one i k = (case semaphore_poll i k of (True, k) \<Rightarrow> (Ok (), k) | (False, k) \<Rightarrow> (Err Timeout, k))"

definition wait_one :: "kcfg \<Rightarrow> nat \<Rightarrow> kernel \<Rightarrow> (unit ret \<times> kernel) option" where
  "wait_one K i k =
     (case semaphore_poll i k of
        (True, k) \<Rightarrow> Some (Ok (), k)
      | (False, k) \<Rightarrow> do { k \<leftarrow> wait_on K (SemaphoreQ i) SemaphoreWait k; Some (Blocked, k) })"

definition wait_one_timeout :: "kcfg \<Rightarrow> nat \<Rightarrow> time32 \<Rightarrow> kernel \<Rightarrow> (unit ret \<times> kernel) option" where
  "wait_one_timeout K i d k =
     (case semaphore_poll i k of
        (True, k) \<Rightarrow> Some (Ok (), k)
      | (False, k) \<Rightarrow>
          do { k \<leftarrow> wait_on_timeout K (SemaphoreQ i) SemaphoreWait d k; Some (Blocked, k) })"

text \<open>The rest of both after the wait.\<close>

definition wait_one_resume :: "kcfg \<Rightarrow> nat \<Rightarrow> kernel \<Rightarrow> (unit ret \<times> kernel) option" where
  "wait_one_resume K t k = do { (r, k) \<leftarrow> wait_finish K t k; Some (wait_ret r (), k) }"

text \<open>
  The loop of \<^verbatim>\<open>signal\<close>: \<open>value\<close> is the value read before the loop; the result is the count that
  is left.
\<close>

fun signal_loop :: "kcfg \<Rightarrow> nat \<Rightarrow> nat \<Rightarrow> nat \<Rightarrow> kernel \<Rightarrow> (nat \<times> kernel) option" where
  "signal_loop K i value 0 k = Some (0, k)"
| "signal_loop K i value (Suc n) k =
     (case wake_up_one K (SemaphoreQ i) k of
        None \<Rightarrow> None
      | Some (True, k) \<Rightarrow> signal_loop K i value n k
      | Some (False, k) \<Rightarrow>
          Some (Suc n, upd_semaphore i (\<lambda>s. s\<lparr>sem_value := value + Suc n\<rparr>) k))"

definition signal :: "kcfg \<Rightarrow> nat \<Rightarrow> nat \<Rightarrow> kernel \<Rightarrow> (unit ret \<times> kernel) option" where
  "signal K i cnt k =
     (let value = sem_value (semaphores k i); max = max_value (semaphores k i)
      in guard (value \<le> max)
          (if max - value < cnt then Some (Err QueueOverflow, k)
           else do { (left, k) \<leftarrow> signal_loop K i value cnt k;
                     k \<leftarrow> (if left \<noteq> cnt then unlock_cpu_and_check_preemption K k else Some k);
                     Some (Ok (), k) }))"

section \<open>System calls\<close>

definition raw_semaphore_drain :: "kcfg \<Rightarrow> nat \<Rightarrow> kernel \<Rightarrow> (unit ret \<times> kernel) option" where
  "raw_semaphore_drain K this = with_cpu_lock (\<lambda>k.
     do { i \<leftarrow> semaphore_index K this;
          Some (Ok (), upd_semaphore i (\<lambda>s. s\<lparr>sem_value := 0\<rparr>) k) })"

definition raw_semaphore_get :: "kcfg \<Rightarrow> nat \<Rightarrow> kernel \<Rightarrow> (nat ret \<times> kernel) option" where
  "raw_semaphore_get K this = with_cpu_lock (\<lambda>k.
     do { i \<leftarrow> semaphore_index K this; Some (Ok (sem_value (semaphores k i)), k) })"

definition raw_semaphore_signal :: "kcfg \<Rightarrow> nat \<Rightarrow> nat \<Rightarrow> kernel \<Rightarrow> (unit ret \<times> kernel) option" where
  "raw_semaphore_signal K this cnt = with_cpu_lock (\<lambda>k.
     do { i \<leftarrow> semaphore_index K this; signal K i cnt k })"

definition raw_semaphore_signal_one :: "kcfg \<Rightarrow> nat \<Rightarrow> kernel \<Rightarrow> (unit ret \<times> kernel) option" where
  "raw_semaphore_signal_one K this = raw_semaphore_signal K this 1"

definition raw_semaphore_wait_one :: "kcfg \<Rightarrow> nat \<Rightarrow> kernel \<Rightarrow> (unit ret \<times> kernel) option" where
  "raw_semaphore_wait_one K this = with_cpu_lock (\<lambda>k.
     if \<not> expect_waitable_context k then Some (Err BadContext, k)
     else do { i \<leftarrow> semaphore_index K this; wait_one K i k })"

definition raw_semaphore_wait_one_timeout ::
  "kcfg \<Rightarrow> nat \<Rightarrow> duration \<Rightarrow> kernel \<Rightarrow> (unit ret \<times> kernel) option" where
  "raw_semaphore_wait_one_timeout K this timeout k =
     (case time32_from_duration timeout of
        None \<Rightarrow> Some (Err BadParam, k)
      | Some d \<Rightarrow> with_cpu_lock (\<lambda>k.
          if \<not> expect_waitable_context k then Some (Err BadContext, k)
          else do { i \<leftarrow> semaphore_index K this; wait_one_timeout K i d k }) k)"

definition raw_semaphore_poll_one :: "kcfg \<Rightarrow> nat \<Rightarrow> kernel \<Rightarrow> (unit ret \<times> kernel) option" where
  "raw_semaphore_poll_one K this = with_cpu_lock (\<lambda>k.
     do { i \<leftarrow> semaphore_index K this; Some (poll_one i k) })"

end
