(* ===== verification/Event_Group.thy ===== *)
theory Event_Group
  imports Blocking
begin

unbundle bit_operations_syntax

text \<open>Event groups (\<^verbatim>\<open>r3_kernel/src/event_group.rs\<close>).\<close>

text \<open>The original value, if the condition holds, and the new value of the group.\<close>

definition event_group_poll_core :: "u32 \<Rightarrow> u32 \<Rightarrow> wait_flags \<Rightarrow> u32 option \<times> u32" where
  "event_group_poll_core value req flags =
     (let success = (if flag_ALL flags then (value AND req) = req else (value AND req) \<noteq> 0)
      in if success then
           (Some value, if flag_CLEAR flags then value AND NOT req else value)
         else (None, value))"

definition event_group_poll :: "nat \<Rightarrow> u32 \<Rightarrow> wait_flags \<Rightarrow> kernel \<Rightarrow> u32 option \<times> kernel" where
  "event_group_poll i req flags k =
     (let (r, b) = event_group_poll_core (group_bits (event_groups k i)) req flags
      in (r, upd_event_group i (\<lambda>e. e\<lparr>group_bits := b\<rparr>) k))"

definition event_poll :: "nat \<Rightarrow> u32 \<Rightarrow> wait_flags \<Rightarrow> kernel \<Rightarrow> u32 ret \<times> kernel" where
  "event_poll i req flags k =
     (case event_group_poll i req flags k of
        (Some orig, k) \<Rightarrow> (Ok orig, k) | (None, k) \<Rightarrow> (Err Timeout, k))"

definition event_wait :: "kcfg \<Rightarrow> nat \<Rightarrow> u32 \<Rightarrow> wait_flags \<Rightarrow> kernel \<Rightarrow> (u32 ret \<times> kernel) option" where
  "event_wait K i req flags k =
     (case event_group_poll i req flags k of
        (Some orig, k) \<Rightarrow> Some (Ok orig, k)
      | (None, k) \<Rightarrow>
          do { k \<leftarrow> wait_on K (EventGroupQ i) (EventGroupBits req flags 0) k; Some (Blocked, k) })"

definition event_wait_timeout ::
  "kcfg \<Rightarrow> nat \<Rightarrow> u32 \<Rightarrow> wait_flags \<Rightarrow> time32 \<Rightarrow> kernel \<Rightarrow> (u32 ret \<times> kernel) option" where
  "event_wait_timeout K i req flags d k =
     (case event_group_poll i req flags k of
        (Some orig, k) \<Rightarrow> Some (Ok orig, k)
      | (None, k) \<Rightarrow>
          do { k \<leftarrow> wait_on_timeout K (EventGroupQ i) (EventGroupBits req flags 0) d k;
               Some (Blocked, k) })"

text \<open>The rest of both after the wait: the original value is in the payload.\<close>

definition event_wait_resume :: "kcfg \<Rightarrow> nat \<Rightarrow> kernel \<Rightarrow> (u32 ret \<times> kernel) option" where
  "event_wait_resume K t k =
     do { (r, k) \<leftarrow> wait_finish K t k;
          case r of
            WaitOk \<Rightarrow> (case payload (wait_objs k t) of
               EventGroupBits _ _ orig \<Rightarrow> Some (Ok orig, k)
             | _ \<Rightarrow> None)
          | _ \<Rightarrow> Some (wait_ret r 0, k) }"

text \<open>
  The closure passed to \<^verbatim>\<open>wake_up_all_conditional\<close>; its captured variables are the bits of the group
  and \<^verbatim>\<open>woke_up_any\<close>.
\<close>

definition set_cond :: "wait_payload \<Rightarrow> u32 \<times> bool \<Rightarrow> (bool \<times> wait_payload \<times> u32 \<times> bool) option" where
  "set_cond p s =
     (case s of (value, woke_up_any) \<Rightarrow>
       (case p of
          EventGroupBits req flags prev_orig \<Rightarrow>
            (case event_group_poll_core value req flags of
               (Some orig, value) \<Rightarrow>
                 Some (True, EventGroupBits req flags orig, value, True)
             | (None, value) \<Rightarrow> Some (False, p, value, woke_up_any))
        | _ \<Rightarrow> None))"

definition event_set :: "kcfg \<Rightarrow> nat \<Rightarrow> u32 \<Rightarrow> kernel \<Rightarrow> kernel option" where
  "event_set K i added_bits k =
     (let evt = group_bits (event_groups k i)
      in if (evt OR added_bits) = evt then Some k
         else do { ((evt, woke_up_any), k) \<leftarrow>
                     wake_up_all_conditional K (EventGroupQ i) set_cond ((evt OR added_bits), False) k;
                   let k = upd_event_group i (\<lambda>e. e\<lparr>group_bits := evt\<rparr>) k;
                   if woke_up_any then unlock_cpu_and_check_preemption K k else Some k })"

section \<open>System calls\<close>

definition raw_event_group_set :: "kcfg \<Rightarrow> nat \<Rightarrow> u32 \<Rightarrow> kernel \<Rightarrow> (unit ret \<times> kernel) option" where
  "raw_event_group_set K this req = with_cpu_lock (\<lambda>k.
     do { i \<leftarrow> event_group_index K this; k \<leftarrow> event_set K i req k; Some (Ok (), k) })"

definition raw_event_group_clear :: "kcfg \<Rightarrow> nat \<Rightarrow> u32 \<Rightarrow> kernel \<Rightarrow> (unit ret \<times> kernel) option" where
  "raw_event_group_clear K this req = with_cpu_lock (\<lambda>k.
     do { i \<leftarrow> event_group_index K this;
          Some (Ok (), upd_event_group i (\<lambda>e. e\<lparr>group_bits := group_bits e AND NOT req\<rparr>) k) })"

definition raw_event_group_get :: "kcfg \<Rightarrow> nat \<Rightarrow> kernel \<Rightarrow> (u32 ret \<times> kernel) option" where
  "raw_event_group_get K this = with_cpu_lock (\<lambda>k.
     do { i \<leftarrow> event_group_index K this; Some (Ok (group_bits (event_groups k i)), k) })"

definition raw_event_group_wait ::
  "kcfg \<Rightarrow> nat \<Rightarrow> u32 \<Rightarrow> wait_flags \<Rightarrow> kernel \<Rightarrow> (u32 ret \<times> kernel) option" where
  "raw_event_group_wait K this req flags = with_cpu_lock (\<lambda>k.
     if \<not> expect_waitable_context k then Some (Err BadContext, k)
     else do { i \<leftarrow> event_group_index K this; event_wait K i req flags k })"

definition raw_event_group_wait_timeout ::
  "kcfg \<Rightarrow> nat \<Rightarrow> u32 \<Rightarrow> wait_flags \<Rightarrow> duration \<Rightarrow> kernel \<Rightarrow> (u32 ret \<times> kernel) option" where
  "raw_event_group_wait_timeout K this req flags timeout k =
     (case time32_from_duration timeout of
        None \<Rightarrow> Some (Err BadParam, k)
      | Some d \<Rightarrow> with_cpu_lock (\<lambda>k.
          if \<not> expect_waitable_context k then Some (Err BadContext, k)
          else do { i \<leftarrow> event_group_index K this; event_wait_timeout K i req flags d k }) k)"

definition raw_event_group_poll ::
  "kcfg \<Rightarrow> nat \<Rightarrow> u32 \<Rightarrow> wait_flags \<Rightarrow> kernel \<Rightarrow> (u32 ret \<times> kernel) option" where
  "raw_event_group_poll K this req flags = with_cpu_lock (\<lambda>k.
     do { i \<leftarrow> event_group_index K this; Some (event_poll i req flags k) })"

end
