(* ===== verification/Mutex.thy ===== *)
theory Mutex
  imports Blocking
begin

text \<open>
  Mutexes and the immediate ceiling protocol (\<^verbatim>\<open>r3_kernel/src/mutex.rs\<close>).  The mutexes a task holds
  form a chain from its \<open>last_mutex_held\<close> through \<open>prev_mutex_held\<close>; the loops over the chain get
  the number of mutexes as fuel, and running out of it is a \<open>None\<close>.
\<close>

definition ceiling_allows :: "mutex_cb \<Rightarrow> nat \<Rightarrow> bool" where
  "ceiling_allows m new_base_priority =
     (case ceiling m of None \<Rightarrow> True | Some c \<Rightarrow> \<not> new_base_priority < c)"

definition precheck_and_get_running_task :: "nat \<Rightarrow> kernel \<Rightarrow> (result_code + nat) option" where
  "precheck_and_get_running_task m k =
     do { t \<leftarrow> running_task k;
          Some (if owning_task (mutexes k m) = Some t then Inl WouldDeadlock
                else (case ceiling (mutexes k m) of
                        Some c \<Rightarrow> if base_priority (tasks k t) < c then Inl BadParam else Inr t
                      | None \<Rightarrow> Inr t)) }"

definition does_held_mutex_allow_new_task_base_priority :: "kernel \<Rightarrow> nat \<Rightarrow> nat \<Rightarrow> bool" where
  "does_held_mutex_allow_new_task_base_priority k m new_base_priority =
     ceiling_allows (mutexes k m) new_base_priority"

fun held_mutexes_allow_loop :: "kernel \<Rightarrow> nat \<Rightarrow> nat option \<Rightarrow> nat \<Rightarrow> bool option" where
  "held_mutexes_allow_loop k fuel None new_base_priority = Some True"
| "held_mutexes_allow_loop k 0 (Some m) new_base_priority = None"
| "held_mutexes_allow_loop k (Suc fuel) (Some m) new_base_priority =
     (if \<not> does_held_mutex_allow_new_task_base_priority k m new_base_priority then Some False
      else held_mutexes_allow_loop k fuel (prev_mutex_held (mutexes k m)) new_base_priority)"

definition do_held_mutexes_allow_new_task_base_priority ::
  "kcfg \<Rightarrow> nat \<Rightarrow> nat \<Rightarrow> kernel \<Rightarrow> bool option" where
  "do_held_mutexes_allow_new_task_base_priority K t new_base_priority k =
     held_mutexes_allow_loop k (N_MUTEXES K) (last_mutex_held (tasks k t)) new_base_priority"

fun effective_priority_loop :: "kernel \<Rightarrow> nat \<Rightarrow> nat option \<Rightarrow> nat \<Rightarrow> nat option" where
  "effective_priority_loop k fuel None pri = Some pri"
| "effective_priority_loop k 0 (Some m) pri = None"
| "effective_priority_loop k (Suc fuel) (Some m) pri =
     effective_priority_loop k fuel (prev_mutex_held (mutexes k m))
       (case ceiling (mutexes k m) of None \<Rightarrow> pri | Some c \<Rightarrow> min pri c)"

definition evaluate_task_effective_priority :: "kcfg \<Rightarrow> nat \<Rightarrow> nat \<Rightarrow> kernel \<Rightarrow> nat option" where
  "evaluate_task_effective_priority K t base_pri k =
     effective_priority_loop k (N_MUTEXES K) (last_mutex_held (tasks k t)) base_pri"

definition lock_core :: "nat \<Rightarrow> nat \<Rightarrow> kernel \<Rightarrow> kernel option" where
  "lock_core m t k =
     guard (st (tasks k t) = Running \<or> st (tasks k t) = Waiting)
      (let k = upd_mutex m (\<lambda>c. c\<lparr>owning_task := Some t\<rparr>) k;
           prev = last_mutex_held (tasks k t);
           k = upd_task t (\<lambda>c. c\<lparr>last_mutex_held := Some m\<rparr>) k;
           k = upd_mutex m (\<lambda>c. c\<lparr>prev_mutex_held := prev\<rparr>) k
       in Some (case ceiling (mutexes k m) of
                  None \<Rightarrow> k
                | Some ceil \<Rightarrow>
                    upd_task t (\<lambda>c. c\<lparr>effective_priority := min (effective_priority c) ceil\<rparr>) k))"

definition mutex_poll_core :: "nat \<Rightarrow> nat \<Rightarrow> kernel \<Rightarrow> (bool \<times> kernel) option" where
  "mutex_poll_core m t k =
     (if owning_task (mutexes k m) \<noteq> None then Some (False, k)
      else do { k \<leftarrow> lock_core m t k; Some (True, k) })"

definition lock_result :: "nat \<Rightarrow> kernel \<Rightarrow> unit ret" where
  "lock_result m k = (if inconsistent (mutexes k m) then Err Abandoned else Ok ())"

definition lock_mutex :: "kcfg \<Rightarrow> nat \<Rightarrow> kernel \<Rightarrow> (unit ret \<times> kernel) option" where
  "lock_mutex K m k =
     do { r \<leftarrow> precheck_and_get_running_task m k;
          case r of
            Inl e \<Rightarrow> Some (Err e, k)
          | Inr t \<Rightarrow>
              do { (acquired, k) \<leftarrow> mutex_poll_core m t k;
                   if \<not> acquired then
                     do { k \<leftarrow> wait_on K (MutexQ m) (MutexWait m) k; Some (Blocked, k) }
                   else Some (lock_result m k, k) } }"

definition try_lock_mutex :: "nat \<Rightarrow> kernel \<Rightarrow> (unit ret \<times> kernel) option" where
  "try_lock_mutex m k =
     do { r \<leftarrow> precheck_and_get_running_task m k;
          case r of
            Inl e \<Rightarrow> Some (Err e, k)
          | Inr t \<Rightarrow>
              do { (acquired, k) \<leftarrow> mutex_poll_core m t k;
                   if \<not> acquired then Some (Err Timeout, k)
                   else Some (lock_result m k, k) } }"

definition lock_mutex_timeout :: "kcfg \<Rightarrow> nat \<Rightarrow> time32 \<Rightarrow> kernel \<Rightarrow> (unit ret \<times> kernel) option" where
  "lock_mutex_timeout K m d k =
     do { r \<leftarrow> precheck_and_get_running_task m k;
          case r of
            Inl e \<Rightarrow> Some (Err e, k)
          | Inr t \<Rightarrow>
              do { (acquired, k) \<leftarrow> mutex_poll_core m t k;
                   if \<not> acquired then
                     do { k \<leftarrow> wait_on_timeout K (MutexQ m) (MutexWait m) d k; Some (Blocked, k) }
                   else Some (lock_result m k, k) } }"

text \<open>The rest of \<^verbatim>\<open>lock_mutex\<close> and \<^verbatim>\<open>lock_mutex_timeout\<close> after the wait.\<close>

definition lock_mutex_resume :: "kcfg \<Rightarrow> nat \<Rightarrow> nat \<Rightarrow> kernel \<Rightarrow> (unit ret \<times> kernel) option" where
  "lock_mutex_resume K m t k =
     do { (r, k) \<leftarrow> wait_finish K t k;
          Some (if r = WaitOk then lock_result m k else wait_ret r (), k) }"

definition unlock_mutex_unchecked :: "kcfg \<Rightarrow> nat \<Rightarrow> kernel \<Rightarrow> kernel option" where
  "unlock_mutex_unchecked K m k =
     (case first_waiting_task (MutexQ m) k of
        Some next_task \<Rightarrow>
          do { k \<leftarrow> lock_core m next_task k;
               (woken, k) \<leftarrow> wake_up_one K (MutexQ m) k;
               guard woken (Some k) }
      | None \<Rightarrow> Some (upd_mutex m (\<lambda>c. c\<lparr>owning_task := None\<rparr>) k))"

definition unlock_mutex :: "kcfg \<Rightarrow> nat \<Rightarrow> kernel \<Rightarrow> (unit ret \<times> kernel) option" where
  "unlock_mutex K m k =
     do { t \<leftarrow> running_task k;
          if owning_task (mutexes k m) \<noteq> Some t then Some (Err NotOwner, k)
          else if last_mutex_held (tasks k t) \<noteq> Some m then Some (Err BadObjectState, k)
          else
            do { let k = upd_task t (\<lambda>c. c\<lparr>last_mutex_held := prev_mutex_held (mutexes k m)\<rparr>) k;
                 pri \<leftarrow> evaluate_task_effective_priority K t (base_priority (tasks k t)) k;
                 let k = upd_task t (\<lambda>c. c\<lparr>effective_priority := pri\<rparr>) k;
                 k \<leftarrow> unlock_mutex_unchecked K m k;
                 k \<leftarrow> unlock_cpu_and_check_preemption K k;
                 Some (Ok (), k) } }"

fun abandon_loop :: "kcfg \<Rightarrow> nat \<Rightarrow> nat option \<Rightarrow> kernel \<Rightarrow> kernel option" where
  "abandon_loop K fuel None k = Some k"
| "abandon_loop K 0 (Some m) k = None"
| "abandon_loop K (Suc fuel) (Some m) k =
     (let next = prev_mutex_held (mutexes k m);
          k = upd_mutex m (\<lambda>c. c\<lparr>inconsistent := True\<rparr>) k
      in do { k \<leftarrow> unlock_mutex_unchecked K m k; abandon_loop K fuel next k })"

definition abandon_held_mutexes :: "kcfg \<Rightarrow> nat \<Rightarrow> kernel \<Rightarrow> kernel option" where
  "abandon_held_mutexes K t k =
     (let start = last_mutex_held (tasks k t);
          k = upd_task t (\<lambda>c. c\<lparr>last_mutex_held := None\<rparr>) k
      in abandon_loop K (N_MUTEXES K) start k)"

section \<open>System calls\<close>

definition raw_mutex_is_locked :: "kcfg \<Rightarrow> nat \<Rightarrow> kernel \<Rightarrow> (bool ret \<times> kernel) option" where
  "raw_mutex_is_locked K this = with_cpu_lock (\<lambda>k.
     do { m \<leftarrow> mutex_index K this; Some (Ok (owning_task (mutexes k m) \<noteq> None), k) })"

definition raw_mutex_unlock :: "kcfg \<Rightarrow> nat \<Rightarrow> kernel \<Rightarrow> (unit ret \<times> kernel) option" where
  "raw_mutex_unlock K this = with_cpu_lock (\<lambda>k.
     if \<not> expect_waitable_context k then Some (Err BadContext, k)
     else do { m \<leftarrow> mutex_index K this; unlock_mutex K m k })"

definition raw_mutex_lock :: "kcfg \<Rightarrow> nat \<Rightarrow> kernel \<Rightarrow> (unit ret \<times> kernel) option" where
  "raw_mutex_lock K this = with_cpu_lock (\<lambda>k.
     if \<not> expect_waitable_context k then Some (Err BadContext, k)
     else do { m \<leftarrow> mutex_index K this; lock_mutex K m k })"

definition raw_mutex_lock_timeout :: "kcfg \<Rightarrow> nat \<Rightarrow> duration \<Rightarrow> kernel \<Rightarrow> (unit ret \<times> kernel) option" where
  "raw_mutex_lock_timeout K this timeout k =
     (case time32_from_duration timeout of
        None \<Rightarrow> Some (Err BadParam, k)
      | Some d \<Rightarrow> with_cpu_lock (\<lambda>k.
          if \<not> expect_waitable_context k then Some (Err BadContext, k)
          else do { m \<leftarrow> mutex_index K this; lock_mutex_timeout K m d k }) k)"

definition raw_mutex_try_lock :: "kcfg \<Rightarrow> nat \<Rightarrow> kernel \<Rightarrow> (unit ret \<times> kernel) option" where
  "raw_mutex_try_lock K this = with_cpu_lock (\<lambda>k.
     if \<not> expect_task_context k then Some (Err BadContext, k)
     else do { m \<leftarrow> mutex_index K this; try_lock_mutex m k })"

definition raw_mutex_mark_consistent :: "kcfg \<Rightarrow> nat \<Rightarrow> kernel \<Rightarrow> (unit ret \<times> kernel) option" where
  "raw_mutex_mark_consistent K this = with_cpu_lock (\<lambda>k.
     do { m \<leftarrow> mutex_index K this;
          Some (if inconsistent (mutexes k m)
                then (Ok (), upd_mutex m (\<lambda>c. c\<lparr>inconsistent := False\<rparr>) k)
                else (Err BadObjectState, k)) })"

end
