(* ===== verification/Task.thy ===== *)
theory Task
  imports Mutex
begin

text \<open>Task operations and their system calls (\<^verbatim>\<open>r3_kernel/src/task.rs\<close>).\<close>

text \<open>
  \<^verbatim>\<open>exit_current_task\<close> up to \<^verbatim>\<open>exit_and_dispatch\<close>, which is entered with CPU Lock active and does
  not return; \<open>Ok ()\<close> stands for this point.
\<close>

definition exit_current_task :: "kcfg \<Rightarrow> kernel \<Rightarrow> (unit ret \<times> kernel) option" where
  "exit_current_task K k =
     (if \<not> task_context k then Some (Err BadContext, k)
      else
        do { let k = (if \<not> cpu_lock k then k\<lparr>cpu_lock := True\<rparr> else k);
             let k = k\<lparr>priority_boost := False\<rparr>;
             t \<leftarrow> running_task k;
             k \<leftarrow> abandon_held_mutexes K t k;
             guard (last_mutex_held (tasks k t) = None)
              (guard (st (tasks k t) = Running)
                (let k = upd_task t (\<lambda>c. c\<lparr>st := Dormant\<rparr>) k
                 in Some (Ok (), k\<lparr>running_task := None\<rparr>))) })"

definition init_task :: "kcfg \<Rightarrow> nat \<Rightarrow> kernel \<Rightarrow> kernel option" where
  "init_task K t k =
     (if st (tasks k t) = PendingActivation then make_ready K t k else Some k)"

definition activate :: "kcfg \<Rightarrow> nat \<Rightarrow> kernel \<Rightarrow> (unit ret \<times> kernel) option" where
  "activate K t k =
     (if st (tasks k t) \<noteq> Dormant then Some (Err QueueOverflow, k)
      else
        do { let k = upd_task t (\<lambda>c. c\<lparr>park_token := False\<rparr>) k;
             let k = upd_task t (\<lambda>c. c\<lparr>base_priority := attr_priority c\<rparr>) k;
             let k = upd_task t (\<lambda>c. c\<lparr>effective_priority := attr_priority c\<rparr>) k;
             k \<leftarrow> make_ready K t k;
             k \<leftarrow> unlock_cpu_and_check_preemption K k;
             Some (Ok (), k) })"

definition park_current_task :: "kcfg \<Rightarrow> kernel \<Rightarrow> (unit ret \<times> kernel) option" where
  "park_current_task K = with_cpu_lock (\<lambda>k.
     if \<not> expect_waitable_context k then Some (Err BadContext, k)
     else do { t \<leftarrow> running_task k;
               let had_token = park_token (tasks k t);
               let k = upd_task t (\<lambda>c. c\<lparr>park_token := False\<rparr>) k;
               if had_token then Some (Ok (), k)
               else do { k \<leftarrow> wait_no_queue K ParkWait k; Some (Blocked, k) } })"

definition park_current_task_timeout :: "kcfg \<Rightarrow> duration \<Rightarrow> kernel \<Rightarrow> (unit ret \<times> kernel) option" where
  "park_current_task_timeout K timeout k =
     (case time32_from_duration timeout of
        None \<Rightarrow> Some (Err BadParam, k)
      | Some d \<Rightarrow> with_cpu_lock (\<lambda>k.
          if \<not> expect_waitable_context k then Some (Err BadContext, k)
          else do { t \<leftarrow> running_task k;
                    let had_token = park_token (tasks k t);
                    let k = upd_task t (\<lambda>c. c\<lparr>park_token := False\<rparr>) k;
                    if had_token then Some (Ok (), k)
                    else do { k \<leftarrow> wait_no_queue_timeout K ParkWait d k; Some (Blocked, k) } }) k)"

text \<open>The rest of both after the wait.\<close>

definition park_resume :: "kcfg \<Rightarrow> nat \<Rightarrow> kernel \<Rightarrow> (unit ret \<times> kernel) option" where
  "park_resume K t k = do { (r, k) \<leftarrow> wait_finish K t k; Some (wait_ret r (), k) }"

definition unpark_exact :: "kcfg \<Rightarrow> nat \<Rightarrow> kernel \<Rightarrow> (unit ret \<times> kernel) option" where
  "unpark_exact K t k =
     (if st (tasks k t) = Dormant then Some (Err BadObjectState, k)
      else
        let is_parked = (if st (tasks k t) = Waiting
                         then with_current_wait_payload k t (\<lambda>p. p = Some ParkWait) else False)
        in if is_parked then
             do { (ok, k) \<leftarrow> interrupt_task K t WaitOk k;
                  guard ok (do { k \<leftarrow> unlock_cpu_and_check_preemption K k; Some (Ok (), k) }) }
           else
             let had_token = park_token (tasks k t);
                 k = upd_task t (\<lambda>c. c\<lparr>park_token := True\<rparr>) k
             in Some (if had_token then Err QueueOverflow else Ok (), k))"

definition put_current_task_on_sleep_timeout ::
  "kcfg \<Rightarrow> duration \<Rightarrow> kernel \<Rightarrow> (unit ret \<times> kernel) option" where
  "put_current_task_on_sleep_timeout K timeout k =
     (case time32_from_duration timeout of
        None \<Rightarrow> Some (Err BadParam, k)
      | Some d \<Rightarrow> with_cpu_lock (\<lambda>k.
          if \<not> expect_waitable_context k then Some (Err BadContext, k)
          else do { k \<leftarrow> wait_no_queue_timeout K SleepWait d k; Some (Blocked, k) }) k)"

definition sleep_resume :: "kcfg \<Rightarrow> nat \<Rightarrow> kernel \<Rightarrow> (unit ret \<times> kernel) option" where
  "sleep_resume K t k =
     do { (r, k) \<leftarrow> wait_finish K t k;
          case r of
            WaitOk \<Rightarrow> None
          | WaitInterrupted \<Rightarrow> Some (Err Interrupted, k)
          | WaitTimeout \<Rightarrow> Some (Ok (), k) }"

definition to_task_priority :: "kcfg \<Rightarrow> nat \<Rightarrow> nat option" where
  "to_task_priority K p = guard (p < PRIORITY_LEVELS K) (Some p)"

text \<open>The check of the locking protocols when the base priority is raised.\<close>

definition base_priority_raise_allowed :: "kcfg \<Rightarrow> nat \<Rightarrow> nat \<Rightarrow> kernel \<Rightarrow> bool option" where
  "base_priority_raise_allowed K t new_base k =
     (let waited_mutex = with_current_wait_payload k t
            (\<lambda>p. case p of Some (MutexWait m) \<Rightarrow> Some m | _ \<Rightarrow> None)
      in if (case waited_mutex of None \<Rightarrow> False
             | Some m \<Rightarrow> \<not> does_held_mutex_allow_new_task_base_priority k m new_base)
         then Some False
         else do_held_mutexes_allow_new_task_base_priority K t new_base k)"

text \<open>The part of \<^verbatim>\<open>set_task_base_priority\<close> that moves the task and checks for preemption.\<close>

definition reposition_task :: "kcfg \<Rightarrow> nat \<Rightarrow> nat \<Rightarrow> nat \<Rightarrow> kernel \<Rightarrow> kernel option" where
  "reposition_task K t pri old_pri k =
     do { k \<leftarrow> (case st (tasks k t) of
                  Ready \<Rightarrow>
                    do { q \<leftarrow> reorder_task (rq_bitmap K) (task_ready_queue k) t pri old_pri;
                         Some (k\<lparr>task_ready_queue := q\<rparr>) }
                | Running \<Rightarrow> Some k
                | Waiting \<Rightarrow> reorder_wait_of_task t k
                | Dormant \<Rightarrow> None
                | PendingActivation \<Rightarrow> None);
          if st (tasks k t) = Running \<or> st (tasks k t) = Ready
          then unlock_cpu_and_check_preemption K k else Some k }"

definition set_task_base_priority :: "kcfg \<Rightarrow> nat \<Rightarrow> nat \<Rightarrow> kernel \<Rightarrow> (unit ret \<times> kernel) option" where
  "set_task_base_priority K t new_base k =
     (case to_task_priority K new_base of
        None \<Rightarrow> Some (Err BadParam, k)
      | Some new_internal \<Rightarrow>
          if st (tasks k t) = Dormant then Some (Err BadObjectState, k)
          else
            let old_base = base_priority (tasks k t)
            in if old_base = new_base then Some (Ok (), k)
               else
                 do { allowed \<leftarrow> (if new_base < old_base
                                 then base_priority_raise_allowed K t new_internal k
                                 else Some True);
                      if \<not> allowed then Some (Err BadParam, k)
                      else
                        do { pri \<leftarrow> evaluate_task_effective_priority K t new_internal k;
                             let old_pri = effective_priority (tasks k t);
                             let k = upd_task t (\<lambda>c. c\<lparr>base_priority := new_internal\<rparr>) k;
                             let k = upd_task t (\<lambda>c. c\<lparr>effective_priority := pri\<rparr>) k;
                             if old_pri = pri then Some (Ok (), k)
                             else do { k \<leftarrow> reposition_task K t pri old_pri k; Some (Ok (), k) } } })"

section \<open>System calls\<close>

definition task_current :: "kcfg \<Rightarrow> kernel \<Rightarrow> (nat ret \<times> kernel) option" where
  "task_current K k =
     (if \<not> task_context k then Some (Err BadContext, k)
      else with_cpu_lock (\<lambda>k. do { t \<leftarrow> running_task k; Some (Ok (t + 1), k) }) k)"

definition task_activate :: "kcfg \<Rightarrow> nat \<Rightarrow> kernel \<Rightarrow> (unit ret \<times> kernel) option" where
  "task_activate K this = with_cpu_lock (\<lambda>k. do { t \<leftarrow> task_index K this; activate K t k })"

definition task_interrupt :: "kcfg \<Rightarrow> nat \<Rightarrow> kernel \<Rightarrow> (unit ret \<times> kernel) option" where
  "task_interrupt K this = with_cpu_lock (\<lambda>k.
     do { t \<leftarrow> task_index K this;
          (ok, k) \<leftarrow> interrupt_task K t WaitInterrupted k;
          if \<not> ok then Some (Err BadObjectState, k)
          else do { k \<leftarrow> unlock_cpu_and_check_preemption K k; Some (Ok (), k) } })"

definition task_unpark_exact :: "kcfg \<Rightarrow> nat \<Rightarrow> kernel \<Rightarrow> (unit ret \<times> kernel) option" where
  "task_unpark_exact K this = with_cpu_lock (\<lambda>k. do { t \<leftarrow> task_index K this; unpark_exact K t k })"

definition task_set_priority :: "kcfg \<Rightarrow> nat \<Rightarrow> nat \<Rightarrow> kernel \<Rightarrow> (unit ret \<times> kernel) option" where
  "task_set_priority K this pri = with_cpu_lock (\<lambda>k.
     do { t \<leftarrow> task_index K this; set_task_base_priority K t pri k })"

definition task_priority :: "kcfg \<Rightarrow> nat \<Rightarrow> kernel \<Rightarrow> (nat ret \<times> kernel) option" where
  "task_priority K this = with_cpu_lock (\<lambda>k.
     do { t \<leftarrow> task_index K this;
          Some (if st (tasks k t) = Dormant then Err BadObjectState
                else Ok (base_priority (tasks k t)), k) })"

definition task_effective_priority :: "kcfg \<Rightarrow> nat \<Rightarrow> kernel \<Rightarrow> (nat ret \<times> kernel) option" where
  "task_effective_priority K this = with_cpu_lock (\<lambda>k.
     do { t \<leftarrow> task_index K this;
          Some (if st (tasks k t) = Dormant then Err BadObjectState
                else Ok (effective_priority (tasks k t)), k) })"

end
