(* ===== verification/Timer.thy ===== *)
theory Timer
  imports Kernel_Contract
begin

text \<open>
  Timers and the system clock (\<^verbatim>\<open>r3_kernel/src/timer.rs\<close>, \<^verbatim>\<open>timeout.rs\<close>).  The timeout object of
  timer \<open>i\<close> is \<open>TimerTimeout i\<close> of the timekeeping state.
\<close>

definition init_timer :: "kcfg \<Rightarrow> nat \<Rightarrow> kernel \<Rightarrow> kernel option" where
  "init_timer K i k =
     (if init_active (timers k i) then
        do { k \<leftarrow> (if at_raw (tk k) (TimerTimeout i) \<noteq> BAD_DURATION32
                   then on_tk (\<lambda>g. insert_timeout (PORT_TIMER K) g (TimerTimeout i)) k
                   else Some k);
             Some (upd_timer i (\<lambda>c. c\<lparr>timer_active := True\<rparr>) k) }
      else Some k)"

text \<open>\<^verbatim>\<open>set_expiration_after\<close> followed by \<^verbatim>\<open>insert_timeout\<close>.\<close>

definition arm_timer :: "kcfg \<Rightarrow> nat \<Rightarrow> time32 \<Rightarrow> kernel \<Rightarrow> kernel option" where
  "arm_timer K i delay =
     on_tk (\<lambda>g. do { g \<leftarrow> set_expiration_after (PORT_TIMER K) g (TimerTimeout i) delay;
                     insert_timeout (PORT_TIMER K) g (TimerTimeout i) })"

definition start_timer :: "kcfg \<Rightarrow> nat \<Rightarrow> kernel \<Rightarrow> kernel option" where
  "start_timer K i k =
     (if timer_active (timers k i) then Some k
      else
        do { let delay = at_raw (tk k) (TimerTimeout i);
             k \<leftarrow> (if delay \<noteq> BAD_DURATION32 then arm_timer K i delay k else Some k);
             Some (upd_timer i (\<lambda>c. c\<lparr>timer_active := True\<rparr>) k) })"

definition stop_timer :: "kcfg \<Rightarrow> nat \<Rightarrow> kernel \<Rightarrow> kernel option" where
  "stop_timer K i k =
     do { k \<leftarrow> (if is_linked (tk k) (TimerTimeout i) then
                  guard (timer_active (timers k i))
                   (on_tk (\<lambda>g. do { delay \<leftarrow> timeout_saturating_duration (PORT_TIMER K) g (TimerTimeout i);
                                    g \<leftarrow> remove_timeout (PORT_TIMER K) g (TimerTimeout i);
                                    Some (set_at_raw g (TimerTimeout i) delay) }) k)
                else Some k);
          Some (upd_timer i (\<lambda>c. c\<lparr>timer_active := False\<rparr>) k) }"

definition set_timer_delay :: "kcfg \<Rightarrow> nat \<Rightarrow> time32 \<Rightarrow> kernel \<Rightarrow> kernel option" where
  "set_timer_delay K i delay k =
     do { let is_active = timer_active (timers k i);
          k \<leftarrow> (if is_linked (tk k) (TimerTimeout i)
                then on_tk (\<lambda>g. remove_timeout (PORT_TIMER K) g (TimerTimeout i)) k
                else Some k);
          if is_active \<and> delay \<noteq> BAD_DURATION32 then arm_timer K i delay k
          else on_tk (\<lambda>g. Some (set_at_raw g (TimerTimeout i) delay)) k }"

definition set_timer_period :: "nat \<Rightarrow> time32 \<Rightarrow> kernel \<Rightarrow> kernel" where
  "set_timer_period i period = upd_timer i (\<lambda>c. c\<lparr>timer_period := period\<rparr>)"

text \<open>
  The callback of the timeout of a timer, up to the call of the application's function, which is
  made with CPU Lock released.
\<close>

definition timer_timeout_handler :: "kcfg \<Rightarrow> nat \<Rightarrow> kernel \<Rightarrow> kernel option" where
  "timer_timeout_handler K i k =
     guard (i < N_TIMERS K \<and> \<not> is_linked (tk k) (TimerTimeout i) \<and> timer_active (timers k i))
      (do { let period = timer_period (timers k i);
            k \<leftarrow> (if period = BAD_DURATION32
                  then on_tk (\<lambda>g. Some (set_at_raw g (TimerTimeout i) BAD_DURATION32)) k
                  else on_tk (\<lambda>g. do { g \<leftarrow> adjust_expiration g (TimerTimeout i) period;
                                       insert_timeout (PORT_TIMER K) g (TimerTimeout i) }) k);
            Some (leave_cpu_lock k) })"

section \<open>System calls\<close>

text \<open>\<^verbatim>\<open>Option<Duration>\<close>: \<^verbatim>\<open>None\<close> is \<open>BAD_DURATION32\<close>, a negative duration is an error.\<close>

definition time32_from_optional :: "duration option \<Rightarrow> time32 option" where
  "time32_from_optional d = (case d of Some x \<Rightarrow> time32_from_duration x | None \<Rightarrow> Some BAD_DURATION32)"

definition raw_timer_start :: "kcfg \<Rightarrow> nat \<Rightarrow> kernel \<Rightarrow> (unit ret \<times> kernel) option" where
  "raw_timer_start K this = with_cpu_lock (\<lambda>k.
     do { i \<leftarrow> timer_index K this; k \<leftarrow> start_timer K i k; Some (Ok (), k) })"

definition raw_timer_stop :: "kcfg \<Rightarrow> nat \<Rightarrow> kernel \<Rightarrow> (unit ret \<times> kernel) option" where
  "raw_timer_stop K this = with_cpu_lock (\<lambda>k.
     do { i \<leftarrow> timer_index K this; k \<leftarrow> stop_timer K i k; Some (Ok (), k) })"

definition raw_timer_set_delay ::
  "kcfg \<Rightarrow> nat \<Rightarrow> duration option \<Rightarrow> kernel \<Rightarrow> (unit ret \<times> kernel) option" where
  "raw_timer_set_delay K this delay k =
     (case time32_from_optional delay of
        None \<Rightarrow> Some (Err BadParam, k)
      | Some d \<Rightarrow> with_cpu_lock (\<lambda>k.
          do { i \<leftarrow> timer_index K this; k \<leftarrow> set_timer_delay K i d k; Some (Ok (), k) }) k)"

definition raw_timer_set_period ::
  "kcfg \<Rightarrow> nat \<Rightarrow> duration option \<Rightarrow> kernel \<Rightarrow> (unit ret \<times> kernel) option" where
  "raw_timer_set_period K this period k =
     (case time32_from_optional period of
        None \<Rightarrow> Some (Err BadParam, k)
      | Some d \<Rightarrow> with_cpu_lock (\<lambda>k.
          do { i \<leftarrow> timer_index K this; Some (Ok (), set_timer_period i d k) }) k)"

end
