(* ===== verification/Kernel_Config.thy ===== *)
theory Kernel_Config
  imports Kernel_State
begin

text \<open>
  The static configuration (\<^verbatim>\<open>r3_kernel/src/cfg.rs\<close>, \<^verbatim>\<open>r3_kernel/src/cfg/\<close>*\<^verbatim>\<open>.rs\<close>): the builder to which
  kernel objects are added at compile time, and the control blocks that \<^verbatim>\<open>build!\<close> makes of them.  A
  panic is a compilation error of the application.
\<close>

record cfg_builder_task =
  cfg_task_priority :: nat
  cfg_task_active :: bool

record cfg_builder_event_group =
  cfg_initial_bits :: u32
  cfg_event_group_order :: queue_order

datatype mutex_protocol = NoProtocol | Ceiling nat

record cfg_builder_semaphore =
  cfg_initial :: nat
  cfg_maximum :: nat
  cfg_semaphore_order :: queue_order

record cfg_builder_timer =
  cfg_delay :: time32
  cfg_period :: time32
  cfg_timer_active :: bool

record cfg_builder =
  cfg_num_task_priority_levels :: nat
  cfg_tasks :: "cfg_builder_task list"
  cfg_event_groups :: "cfg_builder_event_group list"
  cfg_mutexes :: "mutex_protocol list"
  cfg_semaphores :: "cfg_builder_semaphore list"
  cfg_timers :: "cfg_builder_timer list"

definition cfg_new :: cfg_builder where
  "cfg_new = \<lparr>cfg_num_task_priority_levels = 4, cfg_tasks = [], cfg_event_groups = [],
     cfg_mutexes = [], cfg_semaphores = [], cfg_timers = []\<rparr>"

text \<open>
  \<^verbatim>\<open>isize::MAX\<close> of the 32-bit target is \<open>2 ^ 31 - 1\<close>.
\<close>

definition num_task_priority_levels :: "nat \<Rightarrow> cfg_builder \<Rightarrow> cfg_builder option" where
  "num_task_priority_levels new_value c =
     (if new_value = 0 then None
      else if new_value > FIXED_PRIO_BITMAP_MAX_LEN then None
      else if new_value \<ge> 2 ^ 31 - 1 then None
      else Some (c\<lparr>cfg_num_task_priority_levels := new_value\<rparr>))"

text \<open>Each definer returns the identifier of the new object, its index plus one.\<close>

definition task_define :: "nat \<Rightarrow> bool \<Rightarrow> cfg_builder \<Rightarrow> nat \<times> cfg_builder" where
  "task_define pri active c =
     (let ts = cfg_tasks c @ [\<lparr>cfg_task_priority = pri, cfg_task_active = active\<rparr>]
      in (length ts, c\<lparr>cfg_tasks := ts\<rparr>))"

definition event_group_define :: "u32 \<Rightarrow> queue_order \<Rightarrow> cfg_builder \<Rightarrow> nat \<times> cfg_builder" where
  "event_group_define b ord c =
     (let es = cfg_event_groups c @ [\<lparr>cfg_initial_bits = b, cfg_event_group_order = ord\<rparr>]
      in (length es, c\<lparr>cfg_event_groups := es\<rparr>))"

definition mutex_define :: "mutex_protocol \<Rightarrow> cfg_builder \<Rightarrow> nat \<times> cfg_builder" where
  "mutex_define protocol c =
     (let ms = cfg_mutexes c @ [protocol] in (length ms, c\<lparr>cfg_mutexes := ms\<rparr>))"

definition semaphore_define :: "nat \<Rightarrow> nat \<Rightarrow> queue_order \<Rightarrow> cfg_builder \<Rightarrow> (nat \<times> cfg_builder) option" where
  "semaphore_define initial maximum ord c =
     guard (initial \<le> maximum)
      (let ss = cfg_semaphores c @ [\<lparr>cfg_initial = initial, cfg_maximum = maximum, cfg_semaphore_order = ord\<rparr>]
       in Some (length ss, c\<lparr>cfg_semaphores := ss\<rparr>))"

definition timer_define ::
  "duration option \<Rightarrow> duration option \<Rightarrow> bool \<Rightarrow> cfg_builder \<Rightarrow> (nat \<times> cfg_builder) option" where
  "timer_define period delay active c =
     do { period \<leftarrow> (case period of Some p \<Rightarrow> time32_from_duration p | None \<Rightarrow> Some BAD_DURATION32);
          delay \<leftarrow> (case delay of Some d \<Rightarrow> time32_from_duration d | None \<Rightarrow> Some BAD_DURATION32);
          let ts = cfg_timers c @ [\<lparr>cfg_delay = delay, cfg_period = period, cfg_timer_active = active\<rparr>];
          Some (length ts, c\<lparr>cfg_timers := ts\<rparr>) }"

section \<open>Control blocks\<close>

definition cfg_to_task_priority :: "cfg_builder \<Rightarrow> nat \<Rightarrow> nat option" where
  "cfg_to_task_priority c i = guard (i < cfg_num_task_priority_levels c) (Some i)"

definition task_to_state :: "cfg_builder \<Rightarrow> cfg_builder_task \<Rightarrow> task_cb option" where
  "task_to_state c t =
     do { pri \<leftarrow> cfg_to_task_priority c (cfg_task_priority t);
          Some \<lparr>attr_priority = pri, base_priority = pri, effective_priority = pri,
                st = (if cfg_task_active t then PendingActivation else Dormant),
                park_token = False, current_wait = None, wait_result = WaitOk,
                last_mutex_held = None, blocked_in = None\<rparr> }"

definition event_group_to_state :: "cfg_builder_event_group \<Rightarrow> event_group_cb" where
  "event_group_to_state e =
     \<lparr>group_bits = cfg_initial_bits e, group_queue = \<lparr>waits = [], order = cfg_event_group_order e\<rparr>\<rparr>"

definition mutex_to_state :: "cfg_builder \<Rightarrow> mutex_protocol \<Rightarrow> mutex_cb option" where
  "mutex_to_state c protocol =
     do { ceil \<leftarrow> (case protocol of
                    NoProtocol \<Rightarrow> Some None
                  | Ceiling p \<Rightarrow> do { p \<leftarrow> cfg_to_task_priority c p; Some (Some p) });
          Some \<lparr>ceiling = ceil, inconsistent = False,
                mutex_queue = \<lparr>waits = [], order = TaskPriority\<rparr>,
                prev_mutex_held = None, owning_task = None\<rparr> }"

definition semaphore_to_state :: "cfg_builder_semaphore \<Rightarrow> semaphore_cb" where
  "semaphore_to_state s =
     \<lparr>sem_value = cfg_initial s, max_value = cfg_maximum s,
      sem_queue = \<lparr>waits = [], order = cfg_semaphore_order s\<rparr>\<rparr>"

text \<open>The timeout object and the rest of the control block.\<close>

definition timer_timeout :: "cfg_builder_timer \<Rightarrow> nat \<Rightarrow> timeout option" where
  "timer_timeout t i =
     (let timeout = Timeout_new Timer_Timeout_Handler i
      in if cfg_delay t = BAD_DURATION32 then Some (with_at_raw timeout (cfg_delay t))
         else with_expiration_at timeout (cfg_delay t))"

definition timer_to_state :: "cfg_builder_timer \<Rightarrow> timer_cb" where
  "timer_to_state t =
     \<lparr>init_active = cfg_timer_active t, timer_active = False, timer_period = cfg_period t\<rparr>"

section \<open>The initial state\<close>

definition cfg_kcfg :: "target \<Rightarrow> u32 \<Rightarrow> u32 \<Rightarrow> cfg_builder \<Rightarrow> kcfg" where
  "cfg_kcfg t max_tick_count max_timeout c =
     \<lparr>TARGET = t, PRIORITY_LEVELS = cfg_num_task_priority_levels c, N_TASKS = length (cfg_tasks c),
      N_SEMAPHORES = length (cfg_semaphores c), N_EVENT_GROUPS = length (cfg_event_groups c),
      N_MUTEXES = length (cfg_mutexes c), N_TIMERS = length (cfg_timers c),
      PORT_TIMER = \<lparr>MAX_TICK_COUNT = max_tick_count, MAX_TIMEOUT = max_timeout,
                    HEAP_CAPACITY = length (cfg_tasks c) + length (cfg_timers c)\<rparr>\<rparr>"

text \<open>
  The array of control blocks; every element must be built without a panic.  The elements past
  the end, which no operation reads, are the \<open>INIT\<close> values.
\<close>

definition pool :: "'a list \<Rightarrow> 'a \<Rightarrow> nat \<Rightarrow> 'a" where
  "pool xs d i = (if i < length xs then xs ! i else d)"

definition task_cb_init :: task_cb where
  "task_cb_init = \<lparr>attr_priority = 0, base_priority = 0, effective_priority = 0, st = Dormant,
     park_token = False, current_wait = None, wait_result = WaitOk, last_mutex_held = None,
     blocked_in = None\<rparr>"

definition wait_queue_init :: wait_queue where
  "wait_queue_init = \<lparr>waits = [], order = Fifo\<rparr>"

definition semaphore_cb_init :: semaphore_cb where
  "semaphore_cb_init = \<lparr>sem_value = 0, max_value = 0, sem_queue = wait_queue_init\<rparr>"

definition event_group_cb_init :: event_group_cb where
  "event_group_cb_init = \<lparr>group_bits = 0, group_queue = wait_queue_init\<rparr>"

definition mutex_cb_init :: mutex_cb where
  "mutex_cb_init = \<lparr>ceiling = None, inconsistent = False, mutex_queue = wait_queue_init,
     prev_mutex_held = None, owning_task = None\<rparr>"

definition timer_cb_init :: timer_cb where
  "timer_cb_init = \<lparr>init_active = False, timer_active = False, timer_period = 0\<rparr>"

definition timekeeping_init :: "u32 \<Rightarrow> timeout list \<Rightarrow> timekeeping" where
  "timekeeping_init counter ts =
     \<lparr>tick_count = counter, pended_tick = None, last_tick_count = 0, last_tick_time = 0,
      last_tick_sys_time = 0, frontier_gap = 0, heap = [],
      timeouts = (\<lambda>r. case r of
        TaskTimeout t \<Rightarrow> Timeout_new Interrupt_Task_By_Timeout t
      | TimerTimeout i \<Rightarrow> pool ts (Timeout_new Timer_Timeout_Handler i) i),
      handle_tick_in_progress = False\<rparr>"

text \<open>
  What \<^verbatim>\<open>build!\<close> makes: the control block pools and \<^verbatim>\<open>State::INIT\<close>.  At reset CPU Lock is active,
  no task is running and the hardware counter has some value \<open>counter\<close>.
\<close>

definition build :: "target \<Rightarrow> u32 \<Rightarrow> cfg_builder \<Rightarrow> kernel option" where
  "build t counter c =
     do { ts \<leftarrow> those (map (task_to_state c) (cfg_tasks c));
          ms \<leftarrow> those (map (mutex_to_state c) (cfg_mutexes c));
          tos \<leftarrow> those (map (\<lambda>i. timer_timeout (cfg_timers c ! i) i) [0..<length (cfg_timers c)]);
          Some \<lparr>running_task = None,
                task_ready_queue = bq_init (FixedPrioBitmap t (cfg_num_task_priority_levels c))
                                     (cfg_num_task_priority_levels c),
                priority_boost = False, tk = timekeeping_init counter tos,
                tasks = pool ts task_cb_init,
                semaphores = pool (map semaphore_to_state (cfg_semaphores c)) semaphore_cb_init,
                event_groups = pool (map event_group_to_state (cfg_event_groups c)) event_group_cb_init,
                mutexes = pool ms mutex_cb_init,
                timers = pool (map timer_to_state (cfg_timers c)) timer_cb_init,
                wait_objs = (\<lambda>_. \<lparr>wait_task = 0, wait_in = None, payload = ParkWait\<rparr>),
                cpu_lock = True, task_context = False, scheduler_active = False,
                yield_pending = False\<rparr> }"

end
