(* ===== verification/Kernel.thy ===== *)
theory Kernel
  imports Semaphore Event_Group Task Timer Kernel_Config
begin

text \<open>
  The kernel as a whole (\<^verbatim>\<open>r3_kernel/src/lib.rs\<close>, \<^verbatim>\<open>timeout.rs\<close>): the system calls, the tick
  handler, the boot sequence, the dispatcher of the port and the steps of the system.
\<close>

section \<open>The system clock\<close>

definition raw_time :: "kcfg \<Rightarrow> kernel \<Rightarrow> (time ret \<times> kernel) option" where
  "raw_time K k =
     (if \<not> expect_task_context k then Some (Err BadContext, k)
      else with_cpu_lock (\<lambda>k.
        do { x \<leftarrow> tk_system_time (PORT_TIMER K) (tk k); Some (Ok (time_from_micros x), k) }) k)"

definition raw_set_time :: "kcfg \<Rightarrow> time \<Rightarrow> kernel \<Rightarrow> (unit ret \<times> kernel) option" where
  "raw_set_time K new_sys_time k =
     (if \<not> expect_task_context k then Some (Err BadContext, k)
      else with_cpu_lock (\<lambda>k.
        do { k \<leftarrow> on_tk (\<lambda>g. tk_set_system_time (PORT_TIMER K) g (time_as_micros new_sys_time)) k;
             Some (Ok (), k) }) k)"

definition raw_adjust_time :: "kcfg \<Rightarrow> duration \<Rightarrow> kernel \<Rightarrow> (unit ret \<times> kernel) option" where
  "raw_adjust_time K delta = with_cpu_lock (\<lambda>k.
     do { (ok, g) \<leftarrow> tk_adjust_time (PORT_TIMER K) (tk k) delta;
          Some (if ok then Ok () else Err BadObjectState, k\<lparr>tk := g\<rparr>) })"

section \<open>System calls\<close>

datatype call =
    AcquireCpuLock | ReleaseCpuLock | BoostPriority | UnboostPriority
  | TaskCurrent | TaskActivate nat | TaskInterrupt nat | TaskUnparkExact nat
  | TaskSetPriority nat nat | TaskGetPriority nat | TaskGetEffectivePriority nat
  | Park | ParkTimeout duration | Sleep duration
  | SemaphoreDrain nat | SemaphoreGet nat | SemaphoreSignal nat nat | SemaphoreSignalOne nat
  | SemaphoreWaitOne nat | SemaphoreWaitOneTimeout nat duration | SemaphorePollOne nat
  | EventGroupSet nat u32 | EventGroupClear nat u32 | EventGroupGet nat
  | EventGroupWait nat u32 wait_flags | EventGroupWaitTimeout nat u32 wait_flags duration
  | EventGroupPoll nat u32 wait_flags
  | MutexIsLocked nat | MutexLock nat | MutexLockTimeout nat duration | MutexTryLock nat
  | MutexUnlock nat | MutexMarkConsistent nat
  | TimerStart nat | TimerStop nat | TimerSetDelay nat "duration option"
  | TimerSetPeriod nat "duration option"
  | GetTime | SetTime time | AdjustTime duration

datatype retval = UnitVal | NatVal nat | BitsVal u32 | BoolVal bool | TimeVal time

definition ret_as :: "('a \<Rightarrow> 'b) \<Rightarrow> ('a ret \<times> kernel) option \<Rightarrow> ('b ret \<times> kernel) option" where
  "ret_as f r = map_option (map_prod (map_ret f) id) r"

abbreviation unit_ret :: "(unit ret \<times> kernel) option \<Rightarrow> (retval ret \<times> kernel) option" where
  "unit_ret \<equiv> ret_as (\<lambda>_. UnitVal)"

fun syscall :: "kcfg \<Rightarrow> call \<Rightarrow> kernel \<Rightarrow> (retval ret \<times> kernel) option" where
  "syscall K AcquireCpuLock k = unit_ret (raw_acquire_cpu_lock k)"
| "syscall K ReleaseCpuLock k = unit_ret (raw_release_cpu_lock k)"
| "syscall K BoostPriority k = unit_ret (boost_priority k)"
| "syscall K UnboostPriority k = unit_ret (unboost_priority K k)"
| "syscall K TaskCurrent k = ret_as NatVal (task_current K k)"
| "syscall K (TaskActivate i) k = unit_ret (task_activate K i k)"
| "syscall K (TaskInterrupt i) k = unit_ret (task_interrupt K i k)"
| "syscall K (TaskUnparkExact i) k = unit_ret (task_unpark_exact K i k)"
| "syscall K (TaskSetPriority i p) k = unit_ret (task_set_priority K i p k)"
| "syscall K (TaskGetPriority i) k = ret_as NatVal (task_priority K i k)"
| "syscall K (TaskGetEffectivePriority i) k = ret_as NatVal (task_effective_priority K i k)"
| "syscall K Park k = unit_ret (park_current_task K k)"
| "syscall K (ParkTimeout d) k = unit_ret (park_current_task_timeout K d k)"
| "syscall K (Sleep d) k = unit_ret (put_current_task_on_sleep_timeout K d k)"
| "syscall K (SemaphoreDrain i) k = unit_ret (raw_semaphore_drain K i k)"
| "syscall K (SemaphoreGet i) k = ret_as NatVal (raw_semaphore_get K i k)"
| "syscall K (SemaphoreSignal i n) k = unit_ret (raw_semaphore_signal K i n k)"
| "syscall K (SemaphoreSignalOne i) k = unit_ret (raw_semaphore_signal_one K i k)"
| "syscall K (SemaphoreWaitOne i) k = unit_ret (raw_semaphore_wait_one K i k)"
| "syscall K (SemaphoreWaitOneTimeout i d) k = unit_ret (raw_semaphore_wait_one_timeout K i d k)"
| "syscall K (SemaphorePollOne i) k = unit_ret (raw_semaphore_poll_one K i k)"
| "syscall K (EventGroupSet i b) k = unit_ret (raw_event_group_set K i b k)"
| "syscall K (EventGroupClear i b) k = unit_ret (raw_event_group_clear K i b k)"
| "syscall K (EventGroupGet i) k = ret_as BitsVal (raw_event_group_get K i k)"
| "syscall K (EventGroupWait i b f) k = ret_as BitsVal (raw_event_group_wait K i b f k)"
| "syscall K (EventGroupWaitTimeout i b f d) k =
     ret_as BitsVal (raw_event_group_wait_timeout K i b f d k)"
| "syscall K (EventGroupPoll i b f) k = ret_as BitsVal (raw_event_group_poll K i b f k)"
| "syscall K (MutexIsLocked i) k = ret_as BoolVal (raw_mutex_is_locked K i k)"
| "syscall K (MutexLock i) k = unit_ret (raw_mutex_lock K i k)"
| "syscall K (MutexLockTimeout i d) k = unit_ret (raw_mutex_lock_timeout K i d k)"
| "syscall K (MutexTryLock i) k = unit_ret (raw_mutex_try_lock K i k)"
| "syscall K (MutexUnlock i) k = unit_ret (raw_mutex_unlock K i k)"
| "syscall K (MutexMarkConsistent i) k = unit_ret (raw_mutex_mark_consistent K i k)"
| "syscall K (TimerStart i) k = unit_ret (raw_timer_start K i k)"
| "syscall K (TimerStop i) k = unit_ret (raw_timer_stop K i k)"
| "syscall K (TimerSetDelay i d) k = unit_ret (raw_timer_set_delay K i d k)"
| "syscall K (TimerSetPeriod i d) k = unit_ret (raw_timer_set_period K i d k)"
| "syscall K GetTime k = ret_as TimeVal (raw_time K k)"
| "syscall K (SetTime t) k = unit_ret (raw_set_time K t k)"
| "syscall K (AdjustTime d) k = unit_ret (raw_adjust_time K d k)"

text \<open>The return of the system call that the running task is suspended in.\<close>

definition resume :: "kcfg \<Rightarrow> kernel \<Rightarrow> (retval ret \<times> kernel) option" where
  "resume K k =
     do { t \<leftarrow> running_task k;
          (c, _) \<leftarrow> blocked_in (tasks k t);
          k \<leftarrow> lock_cpu k;
          (r, k) \<leftarrow> (case c of
                       ParkCall \<Rightarrow> unit_ret (park_resume K t k)
                     | SleepCall \<Rightarrow> unit_ret (sleep_resume K t k)
                     | SemaphoreCall \<Rightarrow> unit_ret (wait_one_resume K t k)
                     | EventGroupCall \<Rightarrow> ret_as BitsVal (event_wait_resume K t k)
                     | MutexCall m \<Rightarrow> unit_ret (lock_mutex_resume K m t k));
          Some (r, leave_cpu_lock k) }"

text \<open>A sequence of calls by a handler, which may ignore their results.\<close>

fun run_seq :: "('k \<Rightarrow> 'c \<Rightarrow> ('r \<times> 'k) option) \<Rightarrow> 'c list \<Rightarrow> 'k \<Rightarrow> 'k option" where
  "run_seq f [] k = Some k"
| "run_seq f (c # cs) k = do { (_, k) \<leftarrow> f k c; run_seq f cs k }"

definition run_calls :: "kcfg \<Rightarrow> call list \<Rightarrow> kernel \<Rightarrow> kernel option" where
  "run_calls K = run_seq (\<lambda>k c. syscall K c k)"

section \<open>The tick handler\<close>

text \<open>
  The function of the application that a timer calls is a sequence of system calls, which may
  depend on the state.  \<^verbatim>\<open>lock_cpu().unwrap_or_else(..)\<close> leaves CPU Lock active in any case.
\<close>

type_synonym timer_callbacks = "nat \<Rightarrow> kernel \<Rightarrow> call list"

definition call_timer :: "kcfg \<Rightarrow> timer_callbacks \<Rightarrow> nat \<Rightarrow> kernel \<Rightarrow> kernel option" where
  "call_timer K cb i k =
     do { k \<leftarrow> timer_timeout_handler K i k;
          k \<leftarrow> run_calls K (cb i k) k;
          Some (k\<lparr>cpu_lock := True\<rparr>) }"

definition call_timeout :: "kcfg \<Rightarrow> timer_callbacks \<Rightarrow> timeout \<Rightarrow> kernel \<Rightarrow> kernel option" where
  "call_timeout K cb t k =
     (case callback t of
        Interrupt_Task_By_Timeout \<Rightarrow> interrupt_task_by_timeout K (callback_param t) k
      | Timer_Timeout_Handler \<Rightarrow> call_timer K cb (callback_param t) k)"

text \<open>
  The loop of \<^verbatim>\<open>handle_tick\<close>, which need not end (a timer with the period zero); \<open>False\<close> says that
  the fuel has run out.
\<close>

fun handle_tick_loop ::
  "kcfg \<Rightarrow> timer_callbacks \<Rightarrow> time32 \<Rightarrow> nat \<Rightarrow> kernel \<Rightarrow> (bool \<times> kernel) option" where
  "handle_tick_loop K cb now 0 k = Some (False, k)"
| "handle_tick_loop K cb now (Suc fuel) k =
     do { (expired, g) \<leftarrow> take_expired (tk k) now;
          case expired of
            None \<Rightarrow> Some (True, k)
          | Some r \<Rightarrow>
              do { k \<leftarrow> call_timeout K cb (timeouts (tk k) r) (k\<lparr>tk := g\<rparr>);
                   handle_tick_loop K cb now fuel k } }"

definition handle_tick :: "kcfg \<Rightarrow> timer_callbacks \<Rightarrow> nat \<Rightarrow> kernel \<Rightarrow> (bool \<times> kernel) option" where
  "handle_tick K cb fuel k =
     do { k \<leftarrow> lock_cpu k;
          k \<leftarrow> on_tk (mark_tick (PORT_TIMER K)) k;
          let now = last_tick_time (tk k);
          let k = k\<lparr>tk := (tk k)\<lparr>handle_tick_in_progress := True\<rparr>\<rparr>;
          (finished, k) \<leftarrow> handle_tick_loop K cb now fuel k;
          if \<not> finished then Some (False, k)
          else
            do { let k = k\<lparr>tk := (tk k)\<lparr>handle_tick_in_progress := False\<rparr>\<rparr>;
                 let k = k\<lparr>tk := pend_next_tick (PORT_TIMER K) (tk k) now\<rparr>;
                 k \<leftarrow> unlock_cpu_and_check_preemption K k;
                 Some (True, k) } }"

section \<open>Dispatching and booting\<close>

text \<open>
  The dispatcher of a port: with CPU Lock active it calls \<^verbatim>\<open>choose_running_task\<close>, then it releases
  CPU Lock and enters the context of the running task, or the idle loop.
\<close>

definition dispatch_locked :: "kcfg \<Rightarrow> kernel \<Rightarrow> kernel option" where
  "dispatch_locked K k =
     do { k \<leftarrow> choose_next_running_task K k;
          Some ((leave_cpu_lock k)\<lparr>yield_pending := False, task_context := (running_task k \<noteq> None)\<rparr>) }"

definition dispatch :: "kcfg \<Rightarrow> kernel \<Rightarrow> kernel option" where
  "dispatch K k = do { k \<leftarrow> lock_cpu k; dispatch_locked K k }"

fun fold_option :: "('a \<Rightarrow> 's \<Rightarrow> 's option) \<Rightarrow> 'a list \<Rightarrow> 's \<Rightarrow> 's option" where
  "fold_option f [] s = Some s"
| "fold_option f (x # xs) s = do { s \<leftarrow> f x s; fold_option f xs s }"

text \<open>
  \<^verbatim>\<open>boot\<close> up to \<^verbatim>\<open>dispatch_first_task\<close>.  The interrupt lines and the startup hook do not concern
  the state of the kernel that is modelled here.
\<close>

definition boot :: "kcfg \<Rightarrow> kernel \<Rightarrow> kernel option" where
  "boot K k =
     do { k \<leftarrow> fold_option (init_task K) [0..<N_TASKS K] k;
          let k = k\<lparr>tk := init_timekeeping (PORT_TIMER K) (tk k)\<rparr>;
          fold_option (init_timer K) [0..<N_TIMERS K] k }"

text \<open>The dispatcher of the port makes the first choice.\<close>

definition dispatch_first_task :: "kcfg \<Rightarrow> kernel \<Rightarrow> kernel option" where
  "dispatch_first_task K k = dispatch_locked K (k\<lparr>scheduler_active := True\<rparr>)"

definition exit_task :: "kcfg \<Rightarrow> kernel \<Rightarrow> (unit ret \<times> kernel) option" where
  "exit_task K k =
     do { (r, k) \<leftarrow> exit_current_task K k;
          case r of
            Ok _ \<Rightarrow> do { k \<leftarrow> dispatch_locked K k; Some (r, k) }
          | _ \<Rightarrow> Some (r, k) }"

end
