(* ===== verification/Error_Types.thy ===== *)
theory Error_Types
  imports Kernel
begin

text \<open>
  The error types of the application programming interface (\<^verbatim>\<open>r3_core/src/kernel/error.rs\<close>) and
  the system calls that return them (\<^verbatim>\<open>r3_core/src/kernel/raw.rs\<close>). An error type is a subset of
  the result codes: a list of its variants, in the order of the source. The lemmas give every system
  call of the kernel its error type; under which conditions a call returns which of its errors is
  the subject of \<open>Error_Properties\<close>.
\<close>

section \<open>Result codes\<close>

definition is_err :: "result_code \<Rightarrow> bool" where
  "is_err c = (result_code_value c < 0)"

definition is_ok :: "result_code \<Rightarrow> bool" where
  "is_ok c = (\<not> is_err c)"

text \<open>\<^verbatim>\<open>From<Result<(), E>> for ResultCode\<close>\<close>

definition result_code_of :: "unit ret \<Rightarrow> result_code option" where
  "result_code_of r = (case r of Ok _ \<Rightarrow> Some Success | Err e \<Rightarrow> Some e | Blocked \<Rightarrow> None)"

section \<open>Error types\<close>

definition ActivateTaskError :: "result_code list" where
  "ActivateTaskError = [NoAccess, BadContext, QueueOverflow]"

definition GetCurrentTaskError :: "result_code list" where
  "GetCurrentTaskError = [BadContext]"

definition InterruptTaskError :: "result_code list" where
  "InterruptTaskError = [NoAccess, BadContext, BadObjectState]"

definition SetTaskPriorityError :: "result_code list" where
  "SetTaskPriorityError = [NoAccess, BadContext, BadParam, BadObjectState]"

definition GetTaskPriorityError :: "result_code list" where
  "GetTaskPriorityError = [NoAccess, BadContext, BadObjectState]"

definition ExitTaskError :: "result_code list" where
  "ExitTaskError = [BadContext]"

definition CpuLockError :: "result_code list" where
  "CpuLockError = [BadContext]"

definition BoostPriorityError :: "result_code list" where
  "BoostPriorityError = [BadContext]"

definition TimeError :: "result_code list" where
  "TimeError = [BadContext]"

definition AdjustTimeError :: "result_code list" where
  "AdjustTimeError = [BadContext, BadObjectState]"

definition WaitError :: "result_code list" where
  "WaitError = [Interrupted]"

definition WaitTimeoutError :: "result_code list" where
  "WaitTimeoutError = [Interrupted, Timeout]"

definition ParkError :: "result_code list" where
  "ParkError = [BadContext, Interrupted]"

definition ParkTimeoutError :: "result_code list" where
  "ParkTimeoutError = [BadContext, Interrupted, Timeout, BadParam]"

definition UnparkError :: "result_code list" where
  "UnparkError = [BadContext, NoAccess, BadObjectState]"

definition UnparkExactError :: "result_code list" where
  "UnparkExactError = [BadContext, NoAccess, QueueOverflow, BadObjectState]"

definition SleepError :: "result_code list" where
  "SleepError = [BadContext, Interrupted, BadParam]"

definition UpdateEventGroupError :: "result_code list" where
  "UpdateEventGroupError = [NoAccess, BadContext]"

definition GetEventGroupError :: "result_code list" where
  "GetEventGroupError = [NoAccess, BadContext]"

definition PollEventGroupError :: "result_code list" where
  "PollEventGroupError = [NoAccess, BadContext, Timeout]"

definition WaitEventGroupError :: "result_code list" where
  "WaitEventGroupError = [NoAccess, BadContext, Interrupted]"

definition WaitEventGroupTimeoutError :: "result_code list" where
  "WaitEventGroupTimeoutError = [NoAccess, BadContext, Interrupted, Timeout, BadParam]"

definition GetSemaphoreError :: "result_code list" where
  "GetSemaphoreError = [NoAccess, BadContext]"

definition DrainSemaphoreError :: "result_code list" where
  "DrainSemaphoreError = [NoAccess, BadContext]"

definition SignalSemaphoreError :: "result_code list" where
  "SignalSemaphoreError = [NoAccess, BadContext, QueueOverflow]"

definition PollSemaphoreError :: "result_code list" where
  "PollSemaphoreError = [NoAccess, BadContext, Timeout]"

definition WaitSemaphoreError :: "result_code list" where
  "WaitSemaphoreError = [NoAccess, BadContext, Interrupted]"

definition WaitSemaphoreTimeoutError :: "result_code list" where
  "WaitSemaphoreTimeoutError = [NoAccess, BadContext, Interrupted, Timeout, BadParam]"

definition QueryMutexError :: "result_code list" where
  "QueryMutexError = [NoAccess, BadContext]"

definition UnlockMutexError :: "result_code list" where
  "UnlockMutexError = [NoAccess, BadContext, NotOwner, BadObjectState]"

definition TryLockMutexError :: "result_code list" where
  "TryLockMutexError = [NoAccess, BadContext, Timeout, WouldDeadlock, BadParam, Abandoned]"

definition LockMutexError :: "result_code list" where
  "LockMutexError = [NoAccess, BadContext, Interrupted, WouldDeadlock, BadParam, Abandoned]"

definition LockMutexTimeoutError :: "result_code list" where
  "LockMutexTimeoutError = [NoAccess, BadContext, Interrupted, Timeout, WouldDeadlock, BadParam, Abandoned]"

definition MarkConsistentMutexError :: "result_code list" where
  "MarkConsistentMutexError = [NoAccess, BadContext, BadObjectState]"

definition SetInterruptLinePriorityError :: "result_code list" where
  "SetInterruptLinePriorityError = [NotSupported, BadContext, BadParam]"

definition EnableInterruptLineError :: "result_code list" where
  "EnableInterruptLineError = [NotSupported, BadParam]"

definition PendInterruptLineError :: "result_code list" where
  "PendInterruptLineError = [NotSupported, BadParam, BadObjectState]"

definition ClearInterruptLineError :: "result_code list" where
  "ClearInterruptLineError = [NotSupported, BadParam, BadObjectState]"

definition QueryInterruptLineError :: "result_code list" where
  "QueryInterruptLineError = [NotSupported, BadParam]"

definition StartTimerError :: "result_code list" where
  "StartTimerError = [NoAccess, BadContext]"

definition StopTimerError :: "result_code list" where
  "StopTimerError = [NoAccess, BadContext]"

definition SetTimerDelayError :: "result_code list" where
  "SetTimerDelayError = [NoAccess, BadContext, BadParam]"

definition SetTimerPeriodError :: "result_code list" where
  "SetTimerPeriodError = [NoAccess, BadContext, BadParam]"

text \<open>The conversions between error types that the source declares: from a type to a wider one.\<close>

definition error_conversions :: "(result_code list \<times> result_code list) list" where
  "error_conversions =
     [(WaitError, WaitTimeoutError), (WaitError, ParkError), (WaitTimeoutError, ParkTimeoutError),
      (WaitError, WaitEventGroupError), (WaitTimeoutError, WaitEventGroupTimeoutError),
      (WaitError, WaitSemaphoreError), (WaitTimeoutError, WaitSemaphoreTimeoutError),
      (WaitError, LockMutexError), (WaitTimeoutError, LockMutexTimeoutError)]"

section \<open>The error type of every system call\<close>

fun error_type :: "call \<Rightarrow> result_code list" where
  "error_type AcquireCpuLock = CpuLockError"
| "error_type ReleaseCpuLock = CpuLockError"
| "error_type BoostPriority = BoostPriorityError"
| "error_type UnboostPriority = BoostPriorityError"
| "error_type TaskCurrent = GetCurrentTaskError"
| "error_type (TaskActivate _) = ActivateTaskError"
| "error_type (TaskInterrupt _) = InterruptTaskError"
| "error_type (TaskUnparkExact _) = UnparkExactError"
| "error_type (TaskSetPriority _ _) = SetTaskPriorityError"
| "error_type (TaskGetPriority _) = GetTaskPriorityError"
| "error_type (TaskGetEffectivePriority _) = GetTaskPriorityError"
| "error_type Park = ParkError"
| "error_type (ParkTimeout _) = ParkTimeoutError"
| "error_type (Sleep _) = SleepError"
| "error_type (SemaphoreDrain _) = DrainSemaphoreError"
| "error_type (SemaphoreGet _) = GetSemaphoreError"
| "error_type (SemaphoreSignal _ _) = SignalSemaphoreError"
| "error_type (SemaphoreSignalOne _) = SignalSemaphoreError"
| "error_type (SemaphoreWaitOne _) = WaitSemaphoreError"
| "error_type (SemaphoreWaitOneTimeout _ _) = WaitSemaphoreTimeoutError"
| "error_type (SemaphorePollOne _) = PollSemaphoreError"
| "error_type (EventGroupSet _ _) = UpdateEventGroupError"
| "error_type (EventGroupClear _ _) = UpdateEventGroupError"
| "error_type (EventGroupGet _) = GetEventGroupError"
| "error_type (EventGroupWait _ _ _) = WaitEventGroupError"
| "error_type (EventGroupWaitTimeout _ _ _ _) = WaitEventGroupTimeoutError"
| "error_type (EventGroupPoll _ _ _) = PollEventGroupError"
| "error_type (MutexIsLocked _) = QueryMutexError"
| "error_type (MutexLock _) = LockMutexError"
| "error_type (MutexLockTimeout _ _) = LockMutexTimeoutError"
| "error_type (MutexTryLock _) = TryLockMutexError"
| "error_type (MutexUnlock _) = UnlockMutexError"
| "error_type (MutexMarkConsistent _) = MarkConsistentMutexError"
| "error_type (TimerStart _) = StartTimerError"
| "error_type (TimerStop _) = StopTimerError"
| "error_type (TimerSetDelay _ _) = SetTimerDelayError"
| "error_type (TimerSetPeriod _ _) = SetTimerPeriodError"
| "error_type GetTime = TimeError"
| "error_type (SetTime _) = TimeError"
| "error_type (AdjustTime _) = AdjustTimeError"

text \<open>The error type of the call that a task is suspended in.\<close>

fun blocked_error_type :: "blocking_call \<Rightarrow> bool \<Rightarrow> result_code list" where
  "blocked_error_type ParkCall timed = (if timed then ParkTimeoutError else ParkError)"
| "blocked_error_type SleepCall timed = SleepError"
| "blocked_error_type SemaphoreCall timed =
     (if timed then WaitSemaphoreTimeoutError else WaitSemaphoreError)"
| "blocked_error_type EventGroupCall timed =
     (if timed then WaitEventGroupTimeoutError else WaitEventGroupError)"
| "blocked_error_type (MutexCall _) timed =
     (if timed then LockMutexTimeoutError else LockMutexError)"

section \<open>Typing rules\<close>

definition errors_in :: "result_code list \<Rightarrow> ('a ret \<times> kernel) option \<Rightarrow> bool" where
  "errors_in E r \<longleftrightarrow> (\<forall>e k. r = Some (Err e, k) \<longrightarrow> e \<in> set E)"

lemma errors_in_simps [simp]:
  "errors_in E None" "errors_in E (Some (Ok x, k))" "errors_in E (Some (Blocked, k))"
  "errors_in E (Some (Err e, k)) \<longleftrightarrow> e \<in> set E"
  by (auto simp: errors_in_def)

lemma errors_in_bind [intro]: "(\<And>x. m = Some x \<Longrightarrow> errors_in E (f x)) \<Longrightarrow> errors_in E (m \<bind> f)"
  by (cases m) auto

lemma errors_in_guard [intro]: "(b \<Longrightarrow> errors_in E r) \<Longrightarrow> errors_in E (guard b r)"
  by (simp add: guard_def)

lemma errors_in_if [intro]:
  "(b \<Longrightarrow> errors_in E r) \<Longrightarrow> (\<not> b \<Longrightarrow> errors_in E s) \<Longrightarrow> errors_in E (if b then r else s)"
  by simp

lemma errors_in_lock [intro]:
  "BadContext \<in> set E \<Longrightarrow> (\<And>k. errors_in E (body k)) \<Longrightarrow> errors_in E (with_cpu_lock body k)"
  by (fastforce simp: errors_in_def with_cpu_lock_def bind_eq_Some_conv split: option.splits)

lemma errors_in_ret_as [simp]: "errors_in E (ret_as f r) = errors_in E r"
proof -
  have "map_ret f x = Err e \<longleftrightarrow> x = Err e" for x :: "'b ret" and e by (cases x) auto
  then show ?thesis by (fastforce simp: errors_in_def ret_as_def)
qed


named_theorems error_types

lemmas error_type_defs [error_types] =
  ActivateTaskError_def GetCurrentTaskError_def InterruptTaskError_def SetTaskPriorityError_def
  GetTaskPriorityError_def ExitTaskError_def CpuLockError_def BoostPriorityError_def TimeError_def
  AdjustTimeError_def WaitError_def WaitTimeoutError_def ParkError_def ParkTimeoutError_def
  UnparkExactError_def SleepError_def UpdateEventGroupError_def GetEventGroupError_def
  PollEventGroupError_def WaitEventGroupError_def WaitEventGroupTimeoutError_def GetSemaphoreError_def
  DrainSemaphoreError_def SignalSemaphoreError_def PollSemaphoreError_def WaitSemaphoreError_def
  WaitSemaphoreTimeoutError_def QueryMutexError_def UnlockMutexError_def TryLockMutexError_def
  LockMutexError_def LockMutexTimeoutError_def MarkConsistentMutexError_def StartTimerError_def
  StopTimerError_def SetTimerDelayError_def SetTimerPeriodError_def

lemmas errors_in_rules = errors_in_bind errors_in_guard errors_in_if errors_in_lock

text \<open>One lemma per component: the functions behind its system calls.\<close>

lemma task_errors [simp]:
  "errors_in GetCurrentTaskError (task_current K k)"
  "errors_in ActivateTaskError (task_activate K i k)"
  "errors_in InterruptTaskError (task_interrupt K i k)"
  "errors_in UnparkExactError (task_unpark_exact K i k)"
  "errors_in GetTaskPriorityError (task_priority K i k)"
  "errors_in GetTaskPriorityError (task_effective_priority K i k)"
  by (auto simp: error_types task_current_def task_activate_def activate_def task_interrupt_def
      task_unpark_exact_def unpark_exact_def task_priority_def task_effective_priority_def Let_def
      split: prod.splits intro!: errors_in_rules)

lemma task_wait_errors [simp]:
  "errors_in ParkError (park_current_task K k)"
  "errors_in ParkTimeoutError (park_current_task_timeout K d k)"
  "errors_in SleepError (put_current_task_on_sleep_timeout K d k)"
  by (auto simp: error_types park_current_task_def
      park_current_task_timeout_def put_current_task_on_sleep_timeout_def Let_def
      split: option.splits prod.splits intro!: errors_in_rules)

lemma set_priority_errors [simp]: "errors_in SetTaskPriorityError (task_set_priority K i p k)"
  unfolding task_set_priority_def set_task_base_priority_def Let_def
  by (auto simp: error_types split: option.splits intro!: errors_in_rules)


lemma semaphore_errors [simp]:
  "errors_in DrainSemaphoreError (raw_semaphore_drain K i k)"
  "errors_in GetSemaphoreError (raw_semaphore_get K i k)"
  "errors_in SignalSemaphoreError (raw_semaphore_signal K i n k)"
  "errors_in SignalSemaphoreError (raw_semaphore_signal_one K i k)"
  "errors_in PollSemaphoreError (raw_semaphore_poll_one K i k)"
  "errors_in WaitSemaphoreError (raw_semaphore_wait_one K i k)"
  "errors_in WaitSemaphoreTimeoutError (raw_semaphore_wait_one_timeout K i d k)"
  by (auto simp: error_types raw_semaphore_drain_def raw_semaphore_get_def raw_semaphore_signal_def
      raw_semaphore_signal_one_def signal_def raw_semaphore_poll_one_def poll_one_def
      raw_semaphore_wait_one_def wait_one_def raw_semaphore_wait_one_timeout_def wait_one_timeout_def
      Let_def split: option.splits prod.splits bool.splits intro!: errors_in_rules)

lemma event_group_errors [simp]:
  "errors_in UpdateEventGroupError (raw_event_group_set K i b k)"
  "errors_in UpdateEventGroupError (raw_event_group_clear K i b k)"
  "errors_in GetEventGroupError (raw_event_group_get K i k)"
  "errors_in PollEventGroupError (raw_event_group_poll K i b f k)"
  "errors_in WaitEventGroupError (raw_event_group_wait K i b f k)"
  "errors_in WaitEventGroupTimeoutError (raw_event_group_wait_timeout K i b f d k)"
  by (auto simp: error_types raw_event_group_set_def raw_event_group_clear_def raw_event_group_get_def
      raw_event_group_poll_def event_poll_def raw_event_group_wait_def event_wait_def
      raw_event_group_wait_timeout_def event_wait_timeout_def
      split: option.splits prod.splits intro!: errors_in_rules)

lemma precheck_errors:
  "precheck_and_get_running_task m k = Some (Inl e) \<Longrightarrow> e \<in> {WouldDeadlock, BadParam}"
  by (auto simp: precheck_and_get_running_task_def bind_eq_Some_conv split: if_splits option.splits)

lemma lock_result_error: "lock_result m k = Err e \<Longrightarrow> e = Abandoned"
  by (simp add: lock_result_def split: if_splits)

lemma errors_in_pair: "(\<And>e. r = Err e \<Longrightarrow> e \<in> set E) \<Longrightarrow> errors_in E (Some (r, k))"
  by (simp add: errors_in_def)

lemma mutex_errors [simp]:
  "errors_in QueryMutexError (raw_mutex_is_locked K i k)"
  "errors_in UnlockMutexError (raw_mutex_unlock K i k)"
  "errors_in TryLockMutexError (raw_mutex_try_lock K i k)"
  "errors_in LockMutexError (raw_mutex_lock K i k)"
  "errors_in LockMutexTimeoutError (raw_mutex_lock_timeout K i d k)"
  "errors_in MarkConsistentMutexError (raw_mutex_mark_consistent K i k)"
  by (auto simp: error_types raw_mutex_is_locked_def raw_mutex_unlock_def unlock_mutex_def
      raw_mutex_try_lock_def try_lock_mutex_def raw_mutex_lock_def lock_mutex_def
      raw_mutex_lock_timeout_def lock_mutex_timeout_def raw_mutex_mark_consistent_def Let_def
      split: option.splits prod.splits sum.splits intro!: errors_in_rules errors_in_pair
      dest!: precheck_errors lock_result_error)

lemma timer_errors [simp]:
  "errors_in StartTimerError (raw_timer_start K i k)"
  "errors_in StopTimerError (raw_timer_stop K i k)"
  "errors_in SetTimerDelayError (raw_timer_set_delay K i p k)"
  "errors_in SetTimerPeriodError (raw_timer_set_period K i p k)"
  by (auto simp: error_types raw_timer_start_def raw_timer_stop_def raw_timer_set_delay_def
      raw_timer_set_period_def split: option.splits intro!: errors_in_rules)

lemma kernel_errors [simp]:
  "errors_in CpuLockError (raw_acquire_cpu_lock k)"
  "errors_in CpuLockError (raw_release_cpu_lock k)"
  "errors_in BoostPriorityError (boost_priority k)"
  "errors_in BoostPriorityError (unboost_priority K k)"
  "errors_in TimeError (raw_time K k)"
  "errors_in TimeError (raw_set_time K x k)"
  "errors_in AdjustTimeError (raw_adjust_time K d k)"
  by (auto simp: error_types raw_acquire_cpu_lock_def raw_release_cpu_lock_def boost_priority_def
      unboost_priority_def raw_time_def raw_set_time_def raw_adjust_time_def Let_def
      split: option.splits prod.splits intro!: errors_in_rules)

text \<open>The second half of a blocking call.\<close>

lemma wait_finish_result:
  "wait_finish K t k = Some (r, k') \<Longrightarrow> blocked_in (tasks k t) = Some (c, timed) \<Longrightarrow>
   r \<noteq> WaitTimeout \<or> timed"
  by (auto simp: wait_finish_def guard_def bind_eq_Some_conv expect_not_timeout_def Let_def
      split: if_splits)

lemma wait_ret_error:
  "wait_ret r x = Err e \<Longrightarrow> e = Interrupted \<and> r = WaitInterrupted \<or> e = Timeout \<and> r = WaitTimeout"
  by (cases r) (auto simp: wait_ret_def)

lemma blocked_errors:
  assumes "blocked_in (tasks k t) = Some (c, timed)"
  shows "errors_in (blocked_error_type ParkCall timed) (park_resume K t k)"
    "errors_in (blocked_error_type SleepCall timed) (sleep_resume K t k)"
    "errors_in (blocked_error_type SemaphoreCall timed) (wait_one_resume K t k)"
    "errors_in (blocked_error_type EventGroupCall timed) (event_wait_resume K t k)"
    "errors_in (blocked_error_type (MutexCall m) timed) (lock_mutex_resume K m t k)"
  by (auto simp: error_types park_resume_def sleep_resume_def wait_one_resume_def
      event_wait_resume_def lock_mutex_resume_def
      split: prod.splits wait_result.splits wait_payload.splits if_splits
      intro!: errors_in_rules errors_in_pair
      dest!: wait_ret_error lock_result_error dest: wait_finish_result[OF _ assms])

section \<open>Every call has its error type\<close>

lemma syscall_errors: "errors_in (error_type c) (syscall K c k)"
  by (cases c) simp_all

text \<open>The error type of the call that the running task is suspended in.\<close>

definition suspended_error_type :: "kernel \<Rightarrow> result_code list" where
  "suspended_error_type k =
     (case running_task k of
        None \<Rightarrow> []
      | Some t \<Rightarrow> (case blocked_in (tasks k t) of
          None \<Rightarrow> [] | Some (c, timed) \<Rightarrow> blocked_error_type c timed))"

lemma lock_cpu_tasks: "lock_cpu k = Some k' \<Longrightarrow> tasks k' = tasks k"
  by (auto simp: lock_cpu_def split: if_splits)

lemma errors_in_leave:
  "errors_in E m \<Longrightarrow> errors_in E (m \<bind> (\<lambda>(r, k). Some (r, f k)))"
  by (cases m) (auto simp: errors_in_def)

lemma blocked_errors_call:
  assumes "blocked_in (tasks k t) = Some (c, timed)"
  shows "errors_in (blocked_error_type c timed)
    (case c of
       ParkCall \<Rightarrow> unit_ret (park_resume K t k)
     | SleepCall \<Rightarrow> unit_ret (sleep_resume K t k)
     | SemaphoreCall \<Rightarrow> unit_ret (wait_one_resume K t k)
     | EventGroupCall \<Rightarrow> ret_as BitsVal (event_wait_resume K t k)
     | MutexCall m \<Rightarrow> unit_ret (lock_mutex_resume K m t k))"
  using blocked_errors[OF assms] by (cases c) (simp_all del: blocked_error_type.simps)

lemma resume_errors: "errors_in (suspended_error_type k) (resume K k)"
  unfolding resume_def suspended_error_type_def
  by (intro errors_in_bind)
    (auto simp del: blocked_error_type.simps intro!: errors_in_bind errors_in_leave blocked_errors_call
      dest: lock_cpu_tasks)

text \<open>The variants of an error type are errors, and a conversion leads to a type that has them all.\<close>

lemma error_types_are_errors:
  "list_all is_err (error_type c)" "list_all is_err (blocked_error_type b timed)"
  by (cases c; simp add: error_types is_err_def result_code_value_def)
    (cases b; simp add: error_types is_err_def result_code_value_def)

lemma error_conversions_widen: "list_all (\<lambda>(narrow, wide). set narrow \<subseteq> set wide) error_conversions"
  by (simp add: error_conversions_def error_types)

end
