(* ===== verification/Semaphore_Contract.thy ===== *)
theory Semaphore_Contract
  imports Semaphore
begin

text \<open>The system calls on semaphores keep the invariants; what \<^verbatim>\<open>signal\<close> does in terms of permits.\<close>

section \<open>The count of a semaphore\<close>

lemma sem_value_ok:
  assumes inv: "kinv K k"
    and v: "i < N_SEMAPHORES K \<Longrightarrow> v \<le> max_value (semaphores k i) \<and> (waits_of k (SemaphoreQ i) \<noteq> [] \<longrightarrow> v = 0)"
  defines "k' \<equiv> upd_semaphore i (\<lambda>s. s\<lparr>sem_value := v\<rparr>) k"
  shows "kinv K k'" "frame k k'" "preempt_inv k' = preempt_inv k"
proof -
  note I = kinvD[OF inv]
  have q: "wait_queue_of k' = wait_queue_of k" by (simp add: k'_def fun_eq_iff)
  have "queue_inv K k'" using I(9) unfolding queue_inv_def q by (simp add: k'_def)
  moreover have "sem_inv K k'" using I(10) v unfolding sem_inv_def q by (simp add: k'_def)
  moreover have "event_inv K k'" using I(11) unfolding event_inv_def q by (simp add: k'_def)
  moreover have "timer_inv K k'" using I(12) by (simp add: timer_inv_def linked_ok_def k'_def cong: timeout_ref.case_cong)
  moreover have "pri_inv K k'" using I(6) by (simp add: pri_inv_def k'_def)
  moreover have same: "same_tasks k k'" by (simp add: same_tasks_def k'_def)
  ultimately have "base_inv K k'" using I(5,7,8) by (simp add: base_inv_def same_tasks_inv[OF same])
  moreover have "same_mutexes k k'" unfolding same_mutexes_def q by (simp add: k'_def)
  then have "mutex_inv K None {} k'" using I(2) by (simp add: same_mutexes_inv)
  ultimately show "kinv K k'" using I(3,4) by (simp add: kinv_def same_tasks_inv[OF same])
  show "frame k k'" by (simp add: frame_def same_tasks_inv[OF same]) (simp add: k'_def upd_semaphore_def)
  show "preempt_inv k' = preempt_inv k" by (rule same_tasks_inv(6)[OF same])
qed

lemma semaphore_poll_eq:
  "semaphore_poll i k =
     (if 0 < sem_value (semaphores k i)
      then (True, upd_semaphore i (\<lambda>s. s\<lparr>sem_value := sem_value (semaphores k i) - 1\<rparr>) k)
      else (False, k))"
  by (auto simp: semaphore_poll_def semaphore_poll_core_def upd_semaphore_def intro!: kernel_eqI)

lemma semaphore_poll_taken:
  assumes inv: "kinv K k" and v: "0 < sem_value (semaphores k i)"
  defines "k' \<equiv> upd_semaphore i (\<lambda>s. s\<lparr>sem_value := sem_value (semaphores k i) - 1\<rparr>) k"
  shows "kinv K k'" "frame k k'" "preempt_inv k' = preempt_inv k"
  unfolding k'_def by (rule sem_value_ok[OF inv]; use kinvD(10)[OF inv] v in \<open>auto simp: sem_inv_def\<close>)+

section \<open>Waiting\<close>

lemma semaphore_may_wait:
  assumes i: "i < N_SEMAPHORES K" and c: "caller_ok k" "expect_waitable_context k" and v: "sem_value (semaphores k i) = 0"
  obtains t where "may_wait K k t (Some (SemaphoreQ i)) SemaphoreWait"
proof -
  have "task_context k" using c(2) by (simp add: expect_waitable_context_def)
  then obtain t where "running_task k = Some t" "st (tasks k t) = Running" "blocked_in (tasks k t) = None"
    using c(1) by (auto simp: caller_ok_def)
  then show thesis using i c(2) v
    by (intro that[of t]) (simp add: may_wait_def wait_in_ok_def resource_unavailable_def)
qed

lemma wait_one_call_ok:
  assumes K: "kcfg_ok K" and inv: "kinv K k" and i: "i < N_SEMAPHORES K"
    and c: "caller_ok k" "expect_waitable_context k"
  shows "call_ok K k (wait_one K i k)"
    "unat d \<le> DURATION_MAX \<Longrightarrow> call_ok K k (wait_one_timeout K i d k)"
proof -
  have "call_ok K k (wait_one K i k) \<and> (unat d \<le> DURATION_MAX \<longrightarrow> call_ok K k (wait_one_timeout K i d k))"
  proof (cases "0 < sem_value (semaphores k i)")
    case True
    show ?thesis using semaphore_poll_taken[OF inv True] True
      by (auto simp: wait_one_def wait_one_timeout_def semaphore_poll_eq intro!: call_okI)
  next
    case False
    then obtain t where w: "may_wait K k t (Some (SemaphoreQ i)) SemaphoreWait"
      using semaphore_may_wait[OF i c] by blast
    show ?thesis
      using False
      by (auto simp: wait_one_def wait_one_timeout_def semaphore_poll_eq
          intro!: blocks_call_ok[OF inv w] wait_on_ok[OF inv w] wait_on_timeout_ok[OF K inv w])
  qed
  then show "call_ok K k (wait_one K i k)" "unat d \<le> DURATION_MAX \<Longrightarrow> call_ok K k (wait_one_timeout K i d k)"
    by blast+
qed

section \<open>Signalling\<close>

text \<open>The tasks that have been woken up.\<close>

definition woken_task :: "wait_result \<Rightarrow> task_cb \<Rightarrow> task_cb" where
  "woken_task res c = c\<lparr>current_wait := None, wait_result := res, st := Ready\<rparr>"

lemma signal_loop_ok:
  assumes K: "kcfg_ok K" and i: "i < N_SEMAPHORES K"
  shows "kinv K k \<Longrightarrow> value = sem_value (semaphores k i) \<Longrightarrow> value + n \<le> max_value (semaphores k i) \<Longrightarrow>
    ws = waits_of k (SemaphoreQ i) \<Longrightarrow>
    \<exists>k'. signal_loop K i value n k = Some (n - length ws, k') \<and> kinv K k' \<and> frame k k' \<and>
      (ws = [] \<longrightarrow> preempt_inv k' = preempt_inv k) \<and>
      waits_of k' (SemaphoreQ i) = drop n ws \<and> sem_value (semaphores k' i) = value + (n - length ws) \<and>
      tasks k' = (\<lambda>t. if t \<in> set (take n ws) then woken_task WaitOk (tasks k t) else tasks k t)"
proof (induction n arbitrary: k ws)
  case 0
  then show ?case by simp
next
  case (Suc n)
  note I = kinvD[OF Suc.prems(1)]
  show ?case
  proof (cases ws)
    case Nil
    let ?k = "upd_semaphore i (\<lambda>s. s\<lparr>sem_value := value + Suc n\<rparr>) k"
    have "signal_loop K i value (Suc n) k = Some (Suc n, ?k)"
      using Suc.prems(4) Nil by (simp add: wake_up_one_empty)
    moreover have "kinv K ?k" "frame k ?k" "preempt_inv ?k = preempt_inv k"
      by (rule sem_value_ok[OF Suc.prems(1)]; use Suc.prems Nil in simp)+
    ultimately show ?thesis using Nil Suc.prems(4) by (intro exI[of _ ?k]) simp
  next
    case (Cons t us)
    then have w: "waits_of k (SemaphoreQ i) = t # us" using Suc.prems(4) by simp
    have ok: "wake_allowed k t WaitOk" by (rule semaphore_waiter(3)[OF I(1), of t i]) (simp add: w)
    have d: "distinct (t # us)" using I(9) w unfolding queue_inv_def by metis
    obtain r where r: "wake_up_one K (SemaphoreQ i) k = Some (True, woken t WaitOk r k)"
      "kinv K (woken t WaitOk r k)" "frame k (woken t WaitOk r k)"
      "waits_of (woken t WaitOk r k) (SemaphoreQ i) = us"
      using wake_up_one_ok[OF K Suc.prems(1) w ok] by metis
    let ?k = "woken t WaitOk r k"
    obtain k' where k': "signal_loop K i value n ?k = Some (n - length us, k')" "kinv K k'" "frame ?k k'"
      "waits_of k' (SemaphoreQ i) = drop n us" "sem_value (semaphores k' i) = value + (n - length us)"
      "tasks k' = (\<lambda>u. if u \<in> set (take n us) then woken_task WaitOk (tasks ?k u) else tasks ?k u)"
      using Suc.IH[OF r(2), of us] Suc.prems(2,3) r(4) by auto
    have t: "t \<notin> set (take n us)" using d by (auto dest: in_set_takeD)
    have "tasks k' = (\<lambda>u. if u \<in> set (take (Suc n) ws) then woken_task WaitOk (tasks k u) else tasks k u)"
      unfolding k'(6) Cons using t by (auto simp: woken_task_def fun_eq_iff)
    then show ?thesis using k' r Cons frame_trans[OF r(3) k'(3)] by auto
  qed
qed

lemma signal_ok:
  assumes K: "kcfg_ok K" and inv: "kinv K k" and i: "i < N_SEMAPHORES K"
    and n: "n \<le> max_value (semaphores k i) - sem_value (semaphores k i)"
  defines "ws \<equiv> waits_of k (SemaphoreQ i)"
  obtains k' where "signal K i n k = Some (Ok (), k')" "kinv K k'" "frame k k'"
    "preempt_inv k \<Longrightarrow> preempt_inv k'" "waits_of k' (SemaphoreQ i) = drop n ws"
    "sem_value (semaphores k' i) = sem_value (semaphores k i) + (n - length ws)"
    "tasks k' = (\<lambda>t. if t \<in> set (take n ws) then woken_task WaitOk (tasks k t) else tasks k t)"
proof -
  have v: "sem_value (semaphores k i) \<le> max_value (semaphores k i)"
    using kinvD(10)[OF inv] i by (simp add: sem_inv_def)
  then have le: "sem_value (semaphores k i) + n \<le> max_value (semaphores k i)" using n by linarith
  obtain k1 where k1: "signal_loop K i (sem_value (semaphores k i)) n k = Some (n - length ws, k1)"
    "kinv K k1" "frame k k1" "ws = [] \<longrightarrow> preempt_inv k1 = preempt_inv k"
    "waits_of k1 (SemaphoreQ i) = drop n ws"
    "sem_value (semaphores k1 i) = sem_value (semaphores k i) + (n - length ws)"
    "tasks k1 = (\<lambda>t. if t \<in> set (take n ws) then woken_task WaitOk (tasks k t) else tasks k t)"
    using signal_loop_ok[OF K i inv refl le] ws_def by blast
  have ne: "\<not> max_value (semaphores k i) - sem_value (semaphores k i) < n" using n by simp
  show thesis
  proof (cases "n = 0 \<or> ws = []")
    case True
    then have "n - length ws = n" by auto
    then have "signal K i n k = Some (Ok (), k1)" using k1(1) v ne by (simp add: signal_def Let_def)
    moreover have "preempt_inv k \<Longrightarrow> preempt_inv k1" using True k1(1,4) by auto
    ultimately show thesis using k1 by (intro that[of k1])
  next
    case False
    then have "n - length ws \<noteq> n" by (cases ws) auto
    then have s: "signal K i n k = do { k \<leftarrow> unlock_cpu_and_check_preemption K k1; Some (Ok (), k) }"
      using k1(1) v ne by (simp add: signal_def Let_def)
    obtain y where y: "unlock_cpu_and_check_preemption K k1 = Some (k1\<lparr>cpu_lock := False, yield_pending := y\<rparr>)"
      "kinv K (k1\<lparr>cpu_lock := False, yield_pending := y\<rparr>)"
      "preempt_inv (k1\<lparr>cpu_lock := False, yield_pending := y\<rparr>)"
      "frame k1 (k1\<lparr>cpu_lock := False, yield_pending := y\<rparr>)"
      using unlock_check_ok[OF K k1(2)] by metis
    then show thesis using s k1 frame_trans[OF k1(3) y(4)]
      by (intro that[of "k1\<lparr>cpu_lock := False, yield_pending := y\<rparr>"]) simp_all
  qed
qed

section \<open>The system calls\<close>

lemma sem_index: "semaphore_index K this = Some i \<longleftrightarrow> 0 < this \<and> i = this - 1 \<and> i < N_SEMAPHORES K"
  by (simp add: semaphore_index_def pool_index_Some)

definition semaphore_id_ok :: "kcfg \<Rightarrow> nat \<Rightarrow> bool" where
  "semaphore_id_ok K this \<longleftrightarrow> 0 < this \<and> this \<le> N_SEMAPHORES K"

lemma semaphore_id_index: "semaphore_id_ok K this \<Longrightarrow> semaphore_index K this = Some (this - 1) \<and> this - 1 < N_SEMAPHORES K"
  by (auto simp: semaphore_id_ok_def sem_index)

lemma signal_call_ok:
  assumes K: "kcfg_ok K" and inv: "kinv K k" and i: "i < N_SEMAPHORES K"
  shows "call_ok K k (signal K i n k)"
proof (cases "n \<le> max_value (semaphores k i) - sem_value (semaphores k i)")
  case True
  then show ?thesis using signal_ok[OF K inv i] by (metis call_okI ret.distinct(3))
next
  case False
  have "sem_value (semaphores k i) \<le> max_value (semaphores k i)"
    using kinvD(10)[OF inv] i by (simp add: sem_inv_def)
  then show ?thesis using False inv by (simp add: signal_def Let_def call_ok_same)
qed

lemma semaphore_calls_ok:
  assumes K: "kcfg_ok K" and inv: "kinv K k" and c: "caller_ok k" and i: "semaphore_id_ok K this"
  shows "call_ok K k (raw_semaphore_drain K this k)" "call_ok K k (raw_semaphore_get K this k)"
    "call_ok K k (raw_semaphore_signal K this n k)" "call_ok K k (raw_semaphore_signal_one K this k)"
    "call_ok K k (raw_semaphore_wait_one K this k)" "call_ok K k (raw_semaphore_wait_one_timeout K this d k)"
    "call_ok K k (raw_semaphore_poll_one K this k)"
proof -
  let ?k = "k\<lparr>cpu_lock := True\<rparr>" and ?i = "this - 1"
  have I: "kinv K ?k" and C: "caller_ok ?k" using inv c by simp_all
  note i' = semaphore_id_index[OF i]
  have sig: "call_ok K k (raw_semaphore_signal K this n k)" for n
    unfolding raw_semaphore_signal_def
    by (rule with_cpu_lock_ok[OF inv]) (use signal_call_ok[OF K I] i' in simp)
  then show "call_ok K k (raw_semaphore_signal K this n k)" "call_ok K k (raw_semaphore_signal_one K this k)"
    by (simp_all add: raw_semaphore_signal_one_def)
  show "call_ok K k (raw_semaphore_drain K this k)"
    unfolding raw_semaphore_drain_def
    by (rule with_cpu_lock_ok[OF inv])
      (use sem_value_ok[OF I, of ?i 0] i' in \<open>auto intro!: call_okI\<close>)
  show "call_ok K k (raw_semaphore_get K this k)"
    unfolding raw_semaphore_get_def
    by (rule with_cpu_lock_ok[OF inv]) (use i' I in \<open>simp add: call_ok_same\<close>)
  show "call_ok K k (raw_semaphore_poll_one K this k)"
    unfolding raw_semaphore_poll_one_def
  proof (rule with_cpu_lock_ok[OF inv])
    show "call_ok K ?k (do { i \<leftarrow> semaphore_index K this; Some (poll_one i ?k) })"
      using semaphore_poll_taken[OF I, of ?i] I i'
      by (cases "0 < sem_value (semaphores ?k ?i)")
        (auto simp: poll_one_def semaphore_poll_eq call_ok_same intro!: call_okI)
  qed
  show "call_ok K k (raw_semaphore_wait_one K this k)"
    unfolding raw_semaphore_wait_one_def
    by (rule with_cpu_lock_ok[OF inv]) (use wait_one_call_ok[OF K I _ C] I i' in \<open>simp add: call_ok_same\<close>)
  show "call_ok K k (raw_semaphore_wait_one_timeout K this d k)"
  proof (cases "time32_from_duration d")
    case None
    then show ?thesis using inv by (simp add: raw_semaphore_wait_one_timeout_def call_ok_same)
  next
    case (Some x)
    show ?thesis unfolding raw_semaphore_wait_one_timeout_def Some option.case
      by (rule with_cpu_lock_ok[OF inv])
        (use wait_one_call_ok(2)[OF K I _ C] I i' time32_from_duration_max[OF Some] in \<open>simp add: call_ok_same\<close>)
  qed
qed

end
