(* ===== verification/Event_Group_Contract.thy ===== *)
theory Event_Group_Contract
  imports Event_Group
begin

unbundle bit_operations_syntax

text \<open>
  The system calls on event groups keep the invariants; \<open>serve\<close> says which waiters a change of the
  bits satisfies, in the order of the queue.
\<close>

section \<open>The bits of an event group\<close>

lemma event_bits_ok:
  assumes inv: "kinv K k"
    and v: "\<And>t. i < N_EVENT_GROUPS K \<Longrightarrow> t \<in> set (waits_of k (EventGroupQ i)) \<Longrightarrow> event_waiter_ok v (payload (wait_objs k t))"
  defines "k' \<equiv> upd_event_group i (\<lambda>e. e\<lparr>group_bits := v\<rparr>) k"
  shows "kinv K k'" "frame k k'" "preempt_inv k' = preempt_inv k"
proof -
  note I = kinvD[OF inv]
  have q: "wait_queue_of k' = wait_queue_of k" by (simp add: k'_def fun_eq_iff)
  have "queue_inv K k'" using I(9) unfolding queue_inv_def q by (simp add: k'_def)
  moreover have "sem_inv K k'" using I(10) unfolding sem_inv_def q by (simp add: k'_def)
  moreover have "event_inv K k'" using I(11) v unfolding event_inv_def q by (simp add: k'_def)
  moreover have "timer_inv K k'" using I(12) by (simp add: timer_inv_def linked_ok_def k'_def cong: timeout_ref.case_cong)
  moreover have "pri_inv K k'" using I(6) by (simp add: pri_inv_def k'_def)
  moreover have same: "same_tasks k k'" by (simp add: same_tasks_def k'_def)
  ultimately have "base_inv K k'" using I(5,7,8) by (simp add: base_inv_def same_tasks_inv[OF same])
  moreover have "same_mutexes k k'" unfolding same_mutexes_def q by (simp add: k'_def)
  then have "mutex_inv K None {} k'" using I(2) by (simp add: same_mutexes_inv)
  ultimately show "kinv K k'" using I(3,4) by (simp add: kinv_def same_tasks_inv[OF same])
  show "frame k k'" by (simp add: frame_def same_tasks_inv[OF same]) (simp add: k'_def upd_event_group_def)
  show "preempt_inv k' = preempt_inv k" by (rule same_tasks_inv(6)[OF same])
qed

text \<open>With fewer bits, a condition that does not hold still does not.\<close>

definition fewer_bits :: "u32 \<Rightarrow> u32 \<Rightarrow> bool" where
  "fewer_bits v v' \<longleftrightarrow> v AND v' = v"

lemma fewer_bits_refl [simp]: "fewer_bits v v"
  by (simp add: fewer_bits_def)

lemma fewer_bits_trans: "fewer_bits a b \<Longrightarrow> fewer_bits b c \<Longrightarrow> fewer_bits a c"
  by (metis and.assoc fewer_bits_def)

lemma fewer_bits_clear [simp]: "fewer_bits (v AND w) v"
  by (simp add: fewer_bits_def and.assoc and.commute and.left_commute)

lemma event_condition_fewer:
  assumes "fewer_bits v v'" "event_condition v req flags"
  shows "event_condition v' req flags"
proof -
  have v: "v AND req = (v AND req) AND v'"
    using assms(1) unfolding fewer_bits_def by (metis and.assoc and.commute)
  show ?thesis
  proof (cases "flag_ALL flags")
    case True
    then have "v AND req = req" using assms(2) by (simp add: event_condition_def)
    then show ?thesis using v True by (simp add: event_condition_def and.commute)
  next
    case False
    have "v' AND req \<noteq> 0"
    proof
      assume "v' AND req = 0"
      then have "(v AND req) AND v' = 0" by (metis and.assoc and.commute and_zero_eq)
      then show False using v assms(2) False by (simp add: event_condition_def)
    qed
    then show ?thesis using False by (simp add: event_condition_def)
  qed
qed

lemma event_waiter_fewer: "fewer_bits v v' \<Longrightarrow> event_waiter_ok v' p \<Longrightarrow> event_waiter_ok v p"
  by (auto simp: event_waiter_ok_def split: wait_payload.splits dest: event_condition_fewer)

lemma event_group_poll_core_eq:
  "event_group_poll_core value req flags =
     (if event_condition value req flags
      then (Some value, if flag_CLEAR flags then value AND NOT req else value) else (None, value))"
  by (simp add: event_group_poll_core_def event_condition_def)

lemma event_group_poll_eq:
  "event_group_poll i req flags k =
     (let v = group_bits (event_groups k i)
      in if event_condition v req flags
         then (Some v, upd_event_group i (\<lambda>e. e\<lparr>group_bits := (if flag_CLEAR flags then v AND NOT req else v)\<rparr>) k)
         else (None, k))"
  by (auto simp: event_group_poll_def event_group_poll_core_eq Let_def upd_event_group_def intro!: kernel_eqI)

lemma event_bits_fewer_ok:
  assumes inv: "kinv K k" and v: "fewer_bits v (group_bits (event_groups k i))"
  defines "k' \<equiv> upd_event_group i (\<lambda>e. e\<lparr>group_bits := v\<rparr>) k"
  shows "kinv K k'" "frame k k'" "preempt_inv k' = preempt_inv k"
  unfolding k'_def
  by (rule event_bits_ok[OF inv]; use kinvD(11)[OF inv] event_waiter_fewer[OF v] in \<open>auto simp: event_inv_def\<close>)+

section \<open>Waiting\<close>

lemma event_may_wait:
  assumes i: "i < N_EVENT_GROUPS K" and c: "caller_ok k" "expect_waitable_context k"
    and v: "\<not> event_condition (group_bits (event_groups k i)) req flags"
  obtains t where "may_wait K k t (Some (EventGroupQ i)) (EventGroupBits req flags 0)"
proof -
  have "task_context k" using c(2) by (simp add: expect_waitable_context_def)
  then obtain t where "running_task k = Some t" "st (tasks k t) = Running" "blocked_in (tasks k t) = None"
    using c(1) by (auto simp: caller_ok_def)
  then show thesis using i c(2) v
    by (intro that[of t]) (simp add: may_wait_def wait_in_ok_def resource_unavailable_def event_waiter_ok_def)
qed

lemma event_wait_call_ok:
  assumes K: "kcfg_ok K" and inv: "kinv K k" and i: "i < N_EVENT_GROUPS K"
    and c: "caller_ok k" "expect_waitable_context k"
  shows "call_ok K k (event_wait K i req flags k)"
    "unat d \<le> DURATION_MAX \<Longrightarrow> call_ok K k (event_wait_timeout K i req flags d k)"
proof -
  have "call_ok K k (event_wait K i req flags k) \<and>
    (unat d \<le> DURATION_MAX \<longrightarrow> call_ok K k (event_wait_timeout K i req flags d k))"
  proof (cases "event_condition (group_bits (event_groups k i)) req flags")
    case True
    let ?v = "if flag_CLEAR flags then group_bits (event_groups k i) AND NOT req else group_bits (event_groups k i)"
    have "fewer_bits ?v (group_bits (event_groups k i))" by simp
    from event_bits_fewer_ok[OF inv this] show ?thesis using True
      by (auto simp: event_wait_def event_wait_timeout_def event_group_poll_eq Let_def intro!: call_okI)
  next
    case False
    then obtain t where w: "may_wait K k t (Some (EventGroupQ i)) (EventGroupBits req flags 0)"
      using event_may_wait[OF i c] by blast
    show ?thesis
      using False
      by (auto simp: event_wait_def event_wait_timeout_def event_group_poll_eq Let_def
          intro!: blocks_call_ok[OF inv w] wait_on_ok[OF inv w] wait_on_timeout_ok[OF K inv w])
  qed
  then show "call_ok K k (event_wait K i req flags k)"
    "unat d \<le> DURATION_MAX \<Longrightarrow> call_ok K k (event_wait_timeout K i req flags d k)" by blast+
qed

section \<open>Setting bits\<close>

text \<open>
  The waiters that a value of the bits satisfies, with the value each of them sees, and the bits
  that are left.
\<close>

fun serve :: "u32 \<Rightarrow> (nat \<times> wait_payload) list \<Rightarrow> (nat \<times> u32) list \<times> u32" where
  "serve value [] = ([], value)"
| "serve value ((t, EventGroupBits req flags orig) # ws) =
     (if event_condition value req flags then
        (let (served, rest) = serve (if flag_CLEAR flags then value AND NOT req else value) ws
         in ((t, value) # served, rest))
      else serve value ws)"
| "serve value ((t, p) # ws) = serve value ws"

definition waiters :: "kernel \<Rightarrow> nat \<Rightarrow> (nat \<times> wait_payload) list" where
  "waiters k i = map (\<lambda>t. (t, payload (wait_objs k t))) (waits_of k (EventGroupQ i))"

lemma serve_fewer: "fewer_bits (snd (serve v ws)) v"
  by (induction v ws rule: serve.induct) (auto simp: Let_def split: prod.split intro: fewer_bits_trans[OF _ fewer_bits_clear])

lemma serve_mem: "x \<in> set (fst (serve v ws)) \<Longrightarrow> fst x \<in> fst ` set ws"
  by (induction v ws rule: serve.induct) (auto simp: Let_def split: prod.splits if_splits)

lemma serve_subset: "fst ` set (fst (serve v ws)) \<subseteq> fst ` set ws"
  using serve_mem by blast

text \<open>Writing the original value into the payload of a waiter.\<close>

lemma payload_orig_ok:
  fixes orig' :: u32
  assumes inv: "kinv K k" and p: "payload (wait_objs k t) = EventGroupBits req flags orig"
  defines "k' \<equiv> upd_wait_obj t ((wait_objs k t)\<lparr>payload := EventGroupBits req flags orig'\<rparr>) k"
  shows "kinv K k'" "frame k k'" "preempt_inv k' = preempt_inv k"
proof -
  note I = kinvD[OF inv]
  have w: "wait_in (wait_objs k' u) = wait_in (wait_objs k u)" "wait_task (wait_objs k' u) = wait_task (wait_objs k u)"
    "wait_in_ok K (wait_objs k' u) = wait_in_ok K (wait_objs k u)"
    "call_of (payload (wait_objs k' u)) = call_of (payload (wait_objs k u))"
    "event_waiter_ok b (payload (wait_objs k' u)) = event_waiter_ok b (payload (wait_objs k u))" for u b
    using p by (auto simp: k'_def wait_in_ok_def call_of_def event_waiter_ok_def)
  have f: "tasks k' = tasks k" "running_task k' = running_task k" "task_ready_queue k' = task_ready_queue k"
    "semaphores k' = semaphores k" "event_groups k' = event_groups k" "mutexes k' = mutexes k"
    "timers k' = timers k" "tk k' = tk k" "priority_boost k' = priority_boost k"
    "wait_queue_of k' = wait_queue_of k" "yield_pending k' = yield_pending k"
    by (simp_all add: k'_def fun_eq_iff)
  have "base_inv K k'"
    using I(1) unfolding base_inv_def ready_inv_def pri_inv_def run_inv_def wait_inv_def task_wait_ok_def
      queue_inv_def sem_inv_def event_inv_def timer_inv_def linked_ok_def f w .
  moreover have "same_mutexes k k'" by (simp add: same_mutexes_def f)
  then have "mutex_inv K None {} k'" using I(2) by (simp add: same_mutexes_inv)
  moreover have "boost_inv k'" "activated K k'"
    using I(3,4) unfolding boost_inv_def activated_def running_task_is_running_def f .
  ultimately show "kinv K k'" by (simp add: kinv_def)
  show "frame k k'" unfolding frame_def running_task_is_running_def f by (simp add: k'_def)
  show "preempt_inv k' = preempt_inv k" unfolding preempt_inv_def prev_task_priority_def f ..
qed

lemma set_cond_eq:
  "set_cond (EventGroupBits req flags orig) (v, any) =
     Some (if event_condition v req flags
           then (True, EventGroupBits req flags v, if flag_CLEAR flags then v AND NOT req else v, True)
           else (False, EventGroupBits req flags orig, v, any))"
  by (simp add: set_cond_def event_group_poll_core_eq)

text \<open>
  The loop of \<^verbatim>\<open>set\<close>, from the middle of the queue: \<open>front\<close> is what it has passed.
\<close>

lemma event_loop_ok:
  assumes K: "kcfg_ok K" and i: "i < N_EVENT_GROUPS K"
  shows "kinv K k \<Longrightarrow> waits_of k (EventGroupQ i) = front @ ws \<Longrightarrow>
    (\<forall>t\<in>set front. event_waiter_ok v (payload (wait_objs k t))) \<Longrightarrow>
    (served, rest) = serve v (map (\<lambda>t. (t, payload (wait_objs k t))) ws) \<Longrightarrow>
    \<exists>k'. wake_up_loop K (EventGroupQ i) set_cond ws (v, any) k = Some ((rest, any \<or> served \<noteq> []), k') \<and>
      kinv K k' \<and> frame k k' \<and> (served = [] \<longrightarrow> preempt_inv k' = preempt_inv k) \<and>
      waits_of k' (EventGroupQ i) = front @ filter (\<lambda>t. t \<notin> fst ` set served) ws \<and>
      (\<forall>t\<in>set (waits_of k' (EventGroupQ i)). event_waiter_ok rest (payload (wait_objs k' t))) \<and>
      (\<forall>t. t \<notin> set ws \<longrightarrow> wait_objs k' t = wait_objs k t) \<and>
      (\<forall>(t, b)\<in>set served. orig_bits (payload (wait_objs k' t)) = b) \<and>
      tasks k' = (\<lambda>t. if t \<in> fst ` set served then (tasks k t)\<lparr>current_wait := None, wait_result := WaitOk, st := Ready\<rparr>
                       else tasks k t)"
proof (induction ws arbitrary: k front v any served rest)
  case Nil
  then show ?case by simp
next
  case (Cons t us)
  note I = kinvD[OF Cons.prems(1)]
  let ?q = "EventGroupQ i"
  have mem: "t \<in> set (waits_of k ?q)" using Cons.prems(2) by simp
  note W = queue_waiter[OF I(1) mem]
  obtain req flags orig where p: "payload (wait_objs k t) = EventGroupBits req flags orig"
    using event_group_waiter(1)[OF I(1) mem] by blast
  have d: "distinct (front @ t # us)" using I(9) Cons.prems(2) unfolding queue_inv_def by metis
  show ?case
  proof (cases "event_condition v req flags")
    case False
    have same: "upd_wait_obj t ((wait_objs k t)\<lparr>payload := EventGroupBits req flags orig\<rparr>) k = k"
      unfolding p[symmetric] by (intro kernel_eqI) (simp_all add: upd_wait_obj_def)
    have step: "wake_up_loop K ?q set_cond (t # us) (v, any) k = wake_up_loop K ?q set_cond us (v, any) k"
      using W(3) False by (simp add: p set_cond_eq Let_def same)
    have "\<forall>u\<in>set (front @ [t]). event_waiter_ok v (payload (wait_objs k u))"
      using Cons.prems(3) p False by (simp add: event_waiter_ok_def)
    moreover have "(served, rest) = serve v (map (\<lambda>t. (t, payload (wait_objs k t))) us)"
      using Cons.prems(4) p False by simp
    moreover have "t \<notin> fst ` set served"
      using serve_subset[of v "map (\<lambda>t. (t, payload (wait_objs k t))) us"] calculation(2)[symmetric] d by auto
    ultimately show ?thesis
      using Cons.IH[OF Cons.prems(1), of "front @ [t]" v served rest any] Cons.prems(2) unfolding step by auto
  next
    case True
    let ?v = "if flag_CLEAR flags then v AND NOT req else v"
    let ?k1 = "upd_wait_obj t ((wait_objs k t)\<lparr>payload := EventGroupBits req flags v\<rparr>) k"
    obtain served' where s: "(served', rest) = serve ?v (map (\<lambda>t. (t, payload (wait_objs k t))) us)"
      "served = (t, v) # served'"
      using Cons.prems(4) p True by (auto simp: Let_def split: prod.splits)
    note O = payload_orig_ok[OF Cons.prems(1) p, of v]
    have wt1: "st (tasks ?k1 t) = Waiting" and mem1: "t \<in> set (waits_of ?k1 ?q)" using W(2) mem by simp_all
    note I1 = kinvD[OF O(1)]
    obtain r where r: "complete_wait K t WaitOk (unlink_wait t ?k1) = Some (woken t WaitOk r ?k1)"
      "base_inv K (woken t WaitOk r ?k1)" "mutex_inv K None {} (woken t WaitOk r ?k1)"
      using woken_ok[OF K I1(1,2) W(1) wt1 event_group_waiter(3)[OF I1(1) mem1]] by metis
    let ?k = "woken t WaitOk r ?k1"
    have kinv: "kinv K ?k" by (rule kinv_woken[OF O(1) wt1 r(2,3)])
    have fr: "frame k ?k" by (rule frame_trans[OF O(2) frame_woken[OF wt1]])
    have rm: "remove1 t (front @ t # us) = front @ us" using d by (auto simp: remove1_append)
    have "set_waits ?q (front @ us) ?k1 = unlink_wait t ?k1"
      using W(3) Cons.prems(2) rm by (simp add: unlink_wait_def)
    then have step: "wake_up_loop K ?q set_cond (t # us) (v, any) k = wake_up_loop K ?q set_cond us (?v, True) ?k"
      using W(3) True r(1) Cons.prems(2) rm by (simp add: p set_cond_eq Let_def remove_wait_def)
    have "waits_of ?k ?q = front @ us" using Cons.prems(2) rm W(3) by simp
    moreover have "\<forall>u\<in>set front. event_waiter_ok ?v (payload (wait_objs ?k u))"
      using Cons.prems(3) d event_waiter_fewer[of ?v v] by auto
    moreover have eq: "map (\<lambda>t. (t, payload (wait_objs ?k t))) us = map (\<lambda>t. (t, payload (wait_objs k t))) us"
      using d by simp
    ultimately obtain k' where k': "wake_up_loop K ?q set_cond us (?v, True) ?k = Some ((rest, True), k')"
      "kinv K k'" "frame ?k k'" "waits_of k' ?q = front @ filter (\<lambda>t. t \<notin> fst ` set served') us"
      "\<forall>t\<in>set (waits_of k' ?q). event_waiter_ok rest (payload (wait_objs k' t))"
      "\<forall>t. t \<notin> set us \<longrightarrow> wait_objs k' t = wait_objs ?k t"
      "\<forall>(t, b)\<in>set served'. orig_bits (payload (wait_objs k' t)) = b"
      "tasks k' = (\<lambda>u. if u \<in> fst ` set served' then (tasks ?k u)\<lparr>current_wait := None, wait_result := WaitOk, st := Ready\<rparr>
                       else tasks ?k u)"
      using Cons.IH[OF kinv _ _ s(1)[folded eq], of front True] by auto
    have t: "t \<notin> set us" "t \<notin> fst ` set served'"
      using serve_subset[of ?v "map (\<lambda>t. (t, payload (wait_objs k t))) us"] s(1)[symmetric] d by auto
    then have "wait_objs k' t = (wait_objs k t)\<lparr>payload := EventGroupBits req flags v\<rparr>" using k'(6) by simp
    moreover have "filter (\<lambda>u. u \<notin> fst ` set served') us = filter (\<lambda>u. u \<notin> fst ` set served) us"
      using t(1) s(2) by (intro filter_cong) auto
    moreover have "\<forall>u. u \<notin> set (t # us) \<longrightarrow> wait_objs k' u = wait_objs k u" using k'(6) by simp
    moreover have "tasks k' = (\<lambda>u. if u \<in> fst ` set served then (tasks k u)\<lparr>current_wait := None, wait_result := WaitOk, st := Ready\<rparr>
                       else tasks k u)"
      unfolding k'(8) s(2) using t(2) by (auto simp: fun_eq_iff)
    ultimately show ?thesis
      using k' frame_trans[OF fr k'(3)] unfolding step by (intro exI[of _ k']) (simp add: s(2))
  qed
qed

text \<open>\<^verbatim>\<open>set\<close>: the waiters that are served, the ones that stay, and the bits that are left.\<close>

lemma event_set_ok:
  assumes K: "kcfg_ok K" and inv: "kinv K k" and i: "i < N_EVENT_GROUPS K"
    and s: "(served, rest) = serve (group_bits (event_groups k i) OR added) (waiters k i)"
    and new: "(group_bits (event_groups k i) OR added) \<noteq> group_bits (event_groups k i)"
  obtains k' where "event_set K i added k = Some k'" "kinv K k'" "frame k k'"
    "preempt_inv k \<Longrightarrow> preempt_inv k'" "group_bits (event_groups k' i) = rest"
    "waits_of k' (EventGroupQ i) = filter (\<lambda>t. t \<notin> fst ` set served) (waits_of k (EventGroupQ i))"
    "\<forall>(t, b)\<in>set served. orig_bits (payload (wait_objs k' t)) = b"
    "tasks k' = (\<lambda>t. if t \<in> fst ` set served then (tasks k t)\<lparr>current_wait := None, wait_result := WaitOk, st := Ready\<rparr>
                     else tasks k t)"
proof -
  let ?q = "EventGroupQ i" and ?v = "group_bits (event_groups k i) OR added"
  have w: "waits_of k ?q = [] @ waits_of k ?q" by simp
  obtain k1 where k1: "wake_up_loop K ?q set_cond (waits_of k ?q) (?v, False) k = Some ((rest, served \<noteq> []), k1)"
    "kinv K k1" "frame k k1" "served = [] \<longrightarrow> preempt_inv k1 = preempt_inv k"
    "waits_of k1 ?q = filter (\<lambda>t. t \<notin> fst ` set served) (waits_of k ?q)"
    "\<forall>t\<in>set (waits_of k1 ?q). event_waiter_ok rest (payload (wait_objs k1 t))"
    "\<forall>(t, b)\<in>set served. orig_bits (payload (wait_objs k1 t)) = b"
    "tasks k1 = (\<lambda>t. if t \<in> fst ` set served then (tasks k t)\<lparr>current_wait := None, wait_result := WaitOk, st := Ready\<rparr>
                     else tasks k t)"
    using event_loop_ok[OF K i inv w, of ?v served rest False] s[unfolded waiters_def] by auto
  let ?k = "upd_event_group i (\<lambda>e. e\<lparr>group_bits := rest\<rparr>) k1"
  have O: "kinv K ?k" "frame k1 ?k" "preempt_inv ?k = preempt_inv k1"
    by (rule event_bits_ok[OF k1(2)]; use k1(6) in blast)+
  have all: "wake_up_all_conditional K ?q set_cond (?v, False) k = Some ((rest, served \<noteq> []), k1)"
    using k1(1) by (simp add: wake_up_all_conditional_def)
  have fr: "frame k ?k" by (rule frame_trans[OF k1(3) O(2)])
  show thesis
  proof (cases "served = []")
    case True
    then have "event_set K i added k = Some ?k" using all new by (simp add: event_set_def Let_def)
    then show thesis using k1 O fr True by (intro that[of ?k]) simp_all
  next
    case False
    obtain y where y: "unlock_cpu_and_check_preemption K ?k = Some (?k\<lparr>cpu_lock := False, yield_pending := y\<rparr>)"
      "kinv K (?k\<lparr>cpu_lock := False, yield_pending := y\<rparr>)"
      "preempt_inv (?k\<lparr>cpu_lock := False, yield_pending := y\<rparr>)"
      "frame ?k (?k\<lparr>cpu_lock := False, yield_pending := y\<rparr>)"
      using unlock_check_ok[OF K O(1)] by metis
    have "event_set K i added k = Some (?k\<lparr>cpu_lock := False, yield_pending := y\<rparr>)"
      using all new y(1) False by (simp add: event_set_def Let_def)
    then show thesis using k1 y frame_trans[OF fr y(4)]
      by (intro that[of "?k\<lparr>cpu_lock := False, yield_pending := y\<rparr>"]) simp_all
  qed
qed

section \<open>The system calls\<close>

definition event_group_id_ok :: "kcfg \<Rightarrow> nat \<Rightarrow> bool" where
  "event_group_id_ok K this \<longleftrightarrow> 0 < this \<and> this \<le> N_EVENT_GROUPS K"

lemma event_group_id_index:
  "event_group_id_ok K this \<Longrightarrow> event_group_index K this = Some (this - 1) \<and> this - 1 < N_EVENT_GROUPS K"
  by (auto simp: event_group_id_ok_def event_group_index_def pool_index_Some)

lemma event_set_call_ok:
  assumes K: "kcfg_ok K" and inv: "kinv K k" and i: "i < N_EVENT_GROUPS K"
  shows "call_ok K k (do { k \<leftarrow> event_set K i added k; Some (Ok (), k) })"
proof (cases "(group_bits (event_groups k i) OR added) = group_bits (event_groups k i)")
  case True
  then show ?thesis using inv by (simp add: event_set_def Let_def call_ok_same)
next
  case False
  obtain served rest where s: "(served, rest) = serve (group_bits (event_groups k i) OR added) (waiters k i)"
    by (metis surj_pair)
  show ?thesis using event_set_ok[OF K inv i s False] by (metis (no_types, lifting) bind.bind_lunit call_okI ret.distinct(3))
qed

lemma event_group_calls_ok:
  assumes K: "kcfg_ok K" and inv: "kinv K k" and c: "caller_ok k" and i: "event_group_id_ok K this"
  shows "call_ok K k (raw_event_group_set K this req k)" "call_ok K k (raw_event_group_clear K this req k)"
    "call_ok K k (raw_event_group_get K this k)" "call_ok K k (raw_event_group_wait K this req flags k)"
    "call_ok K k (raw_event_group_wait_timeout K this req flags d k)"
    "call_ok K k (raw_event_group_poll K this req flags k)"
proof -
  let ?k = "k\<lparr>cpu_lock := True\<rparr>" and ?i = "this - 1"
  have I: "kinv K ?k" and C: "caller_ok ?k" using inv c by simp_all
  note i' = event_group_id_index[OF i]
  show "call_ok K k (raw_event_group_set K this req k)"
    unfolding raw_event_group_set_def
    by (rule with_cpu_lock_ok[OF inv]) (use event_set_call_ok[OF K I] i' in simp)
  show "call_ok K k (raw_event_group_clear K this req k)"
    unfolding raw_event_group_clear_def
  proof (rule with_cpu_lock_ok[OF inv])
    let ?v = "group_bits (event_groups ?k ?i) AND NOT req"
    have "fewer_bits ?v (group_bits (event_groups ?k ?i))" by simp
    moreover have "upd_event_group ?i (\<lambda>e. e\<lparr>group_bits := group_bits e AND NOT req\<rparr>) ?k =
        upd_event_group ?i (\<lambda>e. e\<lparr>group_bits := ?v\<rparr>) ?k" by (simp add: upd_event_group_def)
    ultimately show "call_ok K ?k (do { i \<leftarrow> event_group_index K this;
        Some (Ok (), upd_event_group i (\<lambda>e. e\<lparr>group_bits := group_bits e AND NOT req\<rparr>) ?k) })"
      using event_bits_fewer_ok[OF I, of ?v ?i] i' by (auto intro!: call_okI)
  qed
  show "call_ok K k (raw_event_group_get K this k)"
    unfolding raw_event_group_get_def
    by (rule with_cpu_lock_ok[OF inv]) (use i' I in \<open>simp add: call_ok_same\<close>)
  show "call_ok K k (raw_event_group_wait K this req flags k)"
    unfolding raw_event_group_wait_def
    by (rule with_cpu_lock_ok[OF inv]) (use event_wait_call_ok(1)[OF K I _ C] I i' in \<open>simp add: call_ok_same\<close>)
  show "call_ok K k (raw_event_group_wait_timeout K this req flags d k)"
  proof (cases "time32_from_duration d")
    case None
    then show ?thesis using inv by (simp add: raw_event_group_wait_timeout_def call_ok_same)
  next
    case (Some x)
    show ?thesis unfolding raw_event_group_wait_timeout_def Some option.case
      by (rule with_cpu_lock_ok[OF inv])
        (use event_wait_call_ok(2)[OF K I _ C] I i' time32_from_duration_max[OF Some] in \<open>simp add: call_ok_same\<close>)
  qed
  show "call_ok K k (raw_event_group_poll K this req flags k)"
    unfolding raw_event_group_poll_def
  proof (rule with_cpu_lock_ok[OF inv])
    let ?b = "group_bits (event_groups ?k ?i)"
    let ?v = "if flag_CLEAR flags then ?b AND NOT req else ?b"
    have "fewer_bits ?v ?b" by simp
    from event_bits_fewer_ok[OF I this]
    show "call_ok K ?k (do { i \<leftarrow> event_group_index K this; Some (event_poll i req flags ?k) })"
      using I i' by (cases "event_condition ?b req flags")
        (auto simp: event_poll_def event_group_poll_eq Let_def call_ok_same intro!: call_okI)
  qed
qed

end
