(* ===== verification/Mutex_Chains.thy ===== *)
theory Mutex_Chains
  imports Mutex
begin

text \<open>
  The chain of the mutexes a task holds: the loops over it, and how locking and releasing a mutex
  change it.  These are the facts behind the immediate ceiling protocol.
\<close>

section \<open>Chains\<close>

lemma chain_cong:
  assumes "\<And>m. m \<in> set ms \<Longrightarrow> nxt' m = nxt m"
  shows "chain nxt' start ms = chain nxt start ms"
  using assms by (induction ms arbitrary: start) auto

lemma chain_Cons: "chain nxt (Some m) ms \<longleftrightarrow> (\<exists>ms'. ms = m # ms' \<and> chain nxt (nxt m) ms')"
  by (cases ms) auto

lemma chain_None: "chain nxt None ms \<longleftrightarrow> ms = []"
  by (cases ms) auto

definition chain_ceilings :: "kernel \<Rightarrow> nat list \<Rightarrow> nat set" where
  "chain_ceilings k ms = {c. \<exists>m\<in>set ms. ceiling (mutexes k m) = Some c}"

lemma finite_chain_ceilings [simp]: "finite (chain_ceilings k ms)"
proof -
  have "chain_ceilings k ms \<subseteq> the ` (\<lambda>m. ceiling (mutexes k m)) ` set ms"
    by (force simp: chain_ceilings_def)
  then show ?thesis by (rule finite_subset) simp
qed

lemma chain_ceilings_Cons [simp]:
  "chain_ceilings k (m # ms) = set_option (ceiling (mutexes k m)) \<union> chain_ceilings k ms"
  by (auto simp: chain_ceilings_def)

lemma chain_ceilings_Nil [simp]: "chain_ceilings k [] = {}"
  by (simp add: chain_ceilings_def)

lemma effective_priority_loop_eq:
  assumes "chain (\<lambda>m. prev_mutex_held (mutexes k m)) start ms" "length ms \<le> fuel"
  shows "effective_priority_loop k fuel start pri = Some (Min (insert pri (chain_ceilings k ms)))"
  using assms
proof (induction ms arbitrary: start fuel pri)
  case Nil
  then show ?case by simp
next
  case (Cons m ms)
  then obtain f where f: "fuel = Suc f" "length ms \<le> f" "start = Some m" by (cases fuel) auto
  have "effective_priority_loop k fuel start pri =
      Some (Min (insert (case ceiling (mutexes k m) of None \<Rightarrow> pri | Some c \<Rightarrow> min pri c) (chain_ceilings k ms)))"
    using Cons.IH[OF _ f(2)] Cons.prems f by simp
  also have "Min (insert (case ceiling (mutexes k m) of None \<Rightarrow> pri | Some c \<Rightarrow> min pri c) (chain_ceilings k ms)) =
      Min (insert pri (chain_ceilings k (m # ms)))"
  proof (cases "ceiling (mutexes k m)")
    case (Some c)
    have "Min (insert (min pri c) S) = Min (insert pri (insert c S))" if "finite S" for S
      using that by (cases "S = {}") (simp_all add: min.assoc)
    then show ?thesis using Some by simp
  qed simp
  finally show ?case .
qed

lemma held_mutexes_allow_loop_eq:
  assumes "chain (\<lambda>m. prev_mutex_held (mutexes k m)) start ms" "length ms \<le> fuel"
  shows "held_mutexes_allow_loop k fuel start p = Some (\<forall>m\<in>set ms. ceiling_allows (mutexes k m) p)"
  using assms
proof (induction ms arbitrary: start fuel)
  case (Cons m ms)
  then obtain f where "fuel = Suc f" "length ms \<le> f" "start = Some m" by (cases fuel) auto
  then show ?case using Cons by (simp add: does_held_mutex_allow_new_task_base_priority_def)
qed simp

section \<open>The held mutexes\<close>

lemma held_by_mem: "m \<in> held_by K D k t \<longleftrightarrow> m < N_MUTEXES K \<and> m \<notin> D \<and> owning_task (mutexes k m) = Some t"
  by (simp add: held_by_def)

lemma ceilings_held_alt: "ceilings_held K D k t = {c. \<exists>m\<in>held_by K D k t. ceiling (mutexes k m) = Some c}"
  by (auto simp: ceilings_held_def held_by_def)

lemma finite_held_by [simp]: "finite (held_by K D k t)"
  by (simp add: held_by_def)

lemma finite_ceilings_held [simp]: "finite (ceilings_held K D k t)"
proof -
  have "ceilings_held K D k t \<subseteq> the ` (\<lambda>m. ceiling (mutexes k m)) ` held_by K D k t"
    by (force simp: ceilings_held_alt)
  then show ?thesis by (rule finite_subset) simp
qed

lemma held_chain:
  assumes "chains_ok K X D k" "t < N_TASKS K"
  obtains ms where "chain (\<lambda>m. prev_mutex_held (mutexes k m)) (chain_head X k t) ms" "distinct ms"
    "set ms = held_by K D k t" "length ms \<le> N_MUTEXES K" "chain_ceilings k ms = ceilings_held K D k t"
proof -
  obtain ms where ms: "chain (\<lambda>m. prev_mutex_held (mutexes k m)) (chain_head X k t) ms" "distinct ms"
    "set ms = held_by K D k t"
    using assms unfolding chains_ok_def by blast
  have "length ms = card (set ms)" using ms(2) by (rule distinct_card[symmetric])
  also have "\<dots> \<le> card {..<N_MUTEXES K}" by (rule card_mono) (auto simp: ms(3) held_by_def)
  finally have "length ms \<le> N_MUTEXES K" by simp
  then show thesis using ms that[of ms] by (simp add: chain_ceilings_def ceilings_held_alt)
qed

lemma evaluate_priority_ok:
  assumes "chains_ok K X D k" "t < N_TASKS K" "chain_head X k t = last_mutex_held (tasks k t)"
  shows "evaluate_task_effective_priority K t b k = Some (documented_priority K D k t b)"
proof -
  obtain ms where "chain (\<lambda>m. prev_mutex_held (mutexes k m)) (chain_head X k t) ms"
    "length ms \<le> N_MUTEXES K" "chain_ceilings k ms = ceilings_held K D k t"
    using held_chain[OF assms(1,2)] by metis
  then show ?thesis
    using effective_priority_loop_eq[of k "last_mutex_held (tasks k t)" ms "N_MUTEXES K" b] assms(3)
    by (simp add: evaluate_task_effective_priority_def documented_priority_def)
qed

lemma held_mutexes_allow_ok:
  assumes "chains_ok K X D k" "t < N_TASKS K" "chain_head X k t = last_mutex_held (tasks k t)"
  shows "do_held_mutexes_allow_new_task_base_priority K t p k = Some (\<forall>c\<in>ceilings_held K D k t. c \<le> p)"
proof -
  obtain ms where ms: "chain (\<lambda>m. prev_mutex_held (mutexes k m)) (chain_head X k t) ms"
    "length ms \<le> N_MUTEXES K" "chain_ceilings k ms = ceilings_held K D k t"
    using held_chain[OF assms(1,2)] by metis
  have "(\<forall>m\<in>set ms. ceiling_allows (mutexes k m) p) = (\<forall>c\<in>chain_ceilings k ms. c \<le> p)"
    by (auto simp: ceiling_allows_def chain_ceilings_def not_less split: option.split)
  then show ?thesis
    using held_mutexes_allow_loop_eq[of k "last_mutex_held (tasks k t)" ms "N_MUTEXES K" p] ms assms(3)
    by (simp add: do_held_mutexes_allow_new_task_base_priority_def)
qed

lemma documented_priority_le: "documented_priority K D k t b \<le> b"
  by (simp add: documented_priority_def)

lemma documented_priority_lt:
  "b < L \<Longrightarrow> documented_priority K D k t b < L"
  by (rule le_less_trans[OF documented_priority_le])

section \<open>Changing the control block of a task\<close>

text \<open>Fields of a task that the scheduler and the wait queues do not depend on.\<close>

lemma retask_parts:
  assumes inv: "base_inv K k"
    and c: "st (f (tasks k t)) = st (tasks k t)" "attr_priority (f (tasks k t)) = attr_priority (tasks k t)"
      "current_wait (f (tasks k t)) = current_wait (tasks k t)" "wait_result (f (tasks k t)) = wait_result (tasks k t)"
      "blocked_in (f (tasks k t)) = blocked_in (tasks k t)"
    and p: "t < N_TASKS K \<Longrightarrow> base_priority (f (tasks k t)) < PRIORITY_LEVELS K \<and> effective_priority (f (tasks k t)) < PRIORITY_LEVELS K"
    and m: "st (tasks k t) \<in> {Dormant, PendingActivation} \<Longrightarrow> last_mutex_held (f (tasks k t)) = None"
  shows "pri_inv K (upd_task t f k)" "run_inv K (upd_task t f k)" "wait_inv K (upd_task t f k)"
    "sem_inv K (upd_task t f k)" "event_inv K (upd_task t f k)" "timer_inv K (upd_task t f k)"
    "(\<forall>q. t \<in> set (waits_of k q) \<longrightarrow> order (wait_queue_of k q) = TaskPriority \<longrightarrow>
        sorted (map ((eff k)(t := effective_priority (f (tasks k t)))) (waits_of k q))) \<Longrightarrow> queue_inv K (upd_task t f k)"
    "st (tasks k t) \<noteq> Ready \<or> effective_priority (f (tasks k t)) = eff k t \<Longrightarrow> ready_inv K (upd_task t f k)"
proof -
  note I = base_invD[OF inv]
  let ?k = "upd_task t f k"
  have eff: "eff ?k = (eff k)(t := effective_priority (f (tasks k t)))" by auto
  have st: "st (tasks ?k u) = st (tasks k u)" for u using c by simp
  show "st (tasks k t) \<noteq> Ready \<or> effective_priority (f (tasks k t)) = eff k t \<Longrightarrow> ready_inv K ?k"
    using I(1) by (auto simp: ready_inv_def c(1))
  show "pri_inv K ?k" using I(2) p c by (simp add: pri_inv_def)
  show "run_inv K ?k" using I(3) unfolding run_inv_def unfolding st unfolding upd_task_simps .
  show "wait_inv K ?k"
    unfolding wait_inv_def
  proof (intro allI impI)
    fix u
    assume "u < N_TASKS K"
    then have w: "task_wait_ok K (tasks k u) (wait_objs k u) u" using I(4) by (simp add: wait_inv_def)
    show "task_wait_ok K (tasks ?k u) (wait_objs ?k u) u"
    proof (cases "u = t")
      case True
      then show ?thesis using w m unfolding task_wait_ok_def by (simp only: upd_task_simps fun_upd_same c) blast
    next
      case False
      then show ?thesis using w by simp
    qed
  qed
  show "sem_inv K ?k" "event_inv K ?k" using I(6,7) by (simp_all add: sem_inv_def event_inv_def)
  show "timer_inv K ?k" using I(8) c by (auto simp: timer_inv_def linked_ok_def split: timeout_ref.splits)
  assume e: "\<forall>q. t \<in> set (waits_of k q) \<longrightarrow> order (wait_queue_of k q) = TaskPriority \<longrightarrow>
        sorted (map ((eff k)(t := effective_priority (f (tasks k t)))) (waits_of k q))"
  show "queue_inv K ?k"
    unfolding queue_inv_def st eff
  proof (intro allI conjI impI)
    fix q
    show "distinct (waits_of ?k q)" using I(5) by (simp add: queue_inv_def)
    show "u \<in> set (waits_of ?k q) \<longleftrightarrow> u < N_TASKS K \<and> st (tasks k u) = Waiting \<and> wait_in (wait_objs ?k u) = Some q" for u
      using queue_inv_mem[OF I(5)] by simp
    assume "order (wait_queue_of ?k q) = TaskPriority"
    then have o: "order (wait_queue_of k q) = TaskPriority" by simp
    then have s: "sorted (map (eff k) (waits_of k q))" using I(5) by (simp add: queue_inv_def)
    show "sorted (map ((eff k)(t := effective_priority (f (tasks k t)))) (waits_of ?k q))"
    proof (cases "t \<in> set (waits_of k q)")
      case True
      then show ?thesis using e o by simp
    next
      case False
      then show ?thesis unfolding upd_task_simps by (intro sorted_map_cong_set[OF s]) auto
    qed
  qed
qed

lemma retask_base_inv:
  assumes inv: "base_inv K k"
    and c: "st (f (tasks k t)) = st (tasks k t)" "attr_priority (f (tasks k t)) = attr_priority (tasks k t)"
      "current_wait (f (tasks k t)) = current_wait (tasks k t)" "wait_result (f (tasks k t)) = wait_result (tasks k t)"
      "blocked_in (f (tasks k t)) = blocked_in (tasks k t)"
    and p: "t < N_TASKS K \<Longrightarrow> base_priority (f (tasks k t)) < PRIORITY_LEVELS K \<and> effective_priority (f (tasks k t)) < PRIORITY_LEVELS K"
    and m: "st (tasks k t) \<in> {Dormant, PendingActivation} \<Longrightarrow> last_mutex_held (f (tasks k t)) = None"
    and e: "effective_priority (f (tasks k t)) = eff k t \<or>
      st (tasks k t) \<noteq> Ready \<and> (\<forall>q. t \<in> set (waits_of k q) \<longrightarrow> order (wait_queue_of k q) = TaskPriority \<longrightarrow>
        sorted (map ((eff k)(t := effective_priority (f (tasks k t)))) (waits_of k q)))"
  shows "base_inv K (upd_task t f k)"
proof -
  note P = retask_parts[where f = f and t = t, OF inv c p m]
  have "sorted (map (eff k) (waits_of k q))" if "order (wait_queue_of k q) = TaskPriority" for q
    using base_invD(5)[OF inv] that by (simp add: queue_inv_def)
  then have "\<forall>q. t \<in> set (waits_of k q) \<longrightarrow> order (wait_queue_of k q) = TaskPriority \<longrightarrow>
        sorted (map ((eff k)(t := effective_priority (f (tasks k t)))) (waits_of k q))"
    using e by (auto simp: fun_upd_idem)
  then show ?thesis using P e by (auto simp: base_inv_def)
qed

lemma remutex_base_inv:
  assumes inv: "base_inv K k"
    and m: "mutex_queue (f (mutexes k m)) = mutex_queue (mutexes k m)" "ceiling (f (mutexes k m)) = ceiling (mutexes k m)"
  shows "base_inv K (upd_mutex m f k)"
proof -
  let ?k = "upd_mutex m f k"
  have f: "wait_queue_of ?k = wait_queue_of k"
    "ceiling (mutexes ?k i) = ceiling (mutexes k i)" for i
    using m by (auto simp: fun_eq_iff)
  show ?thesis
    using inv unfolding base_inv_def ready_inv_def pri_inv_def run_inv_def wait_inv_def
      queue_inv_def sem_inv_def event_inv_def timer_inv_def linked_ok_def
    unfolding f unfolding upd_mutex_simps .
qed

end
