(* ===== verification/Mutex_Contract.thy ===== *)
theory Mutex_Contract
  imports Mutex_Chains
begin

text \<open>
  Locking, releasing and abandoning mutexes keeps the chains, the owners and the priorities of the
  immediate ceiling protocol; the system calls on mutexes keep the invariants of the kernel.
\<close>

section \<open>Taking a mutex\<close>

definition locked :: "nat \<Rightarrow> nat \<Rightarrow> kernel \<Rightarrow> kernel" where
  "locked m t k =
     upd_task t (\<lambda>c. c\<lparr>last_mutex_held := Some m, effective_priority :=
         (case ceiling (mutexes k m) of None \<Rightarrow> effective_priority c | Some x \<Rightarrow> min (effective_priority c) x)\<rparr>)
       (upd_mutex m (\<lambda>c. c\<lparr>owning_task := Some t, prev_mutex_held := last_mutex_held (tasks k t)\<rparr>) k)"

lemma lock_core_eq:
  "lock_core m t k = guard (st (tasks k t) = Running \<or> st (tasks k t) = Waiting) (Some (locked m t k))"
  by (cases "ceiling (mutexes k m)") (simp_all add: lock_core_def locked_def Let_def guard_def upd_task_def upd_mutex_def)

lemma locked_simps [simp]:
  "running_task (locked m t k) = running_task k" "task_ready_queue (locked m t k) = task_ready_queue k"
  "priority_boost (locked m t k) = priority_boost k" "tk (locked m t k) = tk k"
  "semaphores (locked m t k) = semaphores k" "event_groups (locked m t k) = event_groups k"
  "timers (locked m t k) = timers k" "wait_objs (locked m t k) = wait_objs k"
  "cpu_lock (locked m t k) = cpu_lock k" "task_context (locked m t k) = task_context k"
  "yield_pending (locked m t k) = yield_pending k" "scheduler_active (locked m t k) = scheduler_active k"
  "wait_queue_of (locked m t k) q = wait_queue_of k q"
  "st (tasks (locked m t k) u) = st (tasks k u)" "base_priority (tasks (locked m t k) u) = base_priority (tasks k u)"
  "blocked_in (tasks (locked m t k) u) = blocked_in (tasks k u)"
  "wait_result (tasks (locked m t k) u) = wait_result (tasks k u)"
  "ceiling (mutexes (locked m t k) x) = ceiling (mutexes k x)"
  "inconsistent (mutexes (locked m t k) x) = inconsistent (mutexes k x)"
  "owning_task (mutexes (locked m t k) x) = (if x = m then Some t else owning_task (mutexes k x))"
  "prev_mutex_held (mutexes (locked m t k) x) =
     (if x = m then last_mutex_held (tasks k t) else prev_mutex_held (mutexes k x))"
  "last_mutex_held (tasks (locked m t k) u) = (if u = t then Some m else last_mutex_held (tasks k u))"
  "eff (locked m t k) u = (if u = t then (case ceiling (mutexes k m) of None \<Rightarrow> eff k t | Some x \<Rightarrow> min (eff k t) x) else eff k u)"
  by (simp_all add: locked_def split: option.split) (simp_all add: upd_task_def upd_mutex_def)

lemma locked_other [simp]: "u \<noteq> t \<Longrightarrow> tasks (locked m t k) u = tasks k u"
  by (simp add: locked_def)

lemma sorted_head_lower:
  assumes "sorted (map f (t # ws))" "distinct (t # ws)" "p \<le> f t"
  shows "sorted (map (f(t := p)) (t # ws))"
proof -
  have "map (f(t := p)) (t # ws) = p # map f ws" using assms(2) by simp
  then show ?thesis using assms(1,3) by (simp only: list.map sorted_simps) (auto intro: order_trans)
qed

lemma locked_base_inv:
  assumes inv: "base_inv K k" and t: "t < N_TASKS K"
    and s: "st (tasks k t) = Running \<or> (st (tasks k t) = Waiting \<and> (\<exists>ws. waits_of k (MutexQ m) = t # ws))"
  shows "base_inv K (locked m t k)"
proof -
  note I = base_invD[OF inv]
  let ?p = "case ceiling (mutexes k m) of None \<Rightarrow> eff k t | Some x \<Rightarrow> min (eff k t) x"
  let ?k1 = "upd_mutex m (\<lambda>c. c\<lparr>owning_task := Some t, prev_mutex_held := last_mutex_held (tasks k t)\<rparr>) k"
  have b1: "base_inv K ?k1" by (rule remutex_base_inv[OF inv]) simp_all
  have p: "?p \<le> eff k t" by (simp split: option.split)
  then have pL: "?p < PRIORITY_LEVELS K" using I(2) t by (auto simp: pri_inv_def intro: le_less_trans)
  have q1: "wait_queue_of ?k1 = wait_queue_of k" by (simp add: fun_eq_iff)
  define f :: "task_cb \<Rightarrow> task_cb" where "f = (\<lambda>c. c\<lparr>last_mutex_held := Some m, effective_priority :=
      (case ceiling (mutexes k m) of None \<Rightarrow> effective_priority c | Some x \<Rightarrow> min (effective_priority c) x)\<rparr>)"
  have fp: "effective_priority (f (tasks ?k1 t)) = ?p" and eff1: "eff ?k1 u = eff k u" for u
    by (auto simp: f_def split: option.split)
  have "base_inv K (upd_task t f ?k1)"
  proof (rule retask_base_inv[OF b1], unfold q1 fp eff1)
    show "?p = eff k t \<or> st (tasks ?k1 t) \<noteq> Ready \<and> (\<forall>q. t \<in> set (waits_of k q) \<longrightarrow>
        order (wait_queue_of k q) = TaskPriority \<longrightarrow> sorted (map ((eff k)(t := ?p)) (waits_of k q)))"
    proof (rule disjI2, intro conjI allI impI)
      show "st (tasks ?k1 t) \<noteq> Ready" using s by auto
      fix q
      assume tq: "t \<in> set (waits_of k q)" and o: "order (wait_queue_of k q) = TaskPriority"
      have w: "st (tasks k t) = Waiting" "wait_in (wait_objs k t) = Some q"
        using wait_queue_member[OF I(5) tq] by blast+
      obtain ws where ws: "waits_of k (MutexQ m) = t # ws" using s w(1) by auto
      then have "wait_in (wait_objs k t) = Some (MutexQ m)" using wait_queue_member(3)[OF I(5), of t "MutexQ m"] by simp
      then have q: "q = MutexQ m" using w(2) by simp
      have "distinct (t # ws)" "sorted (map (eff k) (t # ws))"
        using I(5) ws o unfolding q queue_inv_def by metis+
      then show "sorted (map ((eff k)(t := ?p)) (waits_of k q))" unfolding q ws using p by (intro sorted_head_lower)
    qed
  qed (use I(2) t pL s in \<open>auto simp: pri_inv_def f_def\<close>)
  then show ?thesis unfolding locked_def f_def .
qed

text \<open>The chains, owners and priorities; \<open>m\<close> was free, or is being handed over.\<close>

lemma locked_held:
  assumes "m < N_MUTEXES K" "m \<in> D \<or> owning_task (mutexes k m) = None"
  shows "held_by K (D - {m}) (locked m t k) u = (if u = t then insert m (held_by K D k u) else held_by K D k u)"
    "m \<notin> held_by K D k u"
  using assms by (auto simp: held_by_def)

lemma locked_chains:
  assumes inv: "chains_ok K X D k" and m: "m < N_MUTEXES K" "m \<in> D \<or> owning_task (mutexes k m) = None"
    and X: "t \<notin> fst ` set_option X"
  shows "chains_ok K X (D - {m}) (locked m t k)"
  unfolding chains_ok_def
proof (intro allI impI)
  fix u
  assume "u < N_TASKS K"
  then obtain ms where ms: "chain (\<lambda>m. prev_mutex_held (mutexes k m)) (chain_head X k u) ms" "distinct ms"
    "set ms = held_by K D k u"
    using inv unfolding chains_ok_def by blast
  note H = locked_held[OF m]
  have "m \<notin> set ms" using H(2)[of u] ms(3) by simp
  then have c: "chain (\<lambda>x. prev_mutex_held (mutexes (locked m t k) x)) s ms = chain (\<lambda>m. prev_mutex_held (mutexes k m)) s ms" for s
    by (intro chain_cong) auto
  have head: "chain_head X (locked m t k) u = (if u = t then Some m else chain_head X k u)"
    using X by (auto simp: chain_head_def split: option.split)
  show "\<exists>ms. chain (\<lambda>m'. prev_mutex_held (mutexes (locked m t k) m')) (chain_head X (locked m t k) u) ms \<and>
      distinct ms \<and> set ms = held_by K (D - {m}) (locked m t k) u"
  proof (cases "u = t")
    case True
    have "chain_head X k t = last_mutex_held (tasks k t)"
      using X by (auto simp: chain_head_def split: option.split)
    then show ?thesis using True ms c head \<open>m \<notin> set ms\<close> by (intro exI[of _ "m # ms"]) (simp add: H(1))
  next
    case False
    then show ?thesis using ms c head by (intro exI[of _ ms]) (simp add: H(1))
  qed
qed

lemma locked_priorities:
  assumes inv: "priorities_ok K X D k" and m: "m < N_MUTEXES K" "m \<in> D \<or> owning_task (mutexes k m) = None"
    and X: "t \<notin> fst ` set_option X" and live: "live (st (tasks k t))"
  shows "priorities_ok K X (D - {m}) (locked m t k)"
  unfolding priorities_ok_def
proof (intro allI impI)
  fix u
  assume u: "u < N_TASKS K" "live (st (tasks (locked m t k) u))" "u \<notin> fst ` set_option X"
  have H: "ceilings_held K (D - {m}) (locked m t k) u =
      (if u = t then set_option (ceiling (mutexes k m)) \<union> ceilings_held K D k u else ceilings_held K D k u)"
    unfolding ceilings_held_alt locked_held(1)[OF m] by auto
  have old: "eff k u = documented_priority K D k u (base_priority (tasks k u))"
    using inv u by (simp add: priorities_ok_def)
  show "eff (locked m t k) u = documented_priority K (D - {m}) (locked m t k) u (base_priority (tasks (locked m t k) u))"
  proof (cases "u = t")
    case True
    have "Min (insert b (insert c S)) = min (Min (insert b S)) c" if "finite S" for b c :: nat and S
      using that by (cases "S = {}") (simp_all add: ac_simps)
    then show ?thesis
      using True old H by (cases "ceiling (mutexes k m)") (simp_all add: documented_priority_def)
  next
    case False
    then show ?thesis using old H by (simp add: documented_priority_def)
  qed
qed

lemma locked_owners:
  assumes inv: "owners_ok K k" and t: "t < N_TASKS K" "live (st (tasks k t))"
    and c: "\<forall>c. ceiling (mutexes k m) = Some c \<longrightarrow> c \<le> base_priority (tasks k t)"
  shows "owners_ok K (locked m t k)"
  using assms by (auto simp: owners_ok_def)

section \<open>Locking a free mutex\<close>

lemma mutex_invD:
  assumes "mutex_inv K X D k"
  shows "chains_ok K X D k" "owners_ok K k" "priorities_ok K X D k" "mutex_waits_ok K k"
  using assms by (simp_all add: mutex_inv_def)

lemma locked_free_ok:
  assumes inv: "kinv K k" and m: "m < N_MUTEXES K" "owning_task (mutexes k m) = None"
    and t: "running_task k = Some t" "st (tasks k t) = Running" "blocked_in (tasks k t) = None"
    and c: "\<forall>c. ceiling (mutexes k m) = Some c \<longrightarrow> c \<le> base_priority (tasks k t)"
  shows "kinv K (locked m t k)" "frame k (locked m t k)" "preempt_inv k \<Longrightarrow> preempt_inv (locked m t k)"
proof -
  note I = kinvD[OF inv] and M = mutex_invD[OF kinvD(2)[OF inv]]
  have tN: "t < N_TASKS K" using run_inv_state[OF I(7) t(1)] by blast
  have live: "live (st (tasks k t))" using t(2) by (simp add: live_def)
  have "base_inv K (locked m t k)" using locked_base_inv[OF I(1) tN] t(2) by blast
  moreover have "chains_ok K None {} (locked m t k)" using locked_chains[OF M(1) m(1), of t] m(2) by simp
  moreover have "priorities_ok K None {} (locked m t k)"
    using locked_priorities[OF M(3) m(1) _ _ live] m(2) by simp
  moreover have "owners_ok K (locked m t k)" by (rule locked_owners[OF M(2) tN live c])
  moreover have "mutex_waits_ok K (locked m t k)"
    using M(4) m(2) t(3) unfolding mutex_waits_ok_def by (auto; metis option.distinct(1))
  moreover have run: "running_task_is_running (locked m t k) = running_task_is_running k"
    using t by (simp add: running_task_is_running_def)
  ultimately show "kinv K (locked m t k)" using I(3,4) by (simp add: kinv_def mutex_inv_def boost_inv_def activated_def)
  show "frame k (locked m t k)" using run by (simp add: frame_def)
  show "preempt_inv k \<Longrightarrow> preempt_inv (locked m t k)"
    using t by (auto simp: preempt_inv_def prev_task_priority_def split: option.splits)
qed

section \<open>Releasing a mutex\<close>

text \<open>Taking the mutex \<open>m\<close> off the chain of its owner.\<close>

lemma released_chains:
  assumes inv: "chains_ok K X {} k" and t: "t < N_TASKS K" "chain_head X k t = Some m"
    and head: "chain_head X' k' t = prev_mutex_held (mutexes k m)"
      "\<And>u. u \<noteq> t \<Longrightarrow> chain_head X' k' u = chain_head X k u"
    and same: "\<And>x. prev_mutex_held (mutexes k' x) = prev_mutex_held (mutexes k x)"
      "\<And>x. owning_task (mutexes k' x) = owning_task (mutexes k x)"
  shows "chains_ok K X' {m} k'" "m < N_MUTEXES K" "owning_task (mutexes k m) = Some t"
proof -
  obtain ms where ms: "chain (\<lambda>m. prev_mutex_held (mutexes k m)) (Some m) ms" "distinct ms" "set ms = held_by K {} k t"
    using inv t unfolding chains_ok_def by metis
  then obtain ms' where ms': "ms = m # ms'" "chain (\<lambda>m. prev_mutex_held (mutexes k m)) (prev_mutex_held (mutexes k m)) ms'"
    by (auto simp: chain_Cons)
  then have "m \<in> held_by K {} k t" using ms(3) by auto
  then show m: "m < N_MUTEXES K" "owning_task (mutexes k m) = Some t" by (simp_all add: held_by_def)
  have held: "held_by K {m} k' u = held_by K {} k u - {m}" for u by (auto simp: held_by_def same)
  show "chains_ok K X' {m} k'"
    unfolding chains_ok_def same
  proof (intro allI impI)
    fix u
    assume u: "u < N_TASKS K"
    show "\<exists>ms. chain (\<lambda>m. prev_mutex_held (mutexes k m)) (chain_head X' k' u) ms \<and> distinct ms \<and> set ms = held_by K {m} k' u"
    proof (cases "u = t")
      case True
      then show ?thesis using ms ms' head(1) by (intro exI[of _ ms']) (auto simp: held)
    next
      case False
      have "held_by K {} k u - {m} = held_by K {} k u" using False m(2) by (auto simp: held_by_def)
      then show ?thesis using inv u head(2)[OF False] by (simp add: held chains_ok_def)
    qed
  qed
qed

lemma documented_other:
  assumes "owning_task (mutexes k m) = Some t" "u \<noteq> t"
    and "\<And>x. ceiling (mutexes k' x) = ceiling (mutexes k x)" "\<And>x. owning_task (mutexes k' x) = owning_task (mutexes k x)"
  shows "documented_priority K {m} k' u b = documented_priority K {} k u b"
proof -
  have "ceilings_held K {m} k' u = ceilings_held K {} k u"
    using assms by (auto simp: ceilings_held_def)
  then show ?thesis by (simp add: documented_priority_def)
qed

lemma woken_mutex_parts:
  assumes "st (tasks k t) = Waiting"
  shows "chains_ok K X D (woken t res q k) = chains_ok K X D k" "owners_ok K (woken t res q k) = owners_ok K k"
    "priorities_ok K X D (woken t res q k) = priorities_ok K X D k"
proof -
  have f: "held_by K D (woken t res q k) u = held_by K D k u"
    "documented_priority K D (woken t res q k) u b = documented_priority K D k u b"
    "live (st (tasks (woken t res q k) u)) = live (st (tasks k u))"
    "base_priority (tasks (woken t res q k) u) = base_priority (tasks k u)"
    "eff (woken t res q k) u = eff k u" for u b
    using assms by (simp_all add: held_by_def ceilings_held_def documented_priority_def live_def)
  show "chains_ok K X D (woken t res q k) = chains_ok K X D k" "owners_ok K (woken t res q k) = owners_ok K k"
    "priorities_ok K X D (woken t res q k) = priorities_ok K X D k"
    unfolding chains_ok_def owners_ok_def priorities_ok_def f by simp_all
qed

lemma mutex_wait_queued:
  assumes "base_inv K k" "u < N_TASKS K" "st (tasks k u) = Waiting" "blocked_in (tasks k u) = Some (MutexCall m, b)"
  shows "u \<in> set (waits_of k (MutexQ m))"
proof -
  note B = base_invD[OF assms(1)]
  obtain timed where w: "wait_in_ok K (wait_objs k u)" "blocked_in (tasks k u) = Some (call_of (payload (wait_objs k u)), timed)"
    using waiting_task[OF B(4) assms(2,3)] by metis
  then have "wait_in (wait_objs k u) = Some (MutexQ m)"
    using assms(4) by (auto simp: wait_in_ok_def call_of_def split: wait_payload.splits)
  then show ?thesis using queue_inv_mem[OF B(5)] assms(2,3) by simp
qed

definition mutex_wait_ok :: "kernel \<Rightarrow> nat \<Rightarrow> nat \<Rightarrow> bool" where
  "mutex_wait_ok k u x \<longleftrightarrow>
     (st (tasks k u) = Waiting \<longrightarrow> owning_task (mutexes k x) \<noteq> None \<and> owning_task (mutexes k x) \<noteq> Some u \<and>
        (\<forall>c. ceiling (mutexes k x) = Some c \<longrightarrow> c \<le> base_priority (tasks k u))) \<and>
     (st (tasks k u) \<noteq> Waiting \<longrightarrow> wait_result (tasks k u) = WaitOk \<longrightarrow> owning_task (mutexes k x) = Some u)"

lemma mutex_waits_ok_alt:
  "mutex_waits_ok K k \<longleftrightarrow> (\<forall>u<N_TASKS K. \<forall>x b. blocked_in (tasks k u) = Some (MutexCall x, b) \<longrightarrow> mutex_wait_ok k u x)"
  by (simp add: mutex_waits_ok_def mutex_wait_ok_def)

text \<open>
  \<^verbatim>\<open>unlock_mutex_unchecked\<close>: the mutex, which is off the chain of its owner \<open>t\<close> already, becomes
  free if nobody waits for it.
\<close>

lemma unlock_to_nobody:
  assumes base: "base_inv K k" and inv: "mutex_inv K X {m} k"
    and t: "owning_task (mutexes k m) = Some t" "blocked_in (tasks k t) = None"
    and w: "waits_of k (MutexQ m) = []"
  defines "k' \<equiv> upd_mutex m (\<lambda>c. c\<lparr>owning_task := None\<rparr>) k"
  shows "unlock_mutex_unchecked K m k = Some k'" "base_inv K k'" "mutex_inv K X {} k'"
proof -
  note M = mutex_invD[OF inv]
  show "unlock_mutex_unchecked K m k = Some k'"
    using w by (simp add: unlock_mutex_unchecked_def first_waiting_task_def k'_def)
  show "base_inv K k'" unfolding k'_def by (rule remutex_base_inv[OF base]) simp_all
  have f: "prev_mutex_held (mutexes k' x) = prev_mutex_held (mutexes k x)"
    "ceiling (mutexes k' x) = ceiling (mutexes k x)" "chain_head X k' u = chain_head X k u" "tasks k' = tasks k" for x u
    by (simp_all add: k'_def chain_head_def split: option.split)
  have held: "held_by K {} k' u = held_by K {m} k u" for u by (auto simp: held_by_def k'_def)
  have doc: "documented_priority K {} k' u b = documented_priority K {m} k u b" for u b
    unfolding documented_priority_def ceilings_held_alt held f ..
  have "chains_ok K X {} k'" using M(1) unfolding chains_ok_def held f .
  moreover have "priorities_ok K X {} k'" using M(3) unfolding priorities_ok_def doc f .
  moreover have "owners_ok K k'" using M(2) by (auto simp: owners_ok_def k'_def)
  moreover have "mutex_waits_ok K k'"
    unfolding mutex_waits_ok_alt f
  proof (intro allI impI)
    fix u x b
    assume u: "u < N_TASKS K" "blocked_in (tasks k u) = Some (MutexCall x, b)"
    have old: "mutex_wait_ok k u x" using M(4) u by (simp add: mutex_waits_ok_alt)
    show "mutex_wait_ok k' u x"
    proof (cases "x = m")
      case True
      have "st (tasks k u) \<noteq> Waiting" using mutex_wait_queued[OF base u(1) _ u(2)] w True by auto
      moreover have "u \<noteq> t" using u(2) t(2) by auto
      ultimately show ?thesis using old True t(1) by (auto simp: mutex_wait_ok_def k'_def)
    next
      case False
      then show ?thesis using old by (simp add: mutex_wait_ok_def k'_def)
    qed
  qed
  ultimately show "mutex_inv K X {} k'" by (simp add: mutex_inv_def)
qed

text \<open>Otherwise it goes to the waiter with the highest priority, which is woken up.\<close>

lemma unlock_to_waiter:
  assumes K: "kcfg_ok K" and base: "base_inv K k" and inv: "mutex_inv K X {m} k" and m: "m < N_MUTEXES K"
    and t: "owning_task (mutexes k m) = Some t" "blocked_in (tasks k t) = None" "n \<notin> fst ` set_option X"
    and w: "waits_of k (MutexQ m) = n # ws"
  obtains r where "unlock_mutex_unchecked K m k = Some (woken n WaitOk r (locked m n k))"
    "base_inv K (woken n WaitOk r (locked m n k))" "mutex_inv K X {} (woken n WaitOk r (locked m n k))"
    "st (tasks k n) = Waiting"
proof -
  note M = mutex_invD[OF inv]
  have mem: "n \<in> set (waits_of k (MutexQ m))" using w by simp
  note W = queue_waiter[OF base mem]
  obtain timed where b: "blocked_in (tasks k n) = Some (MutexCall m, timed)" using mutex_waiter(3)[OF base mem] by blast
  have wait: "mutex_wait_ok k n m" using M(4) W(1) b by (simp add: mutex_waits_ok_alt)
  have live: "live (st (tasks k n))" using W(2) by (simp add: live_def)
  let ?k = "locked m n k"
  have b1: "base_inv K ?k" by (rule locked_base_inv[OF base W(1)]) (use W(2) w in simp)
  have st1: "st (tasks ?k n) = Waiting" and w1: "waits_of ?k (MutexQ m) = n # ws" using W(2) w by simp_all
  have res: "\<And>b. blocked_in (tasks ?k n) = Some b \<Longrightarrow> result_ok b WaitOk" using b by (simp add: result_ok_def)
  obtain r where r: "complete_wait K n WaitOk (unlink_wait n ?k) = Some (woken n WaitOk r ?k)"
    "base_inv K (woken n WaitOk r ?k)"
    using complete_wait_ok[OF K b1 W(1) st1 res] by blast
  have "unlock_mutex_unchecked K m k = Some (woken n WaitOk r ?k)"
    using w W wake_up_one_eq(1)[OF b1 w1] r(1)
    by (simp add: unlock_mutex_unchecked_def first_waiting_task_def lock_core_eq)
  moreover have "mutex_inv K X {} (woken n WaitOk r ?k)"
  proof -
    have "m \<in> {m} \<or> owning_task (mutexes k m) = None" by simp
    note C = locked_chains[OF M(1) m this t(3)] locked_priorities[OF M(3) m this t(3) live]
    have ow: "owners_ok K ?k"
      by (rule locked_owners[OF M(2) W(1) live]) (use wait W(2) in \<open>simp add: mutex_wait_ok_def\<close>)
    have "mutex_waits_ok K (woken n WaitOk r ?k)"
      unfolding mutex_waits_ok_alt
    proof (intro allI impI)
      fix u x b'
      assume u: "u < N_TASKS K" "blocked_in (tasks (woken n WaitOk r ?k) u) = Some (MutexCall x, b')"
      then have u': "blocked_in (tasks k u) = Some (MutexCall x, b')" by (simp split: if_splits)
      have old: "mutex_wait_ok k u x" using M(4) u(1) u' by (simp add: mutex_waits_ok_alt)
      show "mutex_wait_ok (woken n WaitOk r ?k) u x"
      proof (cases "u = n")
        case True
        then show ?thesis using u' b by (simp add: mutex_wait_ok_def)
      next
        case False
        have "u \<noteq> t" using u' t(2) by auto
        then show ?thesis using old False t(1) by (auto simp: mutex_wait_ok_def)
      qed
    qed
    then show ?thesis using C ow by (simp add: mutex_inv_def woken_mutex_parts[OF st1])
  qed
  ultimately show thesis using that r(2) W(2) by blast
qed

text \<open>What handing over does, in either case.\<close>

definition handed_over :: "kcfg \<Rightarrow> nat \<Rightarrow> kernel \<Rightarrow> kernel \<Rightarrow> bool" where
  "handed_over K m k k' \<longleftrightarrow>
     owning_task (mutexes k' m) = (case waits_of k (MutexQ m) of [] \<Rightarrow> None | n # _ \<Rightarrow> Some n) \<and>
     waits_of k' (MutexQ m) = tl (waits_of k (MutexQ m)) \<and>
     (\<forall>n ws. waits_of k (MutexQ m) = n # ws \<longrightarrow> st (tasks k' n) = Ready \<and> wait_result (tasks k' n) = WaitOk) \<and>
     (\<forall>x. x \<noteq> m \<longrightarrow> owning_task (mutexes k' x) = owning_task (mutexes k x) \<and>
        prev_mutex_held (mutexes k' x) = prev_mutex_held (mutexes k x) \<and>
        waits_of k' (MutexQ x) = waits_of k (MutexQ x)) \<and>
     (\<forall>x. inconsistent (mutexes k' x) = inconsistent (mutexes k x)) \<and>
     (\<forall>u. st (tasks k u) \<noteq> Waiting \<longrightarrow> tasks k' u = tasks k u) \<and>
     priority_boost k' = priority_boost k \<and> cpu_lock k' = cpu_lock k \<and>
     running_task_is_running k' = running_task_is_running k \<and> (activated K k \<longrightarrow> activated K k')"

lemma running_task_is_running_st:
  "running_task k' = running_task k \<Longrightarrow> (\<And>t. running_task k = Some t \<Longrightarrow> (st (tasks k' t) = Running) = (st (tasks k t) = Running)) \<Longrightarrow>
     running_task_is_running k' = running_task_is_running k"
  by (auto simp: running_task_is_running_def split: option.split)

lemma unlock_unchecked_ok:
  assumes K: "kcfg_ok K" and base: "base_inv K k" and inv: "mutex_inv K X {m} k" and m: "m < N_MUTEXES K"
    and t: "owning_task (mutexes k m) = Some t" "blocked_in (tasks k t) = None" "st (tasks k t) \<noteq> Waiting"
      "fst ` set_option X \<subseteq> {t}"
  obtains k' where "unlock_mutex_unchecked K m k = Some k'" "base_inv K k'" "mutex_inv K X {} k'" "frame k k'"
    "handed_over K m k k'"
proof (cases "waits_of k (MutexQ m)")
  case Nil
  let ?k = "upd_mutex m (\<lambda>c. c\<lparr>owning_task := None\<rparr>) k"
  note U = unlock_to_nobody[OF base inv t(1,2) Nil]
  have "handed_over K m k ?k"
    using Nil by (simp add: handed_over_def running_task_is_running_def activated_def cong: option.case_cong)
  moreover have "frame k ?k" by (simp add: frame_def running_task_is_running_def cong: option.case_cong) (simp add: upd_mutex_def)
  ultimately show thesis using U that by blast
next
  case (Cons n ws)
  have "st (tasks k n) = Waiting" using queue_waiter(2)[OF base, of n "MutexQ m"] Cons by simp
  then have "n \<notin> fst ` set_option X" using t(3,4) by auto
  then obtain r where r: "unlock_mutex_unchecked K m k = Some (woken n WaitOk r (locked m n k))"
    "base_inv K (woken n WaitOk r (locked m n k))" "mutex_inv K X {} (woken n WaitOk r (locked m n k))"
    "st (tasks k n) = Waiting"
    using unlock_to_waiter[OF K base inv m t(1,2) _ Cons] by metis
  let ?k = "woken n WaitOk r (locked m n k)"
  have run: "running_task_is_running ?k = running_task_is_running k"
    by (rule running_task_is_running_st) (use r(4) in auto)
  have "wait_in (wait_objs k n) = Some (MutexQ m)"
    using queue_waiter(3)[OF base, of n "MutexQ m"] Cons by simp
  then have "handed_over K m k ?k"
    using Cons r(4) run by (auto simp: handed_over_def activated_def)
  moreover have "frame k ?k" using run by (simp add: frame_def)
  ultimately show thesis using r that by blast
qed

section \<open>\<open>unlock_mutex\<close>\<close>

lemma unlock_mutex_ok:
  assumes K: "kcfg_ok K" and inv: "kinv K k" and m: "m < N_MUTEXES K"
    and t: "running_task k = Some t" "st (tasks k t) = Running" "blocked_in (tasks k t) = None"
    and own: "owning_task (mutexes k m) = Some t" "last_mutex_held (tasks k t) = Some m"
  obtains k' where "unlock_mutex K m k = Some (Ok (), k')" "kinv K k'" "frame k k'" "preempt_inv k'"
    "owning_task (mutexes k' m) = (case waits_of k (MutexQ m) of [] \<Rightarrow> None | n # _ \<Rightarrow> Some n)"
    "last_mutex_held (tasks k' t) = prev_mutex_held (mutexes k m)"
    "waits_of k' (MutexQ m) = tl (waits_of k (MutexQ m))"
    "\<forall>n ws. waits_of k (MutexQ m) = n # ws \<longrightarrow> st (tasks k' n) = Ready \<and> wait_result (tasks k' n) = WaitOk"
proof -
  note I = kinvD[OF inv] and M = mutex_invD[OF kinvD(2)[OF inv]]
  have tN: "t < N_TASKS K" using run_inv_state[OF I(7) t(1)] by blast
  let ?k1 = "upd_task t (\<lambda>c. c\<lparr>last_mutex_held := prev_mutex_held (mutexes k m)\<rparr>) k"
  have c1: "chains_ok K None {m} ?k1"
    by (rule released_chains(1)[OF M(1) tN]) (simp_all add: chain_head_def own)
  have ev: "evaluate_task_effective_priority K t (base_priority (tasks ?k1 t)) ?k1 =
      Some (documented_priority K {m} ?k1 t (base_priority (tasks ?k1 t)))"
    by (rule evaluate_priority_ok[OF c1 tN]) (simp add: chain_head_def)
  define p where "p = documented_priority K {m} ?k1 t (base_priority (tasks k t))"
  let ?k2 = "upd_task t (\<lambda>c. c\<lparr>effective_priority := p\<rparr>) ?k1"
  define f :: "task_cb \<Rightarrow> task_cb" where
    "f = (\<lambda>c. c\<lparr>last_mutex_held := prev_mutex_held (mutexes k m), effective_priority := p\<rparr>)"
  have k2: "?k2 = upd_task t f k" by (simp add: upd_task_def f_def)
  have base_p: "base_priority (tasks k t) < PRIORITY_LEVELS K" using I(6) tN by (simp add: pri_inv_def)
  have b2: "base_inv K ?k2"
    unfolding k2 by (rule retask_base_inv[OF I(1)])
      (use t(2) base_p queue_inv_mem[OF I(9)] in \<open>auto simp: f_def p_def intro: documented_priority_lt\<close>)
  have same: "mutexes ?k2 = mutexes k" "st (tasks ?k2 u) = st (tasks k u)"
    "base_priority (tasks ?k2 u) = base_priority (tasks k u)"
    "blocked_in (tasks ?k2 u) = blocked_in (tasks k u)" "wait_result (tasks ?k2 u) = wait_result (tasks k u)"
    "wait_queue_of ?k2 q = wait_queue_of k q" for u q
    by simp_all
  have doc2: "documented_priority K {m} ?k2 u b = documented_priority K {m} k u b"
    "documented_priority K {m} ?k1 u b = documented_priority K {m} k u b" for u b
    by (simp_all add: documented_priority_def ceilings_held_def)
  have "chain_head None ?k2 = chain_head None ?k1" by (auto simp: chain_head_def fun_eq_iff)
  then have "chains_ok K None {m} ?k2" using c1 by (simp add: chains_ok_def held_by_def)
  moreover have "owners_ok K ?k2" using M(2) unfolding owners_ok_def same .
  moreover have "priorities_ok K None {m} ?k2"
    unfolding priorities_ok_def same doc2
  proof (intro allI impI)
    fix u
    assume u: "u < N_TASKS K" "live (st (tasks k u))"
    show "eff ?k2 u = documented_priority K {m} k u (base_priority (tasks k u))"
    proof (cases "u = t")
      case True
      then show ?thesis by (simp add: p_def doc2)
    next
      case False
      then show ?thesis using M(3) u documented_other[OF own(1) False, of k] by (simp add: priorities_ok_def)
    qed
  qed
  moreover have "mutex_waits_ok K ?k2" using M(4) unfolding mutex_waits_ok_def same .
  ultimately have m2: "mutex_inv K None {m} ?k2" by (simp add: mutex_inv_def)
  have fr2: "frame k ?k2" using t by (simp add: frame_def running_task_is_running_def)
  have own2: "owning_task (mutexes ?k2 m) = Some t" "blocked_in (tasks ?k2 t) = None" "st (tasks ?k2 t) \<noteq> Waiting"
    using own t by simp_all
  obtain k3 where k3: "unlock_mutex_unchecked K m ?k2 = Some k3" "base_inv K k3" "mutex_inv K None {} k3" "frame ?k2 k3"
    "handed_over K m ?k2 k3"
    using unlock_unchecked_ok[OF K b2 m2 m own2] by auto
  have run: "running_task_is_running k" using t by (simp add: running_task_is_running_def)
  have run2: "running_task_is_running ?k2" "activated K ?k2" using t I(4) by (simp_all add: running_task_is_running_def activated_def)
  have kinv3: "kinv K k3"
    using k3(2,3,5) run2 by (simp add: kinv_def handed_over_def boost_inv_def)
  obtain y where y: "unlock_cpu_and_check_preemption K k3 = Some (k3\<lparr>cpu_lock := False, yield_pending := y\<rparr>)"
    "kinv K (k3\<lparr>cpu_lock := False, yield_pending := y\<rparr>)" "preempt_inv (k3\<lparr>cpu_lock := False, yield_pending := y\<rparr>)"
    "frame k3 (k3\<lparr>cpu_lock := False, yield_pending := y\<rparr>)"
    using unlock_check_ok[OF K kinv3] by metis
  have "unlock_mutex K m k = Some (Ok (), k3\<lparr>cpu_lock := False, yield_pending := y\<rparr>)"
    using t own ev k3(1) y(1) by (simp add: unlock_mutex_def p_def)
  moreover have "last_mutex_held (tasks k3 t) = prev_mutex_held (mutexes k m)"
    using k3(5) t(2) by (simp add: handed_over_def)
  ultimately show thesis
    using y k3(5) frame_trans[OF frame_trans[OF fr2 k3(4)] y(4)]
    by (intro that[of "k3\<lparr>cpu_lock := False, yield_pending := y\<rparr>"]) (simp_all add: handed_over_def)
qed

section \<open>Abandoning the mutexes of an exiting task\<close>

lemma abandon_loop_ok:
  assumes K: "kcfg_ok K" and t: "t < N_TASKS K"
  shows "base_inv K k \<Longrightarrow> mutex_inv K (Some (t, start)) {} k \<Longrightarrow>
    st (tasks k t) = Running \<Longrightarrow> blocked_in (tasks k t) = None \<Longrightarrow>
    chain (\<lambda>m. prev_mutex_held (mutexes k m)) start ms \<Longrightarrow> distinct ms \<Longrightarrow> length ms \<le> fuel \<Longrightarrow>
    \<exists>k'. abandon_loop K fuel start k = Some k' \<and> base_inv K k' \<and> mutex_inv K (Some (t, None)) {} k' \<and>
      frame k k' \<and> tasks k' t = tasks k t \<and> priority_boost k' = priority_boost k \<and> cpu_lock k' = cpu_lock k \<and>
      (activated K k \<longrightarrow> activated K k') \<and>
      (\<forall>m. if m \<in> set ms
           then inconsistent (mutexes k' m) \<and>
             owning_task (mutexes k' m) = (case waits_of k (MutexQ m) of [] \<Rightarrow> None | n # _ \<Rightarrow> Some n)
           else inconsistent (mutexes k' m) = inconsistent (mutexes k m) \<and>
             owning_task (mutexes k' m) = owning_task (mutexes k m))"
proof (induction ms arbitrary: k start fuel)
  case Nil
  then have "start = None" by simp
  then show ?case using Nil.prems by simp
next
  case (Cons m ms)
  note M = mutex_invD[OF Cons.prems(2)]
  obtain f where f: "fuel = Suc f" "length ms \<le> f" using Cons.prems(7) by (cases fuel) auto
  let ?next = "prev_mutex_held (mutexes k m)" and ?k1 = "upd_mutex m (\<lambda>c. c\<lparr>inconsistent := True\<rparr>) k"
  have start: "start = Some m" and rest: "chain (\<lambda>m. prev_mutex_held (mutexes k m)) ?next ms"
    using Cons.prems(5) by simp_all
  have same: "prev_mutex_held (mutexes ?k1 x) = prev_mutex_held (mutexes k x)"
    "owning_task (mutexes ?k1 x) = owning_task (mutexes k x)" "ceiling (mutexes ?k1 x) = ceiling (mutexes k x)"
    "tasks ?k1 = tasks k" "wait_queue_of ?k1 q = wait_queue_of k q" for x q
    by simp_all
  have "chain_head (Some (t, start)) k t = Some m" by (simp add: chain_head_def start)
  note R = released_chains[OF M(1) t this, where X' = "Some (t, ?next)" and k' = ?k1]
  have c1: "chains_ok K (Some (t, ?next)) {m} ?k1" and m: "m < N_MUTEXES K" and own: "owning_task (mutexes k m) = Some t"
    by (rule R; simp add: chain_head_def)+
  have doc: "u \<noteq> t \<Longrightarrow> documented_priority K {m} ?k1 u b = documented_priority K {} k u b" for u b
    by (rule documented_other[OF own]) simp_all
  have "owners_ok K ?k1" using M(2) unfolding owners_ok_def same .
  moreover have "mutex_waits_ok K ?k1" using M(4) unfolding mutex_waits_ok_def same .
  moreover have "priorities_ok K (Some (t, ?next)) {m} ?k1"
    unfolding priorities_ok_def same
  proof (intro allI impI)
    fix u
    assume u: "u < N_TASKS K" "live (st (tasks k u))" "u \<notin> fst ` set_option (Some (t, ?next))"
    then have "u \<noteq> t" by simp
    then show "eff k u = documented_priority K {m} ?k1 u (base_priority (tasks k u))"
      using M(3) u by (simp add: doc priorities_ok_def)
  qed
  ultimately have m1: "mutex_inv K (Some (t, ?next)) {m} ?k1" using c1 by (simp add: mutex_inv_def)
  have b1: "base_inv K ?k1" by (rule remutex_base_inv[OF Cons.prems(1)]) simp_all
  have t1: "owning_task (mutexes ?k1 m) = Some t" "blocked_in (tasks ?k1 t) = None" "st (tasks ?k1 t) \<noteq> Waiting"
    using own Cons.prems(3,4) by simp_all
  obtain k2 where k2: "unlock_mutex_unchecked K m ?k1 = Some k2" "base_inv K k2" "mutex_inv K (Some (t, ?next)) {} k2"
    "frame ?k1 k2" "handed_over K m ?k1 k2"
    using unlock_unchecked_ok[OF K b1 m1 m t1] by auto
  have fr1: "frame k ?k1" by (simp add: frame_def running_task_is_running_def cong: option.case_cong) (simp add: upd_mutex_def)
  have t2: "tasks k2 t = tasks k t" using k2(5) Cons.prems(3) by (simp add: handed_over_def)
  have keep: "prev_mutex_held (mutexes k2 x) = prev_mutex_held (mutexes k x) \<and> waits_of k2 (MutexQ x) = waits_of k (MutexQ x)"
    if "x \<noteq> m" for x
    using k2(5) that by (simp add: handed_over_def)
  have ch: "chain (\<lambda>m. prev_mutex_held (mutexes k2 m)) ?next ms"
  proof -
    have "\<And>x. x \<in> set ms \<Longrightarrow> prev_mutex_held (mutexes k2 x) = prev_mutex_held (mutexes k x)"
      using keep Cons.prems(6) by (metis distinct.simps(2))
    from chain_cong[OF this] show ?thesis using rest by simp
  qed
  obtain k' where k': "abandon_loop K f ?next k2 = Some k'" "base_inv K k'" "mutex_inv K (Some (t, None)) {} k'"
    "frame k2 k'" "tasks k' t = tasks k2 t" "priority_boost k' = priority_boost k2" "cpu_lock k' = cpu_lock k2"
    "activated K k2 \<longrightarrow> activated K k'"
    "\<forall>x. if x \<in> set ms
           then inconsistent (mutexes k' x) \<and>
             owning_task (mutexes k' x) = (case waits_of k2 (MutexQ x) of [] \<Rightarrow> None | n # _ \<Rightarrow> Some n)
           else inconsistent (mutexes k' x) = inconsistent (mutexes k2 x) \<and>
             owning_task (mutexes k' x) = owning_task (mutexes k2 x)"
    using Cons.IH[OF k2(2,3) _ _ ch _ f(2)] Cons.prems(3,4,6) t2 by auto
  have "activated K k \<longrightarrow> activated K k'" using k'(8) k2(5) by (simp add: handed_over_def activated_def)
  moreover have all: "if x \<in> set (m # ms)
           then inconsistent (mutexes k' x) \<and>
             owning_task (mutexes k' x) = (case waits_of k (MutexQ x) of [] \<Rightarrow> None | n # _ \<Rightarrow> Some n)
           else inconsistent (mutexes k' x) = inconsistent (mutexes k x) \<and>
             owning_task (mutexes k' x) = owning_task (mutexes k x)" for x
  proof (cases "x = m")
    case True
    then have "x \<notin> set ms" using Cons.prems(6) by simp
    then show ?thesis using True k'(9) k2(5) by (simp add: handed_over_def)
  next
    case False
    then show ?thesis using spec[OF k'(9), of x] k2(5) keep[of x] by (simp add: handed_over_def)
  qed
  moreover have "frame k k'" by (rule frame_trans[OF frame_trans[OF fr1 k2(4)] k'(4)])
  ultimately show ?case
    using k'(1-7) k2(1,5) t2 start f(1) by (intro exI[of _ k']) (simp add: handed_over_def Let_def)
qed

lemma abandon_held_ok:
  assumes K: "kcfg_ok K" and inv: "kinv K k" and t: "running_task k = Some t" "st (tasks k t) = Running" "blocked_in (tasks k t) = None"
  obtains k' where "abandon_held_mutexes K t k = Some k'" "base_inv K k'" "mutex_inv K (Some (t, None)) {} k'"
    "frame k k'" "tasks k' t = (tasks k t)\<lparr>last_mutex_held := None\<rparr>" "priority_boost k' = priority_boost k"
    "cpu_lock k' = cpu_lock k" "activated K k'"
    "\<forall>m<N_MUTEXES K. if owning_task (mutexes k m) = Some t
       then inconsistent (mutexes k' m) \<and>
         owning_task (mutexes k' m) = (case waits_of k (MutexQ m) of [] \<Rightarrow> None | n # _ \<Rightarrow> Some n)
       else inconsistent (mutexes k' m) = inconsistent (mutexes k m) \<and>
         owning_task (mutexes k' m) = owning_task (mutexes k m)"
proof -
  note I = kinvD[OF inv] and M = mutex_invD[OF kinvD(2)[OF inv]]
  have tN: "t < N_TASKS K" using run_inv_state[OF I(7) t(1)] by blast
  let ?start = "last_mutex_held (tasks k t)" and ?f = "\<lambda>c :: task_cb. c\<lparr>last_mutex_held := None\<rparr>"
  let ?k1 = "upd_task t ?f k"
  obtain ms where ms: "chain (\<lambda>m. prev_mutex_held (mutexes k m)) (chain_head None k t) ms" "distinct ms"
    "set ms = held_by K {} k t" "length ms \<le> N_MUTEXES K"
    using held_chain[OF M(1) tN] by metis
  have b1: "base_inv K ?k1"
    by (rule retask_base_inv[OF I(1)]) (use I(6) tN in \<open>auto simp: pri_inv_def\<close>)
  have same: "mutexes ?k1 = mutexes k" "st (tasks ?k1 u) = st (tasks k u)"
    "base_priority (tasks ?k1 u) = base_priority (tasks k u)" "eff ?k1 u = eff k u"
    "blocked_in (tasks ?k1 u) = blocked_in (tasks k u)" "wait_result (tasks ?k1 u) = wait_result (tasks k u)"
    "wait_queue_of ?k1 q = wait_queue_of k q" for u q
    by simp_all
  have head: "chain_head (Some (t, ?start)) ?k1 u = chain_head None k u" for u by (simp add: chain_head_def)
  have "chains_ok K (Some (t, ?start)) {} ?k1" using M(1) unfolding chains_ok_def head held_by_def same .
  moreover have "owners_ok K ?k1" using M(2) unfolding owners_ok_def same .
  moreover have "priorities_ok K (Some (t, ?start)) {} ?k1"
    using M(3) unfolding priorities_ok_def documented_priority_def ceilings_held_def same by simp
  moreover have "mutex_waits_ok K ?k1" using M(4) unfolding mutex_waits_ok_def same .
  ultimately have m1: "mutex_inv K (Some (t, ?start)) {} ?k1" by (simp add: mutex_inv_def)
  have fr1: "frame k ?k1" using t by (simp add: frame_def running_task_is_running_def)
  have st1: "st (tasks ?k1 t) = Running" "blocked_in (tasks ?k1 t) = None" using t by simp_all
  have ch1: "chain (\<lambda>m. prev_mutex_held (mutexes ?k1 m)) ?start ms" using ms(1) by (simp add: chain_head_def)
  obtain k' where k': "abandon_loop K (N_MUTEXES K) ?start ?k1 = Some k'" "base_inv K k'" "mutex_inv K (Some (t, None)) {} k'"
    "frame ?k1 k'" "tasks k' t = tasks ?k1 t" "priority_boost k' = priority_boost ?k1" "cpu_lock k' = cpu_lock ?k1"
    "activated K ?k1 \<longrightarrow> activated K k'"
    "\<forall>m. if m \<in> set ms
           then inconsistent (mutexes k' m) \<and>
             owning_task (mutexes k' m) = (case waits_of ?k1 (MutexQ m) of [] \<Rightarrow> None | n # _ \<Rightarrow> Some n)
           else inconsistent (mutexes k' m) = inconsistent (mutexes ?k1 m) \<and>
             owning_task (mutexes k' m) = owning_task (mutexes ?k1 m)"
    using abandon_loop_ok[OF K tN b1 m1 st1 ch1 ms(2,4)] by blast
  have "activated K ?k1" using I(4) by (simp add: activated_def)
  moreover have "m \<in> set ms \<longleftrightarrow> owning_task (mutexes k m) = Some t" if "m < N_MUTEXES K" for m
    using that ms(3) by (simp add: held_by_def)
  ultimately show thesis
    using k' frame_trans[OF fr1 k'(4)] by (intro that[of k']) (auto simp: abandon_held_mutexes_def Let_def)
qed

section \<open>The system calls\<close>

lemma inconsistent_ok:
  fixes m :: nat and b :: bool
  assumes inv: "kinv K k"
  defines "k' \<equiv> upd_mutex m (\<lambda>c. c\<lparr>inconsistent := b\<rparr>) k"
  shows "kinv K k'" "frame k k'" "preempt_inv k' = preempt_inv k"
proof -
  note I = kinvD[OF inv]
  have same: "same_tasks k k'" "same_mutexes k k'" by (simp_all add: same_tasks_def same_mutexes_def k'_def)
  have "base_inv K k'" unfolding k'_def by (rule remutex_base_inv[OF I(1)]) simp_all
  then show "kinv K k'" using I(2,3,4) by (simp add: kinv_def same_mutexes_inv[OF same(2)] same_tasks_inv[OF same(1)])
  show "frame k k'" by (simp add: frame_def same_tasks_inv[OF same(1)]) (simp add: k'_def upd_mutex_def)
  show "preempt_inv k' = preempt_inv k" by (rule same_tasks_inv(6)[OF same(1)])
qed

text \<open>The three ways of locking agree on a mutex that is free, and on the errors.\<close>

lemma precheck_cases:
  assumes "running_task k = Some t"
  obtains (err) e where "precheck_and_get_running_task m k = Some (Inl e)"
    "e = (if owning_task (mutexes k m) = Some t then WouldDeadlock else BadParam)"
  | (ok) "precheck_and_get_running_task m k = Some (Inr t)" "owning_task (mutexes k m) \<noteq> Some t"
    "\<forall>c. ceiling (mutexes k m) = Some c \<longrightarrow> c \<le> base_priority (tasks k t)"
proof -
  show thesis
  proof (cases "owning_task (mutexes k m) = Some t \<or> (\<exists>c. ceiling (mutexes k m) = Some c \<and> base_priority (tasks k t) < c)")
    case True
    then show thesis using assms
      by (intro err[of "if owning_task (mutexes k m) = Some t then WouldDeadlock else BadParam"])
        (auto simp: precheck_and_get_running_task_def)
  next
    case False
    then show thesis using assms
      by (intro ok) (auto simp: precheck_and_get_running_task_def not_less split: option.split)
  qed
qed

lemma lock_calls_ok:
  assumes K: "kcfg_ok K" and inv: "kinv K k" and m: "m < N_MUTEXES K"
    and c: "caller_ok k" "task_context k"
  shows "call_ok K k (try_lock_mutex m k)"
    "expect_waitable_context k \<Longrightarrow> call_ok K k (lock_mutex K m k)"
    "expect_waitable_context k \<Longrightarrow> unat d \<le> DURATION_MAX \<Longrightarrow> call_ok K k (lock_mutex_timeout K m d k)"
proof -
  obtain t where t: "running_task k = Some t" "st (tasks k t) = Running" "blocked_in (tasks k t) = None"
    using c by (auto simp: caller_ok_def)
  have all: "call_ok K k (try_lock_mutex m k) \<and>
    (expect_waitable_context k \<longrightarrow> call_ok K k (lock_mutex K m k)) \<and>
    (expect_waitable_context k \<longrightarrow> unat d \<le> DURATION_MAX \<longrightarrow> call_ok K k (lock_mutex_timeout K m d k))"
    using t(1)
  proof (cases rule: precheck_cases[where m = m])
    case (err e)
    then show ?thesis using inv
      by (simp add: try_lock_mutex_def lock_mutex_def lock_mutex_timeout_def call_ok_same del: if_split)
  next
    case ok
    show ?thesis
    proof (cases "owning_task (mutexes k m) = None")
      case True
      have poll: "mutex_poll_core m t k = Some (True, locked m t k)"
        using True t(2) by (simp add: mutex_poll_core_def lock_core_eq)
      have "lock_result m (locked m t k) \<noteq> Blocked" by (simp add: lock_result_def)
      then show ?thesis using ok(1) poll locked_free_ok[OF inv m True t ok(3)]
        by (auto simp: try_lock_mutex_def lock_mutex_def lock_mutex_timeout_def intro!: call_okI)
    next
      case False
      then have poll: "mutex_poll_core m t k = Some (False, k)" by (simp add: mutex_poll_core_def)
      have w: "may_wait K k t (Some (MutexQ m)) (MutexWait m)" if "expect_waitable_context k"
        using that t ok False m by (simp add: may_wait_def wait_in_ok_def resource_unavailable_def)
      have "expect_waitable_context k \<longrightarrow> call_ok K k (lock_mutex K m k)"
        using ok(1) poll
        by (auto simp: lock_mutex_def intro!: blocks_call_ok[OF inv w] wait_on_ok[OF inv w])
      moreover have "expect_waitable_context k \<longrightarrow> unat d \<le> DURATION_MAX \<longrightarrow> call_ok K k (lock_mutex_timeout K m d k)"
        using ok(1) poll
        by (auto simp: lock_mutex_timeout_def intro!: blocks_call_ok[OF inv w] wait_on_timeout_ok[OF K inv w])
      ultimately show ?thesis using ok(1) poll inv by (simp add: try_lock_mutex_def call_ok_same)
    qed
  qed
  then show "call_ok K k (try_lock_mutex m k)"
    "expect_waitable_context k \<Longrightarrow> call_ok K k (lock_mutex K m k)"
    "expect_waitable_context k \<Longrightarrow> unat d \<le> DURATION_MAX \<Longrightarrow> call_ok K k (lock_mutex_timeout K m d k)"
    by blast+
qed

definition mutex_id_ok :: "kcfg \<Rightarrow> nat \<Rightarrow> bool" where
  "mutex_id_ok K this \<longleftrightarrow> 0 < this \<and> this \<le> N_MUTEXES K"

lemma mutex_id_index:
  "mutex_id_ok K this \<Longrightarrow> mutex_index K this = Some (this - 1) \<and> this - 1 < N_MUTEXES K"
  by (auto simp: mutex_id_ok_def mutex_index_def pool_index_Some)

lemma unlock_call_ok:
  assumes K: "kcfg_ok K" and inv: "kinv K k" and m: "m < N_MUTEXES K"
    and c: "caller_ok k" "task_context k"
  shows "call_ok K k (unlock_mutex K m k)"
proof -
  obtain t where t: "running_task k = Some t" "st (tasks k t) = Running" "blocked_in (tasks k t) = None"
    using c by (auto simp: caller_ok_def)
  show ?thesis
  proof (cases "owning_task (mutexes k m) = Some t \<and> last_mutex_held (tasks k t) = Some m")
    case True
    obtain k' where "unlock_mutex K m k = Some (Ok (), k')" "kinv K k'" "frame k k'" "preempt_inv k'"
      using unlock_mutex_ok[OF K inv m t] True by metis
    then show ?thesis by (auto intro!: call_okI)
  next
    case False
    then show ?thesis using t(1) inv by (auto simp: unlock_mutex_def call_ok_same)
  qed
qed

lemma mutex_calls_ok:
  assumes K: "kcfg_ok K" and inv: "kinv K k" and c: "caller_ok k" and i: "mutex_id_ok K this"
  shows "call_ok K k (raw_mutex_is_locked K this k)" "call_ok K k (raw_mutex_unlock K this k)"
    "call_ok K k (raw_mutex_lock K this k)" "call_ok K k (raw_mutex_lock_timeout K this d k)"
    "call_ok K k (raw_mutex_try_lock K this k)" "call_ok K k (raw_mutex_mark_consistent K this k)"
proof -
  let ?k = "k\<lparr>cpu_lock := True\<rparr>" and ?i = "this - 1"
  have I: "kinv K ?k" and C: "caller_ok ?k" using inv c by simp_all
  note i' = mutex_id_index[OF i]
  have ctx: "task_context ?k" if "expect_waitable_context ?k" using that by (simp add: expect_waitable_context_def)
  show "call_ok K k (raw_mutex_is_locked K this k)"
    unfolding raw_mutex_is_locked_def
    by (rule with_cpu_lock_ok[OF inv]) (use i' I in \<open>simp add: call_ok_same\<close>)
  show "call_ok K k (raw_mutex_unlock K this k)"
    unfolding raw_mutex_unlock_def
    by (rule with_cpu_lock_ok[OF inv]) (use unlock_call_ok[OF K I _ C ctx] I i' in \<open>simp add: call_ok_same\<close>)
  show "call_ok K k (raw_mutex_lock K this k)"
    unfolding raw_mutex_lock_def
    by (rule with_cpu_lock_ok[OF inv]) (use lock_calls_ok(2)[OF K I _ C ctx] I i' in \<open>simp add: call_ok_same\<close>)
  show "call_ok K k (raw_mutex_lock_timeout K this d k)"
  proof (cases "time32_from_duration d")
    case None
    then show ?thesis using inv by (simp add: raw_mutex_lock_timeout_def call_ok_same)
  next
    case (Some x)
    show ?thesis unfolding raw_mutex_lock_timeout_def Some option.case
      by (rule with_cpu_lock_ok[OF inv])
        (use lock_calls_ok(3)[OF K I _ C ctx] I i' time32_from_duration_max[OF Some] in \<open>simp add: call_ok_same\<close>)
  qed
  show "call_ok K k (raw_mutex_try_lock K this k)"
    unfolding raw_mutex_try_lock_def
    by (rule with_cpu_lock_ok[OF inv])
      (use lock_calls_ok(1)[OF K I _ C] I i' in \<open>simp add: call_ok_same expect_task_context_def\<close>)
  show "call_ok K k (raw_mutex_mark_consistent K this k)"
    unfolding raw_mutex_mark_consistent_def
    by (rule with_cpu_lock_ok[OF inv])
      (use inconsistent_ok[OF I, of ?i False] I i' in \<open>auto simp: call_ok_same intro!: call_okI\<close>)
qed

end
