(* ===== verification/Priority_Contract.thy ===== *)
theory Priority_Contract
  imports Mutex_Contract Task
begin

text \<open>
  \<^verbatim>\<open>set_task_base_priority\<close>: the locking protocols are respected, the effective priority follows its
  documentation, and the task is moved in the queue it is in.
\<close>

section \<open>The control block\<close>

text \<open>The task with its new priorities.\<close>

definition reprioritized :: "nat \<Rightarrow> nat \<Rightarrow> nat \<Rightarrow> kernel \<Rightarrow> kernel" where
  "reprioritized t new_base pri k =
     upd_task t (\<lambda>c. c\<lparr>base_priority := new_base, effective_priority := pri\<rparr>) k"

lemma reprioritized_simps [simp]:
  "running_task (reprioritized t b p k) = running_task k" "task_ready_queue (reprioritized t b p k) = task_ready_queue k"
  "priority_boost (reprioritized t b p k) = priority_boost k" "tk (reprioritized t b p k) = tk k"
  "semaphores (reprioritized t b p k) = semaphores k" "event_groups (reprioritized t b p k) = event_groups k"
  "mutexes (reprioritized t b p k) = mutexes k" "timers (reprioritized t b p k) = timers k"
  "wait_objs (reprioritized t b p k) = wait_objs k" "cpu_lock (reprioritized t b p k) = cpu_lock k"
  "task_context (reprioritized t b p k) = task_context k" "yield_pending (reprioritized t b p k) = yield_pending k"
  "scheduler_active (reprioritized t b p k) = scheduler_active k"
  "wait_queue_of (reprioritized t b p k) q = wait_queue_of k q"
  "st (tasks (reprioritized t b p k) u) = st (tasks k u)"
  "blocked_in (tasks (reprioritized t b p k) u) = blocked_in (tasks k u)"
  "current_wait (tasks (reprioritized t b p k) u) = current_wait (tasks k u)"
  "wait_result (tasks (reprioritized t b p k) u) = wait_result (tasks k u)"
  "last_mutex_held (tasks (reprioritized t b p k) u) = last_mutex_held (tasks k u)"
  "base_priority (tasks (reprioritized t b p k) u) = (if u = t then b else base_priority (tasks k u))"
  "eff (reprioritized t b p k) u = (if u = t then p else eff k u)"
  by (simp_all add: reprioritized_def)

text \<open>The conditions of the locking protocols.\<close>

definition base_priority_allowed :: "kcfg \<Rightarrow> kernel \<Rightarrow> nat \<Rightarrow> nat \<Rightarrow> bool" where
  "base_priority_allowed K k t b \<longleftrightarrow>
     (\<forall>c\<in>ceilings_held K {} k t. c \<le> b) \<and>
     (\<forall>m timed. st (tasks k t) = Waiting \<longrightarrow> blocked_in (tasks k t) = Some (MutexCall m, timed) \<longrightarrow>
        (\<forall>c. ceiling (mutexes k m) = Some c \<longrightarrow> c \<le> b))"

lemma lower_priority_allowed:
  assumes inv: "mutex_inv K None {} k" and t: "t < N_TASKS K" and b: "base_priority (tasks k t) \<le> b"
  shows "base_priority_allowed K k t b"
proof -
  note M = mutex_invD[OF inv]
  have "c \<le> base_priority (tasks k t)" if "c \<in> ceilings_held K {} k t" for c
    using M(2) that by (auto simp: ceilings_held_def owners_ok_def)
  moreover have "c \<le> base_priority (tasks k t)"
    if "st (tasks k t) = Waiting" "blocked_in (tasks k t) = Some (MutexCall m, timed)" "ceiling (mutexes k m) = Some c" for m timed c
    using M(4) t that by (auto simp: mutex_waits_ok_def)
  ultimately show ?thesis using b by (fastforce simp: base_priority_allowed_def)
qed

lemma raise_allowed_eq:
  assumes inv: "kinv K k" and t: "t < N_TASKS K"
  shows "base_priority_raise_allowed K t b k = Some (base_priority_allowed K k t b)"
proof -
  note I = kinvD[OF inv] and M = mutex_invD[OF kinvD(2)[OF inv]]
  have held: "do_held_mutexes_allow_new_task_base_priority K t b k = Some (\<forall>c\<in>ceilings_held K {} k t. c \<le> b)"
    by (rule held_mutexes_allow_ok[OF M(1) t]) (simp add: chain_head_def)
  show ?thesis
  proof (cases "st (tasks k t) = Waiting")
    case True
    obtain timed where w: "current_wait (tasks k t) = Some t"
      "blocked_in (tasks k t) = Some (call_of (payload (wait_objs k t)), timed)"
      using waiting_task[OF I(8) t True] by metis
    show ?thesis
      using w True held
      by (cases "payload (wait_objs k t)"; cases "b < the (ceiling (mutexes k (case payload (wait_objs k t) of MutexWait m \<Rightarrow> m)))")
        (auto simp: base_priority_raise_allowed_def with_current_wait_payload_def base_priority_allowed_def
          call_of_def does_held_mutex_allow_new_task_base_priority_def ceiling_allows_def split: option.splits)
  next
    case False
    then have "current_wait (tasks k t) = None" using I(8) t by (simp add: wait_inv_def task_wait_ok_def)
    then show ?thesis using False held
      by (simp add: base_priority_raise_allowed_def with_current_wait_payload_def base_priority_allowed_def)
  qed
qed

lemma reprioritized_mutex_inv:
  assumes inv: "kinv K k" and t: "t < N_TASKS K" and ok: "base_priority_allowed K k t b"
  defines "p \<equiv> documented_priority K {} k t b"
  shows "mutex_inv K None {} (reprioritized t b p k)"
proof -
  note M = mutex_invD[OF kinvD(2)[OF inv]]
  let ?k = "reprioritized t b p k"
  have head: "chain_head None ?k u = chain_head None k u" for u by (simp add: chain_head_def)
  have doc: "documented_priority K {} ?k u x = documented_priority K {} k u x" for u x
    by (simp add: documented_priority_def ceilings_held_def)
  have "chains_ok K None {} ?k"
    using M(1) unfolding chains_ok_def head held_by_def reprioritized_simps .
  moreover have "owners_ok K ?k"
    unfolding owners_ok_def
  proof (intro allI impI conjI)
    fix m
    assume m: "m < N_MUTEXES K"
    show "order (wait_queue_of ?k (MutexQ m)) = TaskPriority" using M(2) m by (simp add: owners_ok_def)
    fix u
    assume o: "owning_task (mutexes ?k m) = Some u"
    show "u < N_TASKS K" "live (st (tasks ?k u))" using M(2) m o by (simp_all add: owners_ok_def)
    fix c
    assume c: "ceiling (mutexes ?k m) = Some c"
    show "c \<le> base_priority (tasks ?k u)"
    proof (cases "u = t")
      case True
      then have "c \<in> ceilings_held K {} k t" using m o c by (auto simp: ceilings_held_def)
      then show ?thesis using True ok by (simp add: base_priority_allowed_def)
    next
      case False
      then show ?thesis using M(2) m o c by (simp add: owners_ok_def)
    qed
  qed
  moreover have "priorities_ok K None {} ?k"
    using M(3) unfolding priorities_ok_def doc by (simp add: p_def)
  moreover have "mutex_waits_ok K ?k"
    unfolding mutex_waits_ok_alt
  proof (intro allI impI)
    fix u x timed
    assume u: "u < N_TASKS K" "blocked_in (tasks ?k u) = Some (MutexCall x, timed)"
    then have "mutex_wait_ok k u x" using M(4) by (simp add: mutex_waits_ok_alt)
    then show "mutex_wait_ok ?k u x"
      using ok u(2) by (auto simp: mutex_wait_ok_def base_priority_allowed_def)
  qed
  ultimately show ?thesis by (simp add: mutex_inv_def)
qed

section \<open>Moving the task\<close>

lemma inv_ready_queue:
  "run_inv K (k\<lparr>task_ready_queue := q\<rparr>) = run_inv K k" "wait_inv K (k\<lparr>task_ready_queue := q\<rparr>) = wait_inv K k"
  "queue_inv K (k\<lparr>task_ready_queue := q\<rparr>) = queue_inv K k" "sem_inv K (k\<lparr>task_ready_queue := q\<rparr>) = sem_inv K k"
  "event_inv K (k\<lparr>task_ready_queue := q\<rparr>) = event_inv K k" "timer_inv K (k\<lparr>task_ready_queue := q\<rparr>) = timer_inv K k"
  by (simp_all add: run_inv_def wait_inv_def queue_inv_def sem_inv_def event_inv_def timer_inv_def
        linked_ok_def cong: timeout_ref.case_cong)

lemma inv_set_waits:
  "ready_inv K (set_waits q ws k) = ready_inv K k" "pri_inv K (set_waits q ws k) = pri_inv K k"
  "run_inv K (set_waits q ws k) = run_inv K k" "wait_inv K (set_waits q ws k) = wait_inv K k"
  "timer_inv K (set_waits q ws k) = timer_inv K k"
  by (simp_all add: ready_inv_def pri_inv_def run_inv_def wait_inv_def timer_inv_def linked_ok_def cong: timeout_ref.case_cong)

definition reprioritize_ok :: "kcfg \<Rightarrow> kernel \<Rightarrow> nat \<Rightarrow> nat \<Rightarrow> nat \<Rightarrow> bool" where
  "reprioritize_ok K k t b p \<longleftrightarrow> t < N_TASKS K \<and> b < PRIORITY_LEVELS K \<and> p < PRIORITY_LEVELS K \<and>
     st (tasks k t) \<notin> {Dormant, PendingActivation}"

lemma reprioritized_parts:
  assumes inv: "base_inv K k" and ok: "reprioritize_ok K k t b p"
  shows "pri_inv K (reprioritized t b p k)" "run_inv K (reprioritized t b p k)" "wait_inv K (reprioritized t b p k)"
    "sem_inv K (reprioritized t b p k)" "event_inv K (reprioritized t b p k)" "timer_inv K (reprioritized t b p k)"
    "(\<forall>q. t \<in> set (waits_of k q) \<longrightarrow> order (wait_queue_of k q) = TaskPriority \<longrightarrow>
        sorted (map ((eff k)(t := p)) (waits_of k q))) \<Longrightarrow> queue_inv K (reprioritized t b p k)"
    "st (tasks k t) \<noteq> Ready \<or> p = eff k t \<Longrightarrow> ready_inv K (reprioritized t b p k)"
proof -
  let ?f = "\<lambda>c :: task_cb. c\<lparr>base_priority := b, effective_priority := p\<rparr>"
  note P = retask_parts[where f = ?f and t = t, OF inv]
  show "pri_inv K (reprioritized t b p k)" "run_inv K (reprioritized t b p k)" "wait_inv K (reprioritized t b p k)"
    "sem_inv K (reprioritized t b p k)" "event_inv K (reprioritized t b p k)" "timer_inv K (reprioritized t b p k)"
    unfolding reprioritized_def by (rule P; use ok in \<open>auto simp: reprioritize_ok_def\<close>)+
  show "queue_inv K (reprioritized t b p k)"
    if "\<forall>q. t \<in> set (waits_of k q) \<longrightarrow> order (wait_queue_of k q) = TaskPriority \<longrightarrow>
        sorted (map ((eff k)(t := p)) (waits_of k q))"
    unfolding reprioritized_def by (rule P(7)) (use ok that in \<open>auto simp: reprioritize_ok_def\<close>)
  show "ready_inv K (reprioritized t b p k)" if "st (tasks k t) \<noteq> Ready \<or> p = eff k t"
    unfolding reprioritized_def by (rule P(8)) (use ok that in \<open>auto simp: reprioritize_ok_def\<close>)
qed

lemma not_queued:
  "base_inv K k \<Longrightarrow> st (tasks k t) \<noteq> Waiting \<Longrightarrow> t \<notin> set (waits_of k q)"
  using queue_waiter(2) by metis

text \<open>A Ready task moves to the back of the queue of its new priority.\<close>

lemma move_ready:
  assumes K: "kcfg_ok K" and inv: "base_inv K k" and ok: "reprioritize_ok K k t b p"
    and s: "st (tasks k t) = Ready" and p: "p \<noteq> eff k t"
  obtains q where "reorder_task (rq_bitmap K) (task_ready_queue k) t p (eff k t) = Some q"
    "base_inv K ((reprioritized t b p k)\<lparr>task_ready_queue := q\<rparr>)"
    "bq_of q = (bq_of (task_ready_queue k))(eff k t := remove1 t (bq_of (task_ready_queue k) (eff k t)),
        p := bq_of (task_ready_queue k) p @ [t])"
proof -
  note I = base_invD[OF inv]
  let ?q = "task_ready_queue k" and ?k = "reprioritized t b p k"
  have mem: "u \<in> set (bq_of ?q x) \<longleftrightarrow> u < N_TASKS K \<and> st (tasks k u) = Ready \<and> eff k u = x" for u x
    using I(1) by (simp add: ready_inv_def)
  have bq: "kernel_bq_inv (PRIORITY_LEVELS K) ?q" "\<And>x. distinct (bq_of ?q x)" using I(1) by (simp_all add: ready_inv_def)
  have tq: "t \<in> set (bq_of ?q (eff k t))" "\<forall>p'. p' \<noteq> eff k t \<longrightarrow> t \<notin> set (bq_of ?q p')"
    using mem ok s by (auto simp: reprioritize_ok_def)
  have pL: "p < PRIORITY_LEVELS K" using ok by (simp add: reprioritize_ok_def)
  obtain q where q: "reorder_task (rq_bitmap K) ?q t p (eff k t) = Some q" "kernel_bq_inv (PRIORITY_LEVELS K) q"
    "bq_of q = (bq_of ?q)(eff k t := remove1 t (bq_of ?q (eff k t)), p := bq_of ?q p @ [t])"
    using bq.reorder_ok[OF bq(1) pL p tq(1) bq(2) tq(2), of "TARGET K"] unfolding rq_bitmap_def by blast
  have "ready_inv K (?k\<lparr>task_ready_queue := q\<rparr>)"
    unfolding ready_inv_def
  proof (intro conjI allI)
    show "kernel_bq_inv (PRIORITY_LEVELS K) (task_ready_queue (?k\<lparr>task_ready_queue := q\<rparr>))" using q(2) by simp
    fix x
    show "distinct (bq_of (task_ready_queue (?k\<lparr>task_ready_queue := q\<rparr>)) x)"
      using bq(2) tq(2) p q(3) by auto
    fix u
    show "u \<in> set (bq_of (task_ready_queue (?k\<lparr>task_ready_queue := q\<rparr>)) x) \<longleftrightarrow>
        u < N_TASKS K \<and> st (tasks (?k\<lparr>task_ready_queue := q\<rparr>) u) = Ready \<and> eff (?k\<lparr>task_ready_queue := q\<rparr>) u = x"
      using mem ok s p q(3) by (auto simp: set_remove1_eq[OF bq(2)] reprioritize_ok_def)
  qed
  moreover have "\<forall>q. t \<in> set (waits_of k q) \<longrightarrow> order (wait_queue_of k q) = TaskPriority \<longrightarrow>
        sorted (map ((eff k)(t := p)) (waits_of k q))"
    using not_queued[OF inv, of t] s by simp
  moreover have "base_inv K (?k\<lparr>task_ready_queue := q\<rparr>)" if "queue_inv K ?k" "ready_inv K (?k\<lparr>task_ready_queue := q\<rparr>)"
    using that reprioritized_parts(1-6)[OF inv ok]
    by (simp add: base_inv_def inv_ready_queue)
  ultimately show thesis using that q reprioritized_parts(7)[OF inv ok] by blast
qed

text \<open>A waiting task moves in its wait queue, if that is ordered by priority.\<close>

lemma move_waiting:
  assumes inv: "base_inv K k" and ok: "reprioritize_ok K k t b p" and s: "st (tasks k t) = Waiting"
  obtains k' where "reorder_wait_of_task t (reprioritized t b p k) = Some k'" "base_inv K k'"
    "same_mutexes (reprioritized t b p k) k'" "tasks k' = tasks (reprioritized t b p k)"
    "running_task k' = running_task k" "task_ready_queue k' = task_ready_queue k"
    "priority_boost k' = priority_boost k" "tk k' = tk k" "task_context k' = task_context k"
    "yield_pending k' = yield_pending k" "scheduler_active k' = scheduler_active k"
proof -
  note I = base_invD[OF inv] and P = reprioritized_parts[OF inv ok]
  let ?k = "reprioritized t b p k"
  have t: "t < N_TASKS K" using ok by (simp add: reprioritize_ok_def)
  have w: "current_wait (tasks k t) = Some t" "wait_task (wait_objs k t) = t"
    using waiting_task[OF I(4) t s] by metis+
  have ready: "ready_inv K ?k" using P(8) s by simp
  have mem: "t \<in> set (waits_of k q) \<longleftrightarrow> wait_in (wait_objs k t) = Some q" for q
    using queue_inv_mem[OF I(5)] t s by simp
  show thesis
  proof (cases "\<exists>q. wait_in (wait_objs k t) = Some q \<and> order (wait_queue_of k q) = TaskPriority")
    case False
    then have "reorder_wait_of_task t ?k = Some ?k"
      using w by (auto simp: reorder_wait_of_task_def reorder_wait_def split: option.split queue_order.split)
    moreover have "base_inv K ?k" using P ready False mem by (auto simp: base_inv_def)
    ultimately show thesis by (intro that[of ?k]) (simp_all add: same_mutexes_def)
  next
    case True
    then obtain q where q: "wait_in (wait_objs k t) = Some q" "order (wait_queue_of k q) = TaskPriority" by blast
    let ?ws = "remove1 t (waits_of k q)" and ?pri = "(eff k)(t := p)"
    let ?k1 = "set_waits q ?ws ?k"
    have eff: "eff ?k1 = ?pri" "eff ?k = ?pri" by auto
    have d: "distinct (waits_of k q)" "sorted (map (eff k) (waits_of k q))" using I(5) q(2) by (simp_all add: queue_inv_def)
    have nt: "t \<notin> set ?ws" "distinct ?ws" using d(1) by simp_all
    have so: "sorted (map ?pri ?ws)"
      by (rule sorted_map_cong_set[OF sorted_remove1[OF d(2)]]) (use nt in auto)
    let ?ws' = "enqueue ?pri TaskPriority t ?ws"
    have "link_wait q t ?k1 = Some (set_waits q ?ws' ?k1)"
      using link_wait_eq[of ?k1 q t] nt so q(2) unfolding eff by simp
    moreover have "set_waits q ?ws' ?k1 = set_waits q ?ws' ?k"
      by (cases q) (simp_all add: set_waits_def upd_semaphore_def upd_event_group_def upd_mutex_def)
    ultimately have re: "reorder_wait_of_task t ?k = Some (set_waits q ?ws' ?k)"
      using w q mem by (simp add: reorder_wait_of_task_def reorder_wait_def remove_wait_def)
    let ?k' = "set_waits q ?ws' ?k"
    have set': "set ?ws' = set (waits_of k q)" using mem q(1) d(1) by (auto simp: set_remove1_eq)
    have ne: "(waits_of ?k' q' = []) = (waits_of k q' = [])" "set (waits_of ?k' q') = set (waits_of k q')" for q'
      using set' mem[of q] q(1) by (auto simp del: set_enqueue)
    have f: "tasks ?k' = tasks ?k" "wait_objs ?k' = wait_objs k" "eff ?k' = ?pri" by (auto simp: fun_eq_iff)
    have "queue_inv K ?k'"
      unfolding queue_inv_def ne(2)
    proof (intro allI conjI impI)
      fix q'
      show "distinct (waits_of ?k' q')" using I(5) nt by (simp add: queue_inv_def)
      fix u
      show "u \<in> set (waits_of k q') \<longleftrightarrow> u < N_TASKS K \<and> st (tasks ?k' u) = Waiting \<and> wait_in (wait_objs ?k' u) = Some q'"
        using queue_inv_mem[OF I(5)] by simp
    next
      fix q'
      assume "order (wait_queue_of ?k' q') = TaskPriority"
      then have o: "order (wait_queue_of k q') = TaskPriority" by simp
      show "sorted (map (eff ?k') (waits_of ?k' q'))"
      proof (cases "q' = q")
        case True
        then show ?thesis unfolding f(3) using sorted_enqueue[OF so, of t] by simp
      next
        case False
        then have tq: "t \<notin> set (waits_of k q')" using mem q(1) by simp
        have "sorted (map (eff k) (waits_of k q'))" using I(5) o by (simp add: queue_inv_def)
        then have "sorted (map ?pri (waits_of k q'))" by (rule sorted_map_cong_set) (use tq in auto)
        then show ?thesis unfolding f(3) using False by simp
      qed
    qed
    moreover have "sem_inv K ?k'" using I(6) unfolding sem_inv_def ne(1) by simp
    moreover have "event_inv K ?k'" using I(7) unfolding event_inv_def ne(2) by simp
    ultimately have "base_inv K ?k'" using P(1,2,3,6) ready unfolding base_inv_def inv_set_waits by blast
    then show thesis using re by (intro that[of ?k']) (simp_all add: same_mutexes_def)
  qed
qed

section \<open>The operation\<close>

lemma activated_reprioritized [simp]: "activated K (reprioritized t b p k) = activated K k"
  by (simp add: activated_def)

lemma reposition_eq:
  "upd_task t (\<lambda>c. c\<lparr>effective_priority := p\<rparr>) (upd_task t (\<lambda>c. c\<lparr>base_priority := b\<rparr>) k) = reprioritized t b p k"
  by (simp add: reprioritized_def upd_task_def)

text \<open>What the operation must achieve, with the new effective priority \<open>p\<close>.\<close>

definition repositioned :: "kcfg \<Rightarrow> nat \<Rightarrow> nat \<Rightarrow> nat \<Rightarrow> kernel \<Rightarrow> kernel \<Rightarrow> bool" where
  "repositioned K t b p k k' \<longleftrightarrow> kinv K k' \<and> frame k k' \<and> (preempt_inv k \<longrightarrow> preempt_inv k') \<and>
     (\<forall>u. base_priority (tasks k' u) = (if u = t then b else base_priority (tasks k u)) \<and>
        eff k' u = (if u = t then p else eff k u) \<and> st (tasks k' u) = st (tasks k u))"

lemma repositioned_check:
  assumes K: "kcfg_ok K" and inv: "kinv K k'" and fr: "frame k k'"
    and t: "tasks k' = tasks (reprioritized t b p k)"
  obtains k'' where "unlock_cpu_and_check_preemption K k' = Some k''" "repositioned K t b p k k''"
proof -
  obtain y where y: "unlock_cpu_and_check_preemption K k' = Some (k'\<lparr>cpu_lock := False, yield_pending := y\<rparr>)"
    "kinv K (k'\<lparr>cpu_lock := False, yield_pending := y\<rparr>)" "preempt_inv (k'\<lparr>cpu_lock := False, yield_pending := y\<rparr>)"
    "frame k' (k'\<lparr>cpu_lock := False, yield_pending := y\<rparr>)"
    using unlock_check_ok[OF K inv] by metis
  then show thesis using frame_trans[OF fr y(4)] t
    by (intro that[of "k'\<lparr>cpu_lock := False, yield_pending := y\<rparr>"]) (simp_all add: repositioned_def)
qed

lemma running_reprioritized [simp]:
  "running_task_is_running (reprioritized t b p k) = running_task_is_running k"
  by (rule running_task_is_running_st) simp_all

lemma reposition_task_ok:
  assumes K: "kcfg_ok K" and inv: "kinv K k" and ok: "reprioritize_ok K k t b p"
    and m: "mutex_inv K None {} (reprioritized t b p k)" and p: "p \<noteq> eff k t"
  obtains k' where "reposition_task K t p (eff k t) (reprioritized t b p k) = Some k'" "repositioned K t b p k k'"
proof -
  note I = kinvD[OF inv] and P = reprioritized_parts[OF kinvD(1)[OF inv] ok]
  let ?k = "reprioritized t b p k"
  have fr: "frame k ?k" by (simp add: frame_def)
  consider "st (tasks k t) = Running" | "st (tasks k t) = Ready" | "st (tasks k t) = Waiting"
    using ok by (cases "st (tasks k t)") (simp_all add: reprioritize_ok_def)
  then show thesis
  proof cases
    case 1
    have "base_inv K ?k" using P 1 not_queued[OF I(1), of t] by (simp add: base_inv_def)
    then have kinv: "kinv K ?k" using I(3,4) m by (simp add: kinv_def boost_inv_def)
    obtain k' where "unlock_cpu_and_check_preemption K ?k = Some k'" "repositioned K t b p k k'"
      using repositioned_check[OF K kinv fr refl] by blast
    then show thesis using 1 that by (simp add: reposition_task_def)
  next
    case 2
    obtain q where q: "reorder_task (rq_bitmap K) (task_ready_queue k) t p (eff k t) = Some q"
      "base_inv K (?k\<lparr>task_ready_queue := q\<rparr>)"
      using move_ready[OF K I(1) ok 2 p] by metis
    let ?k1 = "?k\<lparr>task_ready_queue := q\<rparr>"
    have run: "running_task_is_running ?k1 = running_task_is_running k"
      by (rule running_task_is_running_st) simp_all
    have same: "same_mutexes ?k ?k1" by (simp add: same_mutexes_def)
    have kinv: "kinv K ?k1"
      using q(2) m I(3,4) run by (simp add: kinv_def same_mutexes_inv[OF same] boost_inv_def) (simp add: activated_def)
    have fr1: "frame k ?k1" using run by (simp add: frame_def)
    have "tasks ?k1 = tasks ?k" by simp
    then obtain k' where "unlock_cpu_and_check_preemption K ?k1 = Some k'" "repositioned K t b p k k'"
      using repositioned_check[OF K kinv fr1] by blast
    then show thesis using 2 q(1) that by (simp add: reposition_task_def)
  next
    case 3
    obtain k1 where k1: "reorder_wait_of_task t ?k = Some k1" "base_inv K k1"
      "same_mutexes ?k k1" "tasks k1 = tasks ?k"
      "running_task k1 = running_task k" "task_ready_queue k1 = task_ready_queue k"
      "priority_boost k1 = priority_boost k" "tk k1 = tk k" "task_context k1 = task_context k"
      "yield_pending k1 = yield_pending k" "scheduler_active k1 = scheduler_active k"
      using move_waiting[OF I(1) ok 3] by metis
    have run: "running_task_is_running k1 = running_task_is_running k"
      by (rule running_task_is_running_st) (simp_all add: k1)
    have "mutex_inv K None {} k1" using m by (simp add: same_mutexes_inv[OF k1(3)])
    then have "kinv K k1" using k1(2) I(3,4) run by (simp add: kinv_def boost_inv_def k1(7)) (simp add: activated_def k1(4))
    moreover have "frame k k1" using run by (simp add: frame_def k1)
    moreover have "prev_task_priority k1 = prev_task_priority k"
      using 3 by (auto simp: prev_task_priority_def k1(4,5) split: option.split)
    then have "preempt_inv k1 = preempt_inv k" unfolding preempt_inv_def by (simp add: k1)
    ultimately have "repositioned K t b p k k1" by (simp add: repositioned_def k1(4))
    then show thesis using 3 k1(1,4) that by (simp add: reposition_task_def)
  qed
qed

text \<open>The functional specification of \<^verbatim>\<open>set_task_base_priority\<close>, on every branch.\<close>

lemma set_priority_ok:
  assumes K: "kcfg_ok K" and inv: "kinv K k" and t: "t < N_TASKS K"
  shows
    "\<not> b < PRIORITY_LEVELS K \<Longrightarrow> set_task_base_priority K t b k = Some (Err BadParam, k)"
    "b < PRIORITY_LEVELS K \<Longrightarrow> st (tasks k t) = Dormant \<Longrightarrow> set_task_base_priority K t b k = Some (Err BadObjectState, k)"
    "b < PRIORITY_LEVELS K \<Longrightarrow> st (tasks k t) \<noteq> Dormant \<Longrightarrow> \<not> base_priority_allowed K k t b \<Longrightarrow>
       set_task_base_priority K t b k = Some (Err BadParam, k)"
    "b < PRIORITY_LEVELS K \<Longrightarrow> st (tasks k t) \<noteq> Dormant \<Longrightarrow> base_priority_allowed K k t b \<Longrightarrow>
       \<exists>k'. set_task_base_priority K t b k = Some (Ok (), k') \<and>
         repositioned K t b (documented_priority K {} k t b) k k'"
proof -
  note I = kinvD[OF inv] and M = mutex_invD[OF kinvD(2)[OF inv]]
  have own: "base_priority_allowed K k t (base_priority (tasks k t))"
    by (rule lower_priority_allowed[OF I(2) t]) simp
  show "\<not> b < PRIORITY_LEVELS K \<Longrightarrow> set_task_base_priority K t b k = Some (Err BadParam, k)"
    "b < PRIORITY_LEVELS K \<Longrightarrow> st (tasks k t) = Dormant \<Longrightarrow> set_task_base_priority K t b k = Some (Err BadObjectState, k)"
    by (simp_all add: set_task_base_priority_def to_task_priority_def)
  show "set_task_base_priority K t b k = Some (Err BadParam, k)"
    if "b < PRIORITY_LEVELS K" "st (tasks k t) \<noteq> Dormant" "\<not> base_priority_allowed K k t b"
  proof -
    have "b < base_priority (tasks k t)"
      using lower_priority_allowed[OF I(2) t, of b] that(3) by (meson not_le)
    then show ?thesis using that raise_allowed_eq[OF inv t, of b]
      by (simp add: set_task_base_priority_def to_task_priority_def)
  qed
  assume b: "b < PRIORITY_LEVELS K" "st (tasks k t) \<noteq> Dormant" "base_priority_allowed K k t b"
  let ?p = "documented_priority K {} k t b"
  have live: "st (tasks k t) \<noteq> PendingActivation" using I(4) t by (simp add: activated_def)
  have "?p < PRIORITY_LEVELS K" by (rule documented_priority_lt[OF b(1)])
  then have ok: "reprioritize_ok K k t b ?p" using t b live by (simp add: reprioritize_ok_def)
  have old: "eff k t = documented_priority K {} k t (base_priority (tasks k t))"
    using M(3) t b(2) live by (simp add: priorities_ok_def live_def)
  have ev: "evaluate_task_effective_priority K t b k = Some ?p"
    by (rule evaluate_priority_ok[OF M(1) t]) (simp add: chain_head_def)
  have m: "mutex_inv K None {} (reprioritized t b ?p k)" by (rule reprioritized_mutex_inv[OF inv t b(3)])
  show "\<exists>k'. set_task_base_priority K t b k = Some (Ok (), k') \<and> repositioned K t b ?p k k'"
  proof (cases "base_priority (tasks k t) = b")
    case True
    then have "set_task_base_priority K t b k = Some (Ok (), k)"
      using b by (simp add: set_task_base_priority_def to_task_priority_def Let_def)
    then show ?thesis using True old inv by (auto simp: repositioned_def)
  next
    case base: False
    have allowed: "(if b < base_priority (tasks k t) then base_priority_raise_allowed K t b k else Some True) = Some True"
      using raise_allowed_eq[OF inv t, of b] b(3) by simp
    show ?thesis
    proof (cases "eff k t = ?p")
      case True
      let ?k = "reprioritized t b ?p k"
      have q: "sorted (map ((eff k)(t := ?p)) (waits_of k q))" if "order (wait_queue_of k q) = TaskPriority" for q
        using I(9) that unfolding queue_inv_def fun_upd_idem[of "eff k" t ?p, OF True] by simp
      have "base_inv K ?k" using reprioritized_parts[OF I(1) ok] True q by (simp add: base_inv_def)
      then have "kinv K ?k" using I(3,4) m by (simp add: kinv_def boost_inv_def)
      moreover have "preempt_inv ?k = preempt_inv k"
      proof -
        have "prev_task_priority ?k = prev_task_priority k"
          using True by (auto simp: prev_task_priority_def split: option.split)
        then show ?thesis unfolding preempt_inv_def by simp
      qed
      ultimately have "repositioned K t b ?p k ?k" by (simp add: repositioned_def frame_def)
      moreover have "set_task_base_priority K t b k = Some (Ok (), ?k)"
        using b base allowed ev True
        by (simp add: set_task_base_priority_def to_task_priority_def Let_def reposition_eq del: if_split)
      ultimately show ?thesis by blast
    next
      case False
      obtain k' where "reposition_task K t ?p (eff k t) (reprioritized t b ?p k) = Some k'" "repositioned K t b ?p k k'"
        using reposition_task_ok[OF K inv ok m] False by metis
      then show ?thesis using b base allowed ev False
        by (simp add: set_task_base_priority_def to_task_priority_def Let_def reposition_eq del: if_split)
    qed
  qed
qed

lemma set_priority_call_ok:
  assumes K: "kcfg_ok K" and inv: "kinv K k" and t: "t < N_TASKS K"
  shows "call_ok K k (set_task_base_priority K t b k)"
proof -
  note S = set_priority_ok[OF K inv t, of b]
  consider "\<not> b < PRIORITY_LEVELS K" | "b < PRIORITY_LEVELS K" "st (tasks k t) = Dormant"
    | "b < PRIORITY_LEVELS K" "st (tasks k t) \<noteq> Dormant" "\<not> base_priority_allowed K k t b"
    | "b < PRIORITY_LEVELS K" "st (tasks k t) \<noteq> Dormant" "base_priority_allowed K k t b" by blast
  then show ?thesis
  proof cases
    case 4
    then obtain k' where "set_task_base_priority K t b k = Some (Ok (), k')"
      "repositioned K t b (documented_priority K {} k t b) k k'" using S(4) by blast
    then show ?thesis by (intro call_okI[where x = "Ok ()" and k' = k']) (simp_all add: repositioned_def)
  qed (use S inv in \<open>simp_all add: call_ok_same\<close>)
qed

end
