(* ===== verification/Task_Contract.thy ===== *)
theory Task_Contract
  imports Priority_Contract Semaphore Event_Group
begin

text \<open>
  The system calls on tasks keep the invariants: activation, parking, interruption, sleep, the
  exit of a task, and the returns of the blocking ones.
\<close>

section \<open>Activation\<close>

text \<open>A task that is not live becomes Ready with its base priority.\<close>

definition started :: "nat \<Rightarrow> fixed_prio_bitmap bitmap_queue \<Rightarrow> kernel \<Rightarrow> kernel" where
  "started t q k = (upd_task t (\<lambda>c. c\<lparr>st := Ready\<rparr>) k)\<lparr>task_ready_queue := q\<rparr>"

lemma started_simps [simp]:
  "running_task (started t q k) = running_task k" "task_ready_queue (started t q k) = q"
  "priority_boost (started t q k) = priority_boost k" "tk (started t q k) = tk k"
  "semaphores (started t q k) = semaphores k" "event_groups (started t q k) = event_groups k"
  "mutexes (started t q k) = mutexes k" "timers (started t q k) = timers k"
  "wait_objs (started t q k) = wait_objs k" "cpu_lock (started t q k) = cpu_lock k"
  "task_context (started t q k) = task_context k" "yield_pending (started t q k) = yield_pending k"
  "scheduler_active (started t q k) = scheduler_active k"
  "wait_queue_of (started t q k) x = wait_queue_of k x"
  "tasks (started t q k) = (tasks k)(t := (tasks k t)\<lparr>st := Ready\<rparr>)"
  by (simp_all add: started_def)

lemma make_ready_started:
  assumes K: "kcfg_ok K" and inv: "base_inv K k" and t: "t < N_TASKS K" "\<not> live (st (tasks k t))"
  obtains q where "make_ready K t k = Some (started t q k)" "base_inv K (started t q k)"
    "bq_of q = (bq_of (task_ready_queue k))(eff k t := bq_of (task_ready_queue k) (eff k t) @ [t])"
proof -
  note I = base_invD[OF inv]
  have s: "st (tasks k t) = Dormant \<or> st (tasks k t) = PendingActivation" using t(2) by (simp add: live_def)
  then have s': "st (tasks k t) \<noteq> Ready" "st (tasks k t) \<noteq> Waiting" "st (tasks k t) \<noteq> Running" by auto
  have p: "eff k t < PRIORITY_LEVELS K" using I(2) t by (simp add: pri_inv_def)
  obtain q where q: "make_ready K t k = Some (started t q k)" "ready_inv K (started t q k)"
    "bq_of q = (bq_of (task_ready_queue k))(eff k t := bq_of (task_ready_queue k) (eff k t) @ [t])"
    using make_ready_ok[OF K I(1) t(1) s'(1) p] unfolding started_def by blast
  have "pri_inv K (started t q k)" using I(2) by (simp add: pri_inv_def)
  moreover have "run_inv K (started t q k)"
    unfolding run_inv_def using s s' by (auto dest: run_invD[OF I(3)] run_inv_state[OF I(3)])
  moreover have "wait_inv K (started t q k)"
    unfolding wait_inv_def
  proof (intro allI impI)
    fix u
    assume "u < N_TASKS K"
    then have w: "task_wait_ok K (tasks k u) (wait_objs k u) u" using I(4) by (simp add: wait_inv_def)
    show "task_wait_ok K (tasks (started t q k) u) (wait_objs (started t q k) u) u"
    proof (cases "u = t")
      case True
      then show ?thesis using w s by (auto simp: task_wait_ok_def)
    next
      case False
      then show ?thesis using w by simp
    qed
  qed
  moreover have "queue_inv K (started t q k)"
  proof -
    have eff: "eff (started t q k) = eff k" by auto
    have "st (tasks (started t q k) u) = Waiting \<longleftrightarrow> st (tasks k u) = Waiting" for u using s' by auto
    then show ?thesis using I(5) unfolding queue_inv_def eff by simp
  qed
  moreover have "sem_inv K (started t q k)" "event_inv K (started t q k)"
    using I(6,7) by (simp_all add: sem_inv_def event_inv_def)
  moreover have "timer_inv K (started t q k)"
    using I(8) by (auto simp: timer_inv_def linked_ok_def split: timeout_ref.splits)
  ultimately have "base_inv K (started t q k)" using q(2) by (simp add: base_inv_def)
  then show thesis using q that by blast
qed

lemma started_mutex_inv:
  assumes base: "base_inv K k" and inv: "mutex_inv K None {} k"
    and t: "t < N_TASKS K" "\<not> live (st (tasks k t))" "eff k t = base_priority (tasks k t)"
  shows "mutex_inv K None {} (started t q k)"
proof -
  note M = mutex_invD[OF inv]
  let ?k = "started t q k"
  have f: "base_priority (tasks ?k u) = base_priority (tasks k u)" "blocked_in (tasks ?k u) = blocked_in (tasks k u)"
    "chain_head None ?k u = chain_head None k u" "eff ?k u = eff k u" for u
    by (simp_all add: chain_head_def)
  have none: "owning_task (mutexes k m) \<noteq> Some t" if "m < N_MUTEXES K" for m
    using M(2) that t(2) by (auto simp: owners_ok_def)
  have "chains_ok K None {} ?k" using M(1) unfolding chains_ok_def f held_by_def started_simps .
  moreover have "owners_ok K ?k"
    unfolding owners_ok_def f
  proof (intro allI impI conjI)
    fix m
    assume m: "m < N_MUTEXES K"
    show "order (wait_queue_of ?k (MutexQ m)) = TaskPriority" using M(2) m by (simp add: owners_ok_def)
    fix u
    assume "owning_task (mutexes ?k m) = Some u"
    then have u: "owning_task (mutexes k m) = Some u" by simp
    then show "u < N_TASKS K" "live (st (tasks ?k u))" "\<And>c. ceiling (mutexes ?k m) = Some c \<Longrightarrow> c \<le> base_priority (tasks k u)"
      using M(2) m none[OF m] by (auto simp: owners_ok_def live_def)
  qed
  moreover have "priorities_ok K None {} ?k"
    unfolding priorities_ok_def f
  proof (intro allI impI)
    fix u
    assume u: "u < N_TASKS K" "live (st (tasks ?k u))"
    have doc: "documented_priority K {} ?k u b = documented_priority K {} k u b" for b
      by (simp add: documented_priority_def ceilings_held_def)
    show "eff k u = documented_priority K {} ?k u (base_priority (tasks k u))"
    proof (cases "u = t")
      case True
      have "ceilings_held K {} k t = {}" using none by (auto simp: ceilings_held_def)
      then show ?thesis using True t(3) unfolding doc by (simp add: documented_priority_def)
    next
      case False
      then show ?thesis using M(3) u unfolding doc by (simp add: priorities_ok_def)
    qed
  qed
  moreover have "mutex_waits_ok K ?k"
    unfolding mutex_waits_ok_alt f
  proof (intro allI impI)
    fix u x b
    assume u: "u < N_TASKS K" "blocked_in (tasks k u) = Some (MutexCall x, b)"
    then have old: "mutex_wait_ok k u x" using M(4) by (simp add: mutex_waits_ok_alt)
    have "task_wait_ok K (tasks k u) (wait_objs k u) u" using base_invD(4)[OF base] u(1) by (simp add: wait_inv_def)
    then have "u \<noteq> t" using u t(2) by (auto simp: task_wait_ok_def live_def)
    then show "mutex_wait_ok ?k u x" using old by (simp add: mutex_wait_ok_def)
  qed
  ultimately show ?thesis by (simp add: mutex_inv_def)
qed

lemma running_not_dormant:
  "base_inv K k \<Longrightarrow> running_task k = Some t \<Longrightarrow> live (st (tasks k t))"
  using run_inv_state[OF base_invD(3), of K k t] by (auto simp: live_def)

lemma activate_ok:
  assumes K: "kcfg_ok K" and inv: "kinv K k" and t: "t < N_TASKS K" "st (tasks k t) = Dormant"
  obtains k' where "activate K t k = Some (Ok (), k')" "kinv K k'" "frame k k'" "preempt_inv k'"
    "st (tasks k' t) = Ready" "eff k' t = attr_priority (tasks k t)" "base_priority (tasks k' t) = attr_priority (tasks k t)"
    "\<not> park_token (tasks k' t)" "\<And>u. u \<noteq> t \<Longrightarrow> tasks k' u = tasks k u"
proof -
  note I = kinvD[OF inv] and M = mutex_invD[OF kinvD(2)[OF inv]]
  define f :: "task_cb \<Rightarrow> task_cb" where
    "f = (\<lambda>c. c\<lparr>park_token := False, base_priority := attr_priority c, effective_priority := attr_priority c\<rparr>)"
  let ?k1 = "upd_task t f k"
  have k1: "upd_task t (\<lambda>c. c\<lparr>effective_priority := attr_priority c\<rparr>)
      (upd_task t (\<lambda>c. c\<lparr>base_priority := attr_priority c\<rparr>) (upd_task t (\<lambda>c. c\<lparr>park_token := False\<rparr>) k)) = ?k1"
    by (simp add: upd_task_def f_def)
  have last: "last_mutex_held (tasks k t) = None"
    using I(8) t by (simp add: wait_inv_def task_wait_ok_def)
  have b1: "base_inv K ?k1"
    by (rule retask_base_inv[OF I(1)])
      (use I(6) t last not_queued[OF I(1), of t] in \<open>auto simp: f_def pri_inv_def\<close>)
  have nl: "\<not> live (st (tasks ?k1 t))" using t(2) by (simp add: live_def f_def)
  have none: "owning_task (mutexes k m) \<noteq> Some t" if "m < N_MUTEXES K" for m
    using M(2) that t(2) by (auto simp: owners_ok_def live_def)
  have m1: "mutex_inv K None {} ?k1"
  proof -
    have f: "st (tasks ?k1 u) = st (tasks k u)" "blocked_in (tasks ?k1 u) = blocked_in (tasks k u)"
      "wait_result (tasks ?k1 u) = wait_result (tasks k u)" "chain_head None ?k1 u = chain_head None k u" for u
      by (simp_all add: f_def chain_head_def)
    have o: "u \<noteq> t \<Longrightarrow> tasks ?k1 u = tasks k u" for u by simp
    have "chains_ok K None {} ?k1" using M(1) unfolding chains_ok_def f held_by_def upd_task_simps .
    moreover have "owners_ok K ?k1"
      using M(2) none unfolding owners_ok_def f by (metis o upd_task_simps(8,14))
    moreover have "priorities_ok K None {} ?k1"
      unfolding priorities_ok_def f
    proof (intro allI impI)
      fix u
      assume u: "u < N_TASKS K" "live (st (tasks k u))"
      then have "u \<noteq> t" using t(2) by (auto simp: live_def)
      then show "eff ?k1 u = documented_priority K {} ?k1 u (base_priority (tasks ?k1 u))"
        using M(3) u by (simp add: priorities_ok_def documented_priority_def ceilings_held_def)
    qed
    moreover have "mutex_waits_ok K ?k1"
      unfolding mutex_waits_ok_alt f
    proof (intro allI impI)
      fix u x b
      assume u: "u < N_TASKS K" "blocked_in (tasks k u) = Some (MutexCall x, b)"
      then have old: "mutex_wait_ok k u x" using M(4) by (simp add: mutex_waits_ok_alt)
      have "task_wait_ok K (tasks k u) (wait_objs k u) u" using I(8) u(1) by (simp add: wait_inv_def)
      then have "u \<noteq> t" using u t(2) by (auto simp: task_wait_ok_def)
      then show "mutex_wait_ok ?k1 u x" using old by (simp add: mutex_wait_ok_def)
    qed
    ultimately show ?thesis by (simp add: mutex_inv_def)
  qed
  obtain q where q: "make_ready K t ?k1 = Some (started t q ?k1)" "base_inv K (started t q ?k1)"
    using make_ready_started[OF K b1 t(1) nl] by metis
  let ?k2 = "started t q ?k1"
  have m2: "mutex_inv K None {} ?k2" by (rule started_mutex_inv[OF b1 m1 t(1) nl]) (simp add: f_def)
  have "running_task k \<noteq> Some t" using running_not_dormant[OF I(1), of t] t(2) by (auto simp: live_def)
  then have run: "running_task_is_running ?k2 = running_task_is_running k"
    by (intro running_task_is_running_st) auto
  have kinv2: "kinv K ?k2"
    using q(2) m2 I(3,4) run by (auto simp: kinv_def boost_inv_def activated_def)
  obtain y where y: "unlock_cpu_and_check_preemption K ?k2 = Some (?k2\<lparr>cpu_lock := False, yield_pending := y\<rparr>)"
    "kinv K (?k2\<lparr>cpu_lock := False, yield_pending := y\<rparr>)" "preempt_inv (?k2\<lparr>cpu_lock := False, yield_pending := y\<rparr>)"
    "frame ?k2 (?k2\<lparr>cpu_lock := False, yield_pending := y\<rparr>)"
    using unlock_check_ok[OF K kinv2] by metis
  have fr: "frame k ?k2" using run by (simp add: frame_def)
  have "activate K t k = Some (Ok (), ?k2\<lparr>cpu_lock := False, yield_pending := y\<rparr>)"
    using t(2) q(1) y(1) by (simp add: activate_def Let_def k1)
  then show thesis using y frame_trans[OF fr y(4)]
    by (intro that[of "?k2\<lparr>cpu_lock := False, yield_pending := y\<rparr>"]) (simp_all add: f_def)
qed

section \<open>The exit of a task\<close>

text \<open>The task \<open>t\<close>, which holds no mutex any more, stops running.\<close>

definition stopped :: "nat \<Rightarrow> kernel \<Rightarrow> kernel" where
  "stopped t k = (upd_task t (\<lambda>c. c\<lparr>st := Dormant\<rparr>) k)\<lparr>running_task := None\<rparr>"

lemma stopped_simps [simp]:
  "running_task (stopped t k) = None" "task_ready_queue (stopped t k) = task_ready_queue k"
  "priority_boost (stopped t k) = priority_boost k" "tk (stopped t k) = tk k"
  "semaphores (stopped t k) = semaphores k" "event_groups (stopped t k) = event_groups k"
  "mutexes (stopped t k) = mutexes k" "timers (stopped t k) = timers k"
  "wait_objs (stopped t k) = wait_objs k" "cpu_lock (stopped t k) = cpu_lock k"
  "task_context (stopped t k) = task_context k" "yield_pending (stopped t k) = yield_pending k"
  "wait_queue_of (stopped t k) q = wait_queue_of k q"
  "tasks (stopped t k) = (tasks k)(t := (tasks k t)\<lparr>st := Dormant\<rparr>)"
  by (simp_all add: stopped_def)

lemma stopped_base_inv:
  assumes inv: "base_inv K k"
    and t: "running_task k = Some t" "st (tasks k t) = Running" "blocked_in (tasks k t) = None" "last_mutex_held (tasks k t) = None"
  shows "base_inv K (stopped t k)"
proof -
  note I = base_invD[OF inv]
  have tN: "t < N_TASKS K" using run_inv_state[OF I(3) t(1)] by blast
  have "ready_inv K (stopped t k)" using I(1) t(2) by (auto simp: ready_inv_def)
  moreover have "pri_inv K (stopped t k)" using I(2) by (simp add: pri_inv_def)
  moreover have "run_inv K (stopped t k)"
    unfolding run_inv_def using t(1) by (auto dest: run_invD[OF I(3)])
  moreover have "wait_inv K (stopped t k)"
    unfolding wait_inv_def
  proof (intro allI impI)
    fix u
    assume "u < N_TASKS K"
    then have w: "task_wait_ok K (tasks k u) (wait_objs k u) u" using I(4) by (simp add: wait_inv_def)
    then show "task_wait_ok K (tasks (stopped t k) u) (wait_objs (stopped t k) u) u"
      using t by (cases "u = t") (auto simp: task_wait_ok_def)
  qed
  moreover have "queue_inv K (stopped t k)"
  proof -
    have eff: "eff (stopped t k) = eff k" by auto
    have "st (tasks (stopped t k) u) = Waiting \<longleftrightarrow> st (tasks k u) = Waiting" for u using t(2) by auto
    then show ?thesis using I(5) unfolding queue_inv_def eff by simp
  qed
  moreover have "sem_inv K (stopped t k)" "event_inv K (stopped t k)"
    using I(6,7) by (simp_all add: sem_inv_def event_inv_def)
  moreover have "timer_inv K (stopped t k)"
    using I(8) by (auto simp: timer_inv_def linked_ok_def split: timeout_ref.splits)
  ultimately show ?thesis by (simp add: base_inv_def)
qed

lemma stopped_mutex_inv:
  assumes inv: "mutex_inv K (Some (t, None)) {} k" and t: "t < N_TASKS K" "blocked_in (tasks k t) = None"
    "last_mutex_held (tasks k t) = None"
  shows "mutex_inv K None {} (stopped t k)"
proof -
  note M = mutex_invD[OF inv]
  let ?k = "stopped t k"
  obtain ms where "chain (\<lambda>m. prev_mutex_held (mutexes k m)) (chain_head (Some (t, None)) k t) ms" "set ms = held_by K {} k t"
    using held_chain[OF M(1) t(1)] by metis
  then have "held_by K {} k t = {}" by (simp add: chain_head_def chain_None)
  then have none: "owning_task (mutexes k m) \<noteq> Some t" if "m < N_MUTEXES K" for m
    using that by (auto simp: held_by_def)
  have f: "base_priority (tasks ?k u) = base_priority (tasks k u)" "blocked_in (tasks ?k u) = blocked_in (tasks k u)"
    "chain_head None ?k u = chain_head (Some (t, None)) k u" "eff ?k u = eff k u" for u
    using t(3) by (simp_all add: chain_head_def)
  have "chains_ok K None {} ?k" using M(1) unfolding chains_ok_def f held_by_def stopped_simps .
  moreover have "owners_ok K ?k"
    unfolding owners_ok_def f
  proof (intro allI impI conjI)
    fix m
    assume m: "m < N_MUTEXES K"
    show "order (wait_queue_of ?k (MutexQ m)) = TaskPriority" using M(2) m by (simp add: owners_ok_def)
    fix u
    assume "owning_task (mutexes ?k m) = Some u"
    then have u: "owning_task (mutexes k m) = Some u" by simp
    then have "u \<noteq> t" using none[OF m] by auto
    then show "u < N_TASKS K" "live (st (tasks ?k u))" "\<And>c. ceiling (mutexes ?k m) = Some c \<Longrightarrow> c \<le> base_priority (tasks k u)"
      using M(2) m u by (auto simp: owners_ok_def)
  qed
  moreover have "priorities_ok K None {} ?k"
    unfolding priorities_ok_def f
  proof (intro allI impI)
    fix u
    assume u: "u < N_TASKS K" "live (st (tasks ?k u))"
    then have "u \<noteq> t" by (auto simp: live_def)
    then show "eff k u = documented_priority K {} ?k u (base_priority (tasks k u))"
      using M(3) u by (simp add: priorities_ok_def documented_priority_def ceilings_held_def)
  qed
  moreover have "mutex_waits_ok K ?k"
    unfolding mutex_waits_ok_alt f
  proof (intro allI impI)
    fix u x b
    assume u: "u < N_TASKS K" "blocked_in (tasks k u) = Some (MutexCall x, b)"
    then have "mutex_wait_ok k u x" "u \<noteq> t" using M(4) t(2) by (auto simp: mutex_waits_ok_alt)
    then show "mutex_wait_ok ?k u x" by (simp add: mutex_wait_ok_def)
  qed
  ultimately show ?thesis by (simp add: mutex_inv_def)
qed

lemma exit_current_task_ok:
  assumes K: "kcfg_ok K" and inv: "kinv K k" and c: "caller_ok k" "task_context k"
  obtains t k' where "running_task k = Some t" "exit_current_task K k = Some (Ok (), k')" "kinv K k'"
    "running_task k' = None" "st (tasks k' t) = Dormant" "cpu_lock k'" "\<not> priority_boost k'"
    "handle_tick_in_progress (tk k') = handle_tick_in_progress (tk k)"
    "\<forall>m<N_MUTEXES K. if owning_task (mutexes k m) = Some t
       then inconsistent (mutexes k' m) \<and>
         owning_task (mutexes k' m) = (case waits_of k (MutexQ m) of [] \<Rightarrow> None | n # _ \<Rightarrow> Some n)
       else inconsistent (mutexes k' m) = inconsistent (mutexes k m) \<and>
         owning_task (mutexes k' m) = owning_task (mutexes k m)"
proof -
  let ?k0 = "k\<lparr>cpu_lock := True, priority_boost := False\<rparr>"
  obtain t where t: "running_task k = Some t" "st (tasks k t) = Running" "blocked_in (tasks k t) = None"
    using c by (auto simp: caller_ok_def)
  have tN: "t < N_TASKS K" using run_inv_state[OF kinvD(7)[OF inv] t(1)] by blast
  have kinv0: "kinv K ?k0" using inv by (simp add: kinv_def boost_inv_def)
  have t0: "running_task ?k0 = Some t" "st (tasks ?k0 t) = Running" "blocked_in (tasks ?k0 t) = None" using t by simp_all
  obtain k1 where k1: "abandon_held_mutexes K t ?k0 = Some k1" "base_inv K k1" "mutex_inv K (Some (t, None)) {} k1"
    "frame ?k0 k1" "tasks k1 t = (tasks ?k0 t)\<lparr>last_mutex_held := None\<rparr>" "priority_boost k1 = priority_boost ?k0"
    "cpu_lock k1 = cpu_lock ?k0" "activated K k1"
    "\<forall>m<N_MUTEXES K. if owning_task (mutexes ?k0 m) = Some t
       then inconsistent (mutexes k1 m) \<and>
         owning_task (mutexes k1 m) = (case waits_of ?k0 (MutexQ m) of [] \<Rightarrow> None | n # _ \<Rightarrow> Some n)
       else inconsistent (mutexes k1 m) = inconsistent (mutexes ?k0 m) \<and>
         owning_task (mutexes k1 m) = owning_task (mutexes ?k0 m)"
    by (rule abandon_held_ok[OF K kinv0 t0])
  have waits0: "waits_of ?k0 q = waits_of k q" for q by simp
  have t1: "running_task k1 = Some t" "st (tasks k1 t) = Running" "blocked_in (tasks k1 t) = None" "last_mutex_held (tasks k1 t) = None"
    using k1(4,5) t by (simp_all add: frame_def)
  let ?k2 = "stopped t k1"
  have "kinv K ?k2"
    using stopped_base_inv[OF k1(2) t1] stopped_mutex_inv[OF k1(3) tN t1(3,4)] k1(6,8)
    by (simp add: kinv_def boost_inv_def activated_def)
  moreover have "exit_current_task K k = Some (Ok (), ?k2)"
  proof -
    have "(if \<not> cpu_lock k then k\<lparr>cpu_lock := True\<rparr> else k)\<lparr>priority_boost := False\<rparr> = ?k0"
      by (cases "cpu_lock k") (auto intro!: kernel_eqI)
    moreover have "running_task (if \<not> cpu_lock k then k\<lparr>cpu_lock := True\<rparr> else k) = running_task k" by simp
    ultimately show ?thesis using c(2) t(1) t1 k1(1)
      by (simp add: exit_current_task_def Let_def stopped_def split del: if_split)
  qed
  ultimately show thesis using t(1) k1 waits0 by (intro that[of t ?k2]) (simp_all add: frame_def)
qed

section \<open>Parking, interrupting, sleeping\<close>

text \<open>The token of a task concerns no invariant.\<close>

lemma park_token_ok:
  fixes t :: nat and b :: bool
  assumes inv: "kinv K k"
  defines "k' \<equiv> upd_task t (\<lambda>c. c\<lparr>park_token := b\<rparr>) k"
  shows "kinv K k'" "frame k k'" "preempt_inv k' = preempt_inv k" "caller_ok k' = caller_ok k"
proof -
  note I = kinvD[OF inv] and M = mutex_invD[OF kinvD(2)[OF inv]]
  have f: "st (tasks k' u) = st (tasks k u)" "blocked_in (tasks k' u) = blocked_in (tasks k u)"
    "wait_result (tasks k' u) = wait_result (tasks k u)" "base_priority (tasks k' u) = base_priority (tasks k u)"
    "eff k' u = eff k u" "last_mutex_held (tasks k' u) = last_mutex_held (tasks k u)"
    "mutexes k' = mutexes k" "wait_queue_of k' q = wait_queue_of k q" "running_task k' = running_task k"
    "task_context k' = task_context k" "priority_boost k' = priority_boost k" "yield_pending k' = yield_pending k"
    "task_ready_queue k' = task_ready_queue k" "tk k' = tk k" "timers k' = timers k" for u q
    by (simp_all add: k'_def)
  have pri: "t < N_TASKS K \<Longrightarrow> base_priority (tasks k t) < PRIORITY_LEVELS K \<and> eff k t < PRIORITY_LEVELS K"
    using I(6) by (simp add: pri_inv_def)
  have dormant: "t < N_TASKS K \<Longrightarrow> st (tasks k t) \<in> {Dormant, PendingActivation} \<Longrightarrow> last_mutex_held (tasks k t) = None"
    using I(8) by (auto simp: wait_inv_def task_wait_ok_def)
  have "base_inv K k'"
  proof (cases "t < N_TASKS K")
    case True
    then show ?thesis unfolding k'_def by (intro retask_base_inv[OF I(1)]) (use pri dormant in simp_all)
  next
    case False
    have lt: "u < N_TASKS K \<Longrightarrow> tasks k' u = tasks k u" for u using False by (auto simp: k'_def)
    have "wait_inv K k'" using I(8) lt by (simp add: wait_inv_def k'_def)
    moreover have "ready_inv K k'" using I(5) unfolding ready_inv_def f .
    moreover have "run_inv K k'" using I(7) unfolding run_inv_def f .
    moreover have "queue_inv K k'" using I(9) unfolding queue_inv_def f by (simp add: k'_def)
    moreover have "pri_inv K k'" using I(6) lt by (simp add: pri_inv_def f)
    moreover have "sem_inv K k'" "event_inv K k'" using I(10,11) unfolding sem_inv_def event_inv_def f by (simp_all add: k'_def)
    moreover have "timer_inv K k'" using I(12) unfolding timer_inv_def linked_ok_def f .
    ultimately show ?thesis by (simp add: base_inv_def)
  qed
  moreover have "mutex_inv K None {} k'"
    using I(2) unfolding mutex_inv_def chains_ok_def owners_ok_def priorities_ok_def mutex_waits_ok_def
      documented_priority_def ceilings_held_def held_by_def chain_head_def f .
  moreover have run: "running_task_is_running k' = running_task_is_running k"
    by (rule running_task_is_running_st) (simp_all add: f)
  ultimately show "kinv K k'" using I(3,4) by (simp add: kinv_def boost_inv_def activated_def f)
  have "scheduler_active k' = scheduler_active k" by (simp add: k'_def)
  then show "frame k k'" using run by (simp add: frame_def f)
  show "preempt_inv k' = preempt_inv k" by (simp add: preempt_inv_def prev_task_priority_def f cong: option.case_cong if_cong)
  show "caller_ok k' = caller_ok k" by (simp add: caller_ok_def f)
qed

lemma task_may_wait:
  assumes c: "caller_ok k" "expect_waitable_context k" and p: "p = ParkWait \<or> p = SleepWait"
  obtains t where "may_wait K k t None p" "running_task k = Some t"
proof -
  have "task_context k" using c(2) by (simp add: expect_waitable_context_def)
  then obtain t where "running_task k = Some t" "st (tasks k t) = Running" "blocked_in (tasks k t) = None"
    using c(1) by (auto simp: caller_ok_def)
  then show thesis using c(2) p
    by (intro that[of t]) (auto simp: may_wait_def wait_in_ok_def resource_unavailable_def)
qed

lemma call_ok_frame:
  assumes "call_ok K k' r" "frame k k'" "preempt_inv k' = preempt_inv k"
  shows "call_ok K k r"
proof -
  obtain x k'' where r: "r = Some (x, k'')" "kinv K k''" "preempt_inv k' \<longrightarrow> preempt_inv k''" "frame k' k''"
    "x = Blocked \<longrightarrow> task_context k' \<and> yield_pending k''"
    using assms(1) by (auto simp: call_ok_def)
  have "task_context k' = task_context k" using assms(2) by (simp add: frame_def)
  then show ?thesis using r frame_trans[OF assms(2) r(4)] assms(3)
    by (intro call_okI[of r x k'']) simp_all
qed

definition task_id_ok :: "kcfg \<Rightarrow> nat \<Rightarrow> bool" where
  "task_id_ok K this \<longleftrightarrow> 0 < this \<and> this \<le> N_TASKS K"

lemma task_id_index: "task_id_ok K this \<Longrightarrow> task_index K this = Some (this - 1) \<and> this - 1 < N_TASKS K"
  by (auto simp: task_id_ok_def task_index_def pool_index_Some)

lemma expect_waitable_park [simp]:
  "expect_waitable_context (upd_task t f k) = expect_waitable_context k"
  by (simp add: expect_waitable_context_def)

lemma park_calls_ok:
  assumes K: "kcfg_ok K" and inv: "kinv K k" and c: "caller_ok k"
  shows "call_ok K k (park_current_task K k)" "call_ok K k (park_current_task_timeout K d k)"
    "call_ok K k (put_current_task_on_sleep_timeout K d k)"
proof -
  let ?k = "k\<lparr>cpu_lock := True\<rparr>"
  have I: "kinv K ?k" and C: "caller_ok ?k" using inv c by simp_all
  show "call_ok K k (park_current_task K k)"
    unfolding park_current_task_def
  proof (rule with_cpu_lock_ok[OF inv])
    show "call_ok K ?k (if \<not> expect_waitable_context ?k then Some (Err BadContext, ?k)
     else do { t \<leftarrow> running_task ?k;
               let had_token = park_token (tasks ?k t);
               let k = upd_task t (\<lambda>c. c\<lparr>park_token := False\<rparr>) ?k;
               if had_token then Some (Ok (), k)
               else do { k \<leftarrow> wait_no_queue K ParkWait k; Some (Blocked, k) } })"
    proof (cases "expect_waitable_context ?k")
      case True
      then obtain t where t: "running_task ?k = Some t" using task_may_wait[OF C, of ParkWait] by blast
      let ?k1 = "upd_task t (\<lambda>c. c\<lparr>park_token := False\<rparr>) ?k"
      note P = park_token_ok[OF I, of t False]
      have ex: "expect_waitable_context ?k1" and c1: "caller_ok ?k1" using True P(4) C by simp_all
      obtain t' where w: "may_wait K ?k1 t' None ParkWait" using task_may_wait[OF c1 ex] by blast
      show ?thesis
        using True t P(1-3)
        by (auto simp: Let_def intro!: call_okI
            call_ok_frame[OF blocks_call_ok[OF P(1) w wait_no_queue_ok[OF P(1) w]] P(2,3)])
    qed (use I in \<open>simp add: call_ok_same\<close>)
  qed
  show "call_ok K k (park_current_task_timeout K d k)"
  proof (cases "time32_from_duration d")
    case None
    then show ?thesis using inv by (simp add: park_current_task_timeout_def call_ok_same)
  next
    case (Some x)
    note d = time32_from_duration_max[OF Some]
    show ?thesis unfolding park_current_task_timeout_def Some option.case
    proof (rule with_cpu_lock_ok[OF inv])
      show "call_ok K ?k (if \<not> expect_waitable_context ?k then Some (Err BadContext, ?k)
       else do { t \<leftarrow> running_task ?k;
                 let had_token = park_token (tasks ?k t);
                 let k = upd_task t (\<lambda>c. c\<lparr>park_token := False\<rparr>) ?k;
                 if had_token then Some (Ok (), k)
                 else do { k \<leftarrow> wait_no_queue_timeout K ParkWait x k; Some (Blocked, k) } })"
      proof (cases "expect_waitable_context ?k")
        case True
        then obtain t where t: "running_task ?k = Some t" using task_may_wait[OF C, of ParkWait] by blast
        let ?k1 = "upd_task t (\<lambda>c. c\<lparr>park_token := False\<rparr>) ?k"
        note P = park_token_ok[OF I, of t False]
        have ex: "expect_waitable_context ?k1" and c1: "caller_ok ?k1" using True P(4) C by simp_all
        obtain t' where w: "may_wait K ?k1 t' None ParkWait" using task_may_wait[OF c1 ex] by blast
        show ?thesis
          using True t P(1-3)
          by (auto simp: Let_def intro!: call_okI
              call_ok_frame[OF blocks_call_ok[OF P(1) w wait_no_queue_timeout_ok[OF K P(1) w d]] P(2,3)])
      qed (use I in \<open>simp add: call_ok_same\<close>)
    qed
  qed
  show "call_ok K k (put_current_task_on_sleep_timeout K d k)"
  proof (cases "time32_from_duration d")
    case None
    then show ?thesis using inv by (simp add: put_current_task_on_sleep_timeout_def call_ok_same)
  next
    case (Some x)
    show ?thesis unfolding put_current_task_on_sleep_timeout_def Some option.case
    proof (rule with_cpu_lock_ok[OF inv])
      show "call_ok K ?k (if \<not> expect_waitable_context ?k then Some (Err BadContext, ?k)
          else do { k \<leftarrow> wait_no_queue_timeout K SleepWait x ?k; Some (Blocked, k) })"
      proof (cases "expect_waitable_context ?k")
        case True
        then obtain t where w: "may_wait K ?k t None SleepWait" using task_may_wait[OF C] by blast
        show ?thesis using True
            blocks_call_ok[OF I w wait_no_queue_timeout_ok[OF K I w time32_from_duration_max[OF Some]]] by simp
      qed (use I in \<open>simp add: call_ok_same\<close>)
    qed
  qed
qed

lemma interrupt_then_check:
  assumes K: "kcfg_ok K" and inv: "kinv K k" and t: "t < N_TASKS K" "st (tasks k t) = Waiting"
    and ok: "wake_allowed k t res"
  obtains k' where
    "do { (ok, k) \<leftarrow> interrupt_task K t res k; guard ok (do { k \<leftarrow> unlock_cpu_and_check_preemption K k; Some (Ok (), k) }) } =
       Some (Ok (), k')" "interrupt_task K t res k \<noteq> None"
    "do { (ok, k) \<leftarrow> interrupt_task K t res k; if \<not> ok then Some (Err BadObjectState, k)
          else do { k \<leftarrow> unlock_cpu_and_check_preemption K k; Some (Ok (), k) } } = Some (Ok (), k')"
    "kinv K k'" "frame k k'" "preempt_inv k'" "st (tasks k' t) = Ready" "wait_result (tasks k' t) = res"
    "\<And>q. t \<notin> set (waits_of k' q)"
proof -
  obtain q where q: "interrupt_task K t res k = Some (True, woken t res q k)" "kinv K (woken t res q k)"
    "frame k (woken t res q k)"
    using interrupt_task_ok[OF K inv t ok] by metis
  let ?k = "woken t res q k"
  obtain y where y: "unlock_cpu_and_check_preemption K ?k = Some (?k\<lparr>cpu_lock := False, yield_pending := y\<rparr>)"
    "kinv K (?k\<lparr>cpu_lock := False, yield_pending := y\<rparr>)" "preempt_inv (?k\<lparr>cpu_lock := False, yield_pending := y\<rparr>)"
    "frame ?k (?k\<lparr>cpu_lock := False, yield_pending := y\<rparr>)"
    using unlock_check_ok[OF K q(2)] by metis
  have "t \<notin> set (waits_of (?k\<lparr>cpu_lock := False, yield_pending := y\<rparr>) x)" for x
    using not_queued[OF kinvD(1)[OF y(2)], of t x] by simp
  then show thesis using q(1) y frame_trans[OF q(3) y(4)]
    by (intro that[of "?k\<lparr>cpu_lock := False, yield_pending := y\<rparr>"]) simp_all
qed

lemma wake_allowed_parked:
  assumes inv: "base_inv K k" and t: "t < N_TASKS K" "st (tasks k t) = Waiting" and p: "payload (wait_objs k t) = ParkWait"
  shows "wake_allowed k t WaitOk"
proof -
  obtain timed where "blocked_in (tasks k t) = Some (call_of (payload (wait_objs k t)), timed)"
    using waiting_task[OF base_invD(4)[OF inv] t] by metis
  then show ?thesis using p by (simp add: wake_allowed_def result_ok_def call_of_def)
qed

text \<open>\<^verbatim>\<open>unpark_exact\<close> wakes up a task that is parked; otherwise it leaves a token, at most one.\<close>

lemma unpark_ok:
  assumes K: "kcfg_ok K" and inv: "kinv K k" and t: "t < N_TASKS K"
  defines "parked \<equiv> st (tasks k t) = Waiting \<and> payload (wait_objs k t) = ParkWait"
  shows "st (tasks k t) = Dormant \<Longrightarrow> unpark_exact K t k = Some (Err BadObjectState, k)"
    "parked \<Longrightarrow> \<exists>k'. unpark_exact K t k = Some (Ok (), k') \<and> kinv K k' \<and> frame k k' \<and> preempt_inv k' \<and>
       st (tasks k' t) = Ready \<and> wait_result (tasks k' t) = WaitOk"
    "st (tasks k t) \<noteq> Dormant \<Longrightarrow> \<not> parked \<Longrightarrow> unpark_exact K t k =
       Some (if park_token (tasks k t) then Err QueueOverflow else Ok (), upd_task t (\<lambda>c. c\<lparr>park_token := True\<rparr>) k)"
proof -
  note I = kinvD[OF inv]
  show "st (tasks k t) = Dormant \<Longrightarrow> unpark_exact K t k = Some (Err BadObjectState, k)"
    by (simp add: unpark_exact_def)
  have w: "with_current_wait_payload k t (\<lambda>p. p = Some ParkWait) = (payload (wait_objs k t) = ParkWait)"
    if "st (tasks k t) = Waiting"
  proof -
    have "current_wait (tasks k t) = Some t" using waiting_task[OF I(8) t that] by metis
    then show ?thesis by (simp add: with_current_wait_payload_def)
  qed
  show "\<exists>k'. unpark_exact K t k = Some (Ok (), k') \<and> kinv K k' \<and> frame k k' \<and> preempt_inv k' \<and>
       st (tasks k' t) = Ready \<and> wait_result (tasks k' t) = WaitOk" if parked
  proof -
    have s: "st (tasks k t) = Waiting" "payload (wait_objs k t) = ParkWait" using that by (simp_all add: parked_def)
    note ok = wake_allowed_parked[OF I(1) t s]
    obtain k' where "do { (ok, k) \<leftarrow> interrupt_task K t WaitOk k; guard ok (do { k \<leftarrow> unlock_cpu_and_check_preemption K k; Some (Ok (), k) }) } =
       Some (Ok (), k')" "kinv K k'" "frame k k'" "preempt_inv k'" "st (tasks k' t) = Ready" "wait_result (tasks k' t) = WaitOk"
      by (rule interrupt_then_check[OF K inv t s(1) ok])
    then show ?thesis using s w by (intro exI[of _ k']) (simp add: unpark_exact_def)
  qed
  show "unpark_exact K t k =
       Some (if park_token (tasks k t) then Err QueueOverflow else Ok (), upd_task t (\<lambda>c. c\<lparr>park_token := True\<rparr>) k)"
    if "st (tasks k t) \<noteq> Dormant" "\<not> parked"
    using that w by (simp add: unpark_exact_def parked_def Let_def)
qed

lemma unpark_call_ok:
  assumes K: "kcfg_ok K" and inv: "kinv K k" and t: "t < N_TASKS K"
  shows "call_ok K k (unpark_exact K t k)"
proof -
  note U = unpark_ok[OF K inv t]
  consider "st (tasks k t) = Dormant" | "st (tasks k t) = Waiting \<and> payload (wait_objs k t) = ParkWait"
    | "st (tasks k t) \<noteq> Dormant" "\<not> (st (tasks k t) = Waiting \<and> payload (wait_objs k t) = ParkWait)" by blast
  then show ?thesis
  proof cases
    case 1
    then show ?thesis using U(1) inv by (simp add: call_ok_same)
  next
    case 2
    then obtain k' where "unpark_exact K t k = Some (Ok (), k')" "kinv K k'" "frame k k'" "preempt_inv k'"
      using U(2) by blast
    then show ?thesis by (intro call_okI[where x = "Ok ()" and k' = k']) simp_all
  next
    case 3
    show ?thesis
      by (rule call_okI[OF U(3)[OF 3]]) (use park_token_ok[OF inv, of t True] in \<open>simp_all split: if_splits\<close>)
  qed
qed

section \<open>The system calls\<close>

lemma task_calls_ok:
  assumes K: "kcfg_ok K" and inv: "kinv K k" and i: "task_id_ok K this"
  shows "call_ok K k (task_activate K this k)" "call_ok K k (task_interrupt K this k)"
    "call_ok K k (task_unpark_exact K this k)" "call_ok K k (task_set_priority K this p k)"
    "call_ok K k (task_priority K this k)" "call_ok K k (task_effective_priority K this k)"
proof -
  let ?k = "k\<lparr>cpu_lock := True\<rparr>" and ?t = "this - 1"
  have I: "kinv K ?k" using inv by simp
  note i' = task_id_index[OF i]
  have t: "?t < N_TASKS K" using i' by blast
  show "call_ok K k (task_activate K this k)"
    unfolding task_activate_def
  proof (rule with_cpu_lock_ok[OF inv])
    show "call_ok K ?k (do { t \<leftarrow> task_index K this; activate K t ?k })"
    proof (cases "st (tasks ?k ?t) = Dormant")
      case True
      obtain k' where "activate K ?t ?k = Some (Ok (), k')" "kinv K k'" "frame ?k k'" "preempt_inv k'"
        by (rule activate_ok[OF K I t True])
      then show ?thesis using i' by (intro call_okI[where x = "Ok ()" and k' = k']) simp_all
    next
      case False
      then have "activate K ?t ?k = Some (Err QueueOverflow, ?k)" by (simp add: activate_def)
      then show ?thesis using i' I by (simp add: call_ok_same)
    qed
  qed
  show "call_ok K k (task_interrupt K this k)"
    unfolding task_interrupt_def
  proof (rule with_cpu_lock_ok[OF inv])
    show "call_ok K ?k (do { t \<leftarrow> task_index K this; (ok, k) \<leftarrow> interrupt_task K t WaitInterrupted ?k;
          if \<not> ok then Some (Err BadObjectState, k)
          else do { k \<leftarrow> unlock_cpu_and_check_preemption K k; Some (Ok (), k) } })"
    proof (cases "st (tasks ?k ?t) = Waiting")
      case True
      obtain k' where "do { (ok, k) \<leftarrow> interrupt_task K ?t WaitInterrupted ?k; if \<not> ok then Some (Err BadObjectState, k)
          else do { k \<leftarrow> unlock_cpu_and_check_preemption K k; Some (Ok (), k) } } = Some (Ok (), k')"
        "kinv K k'" "frame ?k k'" "preempt_inv k'"
        by (rule interrupt_then_check[OF K I t True wake_allowed_interrupted])
      then show ?thesis using i' by (intro call_okI[where x = "Ok ()" and k' = k']) simp_all
    next
      case False
      then have "interrupt_task K ?t WaitInterrupted ?k = Some (False, ?k)" by (simp add: interrupt_task_def)
      then show ?thesis using i' I by (simp add: call_ok_same)
    qed
  qed
  show "call_ok K k (task_unpark_exact K this k)"
    unfolding task_unpark_exact_def
    by (rule with_cpu_lock_ok[OF inv]) (use unpark_call_ok[OF K I t] i' in simp)
  show "call_ok K k (task_set_priority K this p k)"
    unfolding task_set_priority_def
    by (rule with_cpu_lock_ok[OF inv]) (use set_priority_call_ok[OF K I t] i' in simp)
  show "call_ok K k (task_priority K this k)"
    unfolding task_priority_def
    by (rule with_cpu_lock_ok[OF inv]) (use i' I in \<open>simp add: call_ok_same\<close>)
  show "call_ok K k (task_effective_priority K this k)"
    unfolding task_effective_priority_def
    by (rule with_cpu_lock_ok[OF inv]) (use i' I in \<open>simp add: call_ok_same\<close>)
qed

lemma task_current_ok:
  assumes inv: "kinv K k" and c: "caller_ok k"
  shows "call_ok K k (task_current K k)"
proof (cases "task_context k")
  case True
  then obtain t where "running_task k = Some t" using c by (auto simp: caller_ok_def)
  then show ?thesis using True inv
    by (auto simp: task_current_def call_ok_same intro!: with_cpu_lock_ok)
next
  case False
  then show ?thesis using inv by (simp add: task_current_def call_ok_same)
qed

section \<open>Returning from a blocking call\<close>

text \<open>The four continuations: the result of the wait becomes the result of the call.\<close>

lemma resumes_ok:
  assumes inv: "kinv K k" and t: "running_task k = Some t" "st (tasks k t) = Running"
    and b: "blocked_in (tasks k t) = Some (c, timed)"
  shows "c = ParkCall \<Longrightarrow> call_ok K k (park_resume K t k)"
    "c = SleepCall \<Longrightarrow> call_ok K k (sleep_resume K t k)"
    "c = SemaphoreCall \<Longrightarrow> call_ok K k (wait_one_resume K t k)"
    "c = EventGroupCall \<Longrightarrow> call_ok K k (event_wait_resume K t k)"
    "c = MutexCall m \<Longrightarrow> call_ok K k (lock_mutex_resume K m t k)"
proof -
  let ?r = "wait_result (tasks k t)"
  obtain k' where f: "wait_finish K t k = Some (?r, k')" "kinv K k'" "frame k k'" "preempt_inv k' = preempt_inv k"
    "wait_objs k' = wait_objs k" "result_ok (c, timed) ?r" "c = call_of (payload (wait_objs k t))"
    by (rule wait_finish_ok[OF inv t b])
  have nb2: "wait_ret ?r x \<noteq> Blocked" for x :: u32 by (cases ?r) (simp_all add: wait_ret_def)
  have nb3: "wait_ret ?r () \<noteq> Blocked" by (cases ?r) (simp_all add: wait_ret_def)
  show "call_ok K k (park_resume K t k)" "call_ok K k (wait_one_resume K t k)"
    using f nb3 by (auto simp: park_resume_def wait_one_resume_def intro!: call_okI)
  have "lock_result m k' \<noteq> Blocked" by (simp add: lock_result_def)
  then show "call_ok K k (lock_mutex_resume K m t k)"
    using f nb3 by (auto simp: lock_mutex_resume_def intro!: call_okI)
  show "call_ok K k (sleep_resume K t k)" if "c = SleepCall"
    using f that by (cases ?r) (auto simp: sleep_resume_def result_ok_def intro!: call_okI)
  show "call_ok K k (event_wait_resume K t k)" if c: "c = EventGroupCall"
  proof (cases ?r)
    case WaitOk
    obtain req flags orig where "payload (wait_objs k t) = EventGroupBits req flags orig"
      using f(7) c by (cases "payload (wait_objs k t)") (simp_all add: call_of_def)
    then show ?thesis using f WaitOk by (auto simp: event_wait_resume_def intro!: call_okI)
  qed (use f nb2 in \<open>auto simp: event_wait_resume_def intro!: call_okI\<close>)
qed

end
