(* ===== verification/Timer_Contract.thy ===== *)
theory Timer_Contract
  imports Timer
begin

text \<open>The system calls on timers keep the invariants, and so does the expiry of a timer.\<close>

section \<open>The timekeeping state and the timers\<close>

lemma tk_ok:
  assumes inv: "kinv K k" and g: "timer_inv K (k\<lparr>tk := g\<rparr>)"
    and same: "handle_tick_in_progress g = handle_tick_in_progress (tk k)" "handle_tick_in_progress (tk k) \<Longrightarrow> tk_same (tk k) g"
  shows "kinv K (k\<lparr>tk := g\<rparr>)" "frame k (k\<lparr>tk := g\<rparr>)" "preempt_inv (k\<lparr>tk := g\<rparr>) = preempt_inv k"
  using base_inv_tk[OF kinvD(1)[OF inv] g] kinvD[OF inv] same by (simp_all add: kinv_def frame_def)

lemma tk_same_ok:
  assumes inv: "kinv K k" and g: "timer_inv K (k\<lparr>tk := g\<rparr>)" and same: "tk_same (tk k) g"
  shows "kinv K (k\<lparr>tk := g\<rparr>)" "frame k (k\<lparr>tk := g\<rparr>)" "preempt_inv (k\<lparr>tk := g\<rparr>) = preempt_inv k"
  by (rule tk_ok[OF inv g]; use same in \<open>simp add: tk_same_def\<close>)+

lemma upd_timer_inv [simp]:
  "ready_inv K (upd_timer i f k) = ready_inv K k" "pri_inv K (upd_timer i f k) = pri_inv K k"
  "run_inv K (upd_timer i f k) = run_inv K k" "wait_inv K (upd_timer i f k) = wait_inv K k"
  "queue_inv K (upd_timer i f k) = queue_inv K k" "sem_inv K (upd_timer i f k) = sem_inv K k"
  "event_inv K (upd_timer i f k) = event_inv K k" "mutex_inv K X D (upd_timer i f k) = mutex_inv K X D k"
  "boost_inv (upd_timer i f k) = boost_inv k" "preempt_inv (upd_timer i f k) = preempt_inv k"
  "activated K (upd_timer i f k) = activated K k"
  "running_task_is_running (upd_timer i f k) = running_task_is_running k"
  by (simp_all add: ready_inv_def pri_inv_def run_inv_def wait_inv_def queue_inv_def
      sem_inv_def event_inv_def mutex_inv_def chains_ok_def chain_head_def
      held_by_def owners_ok_def priorities_ok_def documented_priority_def ceilings_held_def
      mutex_waits_ok_def boost_inv_def preempt_inv_def activated_def prev_task_priority_def
      running_task_is_running_def cong: option.case_cong prod.case_cong if_cong)

lemma upd_timer_ok:
  assumes inv: "kinv K k" and t: "timer_inv K (upd_timer i f k)"
  shows "kinv K (upd_timer i f k)" "frame k (upd_timer i f k)" "preempt_inv (upd_timer i f k) = preempt_inv k"
proof -
  show "kinv K (upd_timer i f k)" using kinvD[OF inv] t by (simp add: kinv_def base_inv_def)
  have "scheduler_active (upd_timer i f k) = scheduler_active k" by (simp add: upd_timer_def)
  then show "frame k (upd_timer i f k)" by (simp add: frame_def)
qed simp

lemma timer_activate_inv:
  "timer_inv K k \<Longrightarrow> timer_inv K (upd_timer i (\<lambda>c. c\<lparr>timer_active := True\<rparr>) k)"
  by (auto simp: timer_inv_def linked_ok_def split: timeout_ref.splits)

lemma timer_deactivate_inv:
  "timer_inv K k \<Longrightarrow> TimerTimeout i \<notin> set (heap (tk k)) \<Longrightarrow>
     timer_inv K (upd_timer i (\<lambda>c. c\<lparr>timer_active := False\<rparr>) k)"
  by (auto simp: timer_inv_def linked_ok_def split: timeout_ref.splits)

lemma timer_period_inv:
  "timer_inv K k \<Longrightarrow> period_ok p \<Longrightarrow> timer_inv K (upd_timer i (\<lambda>c. c\<lparr>timer_period := p\<rparr>) k)"
  by (auto simp: timer_inv_def linked_ok_def split: timeout_ref.splits)

lemma inactive_not_linked:
  "timer_inv K k \<Longrightarrow> \<not> timer_active (timers k i) \<Longrightarrow> TimerTimeout i \<notin> set (heap (tk k))"
  by (auto simp: timer_inv_def linked_ok_def)

lemma timer_linked_iff: "timer_inv K k \<Longrightarrow> is_linked (tk k) r \<longleftrightarrow> r \<in> set (heap (tk k))"
  unfolding timer_inv_def by (blast dest: is_linked_iff)

section \<open>Arming\<close>

lemma arm_timer_ok:
  assumes K: "kcfg_ok K" and inv: "timer_inv K k" and i: "i < N_TIMERS K" "timer_active (timers k i)"
    and r: "TimerTimeout i \<notin> set (heap (tk k))"
    and d: "d \<noteq> BAD_DURATION32" "unat d \<le> DURATION_MAX + present_gap (PORT_TIMER K) (tk k)"
  obtains g where "arm_timer K i d k = Some (k\<lparr>tk := g\<rparr>)" "timer_inv K (k\<lparr>tk := g\<rparr>)" "tk_same (tk k) g"
    "set (heap g) = insert (TimerTimeout i) (set (heap (tk k)))"
    "at (timeouts g (TimerTimeout i)) = event_time (PORT_TIMER K) (tk k) + d"
proof -
  have room: "length (heap (tk k)) < HEAP_CAPACITY (PORT_TIMER K)"
    by (rule heap_has_room[OF K inv _ r]) (use i in \<open>simp add: timeout_objects_def\<close>)
  have tki: "tk_inv (PORT_TIMER K) (tk k)" using inv by (simp add: timer_inv_def)
  have cap: "HEAP_CAPACITY (PORT_TIMER K) < HEAP_POS_NONE" using K by (simp add: kcfg_ok_def)
  obtain g1 g where g: "set_expiration_after (PORT_TIMER K) (tk k) (TimerTimeout i) d = Some g1"
    "insert_timeout (PORT_TIMER K) g1 (TimerTimeout i) = Some g" "tk_inv (PORT_TIMER K) g" "tk_same (tk k) g"
    "same_callbacks (tk k) g" "set (heap g) = insert (TimerTimeout i) (set (heap (tk k)))"
    "at (timeouts g (TimerTimeout i)) = event_time (PORT_TIMER K) (tk k) + d"
    using arm_timeout_ok[OF tki r room cap d] by blast
  have "timer_inv K (k\<lparr>tk := g\<rparr>)"
    by (rule timer_inv_tkI[OF inv g(3,5)]) (use i g(6) in \<open>auto simp: linked_ok_def\<close>)
  then show thesis using g by (intro that[of g]) (simp_all add: arm_timer_def on_tk_def)
qed

text \<open>
  An inactive timer keeps its delay.  The delay that \<^verbatim>\<open>stop_timer\<close> has captured may exceed the longest
  duration when the system clock has been moved backward; it is safe to restart the timer as long
  as the clock has not caught up since.
\<close>

definition timer_startable :: "kcfg \<Rightarrow> kernel \<Rightarrow> nat \<Rightarrow> bool" where
  "timer_startable K k i \<longleftrightarrow>
     timer_active (timers k i) \<or> at_raw (tk k) (TimerTimeout i) = BAD_DURATION32 \<or>
     unat (at_raw (tk k) (TimerTimeout i)) \<le> DURATION_MAX + present_gap (PORT_TIMER K) (tk k)"

lemma start_timer_ok:
  assumes K: "kcfg_ok K" and inv: "kinv K k" and i: "i < N_TIMERS K" and s: "timer_startable K k i"
  obtains k' where "start_timer K i k = Some k'" "kinv K k'" "frame k k'" "preempt_inv k' = preempt_inv k"
    "timer_active (timers k' i)" "tk_same (tk k) (tk k')"
    "timer_active (timers k i) \<Longrightarrow> k' = k"
    "\<not> timer_active (timers k i) \<Longrightarrow> at_raw (tk k) (TimerTimeout i) \<noteq> BAD_DURATION32 \<Longrightarrow>
       TimerTimeout i \<in> set (heap (tk k')) \<and>
       at (timeouts (tk k') (TimerTimeout i)) =
         event_time (PORT_TIMER K) (tk k) + at_raw (tk k) (TimerTimeout i)"
proof (cases "timer_active (timers k i)")
  case True
  then show thesis using inv by (intro that[of k]) (simp_all add: start_timer_def)
next
  case False
  note T = kinvD(12)[OF inv]
  let ?d = "at_raw (tk k) (TimerTimeout i)" and ?on = "upd_timer i (\<lambda>c. c\<lparr>timer_active := True\<rparr>)"
  note on = upd_timer_ok[OF inv timer_activate_inv[OF T]]
  show thesis
  proof (cases "?d = BAD_DURATION32")
    case True
    then have "start_timer K i k = Some (?on k)" using False by (simp add: start_timer_def Let_def)
    then show thesis using on True False by (intro that[of "?on k"]) simp_all
  next
    case bad: False
    have r: "TimerTimeout i \<notin> set (heap (tk (?on k)))" using inactive_not_linked[OF T False] by simp
    have d: "unat ?d \<le> DURATION_MAX + present_gap (PORT_TIMER K) (tk (?on k))"
      using s False bad by (simp add: timer_startable_def)
    have T1: "timer_inv K (?on k)" and a: "timer_active (timers (?on k) i)" using timer_activate_inv[OF T] by simp_all
    obtain g where g: "arm_timer K i ?d (?on k) = Some ((?on k)\<lparr>tk := g\<rparr>)" "timer_inv K ((?on k)\<lparr>tk := g\<rparr>)"
      "tk_same (tk (?on k)) g" "set (heap g) = insert (TimerTimeout i) (set (heap (tk (?on k))))"
      "at (timeouts g (TimerTimeout i)) = event_time (PORT_TIMER K) (tk (?on k)) + ?d"
      by (rule arm_timer_ok[OF K T1 i a r bad d])
    have "arm_timer K i ?d k = Some (k\<lparr>tk := g\<rparr>)"
      using g(1) by (auto simp: arm_timer_def on_tk_def bind_eq_Some_conv dest!: arg_cong[where f = tk])
    moreover have "?on (k\<lparr>tk := g\<rparr>) = (?on k)\<lparr>tk := g\<rparr>" by (simp add: upd_timer_def)
    ultimately have "start_timer K i k = Some ((?on k)\<lparr>tk := g\<rparr>)"
      using False bad by (simp add: start_timer_def Let_def)
    then show thesis using tk_same_ok[OF on(1) g(2,3)] on(2,3) g False frame_trans
      by (intro that[of "(?on k)\<lparr>tk := g\<rparr>"]) (auto intro: frame_trans)
  qed
qed

text \<open>
  Starting an inactive timer with a delay, whatever the delay is.  The code arms the timer in any
  case; the invariant holds afterwards if and only if the delay is within the frontier.
\<close>

lemma start_timer_any:
  assumes K: "kcfg_ok K" and inv: "kinv K k" and i: "i < N_TIMERS K" "\<not> timer_active (timers k i)"
    and d: "at_raw (tk k) (TimerTimeout i) \<noteq> BAD_DURATION32"
  obtains g where
    "start_timer K i k = Some ((upd_timer i (\<lambda>c. c\<lparr>timer_active := True\<rparr>) k)\<lparr>tk := g\<rparr>)"
    "tk_same (tk k) g" "set (heap g) = insert (TimerTimeout i) (set (heap (tk k)))"
    "\<And>x. at (timeouts g x) = (if x = TimerTimeout i
       then event_time (PORT_TIMER K) (tk k) + at_raw (tk k) x else at (timeouts (tk k) x))"
    "kinv K ((upd_timer i (\<lambda>c. c\<lparr>timer_active := True\<rparr>) k)\<lparr>tk := g\<rparr>) \<longleftrightarrow>
       unat (at_raw (tk k) (TimerTimeout i)) \<le> DURATION_MAX + present_gap (PORT_TIMER K) (tk k) \<or>
       2 ^ 32 - HEADROOM \<le> unat (at_raw (tk k) (TimerTimeout i))"
    "\<not> handle_tick_in_progress (tk k) \<Longrightarrow> tick_scheduled (PORT_TIMER K) (event_time (PORT_TIMER K) (tk k)) g"
proof -
  let ?P = "PORT_TIMER K" and ?r = "TimerTimeout i" and ?on = "upd_timer i (\<lambda>c. c\<lparr>timer_active := True\<rparr>)"
  note T = kinvD(12)[OF inv]
  have r: "?r \<notin> set (heap (tk k))" using inactive_not_linked[OF T i(2)] .
  have room: "length (heap (tk k)) < HEAP_CAPACITY ?P"
    by (rule heap_has_room[OF K T _ r]) (use i in \<open>simp add: timeout_objects_def\<close>)
  have cap: "HEAP_CAPACITY ?P < HEAP_POS_NONE" using K by (simp add: kcfg_ok_def)
  have tki: "tk_inv ?P (tk k)" using T by (simp add: timer_inv_def)
  obtain g1 g where g: "set_expiration_after ?P (tk k) ?r (at_raw (tk k) ?r) = Some g1"
    "insert_timeout ?P g1 ?r = Some g" "tk_same (tk k) g" "same_callbacks (tk k) g"
    "set (heap g) = insert ?r (set (heap (tk k)))"
    "at (timeouts g ?r) = event_time ?P (tk k) + at_raw (tk k) ?r"
    "\<forall>x. x \<noteq> ?r \<longrightarrow> at (timeouts g x) = at (timeouts (tk k) x)"
    "tk_inv ?P g \<longleftrightarrow> unat (at_raw (tk k) ?r) \<le> DURATION_MAX + present_gap ?P (tk k) \<or>
       2 ^ 32 - HEADROOM \<le> unat (at_raw (tk k) ?r)"
    "\<not> handle_tick_in_progress (tk k) \<longrightarrow> tick_scheduled ?P (event_time ?P (tk k)) g"
    using arm_timeout_any[OF tki r room cap d] by blast
  have T1: "timer_inv K (?on k)" by (rule timer_activate_inv[OF T])
  have on: "(?on k)\<lparr>tk := g\<rparr> = ?on (k\<lparr>tk := g\<rparr>)" by (simp add: upd_timer_def)
  have "timer_inv K ((?on k)\<lparr>tk := g\<rparr>)" if "tk_inv ?P g"
    by (rule timer_inv_tkI[OF T1 that]) (use i g(4,5) in \<open>auto simp: linked_ok_def\<close>)
  then have "kinv K ((?on k)\<lparr>tk := g\<rparr>)" if "tk_inv ?P g"
    using tk_same_ok(1)[OF upd_timer_ok(1)[OF inv T1], of g] that g(3) by simp
  moreover have "tk_inv ?P g" if "kinv K ((?on k)\<lparr>tk := g\<rparr>)"
    using kinvD(12)[OF that] by (simp add: timer_inv_def)
  moreover have "start_timer K i k = Some ((?on k)\<lparr>tk := g\<rparr>)"
    using i(2) d g(1,2) by (simp add: start_timer_def Let_def arm_timer_def on_tk_def on)
  ultimately show thesis using g by (intro that[of g]) auto
qed

lemma set_at_raw_inv:
  assumes inv: "timer_inv K k" and r: "r \<notin> set (heap (tk k))"
  shows "timer_inv K (k\<lparr>tk := set_at_raw (tk k) r x\<rparr>)" "tk_same (tk k) (set_at_raw (tk k) r x)"
  unfolding set_at_raw_def using not_linked_pos[OF inv r]
  by (intro set_timeout_timer_inv[OF inv r]) simp_all

lemma stop_timer_ok:
  assumes K: "kcfg_ok K" and inv: "kinv K k"
  obtains k' where "stop_timer K i k = Some k'" "kinv K k'" "frame k k'" "preempt_inv k' = preempt_inv k"
    "\<not> timer_active (timers k' i)" "TimerTimeout i \<notin> set (heap (tk k'))" "tk_same (tk k) (tk k')"
    "TimerTimeout i \<in> set (heap (tk k)) \<Longrightarrow> at_raw (tk k') (TimerTimeout i) =
       saturating_duration_until_timeout (timeouts (tk k) (TimerTimeout i)) (event_time (PORT_TIMER K) (tk k))"
proof -
  let ?r = "TimerTimeout i" and ?off = "upd_timer i (\<lambda>c. c\<lparr>timer_active := False\<rparr>)"
  note T = kinvD(12)[OF inv]
  show thesis
  proof (cases "?r \<in> set (heap (tk k))")
    case False
    have "stop_timer K i k = Some (?off k)" using False timer_linked_iff[OF T] by (simp add: stop_timer_def)
    then show thesis using upd_timer_ok[OF inv timer_deactivate_inv[OF T False]] False
      by (intro that[of "?off k"]) simp_all
  next
    case True
    have cnt: "counts_ok (PORT_TIMER K) (tk k)" using T by (simp add: timer_inv_def tk_inv_def)
    let ?d = "saturating_duration_until_timeout (timeouts (tk k) ?r) (event_time (PORT_TIMER K) (tk k))"
    have active: "timer_active (timers k i)" using T True by (auto simp: timer_inv_def linked_ok_def)
    obtain g where g: "remove_timeout (PORT_TIMER K) (tk k) ?r = Some g" "timer_inv K (k\<lparr>tk := g\<rparr>)" "tk_same (tk k) g"
      "set (heap g) = set (heap (tk k)) - {?r}"
      using remove_timeout_inv[OF T] by blast
    let ?g = "set_at_raw g ?r ?d"
    have nr: "?r \<notin> set (heap (tk (k\<lparr>tk := g\<rparr>)))" using g(4) by simp
    have T2: "timer_inv K (k\<lparr>tk := ?g\<rparr>)" "tk_same (tk k) ?g"
      using set_at_raw_inv[OF g(2) nr, of ?d] tk_same_trans[OF g(3)] by simp_all
    note k2 = tk_same_ok[OF inv T2]
    have nr2: "?r \<notin> set (heap (tk (k\<lparr>tk := ?g\<rparr>)))" using g(4) by (simp add: set_at_raw_def)
    have eq: "stop_timer K i k = Some (?off (k\<lparr>tk := ?g\<rparr>))"
      using True timer_linked_iff[OF T] active g(1)
      by (simp add: stop_timer_def on_tk_def timeout_saturating_duration_def current_time_eq[OF cnt])
    have cap: "at_raw ?g ?r = ?d" by (simp add: at_raw_def set_at_raw_def)
    note fin = upd_timer_ok[OF k2(1) timer_deactivate_inv[OF T2(1) nr2]]
    show thesis
      using eq fin k2 frame_trans[OF k2(2) fin(2)] nr2 T2 cap
      by (intro that[of "?off (k\<lparr>tk := ?g\<rparr>)"]) simp_all
  qed
qed

lemma set_timer_delay_ok:
  assumes K: "kcfg_ok K" and inv: "kinv K k" and i: "i < N_TIMERS K"
    and d: "d = BAD_DURATION32 \<or> unat d \<le> DURATION_MAX"
  obtains k' where "set_timer_delay K i d k = Some k'" "kinv K k'" "frame k k'" "preempt_inv k' = preempt_inv k"
    "timers k' = timers k" "tk_same (tk k) (tk k')"
    "TimerTimeout i \<in> set (heap (tk k')) \<longleftrightarrow> timer_active (timers k i) \<and> d \<noteq> BAD_DURATION32"
    "at (timeouts (tk k') (TimerTimeout i)) =
       (if timer_active (timers k i) \<and> d \<noteq> BAD_DURATION32 then event_time (PORT_TIMER K) (tk k) + d else d)"
proof -
  let ?r = "TimerTimeout i"
  note T = kinvD(12)[OF inv]
  obtain g where g: "remove_timeout (PORT_TIMER K) (tk k) ?r = Some g" "timer_inv K (k\<lparr>tk := g\<rparr>)" "tk_same (tk k) g"
    "set (heap g) = set (heap (tk k)) - {?r}"
    using remove_timeout_inv[OF T] by blast
  define g1 where "g1 = (if ?r \<in> set (heap (tk k)) then g else tk k)"
  let ?k1 = "k\<lparr>tk := g1\<rparr>"
  have same: "k\<lparr>tk := tk k\<rparr> = k" by simp
  have T1: "timer_inv K ?k1" and s1: "tk_same (tk k) g1" using g T by (simp_all add: g1_def same)
  have nr: "?r \<notin> set (heap (tk ?k1))" using g(4) by (simp add: g1_def)
  note k1 = tk_same_ok[OF inv T1 s1]
  have first: "(if is_linked (tk k) ?r then on_tk (\<lambda>g. remove_timeout (PORT_TIMER K) g ?r) k else Some k) = Some ?k1"
    using timer_linked_iff[OF T] g(1) by (simp add: g1_def on_tk_def same)
  show thesis
  proof (cases "timer_active (timers k i) \<and> d \<noteq> BAD_DURATION32")
    case True
    have d1: "unat d \<le> DURATION_MAX + present_gap (PORT_TIMER K) (tk ?k1)" using d True by simp
    have a1: "timer_active (timers ?k1 i)" "d \<noteq> BAD_DURATION32" using True by simp_all
    obtain g2 where g2: "arm_timer K i d ?k1 = Some (?k1\<lparr>tk := g2\<rparr>)" "timer_inv K (?k1\<lparr>tk := g2\<rparr>)"
      "tk_same (tk ?k1) g2" "set (heap g2) = insert ?r (set (heap (tk ?k1)))"
      "at (timeouts g2 ?r) = event_time (PORT_TIMER K) (tk ?k1) + d"
      by (rule arm_timer_ok[OF K T1 i a1(1) nr a1(2) d1])
    note k2 = tk_same_ok[OF k1(1) g2(2,3)]
    have "set_timer_delay K i d k = Some (?k1\<lparr>tk := g2\<rparr>)"
      unfolding set_timer_delay_def Let_def first using True g2(1) by simp
    then show thesis using k2 k1 frame_trans[OF k1(2) k2(2)] g2 True tk_same_trans[OF s1] tk_same_event_time[OF s1]
      by (intro that[of "?k1\<lparr>tk := g2\<rparr>"]) simp_all
  next
    case False
    let ?g2 = "set_at_raw g1 ?r d"
    note T2 = set_at_raw_inv[OF T1 nr, of d]
    have T2': "timer_inv K (?k1\<lparr>tk := ?g2\<rparr>)" "tk_same (tk ?k1) ?g2" using T2 by simp_all
    note k2 = tk_same_ok[OF k1(1) T2']
    have "set_timer_delay K i d k = Some (?k1\<lparr>tk := ?g2\<rparr>)"
      unfolding set_timer_delay_def Let_def first using False by (auto simp: on_tk_def)
    moreover have "at (timeouts ?g2 ?r) = d" "heap ?g2 = heap g1" by (simp_all add: set_at_raw_def)
    ultimately show thesis using k2 k1 frame_trans[OF k1(2)] nr False tk_same_trans[OF s1] T2
      by (intro that[of "?k1\<lparr>tk := ?g2\<rparr>"]) auto
  qed
qed

section \<open>The expiry of a timer\<close>

text \<open>
  The next expiration is one period after the previous one, not after the present time; it is armed
  again, unless the period is \<^verbatim>\<open>None\<close>.
\<close>

lemma distance_add:
  assumes "distance g now r + unat d < 2 ^ 32"
  shows "distance (set_timeout r ((timeouts g r)\<lparr>at := at (timeouts g r) + d\<rparr>) g) now r = distance g now r + unat d"
proof -
  let ?x = "at (timeouts g r) - critical_point now"
  have "unat (?x + d) = unat ?x + unat d" using assms unat_add_lem[of ?x d] by (simp add: distance_def)
  then show ?thesis by (simp add: distance_def algebra_simps)
qed

lemma timer_timeout_handler_ok:
  assumes K: "kcfg_ok K" and inv: "kinv K k" and i: "i < N_TIMERS K" "timer_active (timers k i)"
    and r: "TimerTimeout i \<notin> set (heap (tk k))"
    and d: "distance (tk k) (event_time (PORT_TIMER K) (tk k)) (TimerTimeout i) \<le> HEADROOM"
  obtains k' where "timer_timeout_handler K i k = Some k'" "kinv K k'" "frame k k'" "preempt_inv k' = preempt_inv k"
    "\<not> cpu_lock k'" "tk_same (tk k) (tk k')" "timers k' = timers k" "tasks k' = tasks k"
    "timer_period (timers k i) = BAD_DURATION32 \<Longrightarrow> TimerTimeout i \<notin> set (heap (tk k')) \<and>
       at (timeouts (tk k') (TimerTimeout i)) = BAD_DURATION32"
    "timer_period (timers k i) \<noteq> BAD_DURATION32 \<Longrightarrow> TimerTimeout i \<in> set (heap (tk k')) \<and>
       at (timeouts (tk k') (TimerTimeout i)) = at (timeouts (tk k) (TimerTimeout i)) + timer_period (timers k i)"
    "set (heap (tk k')) = (if timer_period (timers k i) = BAD_DURATION32 then set (heap (tk k))
       else insert (TimerTimeout i) (set (heap (tk k))))"
    "\<forall>x. x \<noteq> TimerTimeout i \<longrightarrow> at (timeouts (tk k') x) = at (timeouts (tk k) x)"
proof -
  let ?r = "TimerTimeout i" and ?p = "timer_period (timers k i)" and ?P = "PORT_TIMER K"
  note T = kinvD(12)[OF inv]
  have nl: "\<not> is_linked (tk k) ?r" using timer_linked_iff[OF T] r by simp
  have p: "period_ok ?p" using T i by (simp add: timer_inv_def)
  show thesis
  proof (cases "?p = BAD_DURATION32")
    case True
    let ?g = "set_at_raw (tk k) ?r BAD_DURATION32"
    note S = set_at_raw_inv[OF T r, of BAD_DURATION32]
    note k1 = tk_same_ok[OF inv S]
    have eq: "timer_timeout_handler K i k = Some (leave_cpu_lock (k\<lparr>tk := ?g\<rparr>))"
      using True i nl by (simp add: timer_timeout_handler_def Let_def on_tk_def)
    have g: "heap ?g = heap (tk k)" "at (timeouts ?g ?r) = BAD_DURATION32"
      "x \<noteq> ?r \<Longrightarrow> at (timeouts ?g x) = at (timeouts (tk k) x)" for x
      by (simp_all add: set_at_raw_def set_timeout_def)
    show thesis using eq k1 S True r
      by (intro that[of "leave_cpu_lock (k\<lparr>tk := ?g\<rparr>)"]) (simp_all add: g)
  next
    case False
    then have p': "unat ?p \<le> DURATION_MAX" using p by (simp add: period_ok_def)
    let ?t = "(timeouts (tk k) ?r)\<lparr>at := at (timeouts (tk k) ?r) + ?p\<rparr>"
    let ?g = "set_timeout ?r ?t (tk k)" and ?now = "event_time ?P (tk k)"
    have T1: "timer_inv K (k\<lparr>tk := ?g\<rparr>)"
      by (rule set_timeout_timer_inv[OF T r]) (use not_linked_pos[OF T r] in simp_all)
    have tki: "tk_inv ?P ?g" using T1 by (simp add: timer_inv_def)
    have same: "tk_same (tk k) ?g" by simp
    have "distance ?g ?now ?r = distance (tk k) ?now ?r + unat ?p"
      by (rule distance_add) (use d p' in \<open>simp add: HEADROOM_def DURATION_MAX_def\<close>)
    then have dist: "distance ?g (event_time ?P ?g) ?r \<le> HEADROOM + DURATION_MAX + present_gap ?P ?g"
      using d p' by (simp add: tk_same_event_time[OF same])
    have room: "length (heap ?g) < HEAP_CAPACITY ?P"
      using heap_has_room[OF K T _ r] i by (simp add: timeout_objects_def)
    have cap: "HEAP_CAPACITY ?P < HEAP_POS_NONE" using K by (simp add: kcfg_ok_def)
    have r': "?r \<notin> set (heap ?g)" using r by simp
    obtain g2 where g2: "insert_timeout ?P ?g ?r = Some g2" "tk_inv ?P g2" "tk_same ?g g2"
      "same_timeouts (timeouts ?g) (timeouts g2)" "mset (heap g2) = add_mset ?r (mset (heap ?g))"
      using insert_timeout_ok[OF tki r' room cap dist] by blast
    have hp: "set (heap g2) = insert ?r (set (heap (tk k)))"
      using g2(5) by (metis set_mset_add_mset_insert set_mset_mset timeouts_set_timeout(2))
    have T2: "timer_inv K ((k\<lparr>tk := ?g\<rparr>)\<lparr>tk := g2\<rparr>)"
    proof (rule timer_inv_tkI[OF T1 g2(2)])
      show "same_callbacks (tk (k\<lparr>tk := ?g\<rparr>)) g2" using same_timeouts_callbacks[OF g2(4)] by simp
      fix x
      assume "x \<in> set (heap g2)"
      then show "x \<in> set (heap (tk (k\<lparr>tk := ?g\<rparr>))) \<or> linked_ok K ((k\<lparr>tk := ?g\<rparr>)\<lparr>tk := g2\<rparr>) x"
        using hp i by (auto simp: linked_ok_def)
    qed
    have T2': "timer_inv K (k\<lparr>tk := g2\<rparr>)" "tk_same (tk k) g2"
      using T2 g2(3) by simp_all
    note k2 = tk_same_ok[OF inv T2']
    have eq: "timer_timeout_handler K i k = Some (leave_cpu_lock (k\<lparr>tk := g2\<rparr>))"
      using False i nl g2(1) by (simp add: timer_timeout_handler_def Let_def on_tk_def adjust_expiration_def)
    have "at (timeouts g2 ?r) = at (timeouts (tk k) ?r) + ?p"
      "x \<noteq> ?r \<Longrightarrow> at (timeouts g2 x) = at (timeouts (tk k) x)" for x
      using same_timeouts_at[OF g2(4)] by simp_all
    then show thesis using eq k2 T2' False hp
      by (intro that[of "leave_cpu_lock (k\<lparr>tk := g2\<rparr>)"]) simp_all
  qed
qed

section \<open>The system calls\<close>

definition timer_id_ok :: "kcfg \<Rightarrow> nat \<Rightarrow> bool" where
  "timer_id_ok K this \<longleftrightarrow> 0 < this \<and> this \<le> N_TIMERS K"

lemma timer_id_index: "timer_id_ok K this \<Longrightarrow> timer_index K this = Some (this - 1) \<and> this - 1 < N_TIMERS K"
  by (auto simp: timer_id_ok_def timer_index_def pool_index_Some)

lemma time32_from_optional_ok:
  "time32_from_optional x = Some d \<Longrightarrow> d = BAD_DURATION32 \<or> unat d \<le> DURATION_MAX"
  by (auto simp: time32_from_optional_def split: option.splits dest: time32_from_duration_max)

lemma timer_calls_ok:
  assumes K: "kcfg_ok K" and inv: "kinv K k" and i: "timer_id_ok K this"
  shows "timer_startable K k (this - 1) \<Longrightarrow> call_ok K k (raw_timer_start K this k)"
    "call_ok K k (raw_timer_stop K this k)" "call_ok K k (raw_timer_set_delay K this d k)"
    "call_ok K k (raw_timer_set_period K this d k)"
proof -
  let ?k = "k\<lparr>cpu_lock := True\<rparr>" and ?i = "this - 1"
  have I: "kinv K ?k" using inv by simp
  note i' = timer_id_index[OF i]
  have iN: "?i < N_TIMERS K" using i' by blast
  show "call_ok K k (raw_timer_start K this k)" if "timer_startable K k ?i"
    unfolding raw_timer_start_def
  proof (rule with_cpu_lock_ok[OF inv])
    have s: "timer_startable K ?k ?i" using that by (simp add: timer_startable_def)
    obtain k' where "start_timer K ?i ?k = Some k'" "kinv K k'" "frame ?k k'" "preempt_inv k' = preempt_inv ?k"
      by (rule start_timer_ok[OF K I iN s])
    then show "call_ok K ?k (do { i \<leftarrow> timer_index K this; k \<leftarrow> start_timer K i ?k; Some (Ok (), k) })"
      using i' by (intro call_okI[where x = "Ok ()" and k' = k']) simp_all
  qed
  show "call_ok K k (raw_timer_stop K this k)"
    unfolding raw_timer_stop_def
  proof (rule with_cpu_lock_ok[OF inv])
    obtain k' where "stop_timer K ?i ?k = Some k'" "kinv K k'" "frame ?k k'" "preempt_inv k' = preempt_inv ?k"
      by (rule stop_timer_ok[OF K I])
    then show "call_ok K ?k (do { i \<leftarrow> timer_index K this; k \<leftarrow> stop_timer K i ?k; Some (Ok (), k) })"
      using i' by (intro call_okI[where x = "Ok ()" and k' = k']) simp_all
  qed
  show "call_ok K k (raw_timer_set_delay K this d k)"
  proof (cases "time32_from_optional d")
    case None
    then show ?thesis using inv by (simp add: raw_timer_set_delay_def call_ok_same)
  next
    case (Some x)
    show ?thesis unfolding raw_timer_set_delay_def Some option.case
    proof (rule with_cpu_lock_ok[OF inv])
      obtain k' where "set_timer_delay K ?i x ?k = Some k'" "kinv K k'" "frame ?k k'" "preempt_inv k' = preempt_inv ?k"
        by (rule set_timer_delay_ok[OF K I iN time32_from_optional_ok[OF Some]])
      then show "call_ok K ?k (do { i \<leftarrow> timer_index K this; k \<leftarrow> set_timer_delay K i x ?k; Some (Ok (), k) })"
        using i' by (intro call_okI[where x = "Ok ()" and k' = k']) simp_all
    qed
  qed
  show "call_ok K k (raw_timer_set_period K this d k)"
  proof (cases "time32_from_optional d")
    case None
    then show ?thesis using inv by (simp add: raw_timer_set_period_def call_ok_same)
  next
    case (Some x)
    have p: "period_ok x" using time32_from_optional_ok[OF Some] by (simp add: period_ok_def)
    note U = upd_timer_ok[OF I timer_period_inv[OF kinvD(12)[OF I] p], of ?i]
    show ?thesis unfolding raw_timer_set_period_def Some option.case
    proof (rule with_cpu_lock_ok[OF inv])
      show "call_ok K ?k (do { i \<leftarrow> timer_index K this; Some (Ok (), set_timer_period i x ?k) })"
        using U i' by (intro call_okI[where x = "Ok ()" and k' = "set_timer_period ?i x ?k"])
          (simp_all add: set_timer_period_def)
    qed
  qed
qed

end
