(* ===== verification/Kernel_Calls.thy ===== *)
theory Kernel_Calls
  imports Semaphore_Contract Event_Group_Contract Task_Contract Timer_Contract Kernel
begin

text \<open>
  Every system call meets the contract of \<open>Kernel_Contract\<close>; so do sequences of them, the return
  from a blocking call, the exit of a task and the dispatcher.
\<close>

section \<open>CPU Lock, Priority Boost and the clocks\<close>

lemma map_ret_Blocked [simp]: "map_ret f x = Blocked \<longleftrightarrow> x = Blocked"
  by (cases x) simp_all

lemma call_ok_ret_as: "call_ok K k r \<Longrightarrow> call_ok K k (ret_as f r)"
  by (force simp: call_ok_def ret_as_def)

lemma cpu_lock_calls_ok:
  assumes inv: "kinv K k"
  shows "call_ok K k (raw_acquire_cpu_lock k)" "call_ok K k (raw_release_cpu_lock k)"
  using inv by (auto simp: raw_acquire_cpu_lock_def raw_release_cpu_lock_def intro!: call_okI)

lemma running_boost [simp]:
  "running_task_is_running (k\<lparr>priority_boost := b\<rparr>) = running_task_is_running k"
  by (fact prev_task_priority_record)

lemma boost_priority_ok:
  assumes inv: "kinv K k" and c: "caller_ok k"
  shows "call_ok K k (boost_priority k)"
proof (cases "cpu_lock k \<or> \<not> task_context k \<or> priority_boost k")
  case True
  then show ?thesis using inv by (simp add: boost_priority_def call_ok_same)
next
  case False
  then have "running_task_is_running k" using c by (auto simp: caller_ok_def running_task_is_running_def)
  then have "kinv K (k\<lparr>priority_boost := True\<rparr>)" using inv by (simp add: kinv_def boost_inv_def)
  then show ?thesis using False
    by (intro call_okI[where x = "Ok ()" and k' = "k\<lparr>priority_boost := True\<rparr>"])
      (simp_all add: boost_priority_def preempt_inv_def frame_def)
qed

lemma unboost_priority_ok:
  assumes K: "kcfg_ok K" and inv: "kinv K k"
  shows "call_ok K k (unboost_priority K k)"
proof (cases "\<not> task_context k \<or> \<not> priority_boost k")
  case True
  then show ?thesis using inv by (simp add: unboost_priority_def call_ok_same)
next
  case False
  have "call_ok K k (with_cpu_lock (\<lambda>k.
        do { let k = k\<lparr>priority_boost := False\<rparr>;
             k \<leftarrow> unlock_cpu_and_check_preemption K k;
             Some (Ok (), k) }) k)"
  proof (rule with_cpu_lock_ok[OF inv])
    let ?k = "k\<lparr>cpu_lock := True\<rparr>" and ?k1 = "k\<lparr>cpu_lock := True, priority_boost := False\<rparr>"
    have "kinv K ?k1" using inv by (simp add: kinv_def boost_inv_def)
    moreover have "frame ?k ?k1" by (simp add: frame_def)
    ultimately show "call_ok K ?k (do { let k = ?k\<lparr>priority_boost := False\<rparr>;
             k \<leftarrow> unlock_cpu_and_check_preemption K k; Some (Ok (), k) })"
      using finish_with_check[OF K, of ?k1 ?k "Ok ()"] by (simp add: Let_def)
  qed
  then show ?thesis using False by (simp add: unboost_priority_def)
qed

lemma kinv_counts: "kinv K k \<Longrightarrow> tk_inv (PORT_TIMER K) (tk k)"
  using kinvD(12)[of K k] by (simp add: timer_inv_def)

lemma raw_time_ok:
  assumes inv: "kinv K k"
  shows "call_ok K k (raw_time K k)"
proof (cases "task_context k")
  case True
  have "counts_ok (PORT_TIMER K) (tk k)" using kinv_counts[OF inv] by (simp add: tk_inv_def)
  then show ?thesis using True inv
    by (simp add: raw_time_def expect_task_context_def)
      (intro with_cpu_lock_ok[OF inv], simp add: tk_system_time_eq call_ok_same)
next
  case False
  then show ?thesis using inv by (simp add: raw_time_def expect_task_context_def call_ok_same)
qed

text \<open>The clocks may be changed only while the tick handler is not running.\<close>

lemma raw_set_time_ok:
  assumes inv: "kinv K k" and h: "handle_tick_in_progress (tk k) \<Longrightarrow> \<not> task_context k"
  shows "call_ok K k (raw_set_time K x k)"
proof (cases "task_context k")
  case True
  let ?k = "k\<lparr>cpu_lock := True\<rparr>"
  have cnt: "counts_ok (PORT_TIMER K) (tk k)" using kinv_counts[OF inv] by (simp add: tk_inv_def)
  obtain g where g: "tk_set_system_time (PORT_TIMER K) (tk k) (time_as_micros x) = Some g"
    "tk_inv (PORT_TIMER K) g = tk_inv (PORT_TIMER K) (tk k)" "timeouts g = timeouts (tk k)" "heap g = heap (tk k)"
    using tk_set_system_time_ok[OF cnt] by blast
  have flag: "handle_tick_in_progress g = handle_tick_in_progress (tk k)"
    using g(1) by (auto simp: tk_set_system_time_def bind_eq_Some_conv)
  have I: "kinv K ?k" using inv by simp
  have "timer_inv K (?k\<lparr>tk := g\<rparr>)"
    by (rule timer_inv_tk_same[OF kinvD(12)[OF I]]) (use g kinv_counts[OF inv] in simp_all)
  moreover have nh: "\<not> handle_tick_in_progress (tk k)" using h True by blast
  ultimately have T: "kinv K (?k\<lparr>tk := g\<rparr>)" "frame ?k (?k\<lparr>tk := g\<rparr>)" "preempt_inv (?k\<lparr>tk := g\<rparr>) = preempt_inv ?k"
    using tk_ok[OF I, of g] flag by simp_all
  have "call_ok K k (with_cpu_lock (\<lambda>k. do { k \<leftarrow> on_tk (\<lambda>g. tk_set_system_time (PORT_TIMER K) g (time_as_micros x)) k; Some (Ok (), k) }) k)"
  proof (rule with_cpu_lock_ok[OF inv])
    show "call_ok K ?k (do { k \<leftarrow> on_tk (\<lambda>g. tk_set_system_time (PORT_TIMER K) g (time_as_micros x)) ?k; Some (Ok (), k) })"
      using T True g(1)
      by (intro call_okI[where x = "Ok ()" and k' = "?k\<lparr>tk := g\<rparr>"]) (simp_all add: on_tk_def)
  qed
  then show ?thesis using True by (simp add: raw_set_time_def expect_task_context_def)
next
  case False
  then show ?thesis using inv by (simp add: raw_set_time_def expect_task_context_def call_ok_same)
qed

lemma raw_adjust_time_ok:
  assumes inv: "kinv K k" and h: "\<not> handle_tick_in_progress (tk k)"
  shows "call_ok K k (raw_adjust_time K x k)"
  unfolding raw_adjust_time_def
proof (rule with_cpu_lock_ok[OF inv])
  let ?k = "k\<lparr>cpu_lock := True\<rparr>"
  obtain g where g: "tk_adjust_time (PORT_TIMER K) (tk k) x = Some (adjust_allowed (PORT_TIMER K) (tk k) x, g)"
    "tk_inv (PORT_TIMER K) g" "heap g = heap (tk k)" "timeouts g = timeouts (tk k)"
    "handle_tick_in_progress g = handle_tick_in_progress (tk k)"
    using tk_adjust_time_ok[OF kinv_counts[OF inv]] by metis
  have I: "kinv K ?k" using inv by simp
  have "timer_inv K (?k\<lparr>tk := g\<rparr>)"
    by (rule timer_inv_tk_same[OF kinvD(12)[OF I]]) (use g in simp_all)
  note T = tk_ok[OF I this]
  show "call_ok K ?k (do { (ok, g) \<leftarrow> tk_adjust_time (PORT_TIMER K) (tk ?k) x;
          Some (if ok then Ok () else Err BadObjectState, ?k\<lparr>tk := g\<rparr>) })"
    using T h g(1,5) by (cases "adjust_allowed (PORT_TIMER K) (tk k) x")
      (auto intro!: call_okI)
qed

section \<open>All system calls\<close>

text \<open>The object that a call names exists.\<close>

definition existing_object :: "kcfg \<Rightarrow> call \<Rightarrow> bool" where
  "existing_object K c = (case c of
     TaskActivate i \<Rightarrow> task_id_ok K i | TaskInterrupt i \<Rightarrow> task_id_ok K i
   | TaskUnparkExact i \<Rightarrow> task_id_ok K i | TaskSetPriority i _ \<Rightarrow> task_id_ok K i
   | TaskGetPriority i \<Rightarrow> task_id_ok K i | TaskGetEffectivePriority i \<Rightarrow> task_id_ok K i
   | SemaphoreDrain i \<Rightarrow> semaphore_id_ok K i | SemaphoreGet i \<Rightarrow> semaphore_id_ok K i
   | SemaphoreSignal i _ \<Rightarrow> semaphore_id_ok K i | SemaphoreSignalOne i \<Rightarrow> semaphore_id_ok K i
   | SemaphoreWaitOne i \<Rightarrow> semaphore_id_ok K i | SemaphoreWaitOneTimeout i _ \<Rightarrow> semaphore_id_ok K i
   | SemaphorePollOne i \<Rightarrow> semaphore_id_ok K i
   | EventGroupSet i _ \<Rightarrow> event_group_id_ok K i | EventGroupClear i _ \<Rightarrow> event_group_id_ok K i
   | EventGroupGet i \<Rightarrow> event_group_id_ok K i | EventGroupWait i _ _ \<Rightarrow> event_group_id_ok K i
   | EventGroupWaitTimeout i _ _ _ \<Rightarrow> event_group_id_ok K i | EventGroupPoll i _ _ \<Rightarrow> event_group_id_ok K i
   | MutexIsLocked i \<Rightarrow> mutex_id_ok K i | MutexLock i \<Rightarrow> mutex_id_ok K i
   | MutexLockTimeout i _ \<Rightarrow> mutex_id_ok K i | MutexTryLock i \<Rightarrow> mutex_id_ok K i
   | MutexUnlock i \<Rightarrow> mutex_id_ok K i | MutexMarkConsistent i \<Rightarrow> mutex_id_ok K i
   | TimerStart i \<Rightarrow> timer_id_ok K i | TimerStop i \<Rightarrow> timer_id_ok K i
   | TimerSetDelay i _ \<Rightarrow> timer_id_ok K i | TimerSetPeriod i _ \<Rightarrow> timer_id_ok K i
   | _ \<Rightarrow> True)"

text \<open>
  What the caller owes: identifiers that exist, and for the two calls on the clocks and the start of
  a timer the conditions under which the timekeeping of the source is sound.
\<close>

definition valid_call :: "kcfg \<Rightarrow> kernel \<Rightarrow> call \<Rightarrow> bool" where
  "valid_call K k c \<longleftrightarrow> existing_object K c \<and>
     (case c of
        TimerStart i \<Rightarrow> timer_startable K k (i - 1)
      | SetTime _ \<Rightarrow> handle_tick_in_progress (tk k) \<longrightarrow> \<not> task_context k
      | AdjustTime _ \<Rightarrow> \<not> handle_tick_in_progress (tk k)
      | _ \<Rightarrow> True)"

lemma syscall_ok:
  assumes K: "kcfg_ok K" and inv: "kinv K k" and c: "caller_ok k" and v: "valid_call K k call"
  shows "call_ok K k (syscall K call k)"
  using v semaphore_calls_ok[OF K inv c] event_group_calls_ok[OF K inv c] mutex_calls_ok[OF K inv c]
    task_calls_ok[OF K inv] timer_calls_ok[OF K inv] park_calls_ok[OF K inv c] task_current_ok[OF inv c]
    cpu_lock_calls_ok[OF inv] boost_priority_ok[OF inv c] unboost_priority_ok[OF K inv]
    raw_time_ok[OF inv] raw_set_time_ok[OF inv] raw_adjust_time_ok[OF inv]
  by (cases call) (simp_all add: valid_call_def existing_object_def call_ok_ret_as)

end
