(* ===== verification/Kernel_Tick.thy ===== *)
theory Kernel_Tick
  imports Kernel_Calls
begin

text \<open>
  The tick handler: the callbacks of the expired timeouts run one after the other, each in a state
  that satisfies the invariants, at the time the handler has started.
\<close>

section \<open>Sequences of calls\<close>

text \<open>
  What the tick handler relies on: the calls that the application's function makes keep an
  invariant and a relation to the state before.
\<close>

locale call_contract =
  fixes call :: "'k \<Rightarrow> 'c \<Rightarrow> ('r \<times> 'k) option"
    and valid :: "'k \<Rightarrow> 'c \<Rightarrow> bool"
    and inv :: "'k \<Rightarrow> bool"
    and keeps :: "'k \<Rightarrow> 'k \<Rightarrow> bool"
  assumes call_ok: "inv k \<Longrightarrow> valid k c \<Longrightarrow> \<exists>r k'. call k c = Some (r, k') \<and> inv k' \<and> keeps k k'"
    and keeps_refl: "keeps k k"
    and keeps_trans: "keeps a b \<Longrightarrow> keeps b c' \<Longrightarrow> keeps a c'"

text \<open>A sequence is valid if each call is, in the state in which it is made.\<close>

fun valid_seq :: "('k \<Rightarrow> 'c \<Rightarrow> ('r \<times> 'k) option) \<Rightarrow> ('k \<Rightarrow> 'c \<Rightarrow> bool) \<Rightarrow> 'c list \<Rightarrow> 'k \<Rightarrow> bool" where
  "valid_seq f valid [] k \<longleftrightarrow> True"
| "valid_seq f valid (c # cs) k \<longleftrightarrow>
     valid k c \<and> (case f k c of None \<Rightarrow> True | Some (_, k) \<Rightarrow> valid_seq f valid cs k)"

context call_contract
begin

lemma run_ok:
  "inv k \<Longrightarrow> valid_seq call valid cs k \<Longrightarrow> \<exists>k'. run_seq call cs k = Some k' \<and> inv k' \<and> keeps k k'"
proof (induction cs arbitrary: k)
  case Nil
  then show ?case using keeps_refl by auto
next
  case (Cons c cs)
  then obtain r k1 where k1: "call k c = Some (r, k1)" "inv k1" "keeps k k1" using call_ok by fastforce
  then obtain k' where "run_seq call cs k1 = Some k'" "inv k'" "keeps k1 k'" using Cons by force
  then show ?case using k1 keeps_trans by auto
qed

end

text \<open>The calls of an interrupt handler; it has no task to block.\<close>

definition handler_inv :: "kcfg \<Rightarrow> kernel \<Rightarrow> bool" where
  "handler_inv K k \<longleftrightarrow> kcfg_ok K \<and> kinv K k \<and> \<not> task_context k"

interpretation handler: call_contract "\<lambda>k c. syscall K c k" "valid_call K" "handler_inv K" frame
  for K
proof
  fix k c
  assume "handler_inv K k" "valid_call K k c"
  then have k: "kcfg_ok K" "kinv K k" "\<not> task_context k" "valid_call K k c" by (simp_all add: handler_inv_def)
  have "caller_ok k" using k by (simp add: caller_ok_def)
  then obtain r k' where "syscall K c k = Some (r, k')" "kinv K k'" "frame k k'"
    using syscall_ok[OF k(1,2) _ k(4)] by (auto simp: call_ok_def)
  then show "\<exists>r k'. syscall K c k = Some (r, k') \<and> handler_inv K k' \<and> frame k k'"
    using k by (auto simp: handler_inv_def frame_def)
qed (auto intro: frame_trans)

definition callbacks_ok :: "kcfg \<Rightarrow> timer_callbacks \<Rightarrow> bool" where
  "callbacks_ok K cb \<longleftrightarrow>
     (\<forall>i k. handler_inv K k \<longrightarrow> handle_tick_in_progress (tk k) \<longrightarrow>
        valid_seq (\<lambda>k c. syscall K c k) (valid_call K) (cb i k) k)"

section \<open>One expired timeout\<close>

text \<open>The state inside the loop of the tick handler.\<close>

definition ticking :: "kcfg \<Rightarrow> time32 \<Rightarrow> kernel \<Rightarrow> bool" where
  "ticking K now k \<longleftrightarrow>
     kinv K k \<and> \<not> task_context k \<and> cpu_lock k \<and> handle_tick_in_progress (tk k) \<and>
     event_time (PORT_TIMER K) (tk k) = now"

lemma ticking_frame:
  assumes "ticking K now k" "kinv K k'" "frame k k'" "cpu_lock k'"
  shows "ticking K now k'"
  using assms by (auto simp: ticking_def frame_def tk_same_event_time)

lemma task_timeout_ok:
  assumes K: "kcfg_ok K" and inv: "kinv K k" and t: "t < N_TASKS K" "blocked_in (tasks k t) = Some (c, True)"
  obtains k' where "interrupt_task_by_timeout K t k = Some k'" "kinv K k'" "frame k k'" "cpu_lock k' = cpu_lock k"
    "tk k' = tk k" "timers k' = timers k"
proof (cases "st (tasks k t) = Waiting")
  case True
  obtain q where "interrupt_task K t WaitTimeout k = Some (True, woken t WaitTimeout q k)"
    "kinv K (woken t WaitTimeout q k)" "frame k (woken t WaitTimeout q k)"
    by (rule interrupt_task_ok[OF K inv t(1) True wake_allowed_timeout[OF t(2)]])
  then show thesis by (intro that[of "woken t WaitTimeout q k"]) (simp_all add: interrupt_task_by_timeout_def)
next
  case False
  then show thesis using inv by (intro that[of k]) (simp_all add: interrupt_task_by_timeout_def interrupt_task_def)
qed

lemma timer_callback_ok:
  assumes K: "kcfg_ok K" and cb: "callbacks_ok K cb" and inv: "ticking K now k"
    and i: "i < N_TIMERS K" "timer_active (timers k i)" "TimerTimeout i \<notin> set (heap (tk k))"
    and d: "distance (tk k) now (TimerTimeout i) \<le> HEADROOM"
  obtains k' where "call_timer K cb i k = Some k'" "ticking K now k'" "frame k k'"
proof -
  have k: "kinv K k" "\<not> task_context k" "handle_tick_in_progress (tk k)" "event_time (PORT_TIMER K) (tk k) = now"
    using inv by (simp_all add: ticking_def)
  obtain k1 where k1: "timer_timeout_handler K i k = Some k1" "kinv K k1" "frame k k1"
    using timer_timeout_handler_ok[OF K k(1) i] d k(4) by metis
  have h1: "handler_inv K k1" "handle_tick_in_progress (tk k1)" using K k k1 by (auto simp: handler_inv_def frame_def)
  obtain k2 where k2: "run_calls K (cb i k1) k1 = Some k2" "handler_inv K k2" "frame k1 k2"
    using handler.run_ok[OF h1(1)] cb h1 unfolding run_calls_def callbacks_ok_def by blast
  let ?k = "k2\<lparr>cpu_lock := True\<rparr>"
  have fr: "frame k ?k" using frame_trans[OF k1(3) k2(3)] by simp
  have "kinv K ?k" using k2(2) by (simp add: handler_inv_def)
  then have "ticking K now ?k" using ticking_frame[OF inv _ fr] by simp
  moreover have "call_timer K cb i k = Some ?k" using k1(1) k2(1) by (simp add: call_timer_def)
  ultimately show thesis using fr that by blast
qed

text \<open>Taking an expired timeout off the heap and calling its callback.\<close>

lemma expired_ok:
  assumes K: "kcfg_ok K" and cb: "callbacks_ok K cb" and inv: "ticking K now k"
    and e: "take_expired (tk k) now = Some (Some r, g)"
  obtains k' where "call_timeout K cb (timeouts (tk k) r) (k\<lparr>tk := g\<rparr>) = Some k'" "ticking K now k'" "frame k k'"
proof -
  have k: "kinv K k" "\<not> task_context k" "cpu_lock k" "handle_tick_in_progress (tk k)" "now = event_time (PORT_TIMER K) (tk k)"
    using inv by (simp_all add: ticking_def)
  note T = kinvD(12)[OF k(1)]
  have g: "tk_inv (PORT_TIMER K) g" "tk_same (tk k) g" "same_timeouts (timeouts (tk k)) (timeouts g)"
    "r \<in> set (heap (tk k))" "distance (tk k) now r \<le> HEADROOM" "mset (heap g) = mset (heap (tk k)) - {#r#}"
    using take_expired_ok[OF kinv_counts[OF k(1)] k(5)] e by auto
  have d: "distinct (heap (tk k))" using T by (simp add: timer_inv_def tk_inv_def heap_ok_def)
  have sub: "set (heap g) \<subseteq> set (heap (tk k))"
    using g(6) by (metis in_diffD set_mset_mset subsetI)
  have nr: "r \<notin> set (heap g)" by (rule distinct_mem_mset_remove[OF d g(6)])
  let ?k = "k\<lparr>tk := g\<rparr>"
  have T1: "timer_inv K ?k"
    by (rule timer_inv_tkI[OF T g(1) same_timeouts_callbacks[OF g(3)]]) (use sub in blast)
  note k1 = tk_same_ok[OF k(1) T1 g(2)]
  have inv1: "ticking K now ?k" by (rule ticking_frame[OF inv k1(1,2)]) (use k(3) in simp)
  have linked: "linked_ok K k r" using T g(4) by (simp add: timer_inv_def)
  show thesis
  proof (cases r)
    case (TaskTimeout t)
    then obtain c where t: "t < N_TASKS K" "blocked_in (tasks ?k t) = Some (c, True)"
      "callback (timeouts (tk k) r) = Interrupt_Task_By_Timeout" "callback_param (timeouts (tk k) r) = t"
      using linked by (auto simp: linked_ok_def)
    obtain k' where k': "interrupt_task_by_timeout K t ?k = Some k'" "kinv K k'" "frame ?k k'" "cpu_lock k' = cpu_lock ?k"
      by (rule task_timeout_ok[OF K k1(1) t(1,2)])
    have "ticking K now k'" by (rule ticking_frame[OF inv1 k'(2,3)]) (use k' k(3) in simp)
    then show thesis using k' t(3,4) frame_trans[OF k1(2) k'(3)] by (intro that[of k']) (simp_all add: call_timeout_def)
  next
    case (TimerTimeout i)
    then have i: "i < N_TIMERS K" "timer_active (timers ?k i)" using linked by (simp_all add: linked_ok_def)
    then have c: "callback (timeouts (tk k) r) = Timer_Timeout_Handler" "callback_param (timeouts (tk k) r) = i"
      using T TimerTimeout by (simp_all add: timer_inv_def)
    have "distance (tk ?k) now (TimerTimeout i) \<le> HEADROOM"
      using g(5) distance_same[OF g(3)] TimerTimeout by simp
    moreover have "TimerTimeout i \<notin> set (heap (tk ?k))" using nr TimerTimeout by simp
    ultimately obtain k' where k': "call_timer K cb i ?k = Some k'" "ticking K now k'" "frame ?k k'"
      using timer_callback_ok[OF K cb inv1 i] by blast
    show thesis using k' c frame_trans[OF k1(2) k'(3)] by (intro that[of k']) (simp_all add: call_timeout_def)
  qed
qed

section \<open>The loop and the handler\<close>

lemma handle_tick_loop_ok:
  assumes K: "kcfg_ok K" and cb: "callbacks_ok K cb"
  shows "ticking K now k \<Longrightarrow>
    \<exists>b k'. handle_tick_loop K cb now fuel k = Some (b, k') \<and> ticking K now k' \<and> frame k k' \<and>
      (b \<longrightarrow> (\<forall>r\<in>set (heap (tk k')). HEADROOM < distance (tk k') now r))"
proof (induction fuel arbitrary: k)
  case 0
  then show ?case by (intro exI[of _ False] exI[of _ k]) simp
next
  case (Suc fuel)
  have k: "kinv K k" "now = event_time (PORT_TIMER K) (tk k)" using Suc.prems by (simp_all add: ticking_def)
  obtain res g where e: "take_expired (tk k) now = Some (res, g)"
    "res = None \<Longrightarrow> g = tk k \<and> (\<forall>r\<in>set (heap (tk k)). HEADROOM < distance (tk k) now r)"
    using take_expired_ok[OF kinv_counts[OF k(1)] k(2)] by (auto split: option.splits)
  show ?case
  proof (cases res)
    case None
    then show ?thesis using e Suc.prems by (intro exI[of _ True] exI[of _ k]) simp
  next
    case (Some r)
    obtain k1 where k1: "call_timeout K cb (timeouts (tk k) r) (k\<lparr>tk := g\<rparr>) = Some k1" "ticking K now k1" "frame k k1"
      using expired_ok[OF K cb Suc.prems] e(1) Some by blast
    obtain b k' where "handle_tick_loop K cb now fuel k1 = Some (b, k')" "ticking K now k'" "frame k1 k'"
      "b \<longrightarrow> (\<forall>r\<in>set (heap (tk k')). HEADROOM < distance (tk k') now r)"
      using Suc.IH[OF k1(2)] by blast
    then show ?thesis using e(1) Some k1 frame_trans[OF k1(3)]
      by (intro exI[of _ b] exI[of _ k']) simp
  qed
qed

lemma flag_simps [simp]:
  "distance (g\<lparr>handle_tick_in_progress := b\<rparr>) = distance g"
  "elapsed P (g\<lparr>handle_tick_in_progress := b\<rparr>) = elapsed P g"
  "event_time P (g\<lparr>handle_tick_in_progress := b\<rparr>) = event_time P g"
  by (simp_all add: distance_def fun_eq_iff elapsed_def event_time_def)

lemma tk_inv_flag [simp]: "tk_inv P (g\<lparr>handle_tick_in_progress := b\<rparr>) = tk_inv P g"
  by (simp add: tk_inv_def counts_ok_def heap_ok_def frontier_ok_def)

text \<open>
  \<^verbatim>\<open>handle_tick\<close> does not panic; when it returns, no timeout has been left behind, the next tick is
  scheduled in time, and nothing that should preempt the running task is missed.
\<close>

lemma handle_tick_ok:
  assumes K: "kcfg_ok K" and cb: "callbacks_ok K cb" and inv: "kinv K k"
    and ctx: "\<not> task_context k" "\<not> cpu_lock k" "\<not> handle_tick_in_progress (tk k)"
  obtains b k' where "handle_tick K cb fuel k = Some (b, k')"
    "b \<Longrightarrow> kinv K k' \<and> preempt_inv k' \<and> \<not> handle_tick_in_progress (tk k') \<and> \<not> cpu_lock k' \<and>
       running_task k' = running_task k \<and> \<not> task_context k' \<and> scheduler_active k' = scheduler_active k \<and>
       (yield_pending k \<longrightarrow> yield_pending k') \<and>
       (running_task_is_running k \<longrightarrow> \<not> yield_pending k' \<longrightarrow> running_task_is_running k') \<and>
       event_time (PORT_TIMER K) (tk k') = event_time (PORT_TIMER K) (tk k) \<and>
       (\<forall>r\<in>set (heap (tk k')). HEADROOM < distance (tk k') (event_time (PORT_TIMER K) (tk k)) r) \<and>
       tick_scheduled (PORT_TIMER K) (event_time (PORT_TIMER K) (tk k)) (tk k')"
proof -
  let ?P = "PORT_TIMER K" and ?now = "event_time (PORT_TIMER K) (tk k)"
  obtain g where g: "mark_tick ?P (tk k) = Some g" "tk_inv ?P g" "last_tick_time g = ?now" "event_time ?P g = ?now"
    "heap g = heap (tk k)" "timeouts g = timeouts (tk k)"
    using mark_tick_ok[OF kinv_counts[OF inv]] by blast
  let ?k1 = "k\<lparr>cpu_lock := True, tk := g\<lparr>handle_tick_in_progress := True\<rparr>\<rparr>"
  have I1: "kinv K (k\<lparr>cpu_lock := True\<rparr>)" using inv by simp
  have "timer_inv K ?k1"
    by (rule timer_inv_tk_same[OF kinvD(12)[OF I1]]) (use g in simp_all)
  then have "kinv K ?k1" using base_inv_tk[OF kinvD(1)[OF I1]] kinvD[OF inv] by (simp add: kinv_def)
  then have "ticking K ?now ?k1" using ctx g(4) by (simp add: ticking_def)
  then obtain b k2 where k2: "handle_tick_loop K cb ?now fuel ?k1 = Some (b, k2)" "ticking K ?now k2" "frame ?k1 k2"
    "b \<longrightarrow> (\<forall>r\<in>set (heap (tk k2)). HEADROOM < distance (tk k2) ?now r)"
    using handle_tick_loop_ok[OF K cb] by blast
  have first: "handle_tick K cb fuel k =
      (if b then do { k' \<leftarrow> unlock_cpu_and_check_preemption K
           (k2\<lparr>tk := pend_next_tick ?P ((tk k2)\<lparr>handle_tick_in_progress := False\<rparr>) ?now\<rparr>); Some (True, k') }
       else Some (False, k2))"
    using ctx(2) g(1,3) k2(1) by (simp add: handle_tick_def lock_cpu_def on_tk_def Let_def)
  show thesis
  proof (cases b)
    case False
    then show thesis using first by (intro that[of False k2]) simp_all
  next
    case True
    let ?g = "(tk k2)\<lparr>handle_tick_in_progress := False\<rparr>"
    let ?g3 = "pend_next_tick ?P ?g ?now"
    let ?k3 = "k2\<lparr>tk := ?g3\<rparr>"
    have k2': "kinv K k2" "cpu_lock k2" "\<not> task_context k2" "event_time ?P (tk k2) = ?now"
      using k2(2) by (simp_all add: ticking_def)
    have "timer_inv K ?k3"
      by (rule timer_inv_tk_same[OF kinvD(12)[OF k2'(1)]]) (use kinv_counts[OF k2'(1)] in simp_all)
    then have k3: "kinv K ?k3" using base_inv_tk[OF kinvD(1)[OF k2'(1)]] kinvD[OF k2'(1)] by (simp add: kinv_def)
    obtain y where y: "unlock_cpu_and_check_preemption K ?k3 = Some (?k3\<lparr>cpu_lock := False, yield_pending := y\<rparr>)"
      "kinv K (?k3\<lparr>cpu_lock := False, yield_pending := y\<rparr>)"
      "preempt_inv (?k3\<lparr>cpu_lock := False, yield_pending := y\<rparr>)" "yield_pending ?k3 \<longrightarrow> y"
      by (rule unlock_check_ok[OF K k3])
    have ord: "heap_ord (distance ?g ?now) (heap ?g)"
      using kinv_counts[OF k2'(1)] k2'(4) by (simp add: tk_inv_def heap_ok_def distance_def)
    have flag: "\<not> handle_tick_in_progress ?g3" by (simp add: pend_next_tick_def Let_def)
    have ev: "event_time ?P ?g3 = ?now"
      using k2'(4) tk_same_event_time[of ?g ?g3 ?P] by simp
    have dist: "distance ?g3 = distance (tk k2)" by (simp add: distance_def fun_eq_iff)
    have run: "running_task_is_running (k\<lparr>cpu_lock := True, tk := h\<rparr>) = running_task_is_running k" for h by simp
    show thesis
    proof (rule that[of True "?k3\<lparr>cpu_lock := False, yield_pending := y\<rparr>"])
      show "handle_tick K cb fuel k = Some (True, ?k3\<lparr>cpu_lock := False, yield_pending := y\<rparr>)"
        using first True y(1) by simp
    qed (use y k2' k2(3,4) flag ev True pend_next_tick_scheduled[OF ord, of ?P] ctx run in \<open>auto simp: frame_def dist\<close>)
  qed
qed

end
