(* ===== verification/Kernel_System.thy ===== *)
theory Kernel_System
  imports Kernel_Tick
begin

text \<open>
  The system as a whole: the events that happen to a running kernel, the reachable states and the
  invariant that all of them satisfy.
\<close>

section \<open>Dispatching\<close>

lemma scheduled_simps [simp]:
  "scheduled (k\<lparr>cpu_lock := b\<rparr>) = scheduled k" "scheduled (k\<lparr>yield_pending := b\<rparr>) = scheduled k"
  "scheduled (k\<lparr>task_context := b\<rparr>) = scheduled k" "scheduled (leave_cpu_lock k) = scheduled k"
  by (simp_all add: scheduled_def cong: option.case_cong)

lemma scheduled_preempt: "scheduled k \<Longrightarrow> preempt_inv k"
  by (auto simp: scheduled_def preempt_inv_def prev_task_priority_def split: option.splits)

lemma scheduled_running: "scheduled k \<Longrightarrow> running_task k \<noteq> None \<Longrightarrow> running_task_is_running k"
  by (auto simp: scheduled_def running_task_is_running_def split: option.splits)

lemma dispatch_locked_ok:
  assumes K: "kcfg_ok K" and inv: "kinv K k"
  obtains k' where "dispatch_locked K k = Some k'" "kinv K k'" "preempt_inv k'" "\<not> yield_pending k'" "\<not> cpu_lock k'"
    "task_context k' \<longleftrightarrow> running_task k' \<noteq> None" "running_task k' \<noteq> None \<Longrightarrow> running_task_is_running k'"
    "tk k' = tk k" "priority_boost k' = priority_boost k" "sched_equiv k k'"
    "\<not> priority_boost k \<Longrightarrow> scheduled k'" "priority_boost k \<Longrightarrow> running_task k' = running_task k"
proof -
  note I = kinvD[OF inv]
  obtain k1 where k1: "choose_next_running_task K k = Some k1" "base_inv K k1" "sched_equiv k k1" "boost_inv k1"
    "priority_boost k1 = priority_boost k" "priority_boost k \<longrightarrow> k1 = k" "\<not> priority_boost k \<longrightarrow> scheduled k1"
    using choose_next_running_task_ok[OF K I(1,3)] by blast
  let ?k = "(leave_cpu_lock k1)\<lparr>yield_pending := False, task_context := (running_task k1 \<noteq> None)\<rparr>"
  have kinv1: "kinv K k1"
    using k1(2,4) I(2,4) by (simp add: kinv_def sched_equiv_inv[OF k1(3)] activated_sched[OF k1(3)])
  have run: "running_task_is_running k1" if "running_task k1 \<noteq> None"
    using k1(4,5,7) scheduled_running[OF _ that] by (cases "priority_boost k") (auto simp: boost_inv_def)
  have pre: "preempt_inv ?k"
    using k1(5,7) scheduled_preempt[of ?k] by (cases "priority_boost k") (auto simp: preempt_inv_def)
  have "sched_equiv k ?k" using k1(3) by (simp add: sched_equiv_def)
  moreover have "tk ?k = tk k" using sched_equiv_pools(6)[OF k1(3)] by simp
  moreover have "running_task_is_running ?k = running_task_is_running k1"
    by (rule running_task_is_running_st) simp_all
  ultimately show thesis using k1 kinv1 run pre
    by (intro that[of ?k]) (simp_all add: dispatch_locked_def leave_cpu_lock_def)
qed

section \<open>The return from a blocking call\<close>

lemma resume_ok:
  assumes inv: "kinv K k" and t: "running_task k = Some t" "st (tasks k t) = Running"
    and b: "blocked_in (tasks k t) \<noteq> None" and lock: "\<not> cpu_lock k"
  shows "call_ok K k (resume K k)"
proof -
  obtain c timed where c: "blocked_in (tasks k t) = Some (c, timed)" using b by auto
  let ?k = "k\<lparr>cpu_lock := True\<rparr>"
  have I: "kinv K ?k" using inv by simp
  have t': "running_task ?k = Some t" "st (tasks ?k t) = Running" "blocked_in (tasks ?k t) = Some (c, timed)"
    using t c by simp_all
  note R = resumes_ok[OF I t']
  have body: "call_ok K ?k (case c of
                       ParkCall \<Rightarrow> unit_ret (park_resume K t ?k)
                     | SleepCall \<Rightarrow> unit_ret (sleep_resume K t ?k)
                     | SemaphoreCall \<Rightarrow> unit_ret (wait_one_resume K t ?k)
                     | EventGroupCall \<Rightarrow> ret_as BitsVal (event_wait_resume K t ?k)
                     | MutexCall m \<Rightarrow> unit_ret (lock_mutex_resume K m t ?k))" (is "call_ok K ?k ?r")
    by (cases c) (simp_all add: R call_ok_ret_as)
  then obtain x k' where k': "?r = Some (x, k')" "kinv K k'" "preempt_inv k \<longrightarrow> preempt_inv k'" "frame k k'"
    "x = Blocked \<longrightarrow> task_context k \<and> yield_pending k'"
    by (auto simp: call_ok_def)
  have "resume K k = Some (x, leave_cpu_lock k')"
    using t c lock k'(1) by (simp add: resume_def lock_cpu_def)
  then show ?thesis using k'(2-) by (intro call_okI[where x = x and k' = "leave_cpu_lock k'"]) simp_all
qed

section \<open>Events\<close>

text \<open>
  What can happen to the running system: the running task makes a system call, exits, or returns
  from the call in which it was suspended; an interrupt handler is entered, makes a call, returns;
  the tick interrupt runs \<open>handle_tick\<close>; the dispatcher of the port runs; time passes.
\<close>

datatype event =
    TaskCall call | TaskExit | TaskResume
  | EnterInterrupt | InterruptCall call | LeaveInterrupt | Tick nat | Dispatch | Elapse nat

definition running_blocked :: "kernel \<Rightarrow> bool" where
  "running_blocked k \<longleftrightarrow> (\<exists>t. running_task k = Some t \<and> blocked_in (tasks k t) \<noteq> None)"

definition running_unblocked :: "kernel \<Rightarrow> bool" where
  "running_unblocked k \<longleftrightarrow> (\<exists>t. running_task k = Some t \<and> blocked_in (tasks k t) = None)"

text \<open>
  A task executes only while no dispatch is pending.  An interrupt is taken only while CPU Lock is
  inactive.  The time that passes between two ticks does not exceed what the timekeeping allows:
  the tick counter does not lap, and no timeout is late by more than the headroom.
\<close>

definition enabled :: "kcfg \<Rightarrow> event \<Rightarrow> kernel \<Rightarrow> bool" where
  "enabled K e k = (case e of
     TaskCall c \<Rightarrow> task_context k \<and> \<not> yield_pending k \<and> running_unblocked k \<and> valid_call K k c
   | TaskExit \<Rightarrow> task_context k \<and> \<not> yield_pending k \<and> running_unblocked k
   | TaskResume \<Rightarrow> task_context k \<and> \<not> yield_pending k \<and> \<not> cpu_lock k \<and> running_blocked k
   | EnterInterrupt \<Rightarrow> \<not> cpu_lock k
   | InterruptCall c \<Rightarrow> \<not> task_context k \<and> valid_call K k c
   | LeaveInterrupt \<Rightarrow> \<not> task_context k \<and> \<not> cpu_lock k
   | Tick fuel \<Rightarrow> \<not> task_context k \<and> \<not> cpu_lock k
   | Dispatch \<Rightarrow> \<not> cpu_lock k
   | Elapse d \<Rightarrow> elapsed (PORT_TIMER K) (tk k) + d \<le> unat (MAX_TICK_COUNT (PORT_TIMER K)) \<and>
       (\<forall>r\<in>set (heap (tk k)). d \<le> distance (tk k) (event_time (PORT_TIMER K) (tk k)) r))"

text \<open>\<open>None\<close> is a panic; \<open>Some None\<close> says that the tick handler has not come to an end.\<close>

definition perform :: "kcfg \<Rightarrow> timer_callbacks \<Rightarrow> event \<Rightarrow> kernel \<Rightarrow> kernel option option" where
  "perform K cb e k = (case e of
     TaskCall c \<Rightarrow> map_option (\<lambda>(_, k). Some k) (syscall K c k)
   | TaskExit \<Rightarrow> map_option (\<lambda>(_, k). Some k) (exit_task K k)
   | TaskResume \<Rightarrow> map_option (\<lambda>(_, k). Some k) (resume K k)
   | EnterInterrupt \<Rightarrow> Some (Some (k\<lparr>task_context := False\<rparr>))
   | InterruptCall c \<Rightarrow> map_option (\<lambda>(_, k). Some k) (syscall K c k)
   | LeaveInterrupt \<Rightarrow> Some (Some (k\<lparr>task_context := (running_task k \<noteq> None)\<rparr>))
   | Tick fuel \<Rightarrow> map_option (\<lambda>(finished, k). if finished then Some k else None) (handle_tick K cb fuel k)
   | Dispatch \<Rightarrow> map_option Some (dispatch K k)
   | Elapse d \<Rightarrow> Some (Some (k\<lparr>tk := pass_time (PORT_TIMER K) d (tk k)\<rparr>)))"

inductive step :: "kcfg \<Rightarrow> timer_callbacks \<Rightarrow> kernel \<Rightarrow> kernel \<Rightarrow> bool" for K cb where
  step: "enabled K e k \<Longrightarrow> perform K cb e k = Some (Some k') \<Longrightarrow> step K cb k k'"

inductive reachable :: "kcfg \<Rightarrow> timer_callbacks \<Rightarrow> kernel \<Rightarrow> kernel \<Rightarrow> bool" for K cb k0 where
  start: "reachable K cb k0 k0"
| next_state: "reachable K cb k0 k \<Longrightarrow> step K cb k k' \<Longrightarrow> reachable K cb k0 k'"

inductive_cases stepE: "step K cb k k'"

section \<open>The invariant of the system\<close>

definition sys_inv :: "kcfg \<Rightarrow> kernel \<Rightarrow> bool" where
  "sys_inv K k \<longleftrightarrow>
     kinv K k \<and> preempt_inv k \<and> \<not> handle_tick_in_progress (tk k) \<and>
     (task_context k \<longrightarrow> running_task k \<noteq> None) \<and>
     (\<not> yield_pending k \<longrightarrow> running_task k \<noteq> None \<longrightarrow> running_task_is_running k)"

lemma sys_inv_frame:
  assumes "sys_inv K k" "kinv K k'" "preempt_inv k'" "frame k k'"
  shows "sys_inv K k'"
  using assms by (auto simp: sys_inv_def frame_def)

lemma sys_inv_call:
  assumes "sys_inv K k" "call_ok K k r"
  shows "\<exists>k'. map_option (\<lambda>(_, k). Some k) r = Some (Some k') \<and> sys_inv K k'"
  using assms sys_inv_frame[of K k] by (fastforce simp: call_ok_def sys_inv_def)

lemma caller_enabled:
  assumes "sys_inv K k" "running_unblocked k" "\<not> yield_pending k"
  shows "caller_ok k"
  using assms by (auto simp: sys_inv_def running_unblocked_def caller_ok_def running_task_is_running_def)

lemma exit_task_ok:
  assumes K: "kcfg_ok K" and inv: "sys_inv K k" and e: "task_context k" "\<not> yield_pending k" "running_unblocked k"
  shows "\<exists>k'. exit_task K k = Some (Ok (), k') \<and> sys_inv K k' \<and> scheduled k'"
proof -
  have kinv: "kinv K k" "\<not> handle_tick_in_progress (tk k)" using inv by (simp_all add: sys_inv_def)
  obtain t k1 where k1: "exit_current_task K k = Some (Ok (), k1)" "kinv K k1" "\<not> priority_boost k1"
    "handle_tick_in_progress (tk k1) = handle_tick_in_progress (tk k)"
    using exit_current_task_ok[OF K kinv(1) caller_enabled[OF inv e(3,2)] e(1)] by metis
  obtain k2 where k2: "dispatch_locked K k1 = Some k2" "kinv K k2" "preempt_inv k2" "\<not> yield_pending k2"
    "task_context k2 \<longleftrightarrow> running_task k2 \<noteq> None" "running_task k2 \<noteq> None \<Longrightarrow> running_task_is_running k2"
    "tk k2 = tk k1" "\<not> priority_boost k1 \<Longrightarrow> scheduled k2"
    using dispatch_locked_ok[OF K k1(2)] by metis
  then show ?thesis using k1 kinv(2) by (intro exI[of _ k2]) (simp add: exit_task_def sys_inv_def)
qed

text \<open>Every enabled event succeeds and keeps the invariant.\<close>

lemma perform_ok:
  assumes K: "kcfg_ok K" and cb: "callbacks_ok K cb" and inv: "sys_inv K k" and e: "enabled K e k"
  shows "\<exists>r. perform K cb e k = Some r \<and> (\<forall>k'. r = Some k' \<longrightarrow> sys_inv K k') \<and>
    (r = None \<longrightarrow> (\<exists>fuel. e = Tick fuel))"
proof -
  have I: "kinv K k" "preempt_inv k" "\<not> handle_tick_in_progress (tk k)" using inv by (simp_all add: sys_inv_def)
  show ?thesis
  proof (cases e)
    case (TaskCall c)
    have "caller_ok k" by (rule caller_enabled[OF inv]) (use e TaskCall in \<open>simp_all add: enabled_def\<close>)
    then have "call_ok K k (syscall K c k)" using syscall_ok[OF K I(1)] e TaskCall by (simp add: enabled_def)
    then show ?thesis using sys_inv_call[OF inv] TaskCall by (fastforce simp: perform_def)
  next
    case TaskExit
    then show ?thesis using exit_task_ok[OF K inv] e by (fastforce simp: perform_def enabled_def)
  next
    case TaskResume
    then obtain t where t: "running_task k = Some t" "blocked_in (tasks k t) \<noteq> None" "\<not> yield_pending k" "\<not> cpu_lock k"
      using e by (auto simp: enabled_def running_blocked_def)
    then have "st (tasks k t) = Running" using inv by (simp add: sys_inv_def running_task_is_running_def)
    then have "call_ok K k (resume K k)" using resume_ok[OF I(1) t(1) _ t(2,4)] by simp
    then show ?thesis using sys_inv_call[OF inv] TaskResume by (fastforce simp: perform_def)
  next
    case EnterInterrupt
    then show ?thesis using inv by (simp add: perform_def sys_inv_def)
  next
    case (InterruptCall c)
    then have "caller_ok k" using e by (simp add: enabled_def caller_ok_def)
    then have "call_ok K k (syscall K c k)" using syscall_ok[OF K I(1)] e InterruptCall by (simp add: enabled_def)
    then show ?thesis using sys_inv_call[OF inv] InterruptCall by (fastforce simp: perform_def)
  next
    case LeaveInterrupt
    then show ?thesis using inv by (simp add: perform_def sys_inv_def)
  next
    case (Tick fuel)
    then have ctx: "\<not> task_context k" "\<not> cpu_lock k" using e by (simp_all add: enabled_def)
    obtain b k' where t: "handle_tick K cb fuel k = Some (b, k')"
      "b \<Longrightarrow> kinv K k' \<and> preempt_inv k' \<and> \<not> handle_tick_in_progress (tk k') \<and> \<not> cpu_lock k' \<and>
       running_task k' = running_task k \<and> \<not> task_context k' \<and> scheduler_active k' = scheduler_active k \<and>
       (yield_pending k \<longrightarrow> yield_pending k') \<and>
       (running_task_is_running k \<longrightarrow> \<not> yield_pending k' \<longrightarrow> running_task_is_running k')"
      using handle_tick_ok[OF K cb I(1) ctx I(3)] by metis
    have "b \<Longrightarrow> sys_inv K k'" using t(2) inv by (auto simp: sys_inv_def)
    then show ?thesis using t(1) Tick by (auto simp: perform_def)
  next
    case Dispatch
    have "kinv K (k\<lparr>cpu_lock := True\<rparr>)" using I(1) by simp
    then obtain k2 where k2: "dispatch_locked K (k\<lparr>cpu_lock := True\<rparr>) = Some k2" "kinv K k2" "preempt_inv k2"
      "task_context k2 \<longleftrightarrow> running_task k2 \<noteq> None" "running_task k2 \<noteq> None \<Longrightarrow> running_task_is_running k2"
      "tk k2 = tk (k\<lparr>cpu_lock := True\<rparr>)"
      using dispatch_locked_ok[OF K] by metis
    have "dispatch K k = Some k2" using k2(1) e Dispatch by (simp add: dispatch_def lock_cpu_def enabled_def)
    then show ?thesis using k2 I(3) Dispatch by (simp add: perform_def sys_inv_def)
  next
    case (Elapse d)
    let ?P = "PORT_TIMER K" and ?g = "pass_time (PORT_TIMER K) d (tk k)"
    have "tk_inv ?P ?g"
      using pass_time_ok(1)[OF kinv_counts[OF I(1)]] e Elapse by (simp add: enabled_def)
    then have "timer_inv K (k\<lparr>tk := ?g\<rparr>)"
      by (intro timer_inv_tk_same[OF kinvD(12)[OF I(1)]]) (simp_all add: pass_time_def)
    moreover have flag: "handle_tick_in_progress ?g = handle_tick_in_progress (tk k)" by (simp add: pass_time_def)
    ultimately have "kinv K (k\<lparr>tk := ?g\<rparr>)" "preempt_inv (k\<lparr>tk := ?g\<rparr>) = preempt_inv k"
      using tk_ok[OF I(1)] I(3) by simp_all
    then have "sys_inv K (k\<lparr>tk := ?g\<rparr>)" using inv flag by (simp add: sys_inv_def)
    then show ?thesis using Elapse by (simp add: perform_def)
  qed
qed

lemma step_inv:
  assumes "kcfg_ok K" "callbacks_ok K cb" "sys_inv K k" "step K cb k k'"
  shows "sys_inv K k'"
  using assms(4) perform_ok[OF assms(1-3)] by (fastforce elim!: stepE)

lemma reachable_inv:
  assumes "kcfg_ok K" "callbacks_ok K cb" "sys_inv K k0" "reachable K cb k0 k"
  shows "sys_inv K k"
  using assms(4) by induction (use assms step_inv in blast)+

end
