(* ===== verification/Kernel_Boot.thy ===== *)
theory Kernel_Boot
  imports Kernel_System
begin

text \<open>
  From the static configuration to the first task: what the builder guarantees, what \<^verbatim>\<open>build!\<close>
  makes of it, and that booting establishes the invariant of the system.
\<close>

section \<open>The builder\<close>

text \<open>The conditions that the operations of the builder enforce.\<close>

definition cfg_ok :: "cfg_builder \<Rightarrow> bool" where
  "cfg_ok c \<longleftrightarrow>
     0 < cfg_num_task_priority_levels c \<and> cfg_num_task_priority_levels c \<le> FIXED_PRIO_BITMAP_MAX_LEN \<and>
     (\<forall>s\<in>set (cfg_semaphores c). cfg_initial s \<le> cfg_maximum s) \<and>
     (\<forall>t\<in>set (cfg_timers c). period_ok (cfg_delay t) \<and> period_ok (cfg_period t))"

lemma optional_duration_ok:
  "(case d of Some x \<Rightarrow> time32_from_duration x | None \<Rightarrow> Some BAD_DURATION32) = Some y \<Longrightarrow> period_ok y"
  by (auto simp: period_ok_def split: option.splits dest: time32_from_duration_max)

lemma cfg_ok_ops:
  "cfg_ok cfg_new"
  "cfg_ok c \<Longrightarrow> num_task_priority_levels n c = Some c' \<Longrightarrow> cfg_ok c'"
  "cfg_ok c \<Longrightarrow> cfg_ok (snd (task_define pri active c))"
  "cfg_ok c \<Longrightarrow> cfg_ok (snd (event_group_define b ord c))"
  "cfg_ok c \<Longrightarrow> cfg_ok (snd (mutex_define protocol c))"
  "cfg_ok c \<Longrightarrow> semaphore_define initial maximum ord c = Some (i, c') \<Longrightarrow> cfg_ok c'"
  by (auto simp: cfg_ok_def cfg_new_def num_task_priority_levels_def task_define_def event_group_define_def
      mutex_define_def semaphore_define_def Let_def FIXED_PRIO_BITMAP_MAX_LEN_def
      WORD_LEN_def usize_bits_def guard_eq_Some split: if_splits)

lemma cfg_ok_timer:
  assumes "cfg_ok c" "timer_define period delay active c = Some (i, c')"
  shows "cfg_ok c'"
proof -
  obtain p d where "(case period of Some x \<Rightarrow> time32_from_duration x | None \<Rightarrow> Some BAD_DURATION32) = Some p"
    "(case delay of Some x \<Rightarrow> time32_from_duration x | None \<Rightarrow> Some BAD_DURATION32) = Some d"
    and c': "c' = c\<lparr>cfg_timers := cfg_timers c @ [\<lparr>cfg_delay = d, cfg_period = p, cfg_timer_active = active\<rparr>]\<rparr>"
    using assms(2) by (auto simp: timer_define_def bind_eq_Some_conv Let_def)
  then have "period_ok p" "period_ok d" by (blast dest: optional_duration_ok)+
  then show ?thesis using assms(1) by (auto simp: cfg_ok_def c')
qed

text \<open>All priorities and ceilings exist.\<close>

definition cfg_priorities_ok :: "cfg_builder \<Rightarrow> bool" where
  "cfg_priorities_ok c \<longleftrightarrow>
     (\<forall>t\<in>set (cfg_tasks c). cfg_task_priority t < cfg_num_task_priority_levels c) \<and>
     (\<forall>p. Ceiling p \<in> set (cfg_mutexes c) \<longrightarrow> p < cfg_num_task_priority_levels c)"

definition cfg_fits :: "cfg_builder \<Rightarrow> bool" where
  "cfg_fits c \<longleftrightarrow> length (cfg_tasks c) + length (cfg_timers c) < HEAP_POS_NONE"

lemma cfg_kcfg_ok: "cfg_ok c \<Longrightarrow> cfg_fits c \<Longrightarrow> kcfg_ok (cfg_kcfg t mc mt c)"
  by (simp add: cfg_ok_def cfg_fits_def kcfg_ok_def cfg_kcfg_def)

section \<open>The initial state\<close>

lemma those_Some: "those xs = Some ys \<longleftrightarrow> xs = map Some ys"
proof (induction xs arbitrary: ys)
  case Nil
  then show ?case by auto
next
  case (Cons x xs)
  then show ?case by (cases ys) (auto split: option.splits)
qed

lemma those_map_ex: "(\<forall>x\<in>set xs. \<exists>y. f x = Some y) \<Longrightarrow> \<exists>ys. those (map f xs) = Some ys"
proof -
  assume "\<forall>x\<in>set xs. \<exists>y. f x = Some y"
  then have "map f xs = map Some (map (the \<circ> f) xs)" by auto
  then show ?thesis unfolding those_Some by blast
qed

lemma those_map_nth:
  assumes "those (map f xs) = Some ys"
  shows "length ys = length xs" "i < length xs \<Longrightarrow> f (xs ! i) = Some (ys ! i)"
proof -
  have e: "map f xs = map Some ys" using assms by (simp add: those_Some)
  then show l: "length ys = length xs" by (metis length_map)
  assume i: "i < length xs"
  then have "map f xs ! i = map Some ys ! i" using e by simp
  then show "f (xs ! i) = Some (ys ! i)" using i l by simp
qed

lemma pool_in [simp]: "i < length xs \<Longrightarrow> pool xs d i = xs ! i"
  by (simp add: pool_def)

text \<open>What \<^verbatim>\<open>build!\<close> makes: a state in which nothing has happened yet.\<close>

definition fresh :: "kcfg \<Rightarrow> kernel \<Rightarrow> bool" where
  "fresh K k \<longleftrightarrow>
     base_inv K k \<and> mutex_inv K None {} k \<and> running_task k = None \<and> \<not> priority_boost k \<and> \<not> yield_pending k \<and>
     \<not> task_context k \<and> cpu_lock k \<and>
     (\<forall>t<N_TASKS K. st (tasks k t) \<in> {Dormant, PendingActivation} \<and> eff k t = base_priority (tasks k t)) \<and>
     heap (tk k) = [] \<and> last_tick_time (tk k) = 0 \<and> frontier_gap (tk k) = 0 \<and>
     \<not> handle_tick_in_progress (tk k) \<and>
     (\<forall>i<N_TIMERS K. \<not> timer_active (timers k i) \<and> period_ok (at_raw (tk k) (TimerTimeout i)))"

lemma build_succeeds:
  assumes "cfg_priorities_ok c"
  shows "\<exists>k. build t counter c = Some k"
proof -
  have "\<exists>ys. those (map (task_to_state c) (cfg_tasks c)) = Some ys"
    by (rule those_map_ex) (use assms in \<open>auto simp: task_to_state_def cfg_to_task_priority_def cfg_priorities_ok_def\<close>)
  moreover have "\<exists>ys. those (map (mutex_to_state c) (cfg_mutexes c)) = Some ys"
    by (rule those_map_ex)
      (use assms in \<open>auto simp: mutex_to_state_def cfg_to_task_priority_def cfg_priorities_ok_def split: mutex_protocol.split\<close>)
  moreover have "\<exists>ys. those (map (\<lambda>i. timer_timeout (cfg_timers c ! i) i) [0..<length (cfg_timers c)]) = Some ys"
    by (rule those_map_ex) (auto simp: timer_timeout_def with_expiration_at_def Let_def)
  ultimately show ?thesis by (auto simp: build_def)
qed

lemma task_to_state_Some:
  assumes "task_to_state c x = Some y"
  shows "cfg_task_priority x < cfg_num_task_priority_levels c"
    "y = \<lparr>attr_priority = cfg_task_priority x, base_priority = cfg_task_priority x,
            effective_priority = cfg_task_priority x,
            st = (if cfg_task_active x then PendingActivation else Dormant),
            park_token = False, current_wait = None, wait_result = WaitOk,
            last_mutex_held = None, blocked_in = None\<rparr>"
  using assms by (auto simp: task_to_state_def cfg_to_task_priority_def guard_eq_Some bind_eq_Some_conv)

lemma mutex_to_state_Some:
  assumes "mutex_to_state c x = Some y"
  shows "owning_task y = None" "mutex_queue y = \<lparr>waits = [], order = TaskPriority\<rparr>"
    "ceiling y = Some p \<Longrightarrow> p < cfg_num_task_priority_levels c"
  using assms by (auto simp: mutex_to_state_def cfg_to_task_priority_def guard_eq_Some bind_eq_Some_conv
      split: mutex_protocol.splits simp del: wait_queue_of_pools)

lemma timer_timeout_Some:
  assumes "timer_timeout x j = Some y"
  shows "callback y = Timer_Timeout_Handler" "callback_param y = j" "at y = cfg_delay x" "heap_pos y = HEAP_POS_NONE"
  using assms by (auto simp: timer_timeout_def with_expiration_at_def with_at_raw_def Timeout_new_def
      Let_def guard_eq_Some split: if_splits)

lemma cfg_kcfg_simps [simp]:
  "PRIORITY_LEVELS (cfg_kcfg t mc mt c) = cfg_num_task_priority_levels c" "TARGET (cfg_kcfg t mc mt c) = t"
  "N_TASKS (cfg_kcfg t mc mt c) = length (cfg_tasks c)"
  "N_SEMAPHORES (cfg_kcfg t mc mt c) = length (cfg_semaphores c)"
  "N_EVENT_GROUPS (cfg_kcfg t mc mt c) = length (cfg_event_groups c)"
  "N_MUTEXES (cfg_kcfg t mc mt c) = length (cfg_mutexes c)"
  "N_TIMERS (cfg_kcfg t mc mt c) = length (cfg_timers c)"
  "MAX_TICK_COUNT (PORT_TIMER (cfg_kcfg t mc mt c)) = mc" "MAX_TIMEOUT (PORT_TIMER (cfg_kcfg t mc mt c)) = mt"
  by (simp_all add: cfg_kcfg_def)

lemma build_fields:
  assumes b: "build t counter c = Some k"
  shows
    "running_task k = None" "\<not> priority_boost k" "\<not> yield_pending k" "\<not> task_context k" "cpu_lock k"
    "task_ready_queue k = bq_init (FixedPrioBitmap t (cfg_num_task_priority_levels c)) (cfg_num_task_priority_levels c)"
    "u < length (cfg_tasks c) \<Longrightarrow> \<exists>p<cfg_num_task_priority_levels c. attr_priority (tasks k u) = p \<and> base_priority (tasks k u) = p \<and> eff k u = p \<and>
       st (tasks k u) = (if cfg_task_active (cfg_tasks c ! u) then PendingActivation else Dormant) \<and>
       current_wait (tasks k u) = None \<and> last_mutex_held (tasks k u) = None \<and> blocked_in (tasks k u) = None"
    "\<not> u < length (cfg_tasks c) \<Longrightarrow> tasks k u = task_cb_init"
    "m < length (cfg_mutexes c) \<Longrightarrow> owning_task (mutexes k m) = None \<and> order (wait_queue_of k (MutexQ m)) = TaskPriority \<and>
       (\<forall>x. ceiling (mutexes k m) = Some x \<longrightarrow> x < cfg_num_task_priority_levels c)"
    "waits_of k q = []"
    "i < length (cfg_semaphores c) \<Longrightarrow> sem_value (semaphores k i) = cfg_initial (cfg_semaphores c ! i) \<and>
       max_value (semaphores k i) = cfg_maximum (cfg_semaphores c ! i)"
    "j < length (cfg_timers c) \<Longrightarrow> \<not> timer_active (timers k j) \<and> timer_period (timers k j) = cfg_period (cfg_timers c ! j) \<and>
       callback (timeouts (tk k) (TimerTimeout j)) = Timer_Timeout_Handler \<and>
       callback_param (timeouts (tk k) (TimerTimeout j)) = j \<and>
       at (timeouts (tk k) (TimerTimeout j)) = cfg_delay (cfg_timers c ! j)"
    "heap (tk k) = []" "last_tick_time (tk k) = 0" "frontier_gap (tk k) = 0" "\<not> handle_tick_in_progress (tk k)"
    "tick_count (tk k) = counter" "last_tick_count (tk k) = 0"
    "heap_pos (timeouts (tk k) r) = HEAP_POS_NONE"
proof -
  obtain ts ms tos where ts: "those (map (task_to_state c) (cfg_tasks c)) = Some ts"
    and ms: "those (map (mutex_to_state c) (cfg_mutexes c)) = Some ms"
    and tos: "those (map (\<lambda>i. timer_timeout (cfg_timers c ! i) i) [0..<length (cfg_timers c)]) = Some tos"
    and k: "k = \<lparr>running_task = None,
                task_ready_queue = bq_init (FixedPrioBitmap t (cfg_num_task_priority_levels c))
                                     (cfg_num_task_priority_levels c),
                priority_boost = False, tk = timekeeping_init counter tos,
                tasks = pool ts task_cb_init,
                semaphores = pool (map semaphore_to_state (cfg_semaphores c)) semaphore_cb_init,
                event_groups = pool (map event_group_to_state (cfg_event_groups c)) event_group_cb_init,
                mutexes = pool ms mutex_cb_init,
                timers = pool (map timer_to_state (cfg_timers c)) timer_cb_init,
                wait_objs = (\<lambda>_. \<lparr>wait_task = 0, wait_in = None, payload = ParkWait\<rparr>),
                cpu_lock = True, task_context = False, scheduler_active = False,
                yield_pending = False\<rparr>"
    using b by (auto simp: build_def bind_eq_Some_conv)
  note lts = those_map_nth[OF ts] and lms = those_map_nth[OF ms] and ltos = those_map_nth[OF tos]
  show "running_task k = None" "\<not> priority_boost k" "\<not> yield_pending k" "\<not> task_context k" "cpu_lock k"
    "task_ready_queue k = bq_init (FixedPrioBitmap t (cfg_num_task_priority_levels c)) (cfg_num_task_priority_levels c)"
    "heap (tk k) = []" "last_tick_time (tk k) = 0" "frontier_gap (tk k) = 0" "\<not> handle_tick_in_progress (tk k)"
    "tick_count (tk k) = counter" "last_tick_count (tk k) = 0"
    by (simp_all add: k timekeeping_init_def)
  show "\<exists>p<cfg_num_task_priority_levels c. attr_priority (tasks k u) = p \<and> base_priority (tasks k u) = p \<and> eff k u = p \<and>
       st (tasks k u) = (if cfg_task_active (cfg_tasks c ! u) then PendingActivation else Dormant) \<and>
       current_wait (tasks k u) = None \<and> last_mutex_held (tasks k u) = None \<and> blocked_in (tasks k u) = None"
    if "u < length (cfg_tasks c)"
  proof -
    have u: "u < length (cfg_tasks c)" by (rule that)
    then have e: "task_to_state c (cfg_tasks c ! u) = Some (ts ! u)" by (rule lts(2))
    have "tasks k u = ts ! u" using u lts(1) by (simp add: k)
    then show ?thesis using task_to_state_Some[OF e] by (simp)
  qed
  show "\<not> u < length (cfg_tasks c) \<Longrightarrow> tasks k u = task_cb_init"
    using lts(1) by (simp add: k pool_def)
  show "owning_task (mutexes k m) = None \<and> order (wait_queue_of k (MutexQ m)) = TaskPriority \<and>
       (\<forall>x. ceiling (mutexes k m) = Some x \<longrightarrow> x < cfg_num_task_priority_levels c)" if "m < length (cfg_mutexes c)"
  proof -
    have m: "m < length (cfg_mutexes c)" by (rule that)
    then have e: "mutex_to_state c (cfg_mutexes c ! m) = Some (ms ! m)" by (rule lms(2))
    have "mutexes k m = ms ! m" using m lms(1) by (simp add: k)
    then show ?thesis using mutex_to_state_Some[OF e]
      by (simp add: wait_queue_of_def del: wait_queue_of_pools)
  qed
  show "waits_of k q = []"
  proof (cases q)
    case (MutexQ m)
    have "waits (mutex_queue (pool ms mutex_cb_init m)) = []"
    proof (cases "m < length ms")
      case True
      then have "mutex_to_state c (cfg_mutexes c ! m) = Some (ms ! m)" using lms by simp
      from mutex_to_state_Some(2)[OF this] show ?thesis using True by (simp del: wait_queue_of_pools)
    next
      case False
      then show ?thesis by (simp add: pool_def mutex_cb_init_def wait_queue_init_def)
    qed
    then show ?thesis using MutexQ by (simp add: k wait_queue_of_def del: wait_queue_of_pools)
  next
    case (SemaphoreQ i)
    then show ?thesis
      by (simp add: k wait_queue_of_def pool_def semaphore_to_state_def semaphore_cb_init_def wait_queue_init_def
          del: wait_queue_of_pools)
  next
    case (EventGroupQ i)
    then show ?thesis
      by (simp add: k wait_queue_of_def pool_def event_group_to_state_def event_group_cb_init_def wait_queue_init_def
          del: wait_queue_of_pools)
  qed
  show "i < length (cfg_semaphores c) \<Longrightarrow> sem_value (semaphores k i) = cfg_initial (cfg_semaphores c ! i) \<and>
       max_value (semaphores k i) = cfg_maximum (cfg_semaphores c ! i)"
    by (simp add: k semaphore_to_state_def)
  have to: "x = pool tos (Timeout_new Timer_Timeout_Handler j) j \<Longrightarrow> j < length (cfg_timers c) \<Longrightarrow>
      callback x = Timer_Timeout_Handler \<and> callback_param x = j \<and> at x = cfg_delay (cfg_timers c ! j) \<and> heap_pos x = HEAP_POS_NONE" for x j
    using ltos(1) ltos(2)[of j] timer_timeout_Some[of "cfg_timers c ! j" j "tos ! j"] by simp
  show "j < length (cfg_timers c) \<Longrightarrow> \<not> timer_active (timers k j) \<and> timer_period (timers k j) = cfg_period (cfg_timers c ! j) \<and>
       callback (timeouts (tk k) (TimerTimeout j)) = Timer_Timeout_Handler \<and>
       callback_param (timeouts (tk k) (TimerTimeout j)) = j \<and>
       at (timeouts (tk k) (TimerTimeout j)) = cfg_delay (cfg_timers c ! j)"
    using to[OF refl, of j] by (simp add: k timer_to_state_def timekeeping_init_def)
  show "heap_pos (timeouts (tk k) r) = HEAP_POS_NONE"
  proof (cases r)
    case (TaskTimeout u)
    then show ?thesis by (simp add: k timekeeping_init_def Timeout_new_def)
  next
    case (TimerTimeout j)
    then show ?thesis using to[OF refl, of j] ltos(1)
      by (cases "j < length (cfg_timers c)") (simp_all add: k timekeeping_init_def pool_def Timeout_new_def)
  qed
qed


lemma fresh_inv:
  assumes c: "cfg_ok c" "cfg_fits c" and b: "build t counter c = Some k" and n: "counter \<le> mc"
  shows "base_inv (cfg_kcfg t mc mt c) k" "mutex_inv (cfg_kcfg t mc mt c) None {} k"
proof -
  let ?K = "cfg_kcfg t mc mt c"
  note F = build_fields[OF b]
  have K: "kcfg_ok ?K" by (rule cfg_kcfg_ok[OF c])
  have d: "\<And>u. u < N_TASKS ?K \<Longrightarrow> \<not> live (st (tasks k u)) \<and> st (tasks k u) \<noteq> Waiting \<and> st (tasks k u) \<noteq> Ready"
    using F(7) by (force simp: live_def)
  have idle: "u < N_TASKS ?K \<Longrightarrow> current_wait (tasks k u) = None \<and> last_mutex_held (tasks k u) = None \<and> blocked_in (tasks k u) = None" for u
    using F(7)[of u] by auto
  have ready: "ready_inv ?K k"
    using bq.init_ok[OF kcfg_levels[OF K]] d by (auto simp: ready_inv_def F(6))
  have "pri_inv ?K k" using F(7,9) by (fastforce simp: pri_inv_def)
  moreover have "run_inv ?K k" using F(1) F(7) by (force simp: run_inv_def)
  moreover have "wait_inv ?K k" using d idle by (auto simp: wait_inv_def task_wait_ok_def)
  moreover have "queue_inv ?K k" using F(10) d by (auto simp: queue_inv_def)
  moreover have "sem_inv ?K k"
    using F(10,11) c(1) by (auto simp: sem_inv_def cfg_ok_def cfg_kcfg_def)
  moreover have "event_inv ?K k" using F(10) by (simp add: event_inv_def)
  moreover have "tk_inv (PORT_TIMER ?K) (tk k)"
    using n by (simp add: tk_inv_def counts_ok_def heap_ok_def frontier_ok_def F(13,15,17-19) cfg_kcfg_def
        positions_ok_def heap_ord_def HEAP_POS_NONE_def usize_max_def usize_bits_def)
  then have "timer_inv ?K k"
    using F(12,13) c(1) by (auto simp: timer_inv_def cfg_ok_def cfg_kcfg_def)
  ultimately show "base_inv ?K k" using ready by (simp add: base_inv_def)
  have "held_by ?K {} k u = {}" for u using F(9) by (auto simp: held_by_def)
  then have "chains_ok ?K None {} k"
    using idle by (auto simp: chains_ok_def chain_head_def intro!: exI[of _ "[]"])
  moreover have "owners_ok ?K k" using F(9) by (simp add: owners_ok_def)
  moreover have "priorities_ok ?K None {} k" using d by (simp add: priorities_ok_def)
  moreover have "mutex_waits_ok ?K k" using idle by (auto simp: mutex_waits_ok_def)
  ultimately show "mutex_inv ?K None {} k" by (simp add: mutex_inv_def)
qed

lemma build_fresh:
  assumes c: "cfg_ok c" "cfg_fits c" and b: "build t counter c = Some k" and n: "counter \<le> mc"
  shows "fresh (cfg_kcfg t mc mt c) k"
proof -
  note F = build_fields[OF b]
  have "u < N_TASKS (cfg_kcfg t mc mt c) \<Longrightarrow> st (tasks k u) \<in> {Dormant, PendingActivation} \<and> eff k u = base_priority (tasks k u)" for u
    using F(7)[of u] by auto
  moreover have "i < N_TIMERS (cfg_kcfg t mc mt c) \<Longrightarrow> \<not> timer_active (timers k i) \<and> period_ok (at_raw (tk k) (TimerTimeout i))" for i
    using F(12)[of i] c(1) by (auto simp: at_raw_def cfg_ok_def cfg_kcfg_def)
  ultimately show ?thesis using fresh_inv[OF assms] F(1-5,13-16) by (simp add: fresh_def)
qed


section \<open>Booting\<close>

lemma fold_option_append:
  "fold_option f (xs @ ys) s = do { s \<leftarrow> fold_option f xs s; fold_option f ys s }"
  by (induction xs arbitrary: s) (simp_all split: bind_split)

lemma fold_option_upt:
  assumes "P 0 s" and "\<And>i s. i < n \<Longrightarrow> P i s \<Longrightarrow> \<exists>s'. f i s = Some s' \<and> P (Suc i) s'"
  shows "\<exists>s'. fold_option f [0..<n] s = Some s' \<and> P n s'"
  using assms(2)
proof (induction n)
  case 0
  then show ?case using assms(1) by simp
next
  case (Suc n)
  obtain s1 where s1: "fold_option f [0..<n] s = Some s1" "P n s1" using Suc by fastforce
  moreover obtain s2 where "f n s1 = Some s2" "P (Suc n) s2" using Suc.prems[OF _ s1(2)] by blast
  ultimately show ?case by (simp add: fold_option_append)
qed

text \<open>After the first \<open>n\<close> tasks have been initialized.\<close>

definition tasks_started :: "kcfg \<Rightarrow> kernel \<Rightarrow> nat \<Rightarrow> kernel \<Rightarrow> bool" where
  "tasks_started K k0 n k \<longleftrightarrow>
     base_inv K k \<and> mutex_inv K None {} k \<and> running_task k = None \<and> \<not> priority_boost k \<and>
     \<not> yield_pending k \<and> \<not> task_context k \<and> cpu_lock k \<and> tk k = tk k0 \<and> timers k = timers k0 \<and>
     (\<forall>t. tasks k t = (tasks k0 t)\<lparr>st := (if t < n \<and> t < N_TASKS K \<and> st (tasks k0 t) = PendingActivation then Ready
                                       else st (tasks k0 t))\<rparr>)"

lemma same_st [simp]: "(c :: task_cb)\<lparr>st := st c\<rparr> = c"
  by simp

lemma init_task_ok:
  assumes K: "kcfg_ok K" and f: "fresh K k0" and i: "i < N_TASKS K" and k: "tasks_started K k0 i k"
  shows "\<exists>k'. init_task K i k = Some k' \<and> tasks_started K k0 (Suc i) k'"
proof (cases "st (tasks k0 i) = PendingActivation")
  case False
  then have "tasks_started K k0 (Suc i) k" using k by (auto simp: tasks_started_def less_Suc_eq)
  then show ?thesis using False k by (simp add: init_task_def tasks_started_def)
next
  case True
  have inv: "base_inv K k" "mutex_inv K None {} k" and t: "tasks k i = tasks k0 i"
    using k by (simp_all add: tasks_started_def)
  have l: "\<not> live (st (tasks k i))" using True t by (simp add: live_def)
  have e: "eff k i = base_priority (tasks k i)" using f i t by (simp add: fresh_def)
  obtain q where q: "make_ready K i k = Some (started i q k)" "base_inv K (started i q k)"
    using make_ready_started[OF K inv(1) i l] by metis
  have "mutex_inv K None {} (started i q k)" by (rule started_mutex_inv[OF inv i l e])
  then have "tasks_started K k0 (Suc i) (started i q k)"
    using k q(2) True i by (auto simp: tasks_started_def less_Suc_eq)
  then show ?thesis using q(1) True t by (simp add: init_task_def)
qed


text \<open>After timekeeping and the first \<open>n\<close> timers have been initialized.\<close>

definition timers_started :: "kcfg \<Rightarrow> nat \<Rightarrow> kernel \<Rightarrow> bool" where
  "timers_started K n k \<longleftrightarrow>
     kinv K k \<and> running_task k = None \<and> \<not> priority_boost k \<and> \<not> yield_pending k \<and> \<not> task_context k \<and> cpu_lock k \<and>
     \<not> handle_tick_in_progress (tk k) \<and> event_time (PORT_TIMER K) (tk k) = 0 \<and>
     (\<forall>i. n \<le> i \<longrightarrow> i < N_TIMERS K \<longrightarrow> \<not> timer_active (timers k i) \<and> period_ok (at_raw (tk k) (TimerTimeout i)))"

lemma init_timekeeping_ok:
  assumes K: "kcfg_ok K" and f: "fresh K k0" and k: "tasks_started K k0 (N_TASKS K) k"
  shows "timers_started K 0 (k\<lparr>tk := init_timekeeping (PORT_TIMER K) (tk k)\<rparr>)"
proof -
  let ?P = "PORT_TIMER K" and ?g = "init_timekeeping (PORT_TIMER K) (tk k)"
  have k': "base_inv K k" "mutex_inv K None {} k" "tk k = tk k0" "timers k = timers k0" "\<not> priority_boost k"
    using k by (simp_all add: tasks_started_def)
  have g0: "heap (tk k0) = []" "last_tick_time (tk k0) = 0" "frontier_gap (tk k0) = 0" "\<not> handle_tick_in_progress (tk k0)"
    using f by (simp_all add: fresh_def)
  have T: "timer_inv K k" using k'(1) by (simp add: base_inv_def)
  have e: "elapsed ?P ?g = 0" "event_time ?P ?g = 0"
    using g0(2) k'(3) by (simp_all add: event_time_def elapsed_def init_timekeeping_def)
  have "tk_inv ?P ?g"
    using T g0 k'(3) by (simp add: timer_inv_def tk_inv_def counts_ok_def heap_ok_def frontier_ok_def
        positions_ok_def heap_ord_def init_timekeeping_def)
  then have t: "timer_inv K (k\<lparr>tk := ?g\<rparr>)"
    by (intro timer_inv_tk_same[OF T]) (simp_all add: init_timekeeping_def)
  have "activated K k" using k f by (auto simp: activated_def tasks_started_def fresh_def)
  then have "kinv K (k\<lparr>tk := ?g\<rparr>)"
    using base_inv_tk[OF k'(1) t] k'(2,5) by (simp add: kinv_def boost_inv_def)
  moreover have "\<not> handle_tick_in_progress ?g" "at_raw ?g = at_raw (tk k0)"
    using g0(4) k'(3) by (simp_all add: init_timekeeping_def at_raw_def fun_eq_iff)
  ultimately show ?thesis using k f e k'(4) by (simp add: timers_started_def tasks_started_def fresh_def)
qed

lemma init_timer_ok:
  assumes K: "kcfg_ok K" and i: "i < N_TIMERS K" and k: "timers_started K i k"
  shows "\<exists>k'. init_timer K i k = Some k' \<and> timers_started K (Suc i) k'"
proof -
  let ?P = "PORT_TIMER K" and ?on = "upd_timer i (\<lambda>c. c\<lparr>timer_active := True\<rparr>)" and ?r = "TimerTimeout i"
  have k': "kinv K k" "\<not> timer_active (timers k i)" "period_ok (at_raw (tk k) ?r)" "event_time ?P (tk k) = 0"
    "\<not> handle_tick_in_progress (tk k)"
    using k i by (simp_all add: timers_started_def)
  note T = kinvD(12)[OF k'(1)]
  have on: "kinv K (?on k)" using upd_timer_ok(1)[OF k'(1) timer_activate_inv[OF T]] .
  have started: "timers_started K (Suc i) (?on k)"
    using k on by (auto simp: timers_started_def)
  show ?thesis
  proof (cases "init_active (timers k i) \<and> at_raw (tk k) ?r \<noteq> BAD_DURATION32")
    case False
    have "timers_started K (Suc i) k" using k by (simp add: timers_started_def)
    then show ?thesis using False started by (auto simp: init_timer_def)
  next
    case True
    have tki: "tk_inv ?P (tk k)" using T by (simp add: timer_inv_def)
    have r: "?r \<notin> set (heap (tk k))" using T k'(2) by (auto simp: timer_inv_def linked_ok_def)
    have room: "length (heap (tk k)) < HEAP_CAPACITY ?P"
      by (rule heap_has_room[OF K T _ r]) (use i in \<open>simp add: timeout_objects_def\<close>)
    have cap: "HEAP_CAPACITY ?P < HEAP_POS_NONE" using K by (simp add: kcfg_ok_def)
    have a: "unat (at_raw (tk k) ?r) \<le> DURATION_MAX" using k'(3) True by (simp add: period_ok_def)
    have "unat (at_raw (tk k) ?r + 0x60000000) = unat (at_raw (tk k) ?r) + 0x60000000"
      using a unat_add_lem[of "at_raw (tk k) ?r" "0x60000000"] by (simp add: DURATION_MAX_def)
    then have "distance (tk k) (event_time ?P (tk k)) ?r \<le> HEADROOM + DURATION_MAX + present_gap ?P (tk k)"
      using a k'(4) by (simp add: distance_def critical_point_diff at_raw_def HEADROOM_def)
    then obtain g where g: "insert_timeout ?P (tk k) ?r = Some g" "tk_inv ?P g" "tk_same (tk k) g"
      "same_timeouts (timeouts (tk k)) (timeouts g)" "mset (heap g) = add_mset ?r (mset (heap (tk k)))"
      using insert_timeout_ok[OF tki r room cap] by blast
    have sub: "set (heap g) = insert ?r (set (heap (tk k)))"
      using g(5) by (metis set_mset_add_mset_insert set_mset_mset)
    have "timer_inv K ((?on k)\<lparr>tk := g\<rparr>)"
      by (rule timer_inv_tkI[OF timer_activate_inv[OF T] g(2)])
        (use i sub same_timeouts_callbacks[OF g(4)] in \<open>auto simp: linked_ok_def\<close>)
    moreover have same: "tk_same (tk (?on k)) g" using g(3) by simp
    ultimately have inv: "kinv K ((?on k)\<lparr>tk := g\<rparr>)" using tk_same_ok(1)[OF on] by blast
    have "at_raw g r = at_raw (tk k) r" for r
      using same_timeouts_at[OF g(4)] by (simp add: at_raw_def)
    then have "timers_started K (Suc i) ((?on k)\<lparr>tk := g\<rparr>)"
      using started inv g(3) tk_same_event_time[OF g(3), of ?P]
      by (simp add: timers_started_def) (simp add: tk_same_def)
    moreover have "init_timer K i k = Some ((?on k)\<lparr>tk := g\<rparr>)"
      using True g(1) by (simp add: init_timer_def on_tk_def upd_timer_def)
    ultimately show ?thesis by blast
  qed
qed

text \<open>Booting succeeds and establishes the invariant of the kernel.\<close>

lemma boot_ok:
  assumes K: "kcfg_ok K" and f: "fresh K k0"
  obtains k where "boot K k0 = Some k" "timers_started K (N_TIMERS K) k"
proof -
  have "tasks_started K k0 0 k0" using f by (simp add: tasks_started_def fresh_def)
  then obtain k1 where k1: "fold_option (init_task K) [0..<N_TASKS K] k0 = Some k1" "tasks_started K k0 (N_TASKS K) k1"
    using fold_option_upt[of "tasks_started K k0" k0 "N_TASKS K" "init_task K"] init_task_ok[OF K f] by blast
  let ?k = "k1\<lparr>tk := init_timekeeping (PORT_TIMER K) (tk k1)\<rparr>"
  obtain k2 where "fold_option (init_timer K) [0..<N_TIMERS K] ?k = Some k2" "timers_started K (N_TIMERS K) k2"
    using fold_option_upt[of "timers_started K" ?k "N_TIMERS K" "init_timer K"]
      init_timekeeping_ok[OF K f k1(2)] init_timer_ok[OF K] by blast
  then show thesis using k1(1) by (intro that[of k2]) (simp_all add: boot_def Let_def)
qed

text \<open>The first dispatch starts the system.\<close>

lemma dispatch_first_task_ok:
  assumes K: "kcfg_ok K" and k: "timers_started K n k"
  obtains k' where "dispatch_first_task K k = Some k'" "sys_inv K k'" "scheduled k'" "sched_equiv k k'"
proof -
  have k': "kinv K (k\<lparr>scheduler_active := True\<rparr>)" "\<not> priority_boost (k\<lparr>scheduler_active := True\<rparr>)"
    "\<not> handle_tick_in_progress (tk k)"
    using k by (simp_all add: timers_started_def)
  obtain k2 where k2: "dispatch_locked K (k\<lparr>scheduler_active := True\<rparr>) = Some k2" "kinv K k2" "preempt_inv k2"
    "task_context k2 \<longleftrightarrow> running_task k2 \<noteq> None" "running_task k2 \<noteq> None \<Longrightarrow> running_task_is_running k2"
    "tk k2 = tk (k\<lparr>scheduler_active := True\<rparr>)" "scheduled k2" "sched_equiv (k\<lparr>scheduler_active := True\<rparr>) k2"
    using dispatch_locked_ok[OF K k'(1)] k'(2) by metis
  have "sched_equiv k k2" using k2(8) by (simp add: sched_equiv_def)
  then show thesis using k2 k'(3) by (intro that[of k2]) (simp_all add: dispatch_first_task_def sys_inv_def)
qed

end
