(* ===== verification/Runs.thy ===== *)
theory Runs
  imports Kernel_Boot
begin

text \<open>
  The runs of a configured system: the operations of the builder in sequence, booting, and the
  events that follow.
\<close>

section \<open>Configured systems\<close>

datatype cfg_call =
    NumTaskPriorityLevels nat | TaskDefine nat bool | EventGroupDefine u32 queue_order
  | MutexDefine mutex_protocol | SemaphoreDefine nat nat queue_order
  | TimerDefine "duration option" "duration option" bool

fun configure_one :: "cfg_call \<Rightarrow> cfg_builder \<Rightarrow> cfg_builder option" where
  "configure_one (NumTaskPriorityLevels n) c = num_task_priority_levels n c"
| "configure_one (TaskDefine p a) c = Some (snd (task_define p a c))"
| "configure_one (EventGroupDefine b ord) c = Some (snd (event_group_define b ord c))"
| "configure_one (MutexDefine p) c = Some (snd (mutex_define p c))"
| "configure_one (SemaphoreDefine i m ord) c = map_option snd (semaphore_define i m ord c)"
| "configure_one (TimerDefine p d a) c = map_option snd (timer_define p d a c)"

definition configure :: "cfg_call list \<Rightarrow> cfg_builder option" where
  "configure cs = fold_option configure_one cs cfg_new"

lemma configure_one_ok: "configure_one x c = Some c' \<Longrightarrow> cfg_ok c \<Longrightarrow> cfg_ok c'"
  by (cases x) (auto intro: cfg_ok_ops(2-6) cfg_ok_timer)

lemma fold_configure_ok: "fold_option configure_one cs c = Some c' \<Longrightarrow> cfg_ok c \<Longrightarrow> cfg_ok c'"
  by (induction cs arbitrary: c) (auto simp: bind_eq_Some_conv dest: configure_one_ok)

lemma configure_ok: "configure cs = Some c \<Longrightarrow> cfg_ok c"
  unfolding configure_def by (rule fold_configure_ok[OF _ cfg_ok_ops(1)])

definition start_system :: "target \<Rightarrow> u32 \<Rightarrow> u32 \<Rightarrow> u32 \<Rightarrow> cfg_builder \<Rightarrow> kernel option" where
  "start_system t mc mt counter c =
     do { k \<leftarrow> build t counter c;
          k \<leftarrow> boot (cfg_kcfg t mc mt c) k;
          dispatch_first_task (cfg_kcfg t mc mt c) k }"

lemma start_system_ok:
  assumes c: "cfg_ok c" "cfg_fits c" "cfg_priorities_ok c" and n: "counter \<le> mc"
  obtains k where "start_system t mc mt counter c = Some k" "sys_inv (cfg_kcfg t mc mt c) k" "scheduled k"
proof -
  let ?K = "cfg_kcfg t mc mt c"
  have K: "kcfg_ok ?K" by (rule cfg_kcfg_ok[OF c(1,2)])
  obtain k0 where k0: "build t counter c = Some k0" using build_succeeds[OF c(3)] by blast
  obtain k1 where k1: "boot ?K k0 = Some k1" "timers_started ?K (N_TIMERS ?K) k1"
    by (rule boot_ok[OF K build_fresh[OF c(1,2) k0 n]])
  obtain k2 where "dispatch_first_task ?K k1 = Some k2" "sys_inv ?K k2" "scheduled k2"
    by (rule dispatch_first_task_ok[OF K k1(2)])
  then show thesis using k0 k1 by (intro that[of k2]) (simp_all add: start_system_def)
qed

lemma start_system_inv:
  assumes c: "cfg_ok c" "cfg_fits c" and s: "start_system t mc mt counter c = Some k" and n: "counter \<le> mc"
  shows "sys_inv (cfg_kcfg t mc mt c) k"
proof -
  let ?K = "cfg_kcfg t mc mt c"
  have K: "kcfg_ok ?K" by (rule cfg_kcfg_ok[OF c])
  obtain k0 k1 where k0: "build t counter c = Some k0" "boot ?K k0 = Some k1" "dispatch_first_task ?K k1 = Some k"
    using s by (auto simp: start_system_def bind_eq_Some_conv)
  have "timers_started ?K (N_TIMERS ?K) k1"
    by (rule boot_ok[OF K build_fresh[OF c k0(1) n]]) (use k0(2) in simp)
  then show ?thesis by (rule dispatch_first_task_ok[OF K]) (use k0(3) in simp)
qed

section \<open>Runs\<close>

definition runs :: "kcfg \<Rightarrow> timer_callbacks \<Rightarrow> kernel \<Rightarrow> bool" where
  "runs K cb k \<longleftrightarrow>
     (\<exists>t mc mt counter cs c k0. configure cs = Some c \<and> cfg_fits c \<and> counter \<le> mc \<and>
        K = cfg_kcfg t mc mt c \<and> callbacks_ok K cb \<and> start_system t mc mt counter c = Some k0 \<and>
        reachable K cb k0 k)"

lemma runs_inv:
  assumes "runs K cb k"
  shows "kcfg_ok K" "callbacks_ok K cb" "sys_inv K k" "kinv K k"
proof -
  obtain t mc mt counter cs c k0 where c: "configure cs = Some c" "cfg_fits c" "counter \<le> mc"
    "K = cfg_kcfg t mc mt c" "callbacks_ok K cb" "start_system t mc mt counter c = Some k0" "reachable K cb k0 k"
    using assms by (auto simp: runs_def)
  note ok = configure_ok[OF c(1)]
  show K: "kcfg_ok K" "callbacks_ok K cb" using cfg_kcfg_ok[OF ok c(2)] c(4,5) by simp_all
  have "sys_inv K k0" using start_system_inv[OF ok c(2,6,3)] c(4) by simp
  then show "sys_inv K k" by (rule reachable_inv[OF K _ c(7)])
  then show "kinv K k" by (simp add: sys_inv_def)
qed

lemma runs_step: "runs K cb k \<Longrightarrow> step K cb k k' \<Longrightarrow> runs K cb k'"
  unfolding runs_def by (blast intro: reachable.next_state)

text \<open>A sequence of events, each of which must be enabled and must come to an end.\<close>

fun run_events :: "kcfg \<Rightarrow> timer_callbacks \<Rightarrow> event list \<Rightarrow> kernel \<Rightarrow> kernel option" where
  "run_events K cb [] k = Some k"
| "run_events K cb (e # es) k =
     (if enabled K e k then
        (case perform K cb e k of Some (Some k') \<Rightarrow> run_events K cb es k' | _ \<Rightarrow> None)
      else None)"

lemma run_events_runs: "run_events K cb es k = Some k' \<Longrightarrow> runs K cb k \<Longrightarrow> runs K cb k'"
proof (induction es arbitrary: k)
  case (Cons e es)
  then obtain k1 where "enabled K e k" "perform K cb e k = Some (Some k1)" "run_events K cb es k1 = Some k'"
    by (auto split: if_splits option.splits)
  then show ?case using Cons by (blast intro: runs_step step.step)
qed simp

text \<open>Task \<open>t\<close> is executing outside the kernel and may make a system call.\<close>

definition executing :: "kcfg \<Rightarrow> timer_callbacks \<Rightarrow> kernel \<Rightarrow> nat \<Rightarrow> bool" where
  "executing K cb k t \<longleftrightarrow>
     runs K cb k \<and> task_context k \<and> \<not> cpu_lock k \<and> \<not> yield_pending k \<and>
     running_task k = Some t \<and> blocked_in (tasks k t) = None"

text \<open>The same state inside the CPU Lock critical section of the call.\<close>

lemma executingD:
  assumes "executing K cb k t"
  shows "kcfg_ok K" "kinv K k" "kinv K (k\<lparr>cpu_lock := True\<rparr>)" "t < N_TASKS K" "st (tasks k t) = Running"
    "caller_ok k" "running_task k = Some t" "blocked_in (tasks k t) = None" "task_context k" "\<not> cpu_lock k"
proof -
  have r: "runs K cb k" and e: "task_context k" "\<not> cpu_lock k" "\<not> yield_pending k" "running_task k = Some t"
    "blocked_in (tasks k t) = None"
    using assms by (simp_all add: executing_def)
  show "kcfg_ok K" "kinv K k" "kinv K (k\<lparr>cpu_lock := True\<rparr>)" using runs_inv[OF r] by simp_all
  show "task_context k" "\<not> cpu_lock k" "running_task k = Some t" "blocked_in (tasks k t) = None" by fact+
  show s: "st (tasks k t) = Running"
    using runs_inv(3)[OF r] e by (simp add: sys_inv_def running_task_is_running_def)
  then show "caller_ok k" using e by (simp add: caller_ok_def)
  show "t < N_TASKS K" using run_inv_state[OF kinvD(7)[OF runs_inv(4)[OF r]]] e by blast
qed

lemma with_cpu_lock_Some:
  "\<not> cpu_lock k \<Longrightarrow> body (k\<lparr>cpu_lock := True\<rparr>) = Some (x, k') \<Longrightarrow> with_cpu_lock body k = Some (x, leave_cpu_lock k')"
  by (simp add: with_cpu_lock_def lock_cpu_def)

lemma with_cpu_lock_same:
  "\<not> cpu_lock k \<Longrightarrow> body (k\<lparr>cpu_lock := True\<rparr>) = Some (x, k\<lparr>cpu_lock := True\<rparr>) \<Longrightarrow> with_cpu_lock body k = Some (x, k)"
  by (cases k) (simp add: with_cpu_lock_def lock_cpu_def leave_cpu_lock_def)

lemma pool_index_Suc:
  "i < N_TASKS K \<Longrightarrow> task_index K (Suc i) = Some i"
  "i < N_SEMAPHORES K \<Longrightarrow> semaphore_index K (Suc i) = Some i"
  "i < N_EVENT_GROUPS K \<Longrightarrow> event_group_index K (Suc i) = Some i"
  "i < N_MUTEXES K \<Longrightarrow> mutex_index K (Suc i) = Some i"
  "i < N_TIMERS K \<Longrightarrow> timer_index K (Suc i) = Some i"
  by (simp_all add: task_index_def semaphore_index_def event_group_index_def mutex_index_def timer_index_def
      pool_index_def)

end
