(* ===== verification/Samples.thy ===== *)
theory Samples
  imports Runs "HOL-Library.Code_Target_Nat"
begin

text \<open>
  A small system, and runs of it that the code equations evaluate: they make the properties of the
  reachable states concrete.
\<close>

section \<open>Evaluation\<close>

lemma running_code [code]:
  "running_unblocked k \<longleftrightarrow> (case running_task k of None \<Rightarrow> False | Some t \<Rightarrow> blocked_in (tasks k t) = None)"
  "running_blocked k \<longleftrightarrow> (case running_task k of None \<Rightarrow> False | Some t \<Rightarrow> blocked_in (tasks k t) \<noteq> None)"
  by (auto simp: running_unblocked_def running_blocked_def split: option.split)

lemma cfg_priorities_code [code]:
  "cfg_priorities_ok c \<longleftrightarrow>
     (\<forall>t\<in>set (cfg_tasks c). cfg_task_priority t < cfg_num_task_priority_levels c) \<and>
     (\<forall>p\<in>set (cfg_mutexes c). case p of NoProtocol \<Rightarrow> True | Ceiling x \<Rightarrow> x < cfg_num_task_priority_levels c)"
  by (auto simp: cfg_priorities_ok_def split: mutex_protocol.split)

section \<open>A sample system\<close>

text \<open>
  Three tasks, of which the second is active at startup, a counting semaphore, an event group, two
  mutexes and two timers.
\<close>

definition sample_calls :: "cfg_call list" where
  "sample_calls = [TaskDefine 1 False, TaskDefine 2 True, TaskDefine 3 False, SemaphoreDefine 0 4 TaskPriority,
     EventGroupDefine 0 Fifo, MutexDefine NoProtocol, MutexDefine (Ceiling 1),
     TimerDefine (Some (Duration 1000)) (Some (Duration 500)) True, TimerDefine None (Some (Duration 200)) False]"

definition sample_cfg :: cfg_builder where
  "sample_cfg = the (configure sample_calls)"

definition sample_target :: target where
  "sample_target = \<lparr>target_arch = Arm, feat_b = False, feat_experimental_b = False, feat_v6t2 = True,
     feat_v5te = True, feat_thumb_mode = True, feat_m = False, feat_hwmult32 = False\<rparr>"

definition sample_K :: kcfg where
  "sample_K = cfg_kcfg sample_target 0xffffffff 0x80000000 sample_cfg"

definition no_callbacks :: timer_callbacks where
  "no_callbacks = (\<lambda>_ _. [])"

definition sample_run :: "event list \<Rightarrow> kernel option" where
  "sample_run es =
     do { k \<leftarrow> start_system sample_target 0xffffffff 0x80000000 0 sample_cfg;
          run_events sample_K no_callbacks es k }"

definition sample :: "event list \<Rightarrow> kernel" where
  "sample es = the (sample_run es)"

lemma configure_sample: "configure sample_calls = Some sample_cfg"
  unfolding sample_cfg_def by code_simp

lemma no_callbacks_ok: "callbacks_ok K no_callbacks"
  by (simp add: callbacks_ok_def no_callbacks_def)

lemma sample_fits: "cfg_fits sample_cfg" "cfg_priorities_ok sample_cfg"
  by code_simp+

lemma sample_runs:
  assumes "sample_run es \<noteq> None"
  shows "runs sample_K no_callbacks (sample es)"
proof -
  obtain k0 k where k: "start_system sample_target 0xffffffff 0x80000000 0 sample_cfg = Some k0"
    "run_events sample_K no_callbacks es k0 = Some k" and e: "sample es = k"
    using assms by (auto simp: sample_def sample_run_def bind_eq_Some_conv)
  have "runs sample_K no_callbacks k0"
    unfolding runs_def using configure_sample sample_fits(1) k(1) no_callbacks_ok
    by (intro exI[of _ sample_target] exI[of _ "0xffffffff"] exI[of _ "0x80000000"] exI[of _ 0]
        exI[of _ sample_calls] exI[of _ sample_cfg] exI[of _ k0]) (simp add: sample_K_def reachable.start)
  then show ?thesis unfolding e by (rule run_events_runs[OF k(2)])
qed

text \<open>What can be read off the state at the end of a run.\<close>

definition observe :: "event list \<Rightarrow> (kernel \<Rightarrow> 'a) \<Rightarrow> 'a option" where
  "observe es f = map_option f (sample_run es)"

lemma observe_runs: "observe es f = Some v \<Longrightarrow> runs sample_K no_callbacks (sample es)"
  by (rule sample_runs) (auto simp: observe_def)

lemma observe_value: "observe es f = Some v \<Longrightarrow> f (sample es) = v"
  by (auto simp: observe_def sample_def)

section \<open>Sample runs\<close>

text \<open>The second task has activated the first, of a higher priority, which waits for the semaphore.\<close>

definition sample_blocked :: "event list" where
  "sample_blocked = [TaskCall (TaskActivate 1), Dispatch, TaskCall (SemaphoreWaitOneTimeout 1 (Duration 300)), Dispatch]"

lemma sample_blocked_observe:
  "observe sample_blocked (\<lambda>k. (cpu_lock k, yield_pending k, priority_boost k, running_task k,
      st (tasks k 0), wait_in (wait_objs k 0), enabled sample_K (TaskCall (SemaphoreSignal 1 2)) k)) =
   Some (False, False, False, Some 1, Waiting, Some (SemaphoreQ 0), True)"
  by code_simp

lemmas sample_blocked_runs = observe_runs[OF sample_blocked_observe]
lemmas sample_blocked_facts = observe_value[OF sample_blocked_observe, simplified]

text \<open>Two tasks wait for the semaphore; then the third one runs.\<close>

definition sample_waiting :: "event list" where
  "sample_waiting = [TaskCall (TaskActivate 3), TaskCall (TaskActivate 1), Dispatch, TaskCall (SemaphoreWaitOne 1), Dispatch,
     TaskCall (SemaphoreWaitOneTimeout 1 (Duration 300)), Dispatch]"

lemma sample_waiting_observe:
  "observe sample_waiting (\<lambda>k. (cpu_lock k, order (wait_queue_of k (SemaphoreQ 0)), waits_of k (SemaphoreQ 0),
      st (tasks k 0), wait_in (wait_objs k 0), sem_value (semaphores k 0), max_value (semaphores k 0))) =
   Some (False, TaskPriority, [0, 1], Waiting, Some (SemaphoreQ 0), 0, 4)"
  by code_simp

lemmas sample_waiting_runs = observe_runs[OF sample_waiting_observe]
lemmas sample_waiting_facts = observe_value[OF sample_waiting_observe, simplified]

text \<open>A task waits for two event bits, the second task runs.\<close>

definition sample_events :: "event list" where
  "sample_events = [TaskCall (TaskActivate 1), Dispatch,
     TaskCall (EventGroupWait 1 3 \<lparr>flag_ALL = True, flag_CLEAR = True\<rparr>), Dispatch]"

lemma sample_events_observe:
  "observe sample_events (\<lambda>k. (cpu_lock k, group_bits (event_groups k 0), waits_of k (EventGroupQ 0),
      payload (wait_objs k 0), st (tasks k 0), wait_in (wait_objs k 0))) =
   Some (False, 0, [0], EventGroupBits 3 \<lparr>flag_ALL = True, flag_CLEAR = True\<rparr> 0, Waiting, Some (EventGroupQ 0))"
  by code_simp

lemmas sample_events_runs = observe_runs[OF sample_events_observe]
lemmas sample_events_facts = observe_value[OF sample_events_observe, simplified]

text \<open>The second task holds the first mutex, for which the first task waits.\<close>

definition sample_locked :: "event list" where
  "sample_locked = [TaskCall (MutexLock 1), TaskCall (TaskActivate 1), Dispatch,
     TaskCall (MutexLock 1), Dispatch]"

lemma sample_locked_observe:
  "observe sample_locked (\<lambda>k. ((task_context k, cpu_lock k, yield_pending k, running_task k, blocked_in (tasks k 1), priority_boost k),
      (owning_task (mutexes k 0), last_mutex_held (tasks k 1), waits_of k (MutexQ 0), ceiling (mutexes k 0)),
      (owning_task (mutexes k 1), ceiling (mutexes k 1), inconsistent (mutexes k 1)),
      st (tasks k 0), st (tasks k 1), eff k 1, base_priority (tasks k 1))) =
   Some ((True, False, False, Some 1, None, False), (Some 1, Some 0, [0], None), (None, Some 1, False), Waiting, Running, 2, 2)"
  by code_simp

lemmas sample_locked_runs = observe_runs[OF sample_locked_observe]
lemmas sample_locked_facts = observe_value[OF sample_locked_observe, simplified]

text \<open>The second task holds the mutex with the ceiling 1.\<close>

definition sample_ceiling :: "event list" where
  "sample_ceiling = [TaskCall (MutexLock 2)]"

lemma sample_ceiling_observe:
  "observe sample_ceiling (\<lambda>k. ((task_context k, cpu_lock k, yield_pending k, running_task k, blocked_in (tasks k 1)),
      owning_task (mutexes k 1), ceiling (mutexes k 1), st (tasks k 1), eff k 1, base_priority (tasks k 1))) =
   Some ((True, False, False, Some 1, None), Some 1, Some 1, Running, 1, 2)"
  by code_simp

lemmas sample_ceiling_runs = observe_runs[OF sample_ceiling_observe]
lemmas sample_ceiling_facts = observe_value[OF sample_ceiling_observe, simplified]

text \<open>The second task has unlocked the mutex, and the first one is about to return from \<^verbatim>\<open>lock\<close>.\<close>

definition sample_handed :: "event list" where
  "sample_handed = sample_locked @ [TaskCall (MutexUnlock 1), Dispatch]"

lemma sample_handed_observe:
  "observe sample_handed (\<lambda>k. (running_task k, yield_pending k, cpu_lock k, blocked_in (tasks k 0), wait_result (tasks k 0),
      inconsistent (mutexes k 0))) =
   Some (Some 0, False, False, Some (MutexCall 0, False), WaitOk, False)"
  by code_simp

lemmas sample_handed_runs = observe_runs[OF sample_handed_observe]
lemmas sample_handed_facts = observe_value[OF sample_handed_observe, simplified]

text \<open>The first task is parked with a timeout, the third one is Dormant and the second one runs.\<close>

definition sample_parked :: "event list" where
  "sample_parked = [TaskCall (TaskActivate 1), Dispatch, TaskCall (ParkTimeout (Duration 900)), Dispatch]"

lemma sample_parked_observe:
  "observe sample_parked (\<lambda>k. ((task_context k, cpu_lock k, yield_pending k, running_task k, blocked_in (tasks k 1)),
      (st (tasks k 0), payload (wait_objs k 0), park_token (tasks k 0)), (st (tasks k 1), park_token (tasks k 1)),
      (st (tasks k 2), attr_priority (tasks k 2)), base_priority (tasks k 0))) =
   Some ((True, False, False, Some 1, None), (Waiting, ParkWait, False), (Running, False), (Dormant, 3), 1)"
  by code_simp

lemmas sample_parked_runs = observe_runs[OF sample_parked_observe]
lemmas sample_parked_facts = observe_value[OF sample_parked_observe, simplified]

text \<open>Right after the start.\<close>

lemma sample_start_observe:
  "observe [] (\<lambda>k. ((task_context k, cpu_lock k, enabled sample_K (Elapse 300) k,
        adjust_allowed (PORT_TIMER sample_K) (tk k) (Duration 1000), event_time (PORT_TIMER sample_K) (tk k)),
      (timer_active (timers k 1), timer_startable sample_K k 1, at_raw (tk k) (TimerTimeout 1)),
      (set (heap (tk k)) = {TimerTimeout 0}, at (timeouts (tk k) (TimerTimeout 0)),
        HEADROOM \<le> distance (tk k) 0 (TimerTimeout 0)))) =
   Some ((True, False, True, True, 0), (False, True, 200), (True, 500, True))"
  by code_simp

lemmas sample_start_runs = observe_runs[OF sample_start_observe]
lemmas sample_start_facts = observe_value[OF sample_start_observe, simplified]

text \<open>The first timer, with the delay 500 and the period 1000, is overdue by 200.\<close>

definition sample_overdue :: "event list" where
  "sample_overdue = [Elapse 700, EnterInterrupt]"

lemma sample_overdue_observe:
  "observe sample_overdue (\<lambda>k. ((task_context k, cpu_lock k, running_task k, event_time (PORT_TIMER sample_K) (tk k)),
      (timer_period (timers k 0), timer_period (timers k 1), at (timeouts (tk k) (TimerTimeout 0))),
      (\<Sum>x\<in>set (heap (tk k)). Suc HEADROOM - distance (tk k) 700 x) < 202,
      map_option fst (take_expired (tk k) 700), map_option fst (handle_tick sample_K no_callbacks 3 k))) =
   Some ((False, False, Some 1, 700), (1000, BAD_DURATION32, 500), True, Some (Some (TimerTimeout 0)), Some True)"
  by code_simp

lemmas sample_overdue_runs = observe_runs[OF sample_overdue_observe]
lemmas sample_overdue_facts = observe_value[OF sample_overdue_observe, simplified]

lemma sample_K_simps [simp]:
  "N_TASKS sample_K = 3" "N_SEMAPHORES sample_K = 1" "N_EVENT_GROUPS sample_K = 1" "N_MUTEXES sample_K = 2"
  "N_TIMERS sample_K = 2" "PRIORITY_LEVELS sample_K = 4"
  by code_simp+

lemma sample_locked_executing: "executing sample_K no_callbacks (sample sample_locked) 1"
  using sample_locked_runs sample_locked_facts by (simp add: executing_def)

end
