(* ===== verification/Error_Properties.thy ===== *)
theory Error_Properties
  imports Error_Types Samples
begin

text \<open>
  The errors of the system calls: for every call the conditions that the documentation
  (\<^verbatim>\<open>r3_core/src/kernel/error.rs\<close> and the methods of \<^verbatim>\<open>r3_core/src/kernel\<close>) gives for its error codes,
  as conditions on the state before the call; a call fails exactly if one of them holds, with a
  code whose condition holds, and without an effect.

  At two variants the documentation says less than the code does, and the condition here is the one
  that the code implements: \<^verbatim>\<open>SetTaskPriorityError::BadParam\<close> concerns the ceiling of the mutex that the
  task waits for, too, and \<^verbatim>\<open>SignalSemaphoreError::QueueOverflow\<close> is about the value that the semaphore
  would have afterwards.  A parked task, which has used up its token, never overflows.
\<close>

section \<open>The documented conditions\<close>

definition errors_when :: "(result_code \<times> bool) list \<Rightarrow> result_code set" where
  "errors_when cs = set (map fst (filter snd cs))"

text \<open>\<^verbatim>\<open>r3_core/src/lib.md\<close>: a waitable context is a task context without Priority Boost.\<close>

definition waitable :: "kernel \<Rightarrow> bool" where
  "waitable k \<longleftrightarrow> task_context k \<and> \<not> priority_boost k"

definition negative :: "duration \<Rightarrow> bool" where
  "negative d \<longleftrightarrow> sint (micros d) < 0"

definition owned_by_caller :: "kernel \<Rightarrow> nat \<Rightarrow> bool" where
  "owned_by_caller k m \<longleftrightarrow> running_task k \<noteq> None \<and> owning_task (mutexes k m) = running_task k"

definition above_ceiling :: "kernel \<Rightarrow> nat \<Rightarrow> bool" where
  "above_ceiling k m \<longleftrightarrow>
     (case (running_task k, ceiling (mutexes k m)) of
        (Some t, Some c) \<Rightarrow> base_priority (tasks k t) < c
      | _ \<Rightarrow> False)"

definition abandoned :: "kernel \<Rightarrow> nat \<Rightarrow> bool" where
  "abandoned k m \<longleftrightarrow> owning_task (mutexes k m) = None \<and> inconsistent (mutexes k m)"

definition parked :: "kernel \<Rightarrow> nat \<Rightarrow> bool" where
  "parked k t \<longleftrightarrow> st (tasks k t) = Waiting \<and> payload (wait_objs k t) = ParkWait"

text \<open>
  The error codes whose condition holds, for a call in a given state.  There is no order between
  them: a call for which several hold may return any one.  The errors \<^verbatim>\<open>Interrupted\<close> and, of a call
  that blocks, \<^verbatim>\<open>Timeout\<close> are those of the return from the wait.
\<close>

fun documented_errors :: "kcfg \<Rightarrow> kernel \<Rightarrow> call \<Rightarrow> result_code set" where
  "documented_errors K k AcquireCpuLock = errors_when [(BadContext, cpu_lock k)]"
| "documented_errors K k ReleaseCpuLock = errors_when [(BadContext, \<not> cpu_lock k)]"
| "documented_errors K k BoostPriority =
     errors_when [(BadContext, priority_boost k \<or> \<not> task_context k \<or> cpu_lock k)]"
| "documented_errors K k UnboostPriority =
     errors_when [(BadContext, \<not> priority_boost k \<or> \<not> task_context k \<or> cpu_lock k)]"
| "documented_errors K k TaskCurrent = errors_when [(BadContext, cpu_lock k \<or> \<not> task_context k)]"
| "documented_errors K k (TaskActivate i) =
     errors_when [(BadContext, cpu_lock k), (QueueOverflow, st (tasks k (i - 1)) \<noteq> Dormant)]"
| "documented_errors K k (TaskInterrupt i) =
     errors_when [(BadContext, cpu_lock k), (BadObjectState, st (tasks k (i - 1)) \<noteq> Waiting)]"
| "documented_errors K k (TaskUnparkExact i) =
     errors_when [(BadContext, cpu_lock k), (BadObjectState, st (tasks k (i - 1)) = Dormant),
       (QueueOverflow, park_token (tasks k (i - 1)) \<and> \<not> parked k (i - 1))]"
| "documented_errors K k (TaskSetPriority i p) =
     errors_when [(BadContext, cpu_lock k), (BadObjectState, st (tasks k (i - 1)) = Dormant),
       (BadParam, PRIORITY_LEVELS K \<le> p \<or> \<not> base_priority_allowed K k (i - 1) p)]"
| "documented_errors K k (TaskGetPriority i) =
     errors_when [(BadContext, cpu_lock k), (BadObjectState, st (tasks k (i - 1)) = Dormant)]"
| "documented_errors K k (TaskGetEffectivePriority i) =
     errors_when [(BadContext, cpu_lock k), (BadObjectState, st (tasks k (i - 1)) = Dormant)]"
| "documented_errors K k Park = errors_when [(BadContext, cpu_lock k \<or> \<not> waitable k)]"
| "documented_errors K k (ParkTimeout d) =
     errors_when [(BadContext, cpu_lock k \<or> \<not> waitable k), (BadParam, negative d)]"
| "documented_errors K k (Sleep d) =
     errors_when [(BadContext, cpu_lock k \<or> \<not> waitable k), (BadParam, negative d)]"
| "documented_errors K k (SemaphoreDrain i) = errors_when [(BadContext, cpu_lock k)]"
| "documented_errors K k (SemaphoreGet i) = errors_when [(BadContext, cpu_lock k)]"
| "documented_errors K k (SemaphoreSignal i n) =
     errors_when [(BadContext, cpu_lock k),
       (QueueOverflow, max_value (semaphores k (i - 1)) < sem_value (semaphores k (i - 1)) + n)]"
| "documented_errors K k (SemaphoreSignalOne i) =
     errors_when [(BadContext, cpu_lock k),
       (QueueOverflow, max_value (semaphores k (i - 1)) \<le> sem_value (semaphores k (i - 1)))]"
| "documented_errors K k (SemaphoreWaitOne i) = errors_when [(BadContext, cpu_lock k \<or> \<not> waitable k)]"
| "documented_errors K k (SemaphoreWaitOneTimeout i d) =
     errors_when [(BadContext, cpu_lock k \<or> \<not> waitable k), (BadParam, negative d)]"
| "documented_errors K k (SemaphorePollOne i) =
     errors_when [(BadContext, cpu_lock k), (Timeout, sem_value (semaphores k (i - 1)) = 0)]"
| "documented_errors K k (EventGroupSet i b) = errors_when [(BadContext, cpu_lock k)]"
| "documented_errors K k (EventGroupClear i b) = errors_when [(BadContext, cpu_lock k)]"
| "documented_errors K k (EventGroupGet i) = errors_when [(BadContext, cpu_lock k)]"
| "documented_errors K k (EventGroupWait i b f) = errors_when [(BadContext, cpu_lock k \<or> \<not> waitable k)]"
| "documented_errors K k (EventGroupWaitTimeout i b f d) =
     errors_when [(BadContext, cpu_lock k \<or> \<not> waitable k), (BadParam, negative d)]"
| "documented_errors K k (EventGroupPoll i b f) =
     errors_when [(BadContext, cpu_lock k),
       (Timeout, \<not> event_condition (group_bits (event_groups k (i - 1))) b f)]"
| "documented_errors K k (MutexIsLocked i) = errors_when [(BadContext, cpu_lock k)]"
| "documented_errors K k (MutexLock i) =
     errors_when [(BadContext, cpu_lock k \<or> \<not> waitable k), (WouldDeadlock, owned_by_caller k (i - 1)),
       (BadParam, above_ceiling k (i - 1)), (Abandoned, abandoned k (i - 1))]"
| "documented_errors K k (MutexLockTimeout i d) =
     errors_when [(BadContext, cpu_lock k \<or> \<not> waitable k), (WouldDeadlock, owned_by_caller k (i - 1)),
       (BadParam, negative d \<or> above_ceiling k (i - 1)), (Abandoned, abandoned k (i - 1))]"
| "documented_errors K k (MutexTryLock i) =
     errors_when [(BadContext, cpu_lock k \<or> \<not> task_context k), (WouldDeadlock, owned_by_caller k (i - 1)),
       (BadParam, above_ceiling k (i - 1)), (Abandoned, abandoned k (i - 1)),
       (Timeout, owning_task (mutexes k (i - 1)) \<noteq> None \<and> \<not> owned_by_caller k (i - 1))]"
| "documented_errors K k (MutexUnlock i) =
     errors_when [(BadContext, cpu_lock k \<or> \<not> waitable k), (NotOwner, \<not> owned_by_caller k (i - 1)),
       (BadObjectState, owned_by_caller k (i - 1) \<and>
          last_mutex_held (tasks k (the (running_task k))) \<noteq> Some (i - 1))]"
| "documented_errors K k (MutexMarkConsistent i) =
     errors_when [(BadContext, cpu_lock k), (BadObjectState, \<not> inconsistent (mutexes k (i - 1)))]"
| "documented_errors K k (TimerStart i) = errors_when [(BadContext, cpu_lock k)]"
| "documented_errors K k (TimerStop i) = errors_when [(BadContext, cpu_lock k)]"
| "documented_errors K k (TimerSetDelay i d) =
     errors_when [(BadContext, cpu_lock k), (BadParam, case d of None \<Rightarrow> False | Some x \<Rightarrow> negative x)]"
| "documented_errors K k (TimerSetPeriod i d) =
     errors_when [(BadContext, cpu_lock k), (BadParam, case d of None \<Rightarrow> False | Some x \<Rightarrow> negative x)]"
| "documented_errors K k GetTime = errors_when [(BadContext, cpu_lock k \<or> \<not> task_context k)]"
| "documented_errors K k (SetTime t) = errors_when [(BadContext, cpu_lock k \<or> \<not> task_context k)]"
| "documented_errors K k (AdjustTime d) =
     errors_when [(BadContext, cpu_lock k), (BadObjectState, \<not> adjust_allowed (PORT_TIMER K) (tk k) d)]"

text \<open>Only a failing \<^verbatim>\<open>adjust_time\<close> touches the state: it brings the counters of the clocks up to date.\<close>

definition same_times :: "kcfg \<Rightarrow> kernel \<Rightarrow> kernel \<Rightarrow> bool" where
  "same_times K k k' \<longleftrightarrow>
     k' = k\<lparr>tk := tk k'\<rparr> \<and> heap (tk k') = heap (tk k) \<and> timeouts (tk k') = timeouts (tk k) \<and>
     event_time (PORT_TIMER K) (tk k') = event_time (PORT_TIMER K) (tk k) \<and>
     system_time_now (PORT_TIMER K) (tk k') = system_time_now (PORT_TIMER K) (tk k)"

definition unaffected :: "kcfg \<Rightarrow> call \<Rightarrow> kernel \<Rightarrow> kernel \<Rightarrow> bool" where
  "unaffected K c k k' \<longleftrightarrow> (case c of AdjustTime _ \<Rightarrow> same_times K k k' | _ \<Rightarrow> k' = k)"

section \<open>Rules\<close>

text \<open>
  \<open>fails_iff U S r\<close>: if \<open>r\<close> is a result at all, then it is an error if and only if \<open>S\<close> is not empty, one of
  \<open>S\<close>, and the new state satisfies \<open>U\<close> unless the error is \<^verbatim>\<open>Abandoned\<close>.
\<close>

definition fails_iff :: "(kernel \<Rightarrow> bool) \<Rightarrow> result_code set \<Rightarrow> ('a ret \<times> kernel) option \<Rightarrow> bool" where
  "fails_iff U S r \<longleftrightarrow>
     (\<forall>x k'. r = Some (x, k') \<longrightarrow>
        (case x of Err e \<Rightarrow> e \<in> S \<and> (e \<noteq> Abandoned \<longrightarrow> U k') | _ \<Rightarrow> S = {}))"

lemma fails_iff_simps [simp]:
  "fails_iff U S None" "fails_iff U S (Some (Ok x, k)) \<longleftrightarrow> S = {}" "fails_iff U S (Some (Blocked, k)) \<longleftrightarrow> S = {}"
  "fails_iff U S (Some (Err e, k)) \<longleftrightarrow> e \<in> S \<and> (e \<noteq> Abandoned \<longrightarrow> U k)"
  by (auto simp: fails_iff_def)

lemma fails_iff_bind: "(\<And>x. m = Some x \<Longrightarrow> fails_iff U S (f x)) \<Longrightarrow> fails_iff U S (m \<bind> f)"
  by (cases m) auto

lemma fails_iff_guard: "(b \<Longrightarrow> fails_iff U S r) \<Longrightarrow> fails_iff U S (guard b r)"
  by (simp add: guard_def)

lemma fails_iff_lock:
  assumes "cpu_lock k \<Longrightarrow> BadContext \<in> S \<and> U k"
    and "\<not> cpu_lock k \<Longrightarrow> fails_iff (\<lambda>k'. U (leave_cpu_lock k')) S (body (k\<lparr>cpu_lock := True\<rparr>))"
  shows "fails_iff U S (with_cpu_lock body k)"
proof (cases "cpu_lock k")
  case True
  then show ?thesis using assms(1) by (simp add: with_cpu_lock_def lock_cpu_def)
next
  case False
  then show ?thesis using assms(2)
    by (cases "body (k\<lparr>cpu_lock := True\<rparr>)") (auto simp: with_cpu_lock_def lock_cpu_def fails_iff_def)
qed

lemma fails_iff_ret_as [simp]: "fails_iff U S (ret_as f r) = fails_iff U S r"
proof -
  have "(case map_ret f x of Err e \<Rightarrow> P e | _ \<Rightarrow> Q) = (case x of Err e \<Rightarrow> P e | _ \<Rightarrow> Q)" 
    for x :: "'b ret" and P :: "result_code \<Rightarrow> bool" and Q :: bool
    by (cases x) auto
  then show ?thesis by (cases r) (auto simp: fails_iff_def ret_as_def)
qed

lemmas fails_iff_rules = fails_iff_bind fails_iff_guard fails_iff_lock

lemma errors_when_simps [simp]:
  "errors_when [] = {}" "errors_when ((e, b) # cs) = (if b then insert e (errors_when cs) else errors_when cs)"
  by (simp_all add: errors_when_def)

text \<open>Releasing CPU Lock after a failure gives the state before the call.\<close>

lemma leave_lock_same [simp]: "\<not> cpu_lock k \<Longrightarrow> leave_cpu_lock (k\<lparr>cpu_lock := True\<rparr>) = k"
  by (cases k) (simp add: leave_cpu_lock_def)

lemma waitable_eq [simp]: "expect_waitable_context (k\<lparr>cpu_lock := True\<rparr>) = waitable k"
  by (simp add: expect_waitable_context_def waitable_def)

lemma time32_negative: "time32_from_duration d = None \<longleftrightarrow> negative d"
  by (simp add: time32_from_duration_def negative_def as_micros_def not_le)

lemma time32_negative_Some: "time32_from_duration d = Some x \<Longrightarrow> \<not> negative d"
  by (metis time32_negative option.discI)

lemma optional_negative:
  "time32_from_optional d = None \<longleftrightarrow> (case d of None \<Rightarrow> False | Some x \<Rightarrow> negative x)"
  by (simp add: time32_from_optional_def time32_negative split: option.split)

lemmas index_defs = task_index_def semaphore_index_def event_group_index_def mutex_index_def timer_index_def
  pool_index_Some

section \<open>The calls\<close>

lemma kernel_fails:
  "fails_iff (\<lambda>k'. k' = k) (documented_errors K k AcquireCpuLock) (raw_acquire_cpu_lock k)"
  "fails_iff (\<lambda>k'. k' = k) (documented_errors K k ReleaseCpuLock) (raw_release_cpu_lock k)"
  "fails_iff (\<lambda>k'. k' = k) (documented_errors K k BoostPriority) (boost_priority k)"
  "fails_iff (\<lambda>k'. k' = k) (documented_errors K k UnboostPriority) (unboost_priority K k)"
  "fails_iff (\<lambda>k'. k' = k) (documented_errors K k GetTime) (raw_time K k)"
  "fails_iff (\<lambda>k'. k' = k) (documented_errors K k (SetTime x)) (raw_set_time K x k)"
  by (auto simp: raw_acquire_cpu_lock_def raw_release_cpu_lock_def boost_priority_def unboost_priority_def
      raw_time_def raw_set_time_def expect_task_context_def Let_def intro!: fails_iff_rules)

lemma adjust_time_fails:
  assumes "kinv K k"
  shows "fails_iff (same_times K k) (documented_errors K k (AdjustTime d)) (raw_adjust_time K d k)"
proof -
  have "tk_inv (PORT_TIMER K) (tk k)" using kinvD(12)[OF assms] by (simp add: timer_inv_def)
  then obtain g where g: "tk_adjust_time (PORT_TIMER K) (tk k) d = Some (adjust_allowed (PORT_TIMER K) (tk k) d, g)"
    "heap g = heap (tk k)" "timeouts g = timeouts (tk k)"
    "\<not> adjust_allowed (PORT_TIMER K) (tk k) d \<Longrightarrow> event_time (PORT_TIMER K) g = event_time (PORT_TIMER K) (tk k) \<and>
       system_time_now (PORT_TIMER K) g = system_time_now (PORT_TIMER K) (tk k)"
    using tk_adjust_time_ok[of "PORT_TIMER K" "tk k" d] by auto
  have "leave_cpu_lock (k\<lparr>cpu_lock := True, tk := g\<rparr>) = k\<lparr>tk := g\<rparr>" if "\<not> cpu_lock k"
    using that by (cases k) (simp add: leave_cpu_lock_def)
  then show ?thesis
    unfolding raw_adjust_time_def using g
    by (intro fails_iff_lock) (auto simp: same_times_def)
qed

lemma semaphore_fails:
  "fails_iff (\<lambda>k'. k' = k) (documented_errors K k (SemaphoreDrain i)) (raw_semaphore_drain K i k)"
  "fails_iff (\<lambda>k'. k' = k) (documented_errors K k (SemaphoreGet i)) (raw_semaphore_get K i k)"
  "fails_iff (\<lambda>k'. k' = k) (documented_errors K k (SemaphoreSignal i n)) (raw_semaphore_signal K i n k)"
  "fails_iff (\<lambda>k'. k' = k) (documented_errors K k (SemaphoreSignalOne i)) (raw_semaphore_signal_one K i k)"
  by (auto simp: raw_semaphore_drain_def raw_semaphore_get_def raw_semaphore_signal_def
      raw_semaphore_signal_one_def signal_def index_defs Let_def intro!: fails_iff_rules)

lemma semaphore_poll_cases:
  "semaphore_poll i k =
     (if 0 < sem_value (semaphores k i)
      then (True, upd_semaphore i (\<lambda>s. s\<lparr>sem_value := sem_value s - 1\<rparr>) k) else (False, k))"
  by (auto simp: semaphore_poll_def semaphore_poll_core_def upd_semaphore_def intro!: kernel_eqI)

lemma semaphore_wait_fails:
  "fails_iff (\<lambda>k'. k' = k) (documented_errors K k (SemaphorePollOne i)) (raw_semaphore_poll_one K i k)"
  "fails_iff (\<lambda>k'. k' = k) (documented_errors K k (SemaphoreWaitOne i)) (raw_semaphore_wait_one K i k)"
  "fails_iff (\<lambda>k'. k' = k) (documented_errors K k (SemaphoreWaitOneTimeout i d)) (raw_semaphore_wait_one_timeout K i d k)"
  by (auto simp: raw_semaphore_poll_one_def poll_one_def semaphore_poll_cases raw_semaphore_wait_one_def
      wait_one_def raw_semaphore_wait_one_timeout_def wait_one_timeout_def index_defs time32_negative
      dest: time32_negative_Some split: option.split intro!: fails_iff_rules)

lemma event_group_fails:
  "fails_iff (\<lambda>k'. k' = k) (documented_errors K k (EventGroupSet i b)) (raw_event_group_set K i b k)"
  "fails_iff (\<lambda>k'. k' = k) (documented_errors K k (EventGroupClear i b)) (raw_event_group_clear K i b k)"
  "fails_iff (\<lambda>k'. k' = k) (documented_errors K k (EventGroupGet i)) (raw_event_group_get K i k)"
  "fails_iff (\<lambda>k'. k' = k) (documented_errors K k (EventGroupPoll i b f)) (raw_event_group_poll K i b f k)"
  "fails_iff (\<lambda>k'. k' = k) (documented_errors K k (EventGroupWait i b f)) (raw_event_group_wait K i b f k)"
  "fails_iff (\<lambda>k'. k' = k) (documented_errors K k (EventGroupWaitTimeout i b f d))
     (raw_event_group_wait_timeout K i b f d k)"
  by (auto simp: raw_event_group_set_def raw_event_group_clear_def raw_event_group_get_def
      raw_event_group_poll_def event_poll_def raw_event_group_wait_def event_wait_def
      raw_event_group_wait_timeout_def event_wait_timeout_def event_group_poll_eq Let_def index_defs time32_negative
      dest: time32_negative_Some split: option.split intro!: fails_iff_rules)

lemma timer_fails:
  "fails_iff (\<lambda>k'. k' = k) (documented_errors K k (TimerStart i)) (raw_timer_start K i k)"
  "fails_iff (\<lambda>k'. k' = k) (documented_errors K k (TimerStop i)) (raw_timer_stop K i k)"
  "fails_iff (\<lambda>k'. k' = k) (documented_errors K k (TimerSetDelay i d)) (raw_timer_set_delay K i d k)"
  "fails_iff (\<lambda>k'. k' = k) (documented_errors K k (TimerSetPeriod i d)) (raw_timer_set_period K i d k)"
  by (use optional_negative[of d] in \<open>cases "time32_from_optional d"\<close>;
      auto simp: raw_timer_start_def raw_timer_stop_def raw_timer_set_delay_def raw_timer_set_period_def
      intro!: fails_iff_rules)+

lemma task_fails:
  "fails_iff (\<lambda>k'. k' = k) (documented_errors K k TaskCurrent) (task_current K k)"
  "fails_iff (\<lambda>k'. k' = k) (documented_errors K k (TaskActivate i)) (task_activate K i k)"
  "fails_iff (\<lambda>k'. k' = k) (documented_errors K k (TaskGetPriority i)) (task_priority K i k)"
  "fails_iff (\<lambda>k'. k' = k) (documented_errors K k (TaskGetEffectivePriority i)) (task_effective_priority K i k)"
  by (auto simp: task_current_def task_activate_def activate_def task_priority_def task_effective_priority_def
      index_defs Let_def intro!: fails_iff_rules)

lemma task_interrupt_fails:
  "fails_iff (\<lambda>k'. k' = k) (documented_errors K k (TaskInterrupt i)) (task_interrupt K i k)"
  by (auto simp: task_interrupt_def interrupt_task_def index_defs bind_eq_Some_conv
      split: if_splits intro!: fails_iff_rules)

lemma task_park_fails:
  "fails_iff (\<lambda>k'. k' = k) (documented_errors K k Park) (park_current_task K k)"
  "fails_iff (\<lambda>k'. k' = k) (documented_errors K k (ParkTimeout d)) (park_current_task_timeout K d k)"
  "fails_iff (\<lambda>k'. k' = k) (documented_errors K k (Sleep d)) (put_current_task_on_sleep_timeout K d k)"
  by (auto simp: park_current_task_def park_current_task_timeout_def put_current_task_on_sleep_timeout_def
      time32_negative Let_def dest: time32_negative_Some split: option.split intro!: fails_iff_rules)

lemma parked_eq:
  assumes "kinv K k" "t < N_TASKS K"
  shows "(if st (tasks k t) = Waiting then with_current_wait_payload k t (\<lambda>p. p = Some ParkWait) else False) = parked k t"
proof (cases "st (tasks k t) = Waiting")
  case True
  have "current_wait (tasks k t) = Some t" by (rule waiting_task[OF kinvD(8)[OF assms(1)] assms(2) True])
  then show ?thesis using True by (simp add: parked_def with_current_wait_payload_def)
qed (simp add: parked_def)

lemma token_same: "park_token (tasks k t) \<Longrightarrow> upd_task t (\<lambda>c. c\<lparr>park_token := True\<rparr>) k = k"
  by (auto simp: upd_task_def fun_eq_iff intro!: kernel_eqI)

lemma task_unpark_fails:
  assumes "kinv K k"
  shows "fails_iff (\<lambda>k'. k' = k) (documented_errors K k (TaskUnparkExact i)) (task_unpark_exact K i k)"
  unfolding task_unpark_exact_def
proof (rule fails_iff_lock)
  assume lock: "\<not> cpu_lock k"
  let ?k = "k\<lparr>cpu_lock := True\<rparr>"
  have "fails_iff (\<lambda>k'. leave_cpu_lock k' = k) (documented_errors K k (TaskUnparkExact i)) (unpark_exact K (i - 1) ?k)"
    if i: "i - 1 < N_TASKS K"
  proof -
    have "kinv K ?k" using assms by simp
    note p = parked_eq[OF this i]
    have "parked ?k (i - 1) = parked k (i - 1)" by (simp add: parked_def)
    then show ?thesis
      using lock token_same[of ?k "i - 1"] unfolding unpark_exact_def p
      by (auto simp: Let_def intro!: fails_iff_rules)
  qed
  then show "fails_iff (\<lambda>k'. leave_cpu_lock k' = k) (documented_errors K k (TaskUnparkExact i))
      (do { t \<leftarrow> task_index K i; unpark_exact K t ?k })"
    by (auto simp: index_defs simp del: documented_errors.simps intro!: fails_iff_bind)
qed simp

lemma task_set_priority_fails:
  assumes K: "kcfg_ok K" and inv: "kinv K k"
  shows "fails_iff (\<lambda>k'. k' = k) (documented_errors K k (TaskSetPriority i p)) (task_set_priority K i p k)"
  unfolding task_set_priority_def
proof (rule fails_iff_lock)
  assume lock: "\<not> cpu_lock k"
  let ?k = "k\<lparr>cpu_lock := True\<rparr>"
  have "fails_iff (\<lambda>k'. leave_cpu_lock k' = k) (documented_errors K k (TaskSetPriority i p))
      (set_task_base_priority K (i - 1) p ?k)" if i: "i - 1 < N_TASKS K"
  proof -
    have "kinv K ?k" using inv by simp
    note S = set_priority_ok[OF K this i, of p]
    have a: "base_priority_allowed K ?k (i - 1) p = base_priority_allowed K k (i - 1) p"
      by (simp add: base_priority_allowed_def ceilings_held_def)
    show ?thesis using S lock unfolding a
      by (cases "p < PRIORITY_LEVELS K"; cases "st (tasks k (i - 1)) = Dormant";
          cases "base_priority_allowed K k (i - 1) p") auto
  qed
  then show "fails_iff (\<lambda>k'. leave_cpu_lock k' = k) (documented_errors K k (TaskSetPriority i p))
      (do { t \<leftarrow> task_index K i; set_task_base_priority K t p ?k })"
    by (auto simp: index_defs simp del: documented_errors.simps intro!: fails_iff_bind)
qed simp

lemma precheck_result:
  "precheck_and_get_running_task m (k\<lparr>cpu_lock := True\<rparr>) = Some r \<longleftrightarrow>
     (\<exists>t. running_task k = Some t \<and>
        r = (if owned_by_caller k m then Inl WouldDeadlock else if above_ceiling k m then Inl BadParam else Inr t))"
  by (auto simp: precheck_and_get_running_task_def bind_eq_Some_conv owned_by_caller_def above_ceiling_def
      split: option.splits)

lemma mutex_poll_result:
  "mutex_poll_core m t k = Some (b, k') \<longleftrightarrow>
     (if owning_task (mutexes k m) \<noteq> None then \<not> b \<and> k' = k
      else b \<and> st (tasks k t) \<in> {Running, Waiting} \<and> k' = locked m t k)"
  by (auto simp: mutex_poll_core_def lock_core_eq bind_eq_Some_conv guard_def split: if_splits)

lemma lock_result_locked:
  "lock_result m (locked m t (k\<lparr>cpu_lock := True\<rparr>)) = (if inconsistent (mutexes k m) then Err Abandoned else Ok ())"
  by (simp add: lock_result_def)

lemma mutex_lock_fails:
  "fails_iff (\<lambda>k'. k' = k) (documented_errors K k (MutexLock i)) (raw_mutex_lock K i k)"
  "fails_iff (\<lambda>k'. k' = k) (documented_errors K k (MutexTryLock i)) (raw_mutex_try_lock K i k)"
  "fails_iff (\<lambda>k'. k' = k) (documented_errors K k (MutexLockTimeout i d)) (raw_mutex_lock_timeout K i d k)"
  by (auto simp: raw_mutex_lock_def lock_mutex_def raw_mutex_try_lock_def try_lock_mutex_def
      raw_mutex_lock_timeout_def lock_mutex_timeout_def expect_task_context_def index_defs precheck_result
      mutex_poll_result lock_result_locked abandoned_def time32_negative
      dest: time32_negative_Some split: option.split if_splits intro!: fails_iff_rules)

lemma mutex_fails:
  "fails_iff (\<lambda>k'. k' = k) (documented_errors K k (MutexIsLocked i)) (raw_mutex_is_locked K i k)"
  "fails_iff (\<lambda>k'. k' = k) (documented_errors K k (MutexUnlock i)) (raw_mutex_unlock K i k)"
  "fails_iff (\<lambda>k'. k' = k) (documented_errors K k (MutexMarkConsistent i)) (raw_mutex_mark_consistent K i k)"
  by (auto simp: raw_mutex_is_locked_def raw_mutex_unlock_def unlock_mutex_def raw_mutex_mark_consistent_def
      owned_by_caller_def index_defs Let_def intro!: fails_iff_rules)

text \<open>
  The return from a wait: the error is the result that the task was woken up with.  The end of a
  sleep is not an error, and the new owner of a mutex learns whether it was abandoned.
\<close>

definition suspended_errors :: "kernel \<Rightarrow> result_code set" where
  "suspended_errors k =
     (case running_task k of
        None \<Rightarrow> {}
      | Some t \<Rightarrow>
          (case map_option fst (blocked_in (tasks k t)) of
             None \<Rightarrow> {}
           | Some c \<Rightarrow> errors_when
               [(Interrupted, wait_result (tasks k t) = WaitInterrupted),
                (Timeout, wait_result (tasks k t) = WaitTimeout \<and> c \<noteq> SleepCall),
                (Abandoned, wait_result (tasks k t) = WaitOk \<and>
                   (case c of MutexCall m \<Rightarrow> inconsistent (mutexes k m) | _ \<Rightarrow> False))]))"

lemma wait_finish_result_eq:
  assumes "wait_finish K t k = Some (r, k')"
  shows "r = wait_result (tasks k t) \<and> mutexes k' = mutexes k"
  using assms
  by (auto simp: wait_finish_def guard_def bind_eq_Some_conv expect_not_timeout_def Let_def on_tk_def
      upd_task_def split: if_splits)

lemma resume_fails: "fails_iff (\<lambda>_. True) (suspended_errors k) (resume K k)"
proof (cases "\<exists>t c timed k1. running_task k = Some t \<and> blocked_in (tasks k t) = Some (c, timed) \<and> lock_cpu k = Some k1")
  case False
  then have "resume K k = None"
    by (cases "running_task k"; cases "blocked_in (tasks k (the (running_task k)))"; cases "lock_cpu k")
      (auto simp: resume_def)
  then show ?thesis by simp
next
  case True
  then obtain t c timed k1
    where t: "running_task k = Some t" "blocked_in (tasks k t) = Some (c, timed)" "lock_cpu k = Some k1"
    by blast
  have k1: "wait_result (tasks k1 t) = wait_result (tasks k t)" "mutexes k1 = mutexes k"
    using t(3) by (auto simp: lock_cpu_def split: if_splits)
  have w: "wait_finish K t k1 = Some (r, k') \<Longrightarrow> r = wait_result (tasks k t) \<and> mutexes k' = mutexes k" for r k'
    using wait_finish_result_eq[of K t k1 r k'] k1 by simp
  have "fails_iff (\<lambda>_. True) (suspended_errors k)
      (case c of
         ParkCall \<Rightarrow> unit_ret (park_resume K t k1)
       | SleepCall \<Rightarrow> unit_ret (sleep_resume K t k1)
       | SemaphoreCall \<Rightarrow> unit_ret (wait_one_resume K t k1)
       | EventGroupCall \<Rightarrow> ret_as BitsVal (event_wait_resume K t k1)
       | MutexCall m \<Rightarrow> unit_ret (lock_mutex_resume K m t k1))" (is "fails_iff _ _ ?r")
    by (cases c; cases "wait_result (tasks k t)")
      (auto simp: suspended_errors_def t park_resume_def sleep_resume_def wait_one_resume_def event_wait_resume_def
        lock_mutex_resume_def wait_ret_def lock_result_def dest!: w split: wait_payload.split intro!: fails_iff_bind)
  moreover have "resume K k = ?r \<bind> (\<lambda>(r, k). Some (r, leave_cpu_lock k))" by (simp add: resume_def t)
  ultimately show ?thesis by (cases ?r) (auto simp: fails_iff_def)
qed

section \<open>Every error of every call\<close>

lemma unaffected_eq:
  "unaffected K c k = (case c of AdjustTime _ \<Rightarrow> same_times K k | _ \<Rightarrow> (\<lambda>k'. k' = k))"
  by (cases c) (simp_all add: unaffected_def fun_eq_iff)

lemma syscall_fails:
  assumes "kcfg_ok K" "kinv K k"
  shows "fails_iff (unaffected K c k) (documented_errors K k c) (syscall K c k)"
  using kernel_fails adjust_time_fails[OF assms(2)] semaphore_fails semaphore_wait_fails event_group_fails timer_fails
    task_fails task_interrupt_fails task_park_fails task_unpark_fails[OF assms(2)]
    task_set_priority_fails[OF assms] mutex_lock_fails mutex_fails
  by (cases c) (simp_all add: unaffected_eq del: documented_errors.simps)

text \<open>
  A call on an object that exists returns, also the start of a timer whose captured delay is longer
  than \<open>timer_startable\<close> permits.
\<close>

lemma syscall_returns:
  assumes K: "kcfg_ok K" and inv: "kinv K k" and h: "\<not> handle_tick_in_progress (tk k)"
    and c: "caller_ok k" "existing_object K c"
  shows "\<exists>x k'. syscall K c k = Some (x, k')"
proof (cases "valid_call K k c")
  case True
  then show ?thesis using syscall_ok[OF K inv c(1), of c] unfolding call_ok_def by blast
next
  case False
  then obtain i where i: "c = TimerStart i" "\<not> timer_startable K k (i - 1)" "timer_id_ok K i"
    using c(2) h by (auto simp: valid_call_def existing_object_def split: call.splits)
  let ?k = "k\<lparr>cpu_lock := True\<rparr>"
  have ix: "timer_index K i = Some (i - 1)" "i - 1 < N_TIMERS K"
    using i(3) by (auto simp: timer_id_ok_def timer_index_def pool_index_Some)
  have s: "\<not> timer_active (timers ?k (i - 1))" "at_raw (tk ?k) (TimerTimeout (i - 1)) \<noteq> BAD_DURATION32"
    using i(2) by (simp_all add: timer_startable_def)
  have inv': "kinv K ?k" using inv by simp
  obtain k' where "start_timer K (i - 1) ?k = Some k'" by (rule start_timer_any[OF K inv' ix(2) s])
  then show ?thesis using ix(1) i(1)
    by (cases "cpu_lock k") (simp_all add: raw_timer_start_def with_cpu_lock_def lock_cpu_def ret_as_def)
qed

text \<open>
  C39: Every system call fails exactly under its documented conditions.  In a reachable state a call on
  an object that exists, made by the running task or by a handler, returns.  It fails if and only if one of the
  conditions of \<open>documented_errors\<close> holds (CPU Lock or the context does not permit the call, a parameter is out of
  range, the object is in the wrong state, a poll is not satisfied); the error is one whose condition holds
  and is a variant of the error type of the method; and apart from \<^verbatim>\<open>Abandoned\<close>, which comes
  with the mutex, a failing call has no effect.  A call that has blocked fails later exactly if
  its wait was interrupted, or timed out and is not a sleep, or has got an abandoned mutex.
\<close>

theorem errors_as_documented:
  assumes r: "runs K cb k"
  shows "(caller_ok k \<and> existing_object K c \<longrightarrow>
      (\<exists>x k'. syscall K c k = Some (x, k') \<and>
        (case x of
           Err e \<Rightarrow> e \<in> documented_errors K k c \<and> e \<in> set (error_type c) \<and> (e \<noteq> Abandoned \<longrightarrow> unaffected K c k k')
         | _ \<Rightarrow> documented_errors K k c = {}))) \<and>
    (enabled K TaskResume k \<longrightarrow>
      (\<exists>x k'. resume K k = Some (x, k') \<and>
        (case x of
           Err e \<Rightarrow> e \<in> suspended_errors k \<and> e \<in> set (suspended_error_type k)
         | _ \<Rightarrow> suspended_errors k = {})))"
proof (intro conjI impI)
  note I = runs_inv[OF r]
  assume "caller_ok k \<and> existing_object K c"
  moreover have "\<not> handle_tick_in_progress (tk k)" using I(3) by (simp add: sys_inv_def)
  ultimately obtain x k' where x: "syscall K c k = Some (x, k')" using syscall_returns[OF I(1,4)] by blast
  have "case x of Err e \<Rightarrow> e \<in> documented_errors K k c \<and> (e \<noteq> Abandoned \<longrightarrow> unaffected K c k k')
      | _ \<Rightarrow> documented_errors K k c = {}"
    using syscall_fails[OF I(1,4), of c] x unfolding fails_iff_def by blast
  moreover have "x = Err e \<Longrightarrow> e \<in> set (error_type c)" for e
    using syscall_errors[of c K k] x by (simp add: errors_in_def)
  ultimately show "\<exists>x k'. syscall K c k = Some (x, k') \<and>
        (case x of
           Err e \<Rightarrow> e \<in> documented_errors K k c \<and> e \<in> set (error_type c) \<and> (e \<noteq> Abandoned \<longrightarrow> unaffected K c k k')
         | _ \<Rightarrow> documented_errors K k c = {})"
    using x by (cases x) simp_all
next
  note I = runs_inv[OF r]
  assume "enabled K TaskResume k"
  then obtain x k' where x: "resume K k = Some (x, k')"
    using perform_ok[OF I(1-3), of TaskResume] by (auto simp: perform_def)
  have "case x of Err e \<Rightarrow> e \<in> suspended_errors k | _ \<Rightarrow> suspended_errors k = {}"
    using resume_fails[of k K] x by (simp add: fails_iff_def cong: ret.case_cong)
  moreover have "x = Err e \<Longrightarrow> e \<in> set (suspended_error_type k)" for e
    using resume_errors[of k K] x by (simp add: errors_in_def)
  ultimately show "\<exists>x k'. resume K k = Some (x, k') \<and>
        (case x of
           Err e \<Rightarrow> e \<in> suspended_errors k \<and> e \<in> set (suspended_error_type k)
         | _ \<Rightarrow> suspended_errors k = {})"
    using x by (cases x) simp_all
qed

text \<open>The owner of a mutex locks it again; the next owner returns from its wait.\<close>

lemma sample_handed_resume:
  "observe sample_handed (\<lambda>k. (enabled sample_K TaskResume k, running_task k, blocked_in (tasks k 0), wait_result (tasks k 0),
      inconsistent (mutexes k 0))) = Some (True, Some 0, Some (MutexCall 0, False), WaitOk, False)"
  by code_simp

theorem errors_as_documented_witness:
  "syscall sample_K (MutexLock 1) (sample sample_locked) = Some (Err WouldDeadlock, sample sample_locked) \<and>
    (\<exists>x k'. resume sample_K (sample sample_handed) = Some (x, k') \<and> (\<nexists>e. x = Err e))"
proof
  let ?k = "sample sample_locked"
  note L = sample_locked_facts
  have "documented_errors sample_K ?k (MutexLock 1) = {WouldDeadlock}"
    using L by (simp add: waitable_def owned_by_caller_def above_ceiling_def abandoned_def)
  moreover have "caller_ok ?k \<and> existing_object sample_K (MutexLock 1)"
    using executingD(6)[OF sample_locked_executing] by (simp add: existing_object_def mutex_id_ok_def)
  ultimately obtain x k' where "syscall sample_K (MutexLock 1) ?k = Some (x, k')"
    "case x of Err e \<Rightarrow> e = WouldDeadlock \<and> (e \<noteq> Abandoned \<longrightarrow> unaffected sample_K (MutexLock 1) ?k k') | _ \<Rightarrow> False"
    using errors_as_documented[OF sample_locked_runs, of "MutexLock 1"] by (auto split: ret.splits)
  then show "syscall sample_K (MutexLock 1) ?k = Some (Err WouldDeadlock, ?k)"
    by (cases x) (simp_all add: unaffected_def)
  note H = observe_value[OF sample_handed_resume]
  have "suspended_errors (sample sample_handed) = {}" using H by (simp add: suspended_errors_def)
  then show "\<exists>x k'. resume sample_K (sample sample_handed) = Some (x, k') \<and> (\<nexists>e. x = Err e)"
    using errors_as_documented[OF sample_handed_runs] H by (fastforce split: ret.splits)
qed

end
