(* ===== verification/Topological_Sort.thy ===== *)
theory Topological_Sort
  imports Binary_Heap
begin

text \<open>
  The topological sorting of \<^verbatim>\<open>r3_core/src/bind/sorter.rs\<close> (\<^verbatim>\<open>topological_sort\<close>): Kahn's algorithm
  with a binary heap of the vertices without a predecessor.  Its interfaces are the traits of the
  source: the graph (\<^verbatim>\<open>GraphAccess\<close>), the map from vertices to their predecessor counts and the
  output sink.  The graph and the sink share a state \<open>'s\<close> (a \<^verbatim>\<open>RefCell\<close> in the source).

  The locale \<open>topo_interface\<close> states what the caller has to provide; under it the sort never
  panics, it decides whether the graph is acyclic, and what it outputs is the order which at every
  place takes the smallest vertex that has all its predecessors before it.
\<close>

section \<open>Loops and iterators\<close>

fun for_each :: "('x \<Rightarrow> 'a \<Rightarrow> 'a option) \<Rightarrow> 'x list \<Rightarrow> 'a \<Rightarrow> 'a option" where
  "for_each f [] a = Some a"
| "for_each f (x # xs) a = do { a \<leftarrow> f x a; for_each f xs a }"

text \<open>
  One turn of the loop in the \<^verbatim>\<open>next\<close> of an iterator that is a state machine, and all the items
  that the iterator gives; an iterator that never ends is \<open>None\<close>.
\<close>

datatype ('v, 'st) iter_step = Yield 'v 'st | Continue 'st | Done

partial_function (option) collect_items ::
  "('st \<Rightarrow> ('v, 'st) iter_step option) \<Rightarrow> 'st \<Rightarrow> 'v list option" where
  "collect_items step st =
     (case step st of
        None \<Rightarrow> None
      | Some Done \<Rightarrow> Some []
      | Some (Continue st) \<Rightarrow> collect_items step st
      | Some (Yield v st) \<Rightarrow> do { vs \<leftarrow> collect_items step st; Some (v # vs) })"

declare collect_items.simps [code]

section \<open>Interfaces\<close>

record ('s, 'v) graph_access =
  ga_vertices :: "'s \<Rightarrow> 'v list option"
  ga_successors :: "'s \<Rightarrow> 'v \<Rightarrow> 'v list option"

text \<open>\<^verbatim>\<open>Index\<close> and \<^verbatim>\<open>IndexMut\<close> of the map to \<^verbatim>\<open>num_predecessors\<close>.\<close>

record ('m, 'v) info_map =
  im_get :: "'m \<Rightarrow> 'v \<Rightarrow> nat option"
  im_set :: "'m \<Rightarrow> 'v \<Rightarrow> nat \<Rightarrow> 'm option"

section \<open>The sort\<close>

text \<open>\<^verbatim>\<open>ReadyVertexQueueBinaryHeapCtx\<close>; \<^verbatim>\<open>on_move\<close> has its default, which does nothing.\<close>

definition ready_queue_ctx :: "('v \<Rightarrow> 'v \<Rightarrow> bool) \<Rightarrow> (unit, 'v) heap_context" where
  "ready_queue_ctx lt = \<lparr>ctx_lt = (\<lambda>_. lt), ctx_on_move = (\<lambda>s _ _. s)\<rparr>"

text \<open>The vector under the heap grows: there always is room for one more element.\<close>

definition ready_push :: "('v \<Rightarrow> 'v \<Rightarrow> bool) \<Rightarrow> 'v \<Rightarrow> 'v list \<Rightarrow> 'v list option" where
  "ready_push lt v q =
     do { (_, q, _) \<leftarrow> heap_push (ready_queue_ctx lt) (Suc (length q)) q v (); Some q }"

definition ready_pop :: "('v \<Rightarrow> 'v \<Rightarrow> bool) \<Rightarrow> 'v list \<Rightarrow> ('v option \<times> 'v list) option" where
  "ready_pop lt q = do { (v, q, _) \<leftarrow> heap_pop (ready_queue_ctx lt) q (); Some (v, q) }"

definition clear_info :: "('m, 'v) info_map \<Rightarrow> 'v \<Rightarrow> 'm \<times> nat \<Rightarrow> ('m \<times> nat) option" where
  "clear_info I v = (\<lambda>(m, n). do { m \<leftarrow> im_set I m v 0; Some (m, Suc n) })"

definition add_predecessor :: "('m, 'v) info_map \<Rightarrow> 'v \<Rightarrow> 'm \<Rightarrow> 'm option" where
  "add_predecessor I w m = do { c \<leftarrow> im_get I m w; im_set I m w (Suc c) }"

definition push_if_ready ::
  "('v \<Rightarrow> 'v \<Rightarrow> bool) \<Rightarrow> ('m, 'v) info_map \<Rightarrow> 'm \<Rightarrow> 'v \<Rightarrow> 'v list \<Rightarrow> 'v list option" where
  "push_if_ready lt I m v q =
     do { c \<leftarrow> im_get I m v; if c = 0 then ready_push lt v q else Some q }"

definition remove_predecessor ::
  "('v \<Rightarrow> 'v \<Rightarrow> bool) \<Rightarrow> ('m, 'v) info_map \<Rightarrow> 'v \<Rightarrow> 'm \<times> 'v list \<Rightarrow> ('m \<times> 'v list) option" where
  "remove_predecessor lt I w = (\<lambda>(m, q).
     do { c \<leftarrow> im_get I m w;
          guard (0 < c)
           (do { m \<leftarrow> im_set I m w (c - 1);
                 q \<leftarrow> push_if_ready lt I m w q;
                 Some (m, q) }) })"

partial_function (option) topological_loop ::
  "('s, 'v) graph_access \<Rightarrow> ('v \<Rightarrow> 'v \<Rightarrow> bool) \<Rightarrow> ('s \<Rightarrow> 'v \<Rightarrow> 's) \<Rightarrow> ('m, 'v) info_map \<Rightarrow>
   's \<times> 'm \<times> 'v list \<times> nat \<Rightarrow> ('s \<times> nat) option" where
  "topological_loop G lt sink I st =
     (case st of (s, m, q, n) \<Rightarrow>
       (case ready_pop lt q of
          None \<Rightarrow> None
        | Some (None, q) \<Rightarrow> Some (s, n)
        | Some (Some v, q) \<Rightarrow>
            (case ga_successors G s v of
               None \<Rightarrow> None
             | Some ws \<Rightarrow>
                 (case for_each (remove_predecessor lt I) ws (m, q) of
                    None \<Rightarrow> None
                  | Some (m, q) \<Rightarrow>
                      if n = 0 then None
                      else topological_loop G lt sink I (sink s v, m, q, n - 1)))))"

declare topological_loop.simps [code]

definition topological_sort ::
  "('s, 'v) graph_access \<Rightarrow> ('v \<Rightarrow> 'v \<Rightarrow> bool) \<Rightarrow> ('s \<Rightarrow> 'v \<Rightarrow> 's) \<Rightarrow> 'v list \<Rightarrow> ('m, 'v) info_map \<Rightarrow>
   'm \<Rightarrow> 's \<Rightarrow> (bool \<times> 's) option" where
  "topological_sort G lt sink temp_ready_vertex_queue I m s =
     guard (temp_ready_vertex_queue = [])
      (do { vs \<leftarrow> ga_vertices G s;
            (m, n) \<leftarrow> for_each (clear_info I) vs (m, 0);
            m \<leftarrow> for_each (\<lambda>v m. do { ws \<leftarrow> ga_successors G s v; for_each (add_predecessor I) ws m }) vs m;
            q \<leftarrow> for_each (push_if_ready lt I m) vs temp_ready_vertex_queue;
            (s, n) \<leftarrow> topological_loop G lt sink I (s, m, q, n);
            Some (n = 0, s) })"

section \<open>The queue of ready vertices\<close>

text \<open>
  The positions that a context records have no influence on the heap.  The heap of the sort records
  nothing, and does the same as a heap whose context does.
\<close>

definition same_lt :: "('s, 'e) heap_context \<Rightarrow> ('t, 'e) heap_context \<Rightarrow> bool" where
  "same_lt C D \<longleftrightarrow> (\<forall>s t x y. ctx_lt C s x y = ctx_lt D t x y)"

lemma sift_up_loop_same:
  "same_lt C D \<Longrightarrow>
   map_option fst (sift_up_loop C start h s) = map_option fst (sift_up_loop D start h t)"
proof (induction C start h s arbitrary: t rule: sift_up_loop.induct)
  case (1 C start h s)
  have lt: "ctx_lt C s x y = ctx_lt D t x y" for x y using 1(2) by (simp add: same_lt_def)
  show ?case
    by (subst (1 2) sift_up_loop.simps)
      (auto simp: lt Let_def 1 split: Option.bind_splits intro: 1(1))
qed

lemma sift_down_loop_same:
  "same_lt C D \<Longrightarrow>
   map_option fst (sift_down_loop C n h c s) = map_option fst (sift_down_loop D n h c t)"
proof (induction C n h c s arbitrary: t rule: sift_down_loop.induct)
  case (1 C n h c s)
  have lt: "ctx_lt C s x y = ctx_lt D t x y" for x y using 1(2) by (simp add: same_lt_def)
  have "smaller_child C h c n s = smaller_child D h c n t"
    by (simp add: smaller_child_def lt)
  then show ?case
    by (subst (1 2) sift_down_loop.simps)
      (auto simp: lt Let_def 1 split: Option.bind_splits intro: 1(1)[simplified])
qed


lemma sift_up_vector:
  "map_option (fst \<circ> snd) (sift_up C xs a p s) =
   do { h \<leftarrow> hole_new xs p; h \<leftarrow> map_option fst (sift_up_loop C a h s); Some (hole_drop h) }"
  by (cases "hole_new xs p"; cases "sift_up_loop C a (the (hole_new xs p)) s") (auto simp: sift_up_def)

lemma sift_up_same:
  "same_lt C D \<Longrightarrow> map_option (fst \<circ> snd) (sift_up C xs a p s) = map_option (fst \<circ> snd) (sift_up D xs a p t)"
  unfolding sift_up_vector by (simp only: sift_up_loop_same[of C D a _ s t])

lemma sift_down_vector:
  "map_option fst (sift_down C xs p s) =
   do { h \<leftarrow> hole_new xs p;
        h \<leftarrow> map_option fst (sift_down_loop C (length xs) h (2 * p + 1) s); Some (hole_drop h) }"
  by (cases "hole_new xs p"; cases "sift_down_loop C (length xs) (the (hole_new xs p)) (2 * p + 1) s")
    (auto simp: sift_down_def)

lemma sift_down_same:
  "same_lt C D \<Longrightarrow> map_option fst (sift_down C xs p s) = map_option fst (sift_down D xs p t)"
  unfolding sift_down_vector by (simp only: sift_down_loop_same[of C D "length xs" _ _ s t])

lemma drop_state:
  "map_option (\<lambda>(v, q, _). (v, q)) (do { (sl, s) \<leftarrow> m; Some (item, sl, s) }) =
   map_option (Pair item) (map_option fst m)"
  by (cases m) auto

lemma heap_push_same:
  assumes "same_lt C D"
  shows "map_option (fst \<circ> snd) (heap_push C cap xs x s) = map_option (fst \<circ> snd) (heap_push D cap xs x t)"
  using sift_up_same[OF assms]
  by (cases "vec_push cap xs x") (auto simp: heap_push_def guard_def)

lemma heap_pop_same:
  assumes "same_lt C D"
  shows "map_option (\<lambda>(v, q, _). (v, q)) (heap_pop C xs s) = map_option (\<lambda>(v, q, _). (v, q)) (heap_pop D xs t)"
  by (auto simp: heap_pop_def heap_remove_def Let_def drop_state split: option.split
      intro!: arg_cong[where f = "map_option (Pair _)"] sift_down_same[OF assms])

text \<open>The context that records the positions, for which the contract of the heap holds.\<close>

definition position_ctx :: "('v::linorder \<Rightarrow> nat, 'v) heap_context" where
  "position_ctx = \<lparr>ctx_lt = (\<lambda>_. (<)), ctx_on_move = (\<lambda>s e i. s(e := i))\<rparr>"

interpretation ps: heap_ctx position_ctx "\<lambda>_ x. x" "\<lambda>s. s" "\<lambda>_. ()"
  by unfold_locales (auto simp: position_ctx_def)

lemma ready_queue_same: "same_lt (ready_queue_ctx (<)) position_ctx"
  by (simp add: same_lt_def ready_queue_ctx_def position_ctx_def)

definition ready_ok :: "'v::linorder list \<Rightarrow> bool" where
  "ready_ok q \<longleftrightarrow> heap_ord (\<lambda>x. x) q \<and> distinct q"

lemma ready_ok_Nil [simp]: "ready_ok []"
  by (simp add: ready_ok_def heap_ord_def)

lemma ready_ok_heap_inv: "ready_ok q \<longleftrightarrow> (\<exists>s. ps.heap_inv s q)"
proof -
  have "positions_ok (\<lambda>x. length (takeWhile (\<lambda>y. y \<noteq> x) q)) q" if "distinct q"
    unfolding positions_ok_def using that
  proof (intro allI impI)
    fix i assume i: "i < length q"
    have "takeWhile (\<lambda>y. y \<noteq> q ! i) q = take i q"
      by (rule takeWhile_eq_take_P_nth) (use i that in \<open>auto simp: nth_eq_iff_index_eq\<close>)
    then show "length (takeWhile (\<lambda>y. y \<noteq> q ! i) q) = i" using i by simp
  qed
  then show ?thesis unfolding ready_ok_def ps.heap_inv_def by auto
qed

lemma ready_push_ok:
  assumes "ready_ok q" "x \<notin> set q"
  shows "\<exists>q'. ready_push (<) x q = Some q' \<and> ready_ok q' \<and> set q' = insert x (set q)"
proof -
  obtain s where "ps.heap_inv s q" using assms(1) ready_ok_heap_inv by blast
  from ps.heap_push_ok[OF this assms(2), of "Suc (length q)"] obtain p q' s' where
    r: "heap_push position_ctx (Suc (length q)) q x s = Some (p, q', s')" "ps.heap_inv s' q'"
       "mset q' = add_mset x (mset q)" by auto
  then have "set q' = insert x (set q)" by (metis set_mset_add_mset_insert set_mset_mset)
  moreover from r(1) heap_push_same[OF ready_queue_same, of "Suc (length q)" q x "()" s]
  have "ready_push (<) x q = Some q'" by (auto simp: ready_push_def)
  ultimately show ?thesis using r(2) ready_ok_heap_inv by blast
qed

lemma ready_pop_ok:
  assumes "ready_ok q" "q \<noteq> []"
  shows "\<exists>q'. ready_pop (<) q = Some (Some (Min (set q)), q') \<and> ready_ok q' \<and>
    set q' = set q - {Min (set q)}"
proof -
  obtain s where s: "ps.heap_inv s q" using assms(1) ready_ok_heap_inv by blast
  from ps.heap_pop_ok[OF this assms(2)] obtain q' s' where
    r: "heap_pop position_ctx q s = Some (Some (q ! 0), q', s')" "ps.heap_inv s' q'"
       "mset q' = mset q - {#q ! 0#}" "\<forall>y \<in> set q. q ! 0 \<le> y" by auto
  have m: "Min (set q) = q ! 0" by (rule Min_eqI) (use r(4) assms(2) in auto)
  have "distinct q" using assms(1) by (simp add: ready_ok_def)
  moreover have "set_mset (mset q - {#q ! 0#}) = set q - {q ! 0}"
    using \<open>distinct q\<close> assms(2)
    by (metis distinct_remove1_removeAll mset_remove1 set_mset_mset set_removeAll)
  ultimately have "set q' = set q - {q ! 0}" using r(3) by (metis set_mset_mset)
  moreover from r(1) heap_pop_same[OF ready_queue_same, of q "()" s]
  have "ready_pop (<) q = Some (Some (q ! 0), q')" by (auto simp: ready_pop_def)
  ultimately show ?thesis using r(2) ready_ok_heap_inv m by auto
qed

lemma ready_pop_Nil: "ready_pop lt [] = Some (None, [])"
  by (simp add: ready_pop_def heap_pop_def heap_remove_def)


section \<open>The order that is specified\<close>

definition edges :: "'v list \<Rightarrow> ('v \<Rightarrow> 'v list) \<Rightarrow> ('v \<times> 'v) set" where
  "edges vs succ = {(u, w). u \<in> set vs \<and> w \<in> set (succ u)}"

text \<open>The vertices that may come next, and the sequences that take the least of them at every place.\<close>

definition ready_set :: "'v list \<Rightarrow> ('v \<Rightarrow> 'v list) \<Rightarrow> 'v set \<Rightarrow> 'v set" where
  "ready_set vs succ D = {w \<in> set vs - D. \<forall>u \<in> set vs - D. w \<notin> set (succ u)}"

definition least_first :: "'v::linorder list \<Rightarrow> ('v \<Rightarrow> 'v list) \<Rightarrow> 'v list \<Rightarrow> bool" where
  "least_first vs succ os \<longleftrightarrow>
     (\<forall>i < length os. os ! i \<in> ready_set vs succ (set (take i os)) \<and>
        (\<forall>w \<in> ready_set vs succ (set (take i os)). os ! i \<le> w))"

definition kahn_order :: "'v::linorder list \<Rightarrow> ('v \<Rightarrow> 'v list) \<Rightarrow> 'v list \<Rightarrow> bool" where
  "kahn_order vs succ os \<longleftrightarrow> least_first vs succ os \<and> ready_set vs succ (set os) = {}"

lemma least_first_Nil [simp]: "least_first vs succ []"
  by (simp add: least_first_def)

lemma least_first_snoc:
  "least_first vs succ (os @ [v]) \<longleftrightarrow> least_first vs succ os \<and>
     v \<in> ready_set vs succ (set os) \<and> (\<forall>w \<in> ready_set vs succ (set os). v \<le> w)"
  unfolding least_first_def by (auto simp: nth_append less_Suc_eq)

lemma least_first_appendD: "least_first vs succ (os @ os') \<Longrightarrow> least_first vs succ os"
  by (induction os' rule: rev_induct) (simp_all add: least_first_snoc flip: append_assoc)

lemma least_first_vertices: "least_first vs succ os \<Longrightarrow> set os \<subseteq> set vs \<and> distinct os"
  by (induction os rule: rev_induct) (auto simp: least_first_snoc ready_set_def)

text \<open>Every vertex comes behind its predecessors.\<close>

lemma least_first_edge:
  assumes "least_first vs succ (xs @ w # ys)" "(u, w) \<in> edges vs succ"
  shows "u \<in> set xs"
proof -
  have "least_first vs succ (xs @ [w])" by (rule least_first_appendD[where os' = ys]) (use assms in simp)
  then show ?thesis using assms(2) by (auto simp: least_first_snoc ready_set_def edges_def)
qed

text \<open>The whole graph is ordered if and only if it is acyclic.\<close>

lemma length_takeWhile_split:
  "v \<notin> set xs \<Longrightarrow> length (takeWhile (\<lambda>x. x \<noteq> v) (xs @ v # ys)) = length xs"
  by (subst takeWhile_append2) auto

lemma ordered_acyclic:
  assumes "least_first vs succ os" "set os = set vs"
  shows "acyclic (edges vs succ)"
proof -
  define pos where "pos v = length (takeWhile (\<lambda>x. x \<noteq> v) os)" for v
  have "pos u < pos w" if e: "(u, w) \<in> edges vs succ" and w: "w \<in> set os" for u w
  proof -
    obtain xs ys where os: "os = xs @ w # ys" "w \<notin> set xs" using w by (meson split_list_first)
    then have "u \<in> set xs" using least_first_edge assms(1) e by fast
    then obtain as bs where "xs = as @ u # bs" "u \<notin> set as" by (meson split_list_first)
    then have "pos u = length as" using os by (simp add: pos_def length_takeWhile_split)
    moreover have "pos w = length xs" using os by (simp add: pos_def length_takeWhile_split)
    ultimately show ?thesis using \<open>xs = _\<close> by simp
  qed
  note edge = this
  have lt: "pos u < pos w" if "(u, w) \<in> (edges vs succ)\<^sup>+" "w \<in> set os" for u w
    using that
  proof (induction rule: trancl_induct)
    case (step y z)
    have "y \<in> set os" using step.hyps(2) assms(2) by (auto simp: edges_def)
    with step edge[of y z] show ?case by simp
  next
    case (base y)
    then show ?case by (rule edge)
  qed
  show ?thesis
  proof (rule acyclicI, rule allI, rule notI)
    fix x assume x: "(x, x) \<in> (edges vs succ)\<^sup>+"
    then obtain y where "(x, y) \<in> edges vs succ" by (meson tranclD)
    then have "x \<in> set os" using assms(2) by (auto simp: edges_def)
    with lt[OF x] show False by simp
  qed
qed

lemma acyclic_ordered:
  assumes "kahn_order vs succ os" "acyclic (edges vs succ)" "\<And>v. v \<in> set vs \<Longrightarrow> set (succ v) \<subseteq> set vs"
  shows "set os = set vs"
proof (rule ccontr)
  assume "set os \<noteq> set vs"
  moreover have "set os \<subseteq> set vs" using assms(1) least_first_vertices by (auto simp: kahn_order_def)
  ultimately obtain v where v: "v \<in> set vs - set os" by blast
  have "edges vs succ \<subseteq> set vs \<times> set vs" using assms(3) by (auto simp: edges_def)
  then have "finite (edges vs succ)" by (rule finite_subset) simp
  then have "wf (edges vs succ)" using assms(2) by (rule finite_acyclic_wf)
  from wfE_min[OF this v] obtain w where "w \<in> set vs - set os"
    "\<And>u. (u, w) \<in> edges vs succ \<Longrightarrow> u \<notin> set vs - set os" by blast
  then have "w \<in> ready_set vs succ (set os)" by (auto simp: ready_set_def edges_def)
  with assms(1) show False by (simp add: kahn_order_def)
qed

text \<open>
  A sequence of all vertices in ascending order that respects the edges is the one that is
  specified, as the comment of the source promises.
\<close>

lemma kahn_order_unique:
  assumes "kahn_order vs succ os" "kahn_order vs succ os'"
  shows "os = os'"
proof -
  have eq: "take i os = take i os'" if "i \<le> length os" "i \<le> length os'" for i
    using that
  proof (induction i)
    case (Suc i)
    then have i: "i < length os" "i < length os'" and t: "take i os = take i os'" by auto
    have "os ! i = os' ! i"
      using assms i t by (metis antisym kahn_order_def least_first_def)
    with i t show ?case by (simp add: take_Suc_conv_app_nth)
  qed simp
  have "\<not> length os < length os'" if "kahn_order vs succ os" "kahn_order vs succ os'"
    "take (length os) os = take (length os) os'" for os os'
  proof
    assume l: "length os < length os'"
    then have "os' ! length os \<in> ready_set vs succ (set os)"
      using that by (auto simp: kahn_order_def least_first_def)
    then show False using that(1) by (simp add: kahn_order_def)
  qed
  note longer = this
  have "length os = length os'"
  proof (cases "length os" "length os'" rule: linorder_cases)
    case less
    with longer[OF assms] eq[of "length os"] show ?thesis by simp
  next
    case greater
    with longer[OF assms(2,1)] eq[of "length os'"] show ?thesis by simp
  qed
  with eq[of "length os"] show ?thesis by simp
qed

lemma sorted_kahn_order:
  assumes "sorted os" "distinct os" "set os = set vs"
    and respects: "\<And>xs w ys u. os = xs @ w # ys \<Longrightarrow> (u, w) \<in> edges vs succ \<Longrightarrow> u \<in> set xs"
  shows "kahn_order vs succ os"
proof -
  have "least_first vs succ os"
    unfolding least_first_def
  proof (intro allI impI conjI ballI)
    fix i assume i: "i < length os"
    have split: "os = take i os @ os ! i # drop (Suc i) os" using i by (simp add: id_take_nth_drop)
    have "os ! i \<notin> set (take i os)"
      using assms(2) split by (metis distinct_append distinct.simps(2) not_distinct_conv_prefix id_take_nth_drop i)
    moreover have "u \<in> set (take i os)" if "u \<in> set vs" "os ! i \<in> set (succ u)" for u
      using respects[OF split] that by (simp add: edges_def)
    ultimately show "os ! i \<in> ready_set vs succ (set (take i os))"
      using assms(3) i by (auto simp: ready_set_def)
    fix w assume "w \<in> ready_set vs succ (set (take i os))"
    then have "w \<in> set os" "w \<notin> set (take i os)" using assms(3) by (auto simp: ready_set_def)
    then obtain j where j: "j < length os" "w = os ! j" by (auto simp: in_set_conv_nth)
    have "i \<le> j"
    proof (rule ccontr)
      assume "\<not> i \<le> j"
      then have "w \<in> set (take i os)" using j i by (auto simp: in_set_conv_nth intro!: exI[of _ j])
      with \<open>w \<notin> _\<close> show False by simp
    qed
    then show "os ! i \<le> w" using assms(1) j i by (simp add: sorted_nth_mono)
  qed
  then show ?thesis using assms(3) by (auto simp: kahn_order_def ready_set_def)
qed


section \<open>The sort under its interfaces\<close>

text \<open>The predecessors that a vertex has among the vertices that are not in \<open>D\<close>, with repetition.\<close>

definition in_degree :: "'v list \<Rightarrow> ('v \<Rightarrow> 'v list) \<Rightarrow> 'v set \<Rightarrow> 'v \<Rightarrow> nat" where
  "in_degree vs succ D w = (\<Sum>u \<in> set vs - D. count_list (succ u) w)"

lemma in_degree_0: "in_degree vs succ D w = 0 \<longleftrightarrow> (\<forall>u \<in> set vs - D. w \<notin> set (succ u))"
  by (simp add: in_degree_def count_list_0_iff)

lemma ready_set_in_degree: "ready_set vs succ D = {w \<in> set vs - D. in_degree vs succ D w = 0}"
  by (simp add: ready_set_def in_degree_0)

lemma in_degree_insert:
  "v \<in> set vs - D \<Longrightarrow>
   in_degree vs succ D w = in_degree vs succ (insert v D) w + count_list (succ v) w"
  unfolding in_degree_def
  by (subst sum.remove[of _ v]) (auto intro!: sum.cong)

locale topo_interface =
  fixes G :: "('s, 'v::linorder) graph_access"
    and sink :: "'s \<Rightarrow> 'v \<Rightarrow> 's"
    and I :: "('m, 'v) info_map"
    and vs :: "'v list"
    and succ :: "'v \<Rightarrow> 'v list"
    and good :: "'s \<Rightarrow> bool"
  assumes vertices: "good s \<Longrightarrow> ga_vertices G s = Some vs"
    and successors: "good s \<Longrightarrow> v \<in> set vs \<Longrightarrow> ga_successors G s v = Some (succ v)"
    and closed: "good s \<Longrightarrow> v \<in> set vs \<Longrightarrow> set (succ v) \<subseteq> set vs"
    and distinct_vs: "distinct vs"
    and good_sink: "good s \<Longrightarrow> good (sink s v)"
    and info_set: "im_get I m v \<noteq> None \<Longrightarrow>
      \<exists>m'. im_set I m v n = Some m' \<and> im_get I m' = (im_get I m)(v \<mapsto> n)"
begin

text \<open>\<open>m\<close> holds the counts \<open>c\<close> of all vertices.\<close>

definition counts :: "'m \<Rightarrow> ('v \<Rightarrow> nat) \<Rightarrow> bool" where
  "counts m c \<longleftrightarrow> (\<forall>w \<in> set vs. im_get I m w = Some (c w))"

lemma counts_set:
  assumes "counts m c" "w \<in> set vs"
  shows "\<exists>m'. im_set I m w n = Some m' \<and> counts m' (c(w := n))"
proof -
  have "im_get I m w \<noteq> None" using assms by (simp add: counts_def)
  from info_set[OF this, of n] obtain m' where
    "im_set I m w n = Some m'" "im_get I m' = (im_get I m)(w \<mapsto> n)" by blast
  then show ?thesis using assms(1) by (auto simp: counts_def)
qed

lemma clear_infos:
  assumes "\<forall>v \<in> set vs. im_get I m v \<noteq> None"
  shows "\<exists>m'. for_each (clear_info I) vs (m, 0) = Some (m', length vs) \<and> counts m' (\<lambda>_. 0)"
proof -
  have "\<exists>m'. for_each (clear_info I) xs (m, n) = Some (m', n + length xs) \<and>
      (\<forall>w. im_get I m' w = (if w \<in> set xs then Some 0 else im_get I m w))"
    if "\<forall>v \<in> set xs. im_get I m v \<noteq> None" for xs m n
    using that
  proof (induction xs arbitrary: m n)
    case (Cons x xs)
    then have "im_get I m x \<noteq> None" by simp
    from info_set[OF this, of 0] obtain m1 where
      m1: "im_set I m x 0 = Some m1" "im_get I m1 = (im_get I m)(x \<mapsto> 0)" by blast
    then have "\<forall>v \<in> set xs. im_get I m1 v \<noteq> None" using Cons.prems by simp
    from Cons.IH[OF this, of "Suc n"] m1 show ?case by (auto simp: clear_info_def)
  qed simp
  from this[OF assms, of 0] show ?thesis by (auto simp: counts_def)
qed

lemma add_predecessors:
  assumes "counts m c" "set ws \<subseteq> set vs"
  shows "\<exists>m'. for_each (add_predecessor I) ws m = Some m' \<and> counts m' (\<lambda>w. c w + count_list ws w)"
  using assms
proof (induction ws arbitrary: m c)
  case (Cons x xs)
  then have x: "x \<in> set vs" by simp
  from counts_set[OF Cons.prems(1) x, of "Suc (c x)"] obtain m1 where
    m1: "im_set I m x (Suc (c x)) = Some m1" "counts m1 (c(x := Suc (c x)))" by blast
  have "im_get I m x = Some (c x)" using Cons.prems(1) x by (simp add: counts_def)
  then have add: "add_predecessor I x m = Some m1" using m1(1) by (simp add: add_predecessor_def)
  from Cons.IH[OF m1(2)] Cons.prems(2) obtain m' where
    m': "for_each (add_predecessor I) xs m1 = Some m'" "counts m' (\<lambda>w. (c(x := Suc (c x))) w + count_list xs w)"
    by auto
  moreover have "(\<lambda>w. (c(x := Suc (c x))) w + count_list xs w) = (\<lambda>w. c w + count_list (x # xs) w)" by auto
  ultimately show ?case using add by simp
qed simp

lemma count_predecessors:
  assumes "good s" "counts m (\<lambda>_. 0)"
  shows "\<exists>m'. for_each (\<lambda>v m. do { ws \<leftarrow> ga_successors G s v; for_each (add_predecessor I) ws m }) vs m =
    Some m' \<and> counts m' (in_degree vs succ {})"
proof -
  have "\<exists>m'. for_each (\<lambda>v m. do { ws \<leftarrow> ga_successors G s v; for_each (add_predecessor I) ws m }) xs m =
      Some m' \<and> counts m' (\<lambda>w. c w + (\<Sum>v\<leftarrow>xs. count_list (succ v) w))"
    if "set xs \<subseteq> set vs" "counts m c" for xs m c
    using that
  proof (induction xs arbitrary: m c)
    case (Cons x xs)
    then have x: "x \<in> set vs" by simp
    from add_predecessors[OF Cons.prems(2) closed[OF assms(1) x]] obtain m1 where
      m1: "for_each (add_predecessor I) (succ x) m = Some m1" "counts m1 (\<lambda>w. c w + count_list (succ x) w)"
      by blast
    from Cons.IH[OF _ m1(2)] Cons.prems(1) m1(1) show ?case
      by (simp add: successors[OF assms(1) x] add.assoc)
  qed simp
  note all = this[OF order_refl assms(2)]
  have eq: "(\<lambda>w. 0 + (\<Sum>v\<leftarrow>vs. count_list (succ v) w)) = in_degree vs succ {}"
    by (rule ext) (simp add: in_degree_def sum_list_distinct_conv_sum_set[OF distinct_vs])
  show ?thesis by (rule all[unfolded eq])
qed

lemma push_ready:
  assumes "counts m c"
  shows "\<exists>q. for_each (push_if_ready (<) I m) vs [] = Some q \<and> ready_ok q \<and> set q = {w \<in> set vs. c w = 0}"
proof -
  have "\<exists>q'. for_each (push_if_ready (<) I m) xs q = Some q' \<and> ready_ok q' \<and>
      set q' = set q \<union> {w \<in> set xs. c w = 0}"
    if "set xs \<subseteq> set vs" "distinct xs" "set xs \<inter> set q = {}" "ready_ok q" for xs q
    using that
  proof (induction xs arbitrary: q)
    case (Cons x xs)
    have get: "im_get I m x = Some (c x)" using Cons.prems(1) assms by (simp add: counts_def)
    show ?case
    proof (cases "c x = 0")
      case True
      from Cons.prems ready_push_ok[of q x] obtain q1 where
        q1: "ready_push (<) x q = Some q1" "ready_ok q1" "set q1 = insert x (set q)" by auto
      from Cons.IH[of q1] Cons.prems q1(2,3) obtain q' where
        "for_each (push_if_ready (<) I m) xs q1 = Some q'" "ready_ok q'"
        "set q' = set q1 \<union> {w \<in> set xs. c w = 0}" by auto
      moreover have "push_if_ready (<) I m x q = Some q1" using get True q1(1) by (simp add: push_if_ready_def)
      ultimately show ?thesis using q1(3) True by auto
    next
      case False
      then have "push_if_ready (<) I m x q = Some q" using get by (simp add: push_if_ready_def)
      with False Cons.IH[of q] Cons.prems show ?thesis by (auto cong: conj_cong)
    qed
  qed simp
  from this[OF order_refl distinct_vs, of "[]"] show ?thesis by simp
qed

lemma remove_predecessors:
  assumes "counts m (\<lambda>w. c w + count_list ws w)" "set ws \<subseteq> A" "A \<subseteq> set vs" "ready_ok q"
    "set q = {w \<in> A. c w + count_list ws w = 0}"
  shows "\<exists>m' q'. for_each (remove_predecessor (<) I) ws (m, q) = Some (m', q') \<and> counts m' c \<and>
    ready_ok q' \<and> set q' = {w \<in> A. c w = 0}"
  using assms
proof (induction ws arbitrary: m q)
  case (Cons x xs)
  let ?c = "\<lambda>w. c w + count_list xs w"
  have x: "x \<in> A" "x \<in> set vs" using Cons.prems(2,3) by auto
  have get: "im_get I m x = Some (Suc (?c x))" using Cons.prems(1) x(2) by (simp add: counts_def)
  from counts_set[OF Cons.prems(1) x(2), of "?c x"] obtain m1 where
    m1: "im_set I m x (?c x) = Some m1" and "counts m1 ((\<lambda>w. c w + count_list (x # xs) w)(x := ?c x))" by blast
  moreover have "(\<lambda>w. c w + count_list (x # xs) w)(x := ?c x) = ?c" by auto
  ultimately have c1: "counts m1 ?c" by simp
  then have get1: "im_get I m1 x = Some (?c x)" using x(2) by (simp add: counts_def)
  have "x \<notin> set q" using Cons.prems(5) by simp
  have "\<exists>q1. push_if_ready (<) I m1 x q = Some q1 \<and> ready_ok q1 \<and> set q1 = {w \<in> A. ?c w = 0}"
  proof (cases "?c x = 0")
    case True
    with ready_push_ok[OF Cons.prems(4) \<open>x \<notin> set q\<close>] show ?thesis
      using get1 Cons.prems(5) x(1) by (auto simp: push_if_ready_def)
  next
    case False
    then show ?thesis using get1 Cons.prems(4,5) by (auto simp: push_if_ready_def)
  qed
  then obtain q1 where q1: "push_if_ready (<) I m1 x q = Some q1" "ready_ok q1" "set q1 = {w \<in> A. ?c w = 0}"
    by blast
  from Cons.IH[OF c1 _ Cons.prems(3) q1(2,3)] Cons.prems(2) show ?case
    using get m1 q1(1) by (auto simp: remove_predecessor_def)
qed simp

end


context topo_interface
begin

definition loop_inv :: "'s \<Rightarrow> 'm \<Rightarrow> 'v list \<Rightarrow> nat \<Rightarrow> 'v list \<Rightarrow> bool" where
  "loop_inv s m q n os \<longleftrightarrow> good s \<and> counts m (in_degree vs succ (set os)) \<and> ready_ok q \<and>
     set q = ready_set vs succ (set os) \<and> n + length os = length vs \<and> least_first vs succ os"

lemma ready_successors:
  assumes "good s" "least_first vs succ os" and v: "v \<in> ready_set vs succ (set os)"
  shows "set (succ v) \<subseteq> set vs - insert v (set os)"
proof
  fix w assume w: "w \<in> set (succ v)"
  have v': "v \<in> set vs" "v \<notin> set os" "v \<notin> set (succ v)" using v by (auto simp: ready_set_def)
  have "w \<notin> set os"
  proof
    assume "w \<in> set os"
    then obtain xs ys where "os = xs @ w # ys" by (meson split_list)
    then have "v \<in> set os" using least_first_edge[of vs succ xs w ys v] assms(2) v' w by (simp add: edges_def)
    with v' show False by simp
  qed
  then show "w \<in> set vs - insert v (set os)" using closed[OF assms(1) v'(1)] w v' by auto
qed

lemma loop_step:
  assumes inv: "loop_inv s m q n os" and q: "q \<noteq> []"
  obtains v q1 m' q' where "ready_pop (<) q = Some (Some v, q1)" "ga_successors G s v = Some (succ v)"
    "for_each (remove_predecessor (<) I) (succ v) (m, q1) = Some (m', q')" "0 < n"
    "loop_inv (sink s v) m' q' (n - 1) (os @ [v])"
proof -
  define v where "v = Min (set q)"
  note inv = inv[unfolded loop_inv_def]
  have vq: "v \<in> set q" using q by (simp add: v_def)
  then have ready: "v \<in> ready_set vs succ (set os)" using inv by simp
  then have v: "v \<in> set vs - set os" by (auto simp: ready_set_def)
  have "\<forall>w \<in> set q. v \<le> w" by (simp add: v_def)
  then have least: "\<forall>w \<in> ready_set vs succ (set os). v \<le> w" using inv by simp
  obtain q1 where q1: "ready_pop (<) q = Some (Some v, q1)" "ready_ok q1" "set q1 = set q - {v}"
    using ready_pop_ok[of q] inv q by (auto simp: v_def)
  let ?c = "in_degree vs succ (insert v (set os))" and ?A = "set vs - insert v (set os)"
  have deg: "in_degree vs succ (set os) = (\<lambda>w. ?c w + count_list (succ v) w)"
    by (rule ext) (rule in_degree_insert[OF v])
  have c: "counts m (\<lambda>w. ?c w + count_list (succ v) w)" using inv by (simp only: deg)
  have sub: "set (succ v) \<subseteq> ?A" by (rule ready_successors[OF _ _ ready]) (use inv in auto)
  have "set q1 = {w \<in> ?A. ?c w + count_list (succ v) w = 0}"
    unfolding q1(3) fun_cong[OF deg, symmetric] using inv by (auto simp: ready_set_in_degree)
  from remove_predecessors[OF c sub _ q1(2) this] obtain m' q' where
    r: "for_each (remove_predecessor (<) I) (succ v) (m, q1) = Some (m', q')" "counts m' ?c"
       "ready_ok q'" "set q' = {w \<in> ?A. ?c w = 0}" by auto
  have "length os < length vs"
  proof (rule ccontr)
    assume "\<not> ?thesis"
    moreover have "set os \<subseteq> set vs" "distinct os" using least_first_vertices inv by blast+
    ultimately have "set os = set vs"
      using distinct_vs by (metis card_mono card_seteq distinct_card finite_set linorder_not_le nat_less_le)
    with v show False by simp
  qed
  then have n: "0 < n" and "n - 1 + length (os @ [v]) = length vs" using inv by auto
  then have "loop_inv (sink s v) m' q' (n - 1) (os @ [v])"
    using inv r(2-4) n ready least good_sink by (simp add: loop_inv_def least_first_snoc ready_set_in_degree)
  with q1(1) r(1) n show thesis using that successors[of s v] inv v by blast
qed

lemma topological_loop_ok:
  assumes "loop_inv s m q n os"
  shows "\<exists>os'. topological_loop G (<) sink I (s, m, q, n) = Some (foldl sink s os', n - length os') \<and>
    kahn_order vs succ (os @ os') \<and> length (os @ os') \<le> length vs"
  using assms
proof (induction n arbitrary: s m q os rule: less_induct)
  case (less n)
  show ?case
  proof (cases "q = []")
    case True
    then show ?thesis using less.prems
      by (subst topological_loop.simps)
        (auto simp: ready_pop_Nil loop_inv_def kahn_order_def intro!: exI[of _ "[]"])
  next
    case False
    from loop_step[OF less.prems this] obtain v q1 m' q' where
      step: "ready_pop (<) q = Some (Some v, q1)" "ga_successors G s v = Some (succ v)"
        "for_each (remove_predecessor (<) I) (succ v) (m, q1) = Some (m', q')" "0 < n"
        "loop_inv (sink s v) m' q' (n - 1) (os @ [v])" .
    have "n - 1 < n" using step(4) by simp
    from less.IH[OF this step(5)] obtain os' where
      os': "topological_loop G (<) sink I (sink s v, m', q', n - 1) =
          Some (foldl sink (sink s v) os', n - 1 - length os')"
        "kahn_order vs succ (os @ v # os')" "length (os @ v # os') \<le> length vs" by auto
    have "topological_loop G (<) sink I (s, m, q, n) = Some (foldl sink s (v # os'), n - length (v # os'))"
      by (subst topological_loop.simps) (use step os'(1) in simp)
    with os'(2,3) show ?thesis by blast
  qed
qed

lemma topological_sort_ok:
  assumes s: "good s" and m: "\<forall>v \<in> set vs. im_get I m v \<noteq> None"
  obtains os where "kahn_order vs succ os"
    "topological_sort G (<) sink [] I m s = Some (acyclic (edges vs succ), foldl sink s os)"
    "acyclic (edges vs succ) \<longleftrightarrow> set os = set vs"
proof -
  obtain m1 where m1: "for_each (clear_info I) vs (m, 0) = Some (m1, length vs)" "counts m1 (\<lambda>_. 0)"
    using clear_infos[OF m] by blast
  obtain m2 where m2: "for_each (\<lambda>v m. do { ws \<leftarrow> ga_successors G s v; for_each (add_predecessor I) ws m }) vs m1 =
      Some m2" "counts m2 (in_degree vs succ {})"
    using count_predecessors[OF s m1(2)] by blast
  obtain q where q: "for_each (push_if_ready (<) I m2) vs [] = Some q" "ready_ok q"
      "set q = {w \<in> set vs. in_degree vs succ {} w = 0}"
    using push_ready[OF m2(2)] by blast
  have "loop_inv s m2 q (length vs) []"
    using s m2(2) q by (simp add: loop_inv_def ready_set_in_degree)
  from topological_loop_ok[OF this] obtain os where
    os: "topological_loop G (<) sink I (s, m2, q, length vs) = Some (foldl sink s os, length vs - length os)"
      "kahn_order vs succ os" "length os \<le> length vs" by auto
  have "set os \<subseteq> set vs" "distinct os" using os(2) least_first_vertices by (auto simp: kahn_order_def)
  then have n: "length vs - length os = 0 \<longleftrightarrow> set os = set vs"
    using os(3) distinct_vs
    by (metis card_seteq diff_is_0_eq diff_self_eq_0 distinct_card finite_set)
  have ac: "acyclic (edges vs succ) \<longleftrightarrow> set os = set vs"
    using ordered_acyclic acyclic_ordered[OF os(2) _ closed[OF s]] os(2) by (auto simp: kahn_order_def)
  have "topological_sort G (<) sink [] I m s = Some (length vs - length os = 0, foldl sink s os)"
    using m1(1) m2(1) q(1) os(1) vertices[OF s] by (simp add: topological_sort_def)
  then show thesis by (intro that[OF os(2) _ ac]) (simp only: n ac)
qed

end

end
