(* ===== verification/Slice_Sort.thy ===== *)
theory Slice_Sort
  imports Binary_Heap
begin

text \<open>
  \<^verbatim>\<open>r3_core/src/utils/sort.rs\<close> and \<^verbatim>\<open>binary_search.rs\<close>: the heap sort of slices and the binary
  search that the configuration uses at compile time.  A prefix of a slice is the whole list with
  the length of the prefix.  The sort is shown to sort, by any key that the comparator compares.
\<close>

section \<open>Sorting\<close>

function slice_sift_down :: "('a \<Rightarrow> 'a \<Rightarrow> bool) \<Rightarrow> nat \<Rightarrow> 'a list \<Rightarrow> nat \<Rightarrow> 'a list" where
  "slice_sift_down is_less n v node =
     (let left = 2 * node + 1;
          right = 2 * node + 2;
          greater = (if right < n \<and> is_less (v ! left) (v ! right) then right else left)
      in if n \<le> greater \<or> \<not> is_less (v ! node) (v ! greater) then v
         else slice_sift_down is_less n (swap v node greater) greater)"
  by pat_completeness auto
termination
  by (relation "measure (\<lambda>(l, n, v, node). n - node)") (auto split: if_splits)

declare slice_sift_down.simps [simp del]

text \<open>\<open>i\<close> counts the nodes that are still to be sifted.\<close>

fun slice_build_heap :: "('a \<Rightarrow> 'a \<Rightarrow> bool) \<Rightarrow> nat \<Rightarrow> 'a list \<Rightarrow> 'a list" where
  "slice_build_heap is_less 0 v = v"
| "slice_build_heap is_less (Suc i) v = slice_build_heap is_less i (slice_sift_down is_less (length v) v i)"

function slice_pop_loop :: "('a \<Rightarrow> 'a \<Rightarrow> bool) \<Rightarrow> nat \<Rightarrow> 'a list \<Rightarrow> 'a list" where
  "slice_pop_loop is_less n v =
     (if 2 \<le> n then slice_pop_loop is_less (n - 1) (slice_sift_down is_less (n - 1) (swap v 0 (n - 1)) 0)
      else v)"
  by pat_completeness auto
termination
  by (relation "measure (\<lambda>(l, n, v). n)") auto

declare slice_pop_loop.simps [simp del]

definition slice_sort_unstable_by :: "('a \<Rightarrow> 'a \<Rightarrow> bool) \<Rightarrow> 'a list \<Rightarrow> 'a list" where
  "slice_sort_unstable_by is_less v =
     slice_pop_loop is_less (length v) (slice_build_heap is_less (length v div 2) v)"

section \<open>The heap property of a prefix\<close>

text \<open>All elements below \<open>n\<close> whose parent is not before \<open>k\<close> are at most their parent.\<close>

definition max_heap_from :: "('a \<Rightarrow> 'k::linorder) \<Rightarrow> nat \<Rightarrow> nat \<Rightarrow> 'a list \<Rightarrow> bool" where
  "max_heap_from key k n v \<longleftrightarrow>
     (\<forall>c. 0 < c \<and> c < n \<and> k \<le> parent c \<longrightarrow> key (v ! c) \<le> key (v ! parent c))"

text \<open>The same but for the element \<open>p\<close>, which may be too small.\<close>

definition max_heap_but :: "('a \<Rightarrow> 'k::linorder) \<Rightarrow> nat \<Rightarrow> nat \<Rightarrow> 'a list \<Rightarrow> nat \<Rightarrow> bool" where
  "max_heap_but key k n v p \<longleftrightarrow>
     (\<forall>c. 0 < c \<and> c < n \<and> k \<le> parent c \<and> parent c \<noteq> p \<longrightarrow> key (v ! c) \<le> key (v ! parent c)) \<and>
     (\<forall>c. 0 < p \<and> 0 < c \<and> c < n \<and> k \<le> parent p \<and> parent c = p \<longrightarrow> key (v ! c) \<le> key (v ! parent p))"

lemma parent_children: "parent (2 * p + 1) = p" "parent (2 * p + 2) = p"
  by (simp_all add: parent_def)

lemma max_heap_but_swap:
  assumes h: "max_heap_but key k n v p" and g: "g < n" "parent g = p" "0 < g" and n: "n \<le> length v"
    and less: "key (v ! p) \<le> key (v ! g)"
    and sibling: "\<And>c. 0 < c \<Longrightarrow> c < n \<Longrightarrow> parent c = p \<Longrightarrow> key (v ! c) \<le> key (v ! g)"
  shows "max_heap_but key k n (swap v p g) g"
proof -
  have p: "p < g" using parent_less[of g] g by simp
  then have len: "p < length v" "g < length v" using g n by auto
  have nth: "swap v p g ! i = (if i = g then v ! p else if i = p then v ! g else v ! i)" if "i < n" for i
    using that n p len by (auto simp: nth_swap)
  have "key (swap v p g ! c) \<le> key (swap v p g ! parent c)"
    if c: "0 < c" "c < n" "k \<le> parent c" "parent c \<noteq> g" for c
  proof -
    have pc: "parent c < c" "parent c < n" using parent_less[of c] c by auto
    consider "c = g" | "c = p" | "parent c = p" "c \<noteq> g" | "c \<noteq> g" "c \<noteq> p" "parent c \<noteq> p" by blast
    then show ?thesis
    proof cases
      case 1
      then show ?thesis using nth[of c] nth[of p] g c p less by auto
    next
      case 2
      then have "key (v ! g) \<le> key (v ! parent p)" using h g c by (auto simp: max_heap_but_def)
      then show ?thesis using nth[of c] nth[of "parent c"] 2 pc c p by auto
    next
      case 3
      then have "key (v ! c) \<le> key (v ! g)" using sibling c by simp
      moreover have "c \<noteq> p" using 3 pc by auto
      ultimately show ?thesis using nth[of c] nth[of p] 3 pc c p by auto
    next
      case 4
      then have "key (v ! c) \<le> key (v ! parent c)" using h c by (auto simp: max_heap_but_def)
      then show ?thesis using nth[of c] nth[of "parent c"] 4 pc c by auto
    qed
  qed
  moreover have "key (swap v p g ! c) \<le> key (swap v p g ! parent g)"
    if c: "0 < c" "c < n" "k \<le> parent g" "parent c = g" for c
  proof -
    have "g < c" using parent_less[of c] c by simp
    moreover have "key (v ! c) \<le> key (v ! g)" using h c g p by (auto simp: max_heap_but_def)
    ultimately show ?thesis using nth[of c] nth[of p] c g p by auto
  qed
  ultimately show ?thesis by (simp add: max_heap_but_def)
qed

definition greater_child :: "('a \<Rightarrow> 'k::linorder) \<Rightarrow> nat \<Rightarrow> 'a list \<Rightarrow> nat \<Rightarrow> nat" where
  "greater_child key n v p =
     (if 2 * p + 2 < n \<and> key (v ! (2 * p + 1)) < key (v ! (2 * p + 2)) then 2 * p + 2 else 2 * p + 1)"

lemma slice_sift_down_eq:
  "slice_sift_down (\<lambda>x y. key x < (key y :: 'k::linorder)) n v p =
   (let g = greater_child key n v p
    in if n \<le> g \<or> \<not> key (v ! p) < key (v ! g) then v
       else slice_sift_down (\<lambda>x y. key x < key y) n (swap v p g) g)"
  by (subst slice_sift_down.simps) (simp add: greater_child_def Let_def)

lemma greater_child_ok:
  "parent (greater_child key n v p) = p" "0 < greater_child key n v p"
  "0 < c \<Longrightarrow> c < n \<Longrightarrow> parent c = p \<Longrightarrow> greater_child key n v p < n \<and> key (v ! c) \<le> key (v ! greater_child key n v p)"
  using parent_eq_iff[of c p] by (auto simp: greater_child_def parent_def)

lemma slice_sift_down_ok:
  fixes key :: "'a \<Rightarrow> 'k::linorder"
  assumes "max_heap_but key k n v p" "n \<le> length v"
  defines "w \<equiv> slice_sift_down (\<lambda>x y. key x < key y) n v p"
  shows "max_heap_from key k n w \<and> mset w = mset v \<and> (\<forall>j. n \<le> j \<and> j < length v \<longrightarrow> w ! j = v ! j)"
  using assms(1,2) unfolding w_def
proof (induction "n - p" arbitrary: v p rule: less_induct)
  case less
  let ?g = "greater_child key n v p"
  note g = greater_child_ok[where key = key and n = n and v = v and p = p]
  show ?case
  proof (cases "n \<le> ?g \<or> \<not> key (v ! p) < key (v ! ?g)")
    case True
    have "key (v ! c) \<le> key (v ! parent c)" if "0 < c" "c < n" "k \<le> parent c" for c
    proof (cases "parent c = p")
      case p: True
      with g(3)[OF that(1,2)] True show ?thesis by (auto intro: order_trans)
    next
      case False
      then show ?thesis using less.prems(1) that by (auto simp: max_heap_but_def)
    qed
    then show ?thesis using True by (subst (1 2 3) slice_sift_down_eq) (simp add: max_heap_from_def)
  next
    case False
    have p: "p < ?g" using parent_less[of ?g] g by simp
    have "max_heap_but key k n (swap v p ?g) ?g"
      by (rule max_heap_but_swap[OF less.prems(1) _ g(1,2) less.prems(2)]) (use False g(3) in auto)
    moreover have "n - ?g < n - p" using p False by (intro diff_less_mono2) auto
    ultimately have ih: "let w = slice_sift_down (\<lambda>x y. key x < key y) n (swap v p ?g) ?g in
        max_heap_from key k n w \<and> mset w = mset (swap v p ?g) \<and>
        (\<forall>j. n \<le> j \<and> j < length v \<longrightarrow> w ! j = swap v p ?g ! j)"
      using less.hyps[of ?g "swap v p ?g"] less.prems(2) by (simp add: Let_def)
    have "swap v p ?g ! j = v ! j" if "n \<le> j" "j < length v" for j
      using that p False less.prems(2) by (subst nth_swap) auto
    moreover have "mset (swap v p ?g) = mset v" using p False less.prems(2) by (intro mset_swap') auto
    ultimately show ?thesis using ih False by (subst (1 2 3) slice_sift_down_eq) (simp add: Let_def)
  qed
qed

lemma max_heap_from_but: "max_heap_from key (Suc p) n v \<Longrightarrow> max_heap_but key p n v p"
  unfolding max_heap_from_def max_heap_but_def
  using parent_less by (metis le_antisym not_less_eq_eq order_less_irrefl linorder_not_le)

lemma slice_build_heap_ok:
  fixes key :: "'a \<Rightarrow> 'k::linorder"
  assumes "max_heap_from key i (length v) v"
  defines "w \<equiv> slice_build_heap (\<lambda>x y. key x < key y) i v"
  shows "max_heap_from key 0 (length v) w \<and> mset w = mset v"
  using assms(1) unfolding w_def
proof (induction i arbitrary: v)
  case (Suc i)
  let ?v = "slice_sift_down (\<lambda>x y. key x < key y) (length v) v i"
  from slice_sift_down_ok[OF max_heap_from_but[OF Suc.prems] order_refl]
  have v: "max_heap_from key i (length v) ?v" "mset ?v = mset v" by auto
  then have "length ?v = length v" by (metis size_mset)
  with Suc.IH[of ?v] v show ?case by simp
qed simp

lemma max_heap_root:
  assumes "max_heap_from key 0 n v" "i < n"
  shows "key (v ! i) \<le> key (v ! 0)"
  using assms(2)
proof (induction i rule: less_induct)
  case (less i)
  show ?case
  proof (cases "i = 0")
    case False
    then have "parent i < i" by (simp add: parent_less)
    with less assms(1) False have "key (v ! parent i) \<le> key (v ! 0)" "key (v ! i) \<le> key (v ! parent i)"
      by (auto simp: max_heap_from_def)
    then show ?thesis by (rule order_trans[rotated])
  qed simp
qed

text \<open>The elements from \<open>n\<close> on are in place.\<close>

definition sorted_from :: "('a \<Rightarrow> 'k::linorder) \<Rightarrow> nat \<Rightarrow> 'a list \<Rightarrow> bool" where
  "sorted_from key n v \<longleftrightarrow> (\<forall>i j. i < j \<and> n \<le> j \<and> j < length v \<longrightarrow> key (v ! i) \<le> key (v ! j))"

lemma pop_maximum:
  fixes key :: "'a \<Rightarrow> 'k::linorder"
  assumes h: "max_heap_from key 0 n v" and s: "sorted_from key n v" and n: "2 \<le> n" "n \<le> length v"
  defines "w \<equiv> slice_sift_down (\<lambda>x y. key x < key y) (n - 1) (swap v 0 (n - 1)) 0"
  shows "max_heap_from key 0 (n - 1) w \<and> sorted_from key (n - 1) w \<and> mset w = mset v"
proof -
  let ?v = "swap v 0 (n - 1)"
  have len: "0 < length v" "n - 1 < length v" using n by auto
  have nth: "?v ! i = (if i = n - 1 then v ! 0 else if i = 0 then v ! (n - 1) else v ! i)" if "i < length v" for i
    using that len by (simp add: nth_swap)
  have "key (?v ! c) \<le> key (?v ! parent c)" if "0 < c" "c < n - 1" "parent c \<noteq> 0" for c
  proof -
    have "parent c < c" using parent_less that by simp
    then show ?thesis using that nth[of c] nth[of "parent c"] h n by (auto simp: max_heap_from_def)
  qed
  then have "max_heap_but key 0 (n - 1) ?v 0" by (simp add: max_heap_but_def)
  from slice_sift_down_ok[OF this] have w: "max_heap_from key 0 (n - 1) w" "mset w = mset ?v"
    "\<And>j. n - 1 \<le> j \<Longrightarrow> j < length v \<Longrightarrow> w ! j = ?v ! j" using n by (auto simp: w_def)
  have m: "mset w = mset v" using w(2) len by (simp add: mset_swap')
  then have l: "length w = length v" by (metis size_mset)
  have drop: "drop (n - 1) w = drop (n - 1) ?v" by (rule nth_equalityI) (use l w(3) in auto)
  have "mset (take (n - 1) w) = mset (take (n - 1) ?v)"
    using w(2) drop by (metis add_right_cancel append_take_drop_id mset_append)
  then have prefix: "set (take (n - 1) w) = set (take (n - 1) ?v)" by (metis set_mset_mset)
  have small: "key (w ! i) \<le> key (w ! j)" if ij: "i < n - 1" "n - 1 \<le> j" "j < length w" for i j
  proof -
    have "w ! i \<in> set (take (n - 1) w)" using ij l len by (auto simp: in_set_conv_nth)
    then obtain i' where i': "i' < n - 1" "w ! i = ?v ! i'"
      unfolding prefix by (auto simp: in_set_conv_nth)
    then obtain i'' where i'': "i'' < n" "w ! i = v ! i''"
      using nth[of i'] len n by (cases "i' = 0") (auto intro: that[of "n - 1"] that[of i'])
    have root: "key (w ! i) \<le> key (v ! 0)" unfolding i''(2) by (rule max_heap_root[OF h i''(1)])
    show ?thesis
    proof (cases "j = n - 1")
      case True
      then show ?thesis using root w(3)[of j] nth[of j] len by simp
    next
      case False
      then have "w ! j = v ! j" using w(3)[of j] nth[of j] ij l by auto
      moreover have "i'' < j" using i''(1) ij False by simp
      ultimately show ?thesis using s False ij l i''(2) unfolding sorted_from_def by auto
    qed
  qed
  have "key (w ! i) \<le> key (w ! j)" if "i < j" "n - 1 \<le> j" "j < length w" for i j
  proof (cases "i < n - 1")
    case False
    then have j: "w ! j = v ! j" "n \<le> j" using w(3)[of j] nth[of j] that l by auto
    show ?thesis
    proof (cases "i = n - 1")
      case True
      then have "w ! i = v ! 0" using w(3)[of i] nth[of i] that l by auto
      then show ?thesis using j s that l n unfolding sorted_from_def by auto
    next
      case ne: False
      then have "w ! i = v ! i" using w(3)[of i] nth[of i] that l False by auto
      then show ?thesis using j s that l unfolding sorted_from_def by auto
    qed
  qed (use small that in auto)
  then show ?thesis using w(1) m by (simp add: sorted_from_def)
qed

lemma slice_pop_loop_ok:
  fixes key :: "'a \<Rightarrow> 'k::linorder"
  assumes "max_heap_from key 0 n v" "sorted_from key n v" "n \<le> length v"
  defines "w \<equiv> slice_pop_loop (\<lambda>x y. key x < key y) n v"
  shows "sorted_from key 0 w \<and> mset w = mset v"
  using assms(1-3) unfolding w_def
proof (induction n arbitrary: v rule: less_induct)
  case (less n)
  show ?case
  proof (cases "2 \<le> n")
    case True
    let ?w = "slice_sift_down (\<lambda>x y. key x < key y) (n - 1) (swap v 0 (n - 1)) 0"
    have w: "max_heap_from key 0 (n - 1) ?w" "sorted_from key (n - 1) ?w" "mset ?w = mset v"
      using pop_maximum[OF less.prems(1,2) True less.prems(3)] by auto
    then have "length ?w = length v" by (metis size_mset)
    with less.IH[of "n - 1" ?w] w True less.prems(3) show ?thesis
      by (subst (1 2) slice_pop_loop.simps) simp
  next
    case False
    then have "sorted_from key 0 v" using less.prems(2) by (auto simp: sorted_from_def)
    then show ?thesis using False by (subst (1 2) slice_pop_loop.simps) simp
  qed
qed

text \<open>The sort is a permutation into ascending order.\<close>

lemma slice_sort_ok:
  fixes key :: "'a \<Rightarrow> 'k::linorder"
  defines "w \<equiv> \<lambda>v. slice_sort_unstable_by (\<lambda>x y. key x < key y) v"
  shows "sorted (map key (w v))" "mset (w v) = mset v"
proof -
  let ?b = "slice_build_heap (\<lambda>x y. key x < key y) (length v div 2) v"
  have "max_heap_from key (length v div 2) (length v) v"
    by (auto simp: max_heap_from_def parent_def)
  from slice_build_heap_ok[OF this] have b: "max_heap_from key 0 (length v) ?b" "mset ?b = mset v" by auto
  then have l: "length ?b = length v" by (metis size_mset)
  then have "sorted_from key (length v) ?b" by (auto simp: sorted_from_def)
  from slice_pop_loop_ok[OF b(1) this] l b(2)
  have r: "sorted_from key 0 (w v)" "mset (w v) = mset v"
    by (auto simp: w_def slice_sort_unstable_by_def)
  then show "mset (w v) = mset v" by simp
  show "sorted (map key (w v))" using r(1) by (auto simp: sorted_from_def sorted_iff_nth_mono_less)
qed

text \<open>With distinct keys the result is the only one.\<close>

lemma slice_sort_unique:
  fixes key :: "'a \<Rightarrow> 'k::linorder"
  assumes "inj_on key (set v)"
  shows "slice_sort_unstable_by (\<lambda>x y. key x < key y) v = sort_key key v"
proof (rule properties_for_sort_key[symmetric])
  let ?w = "slice_sort_unstable_by (\<lambda>x y. key x < key y) v"
  show m: "mset ?w = mset v" "sorted (map key ?w)" by (rule slice_sort_ok)+
  fix k assume "k \<in> set ?w"
  then have k: "k \<in> set v" "set ?w = set v" using m(1) by (metis set_mset_mset)+
  have "filter (\<lambda>x. key k = key x) u = filter ((=) k) u" if "set u = set v" for u
    by (rule filter_cong) (use that k assms in \<open>auto simp: inj_on_def\<close>)
  then show "filter (\<lambda>x. key k = key x) ?w = filter (\<lambda>x. key k = key x) v"
    using k(2) m(1) by (metis replicate_count_mset_eq_filter_eq)
qed

section \<open>Binary search\<close>

function lower_bound_loop :: "(nat \<Rightarrow> bool) \<Rightarrow> nat \<Rightarrow> nat \<Rightarrow> nat" where
  "lower_bound_loop lt i end' =
     (if i < end' then
        let mid = i + (end' - i) div 2
        in if lt mid then lower_bound_loop lt (mid + 1) end'
           else lower_bound_loop lt i mid
      else i)"
  by pat_completeness auto
termination
  by (relation "measure (\<lambda>(l, i, e). e - i)") auto

declare lower_bound_loop.simps [simp del]

definition lower_bound :: "nat \<Rightarrow> (nat \<Rightarrow> bool) \<Rightarrow> nat" where
  "lower_bound n lt = lower_bound_loop lt 0 n"

lemma lower_bound_ok:
  assumes "\<And>i j. i \<le> j \<Longrightarrow> j < n \<Longrightarrow> lt j \<Longrightarrow> lt i"
  shows "lower_bound n lt \<le> n" "\<And>i. i < lower_bound n lt \<Longrightarrow> lt i"
    "\<And>i. lower_bound n lt \<le> i \<Longrightarrow> i < n \<Longrightarrow> \<not> lt i"
proof -
  have "lower_bound_loop lt a b \<le> n \<and> (\<forall>i < lower_bound_loop lt a b. lt i) \<and>
      (\<forall>i. lower_bound_loop lt a b \<le> i \<and> i < n \<longrightarrow> \<not> lt i)"
    if "a \<le> b" "b \<le> n" "\<forall>i<a. lt i" "\<forall>i. b \<le> i \<and> i < n \<longrightarrow> \<not> lt i" for a b
    using assms that
  proof (induction lt a b rule: lower_bound_loop.induct[case_names loop])
    case (loop lt a b)
    show ?case
    proof (cases "a < b")
      case True
      let ?mid = "a + (b - a) div 2"
      have mid: "a \<le> ?mid" "?mid < b" using True by auto
      show ?thesis
      proof (cases "lt ?mid")
        case lt: True
        have "\<forall>i < ?mid + 1. lt i" using loop.prems(1)[of _ ?mid] lt mid loop.prems(3) by auto
        with loop.IH(1)[OF True refl lt loop.prems(1)] loop.prems mid True lt show ?thesis
          by (subst (1 2 3) lower_bound_loop.simps) (simp add: Let_def)
      next
        case ge: False
        have "\<forall>i. ?mid \<le> i \<and> i < n \<longrightarrow> \<not> lt i" using loop.prems(1)[of ?mid] ge by auto
        with loop.IH(2)[OF True refl ge loop.prems(1)] loop.prems mid True ge show ?thesis
          by (subst (1 2 3) lower_bound_loop.simps) (simp add: Let_def)
      qed
    next
      case False
      with loop.prems show ?thesis by (subst (1 2 3) lower_bound_loop.simps) auto
    qed
  qed
  note range = this
  have "\<forall>i<0::nat. lt i" "\<forall>i. n \<le> i \<and> i < n \<longrightarrow> \<not> lt i" by auto
  note main = range[OF le0 order_refl this, folded lower_bound_def]
  show "lower_bound n lt \<le> n" using main by blast
  show "\<And>i. i < lower_bound n lt \<Longrightarrow> lt i" using main by blast
  show "\<And>i. lower_bound n lt \<le> i \<Longrightarrow> i < n \<Longrightarrow> \<not> lt i" using main by blast
qed

end
