(* ===== verification/Startup_Hooks.thy ===== *)
theory Startup_Hooks
  imports Slice_Sort "HOL-Library.Product_Lexorder"
begin

text \<open>
  Startup hooks (\<^verbatim>\<open>r3_core/src/kernel/hook.rs\<close>): their registration and their order.  The sort is
  not stable; the registration order in the comparator makes it so.
\<close>

section \<open>Registration and sorting\<close>

text \<open>The phase of the configuration (\<^verbatim>\<open>cfg.rs\<close>); the flag says that the interrupts are finalized.\<close>

datatype cfg_st = Phase1 | Phase2 | Phase3 bool

record 'c cfg_startup_hook =
  hook_start :: 'c
  hook_priority :: int
  hook_order :: nat

definition startup_hook_finish ::
  "'c option \<Rightarrow> int \<Rightarrow> bool \<Rightarrow> 'c cfg_startup_hook list \<Rightarrow> 'c cfg_startup_hook list option" where
  "startup_hook_finish start priority unchecked hooks =
     guard (\<not> (priority < 0 \<and> \<not> unchecked))
      (do { let order = length hooks;
            f \<leftarrow> start;
            Some (hooks @ [\<lparr>hook_start = f, hook_priority = priority, hook_order = order\<rparr>]) })"

definition hook_less :: "'c cfg_startup_hook \<Rightarrow> 'c cfg_startup_hook \<Rightarrow> bool" where
  "hook_less x y =
     (if hook_priority x \<noteq> hook_priority y then hook_priority x < hook_priority y
      else hook_order x < hook_order y)"

definition sort_hooks :: "'c cfg_startup_hook list \<Rightarrow> 'c cfg_startup_hook list" where
  "sort_hooks = slice_sort_unstable_by hook_less"

section \<open>The order\<close>

lemma sort_by_stable_key:
  fixes key :: "'a \<Rightarrow> 'k::linorder" and order :: "'a \<Rightarrow> nat"
  assumes "sorted_wrt (<) (map order xs)"
  shows "slice_sort_unstable_by (\<lambda>x y. (key x, order x) < (key y, order y)) xs = sort_key key xs"
proof -
  let ?k = "\<lambda>x. (key x, order x)"
  have "inj_on order (set xs)"
    using assms by (simp add: strict_sorted_iff distinct_map)
  then have "inj_on ?k (set xs)" by (auto simp: inj_on_def)
  from slice_sort_unique[OF this] have "slice_sort_unstable_by (\<lambda>x y. ?k x < ?k y) xs = sort_key ?k xs" .
  also have "\<dots> = sort_key key xs"
  proof (rule properties_for_sort_key[symmetric])
    have "sorted (map ?k (sort_key ?k xs))" by simp
    then show "sorted (map key (sort_key ?k xs))"
      unfolding sorted_map by (rule sorted_wrt_mono_rel[rotated]) (auto simp: less_eq_prod_def)
    fix k
    have "sorted (map ?k (filter (\<lambda>x. k = key x) xs))"
    proof -
      have "sorted_wrt (\<lambda>x y. order x < order y) (filter (\<lambda>x. k = key x) xs)"
        using assms by (simp add: sorted_wrt_map sorted_wrt_filter)
      then show ?thesis unfolding sorted_map by (rule sorted_wrt_mono_rel[rotated]) auto
    qed
    then show "filter (\<lambda>x. k = key x) (sort_key ?k xs) = filter (\<lambda>x. k = key x) xs"
      by (simp add: filter_sort sort_key_id_if_sorted)
  qed simp
  finally show ?thesis .
qed

text \<open>Ascending priority, and the registration order among equal priorities.\<close>

definition hooks_registered :: "'c cfg_startup_hook list \<Rightarrow> bool" where
  "hooks_registered hooks \<longleftrightarrow> map hook_order hooks = [0..<length hooks]"

lemma sort_hooks_stable:
  assumes "hooks_registered hooks"
  shows "sort_hooks hooks = sort_key hook_priority hooks"
proof -
  have eq: "hook_less = (\<lambda>x y. (hook_priority x, hook_order x) < (hook_priority y, hook_order y))"
    by (auto simp: fun_eq_iff hook_less_def less_prod_def)
  have "sorted_wrt (<) (map hook_order hooks)" using assms by (simp add: hooks_registered_def)
  then show ?thesis unfolding sort_hooks_def eq by (rule sort_by_stable_key)
qed

text \<open>The hooks \<open>fs\<close> registered one after the other with the same priority.\<close>

definition append_hooks :: "int \<Rightarrow> 'c list \<Rightarrow> 'c cfg_startup_hook list \<Rightarrow> 'c cfg_startup_hook list" where
  "append_hooks p fs hooks = hooks @
     map (\<lambda>(i, f). \<lparr>hook_start = f, hook_priority = p, hook_order = i\<rparr>) (enumerate (length hooks) fs)"

lemma append_hooks_Nil [simp]: "append_hooks p [] hooks = hooks"
  by (simp add: append_hooks_def)

lemma append_hooks_Cons:
  "append_hooks p (f # fs) hooks =
   append_hooks p fs (hooks @ [\<lparr>hook_start = f, hook_priority = p, hook_order = length hooks\<rparr>])"
  by (simp add: append_hooks_def)

lemma hooks_registered_append: "hooks_registered hooks \<Longrightarrow> hooks_registered (append_hooks p fs hooks)"
proof (induction fs arbitrary: hooks)
  case (Cons f fs)
  have "hooks_registered (hooks @ [\<lparr>hook_start = f, hook_priority = p, hook_order = length hooks\<rparr>])"
    using Cons.prems by (simp add: hooks_registered_def)
  then show ?case unfolding append_hooks_Cons by (rule Cons.IH)
qed simp

lemma startup_hook_finish_registered:
  "startup_hook_finish start p u hooks = Some hooks' \<Longrightarrow> hooks_registered hooks \<Longrightarrow> hooks_registered hooks'"
  by (auto simp: startup_hook_finish_def hooks_registered_def guard_eq_Some bind_eq_Some_conv)

end
