(* ===== verification/Bind_Sorter.thy ===== *)
theory Bind_Sorter
  imports Topological_Sort Startup_Hooks
begin

text \<open>
  The initialization order of bindings (\<^verbatim>\<open>r3_core/src/bind/sorter.rs\<close>, \<^verbatim>\<open>bind.rs\<close>): \<^verbatim>\<open>sort_bindings\<close>
  checks the borrowing rules, builds the graph of the initialization and sorts it.  The callback
  is a parameter: a record of its four methods on its state \<open>'s\<close>.  The vectors are those that
  \<^verbatim>\<open>CfgBindRegistry::finalize\<close> passes, which grow.
\<close>

section \<open>Bindings and their users\<close>

datatype bind_usage = UsageBind nat | UsageExecutable

datatype bind_borrow_type = Borrow | BorrowMut | Take | TakeRef | TakeMut

type_synonym bind_user = "bind_usage \<times> bind_borrow_type"

datatype sorter_error = BindCycle "nat list" | ConflictingIndefiniteBorrow nat

record 's sorter_callback =
  cb_push_bind_order :: "'s \<Rightarrow> nat \<Rightarrow> 's"
  cb_report_error :: "'s \<Rightarrow> sorter_error \<Rightarrow> 's option"
  cb_num_binds :: "'s \<Rightarrow> nat"
  cb_bind_users :: "'s \<Rightarrow> nat \<Rightarrow> bind_user list option"

record sorter_bind_info1 =
  borrowed_indefinitely :: "bool option"
  first_use_i :: "nat option"

definition sorter_bind_info1_init :: sorter_bind_info1 where
  "sorter_bind_info1_init = \<lparr>borrowed_indefinitely = None, first_use_i = None\<rparr>"

text \<open>The two predecessor counts of a binding: of its initialization and of its disowning.\<close>

record sorter_bind_info2 =
  temp_sort :: "nat \<times> nat"

definition sorter_bind_info2_init :: sorter_bind_info2 where
  "sorter_bind_info2_init = \<lparr>temp_sort = (0, 0)\<rparr>"

record sorter_use_info =
  use_bind_i :: nat
  use_borrow_type :: bind_borrow_type
  next_use_i :: "nat option"

section \<open>Vertices\<close>

datatype vertex = BindInit nat | BindDisown nat | VExecutable

fun vertex_discriminant :: "vertex \<Rightarrow> nat" where
  "vertex_discriminant (BindInit _) = 0"
| "vertex_discriminant (BindDisown _) = 1"
| "vertex_discriminant VExecutable = 2"

definition vertex_lt :: "vertex \<Rightarrow> vertex \<Rightarrow> bool" where
  "vertex_lt v w =
     (case (v, w) of
        (BindInit i, BindInit j) \<Rightarrow> i < j
      | (BindDisown i, BindDisown j) \<Rightarrow> i < j
      | (VExecutable, VExecutable) \<Rightarrow> False
      | _ \<Rightarrow> vertex_discriminant v < vertex_discriminant w)"

text \<open>The order of the vertices is total.\<close>

instantiation vertex :: linorder
begin

definition less_vertex :: "vertex \<Rightarrow> vertex \<Rightarrow> bool" where
  "less_vertex = vertex_lt"

definition less_eq_vertex :: "vertex \<Rightarrow> vertex \<Rightarrow> bool" where
  "less_eq_vertex v w = (v = w \<or> vertex_lt v w)"

instance
  by standard
    (auto simp: less_vertex_def less_eq_vertex_def vertex_lt_def split: vertex.splits)

end

section \<open>Collecting the uses\<close>

fun count_indefinite :: "bind_borrow_type \<Rightarrow> nat \<times> nat \<Rightarrow> nat \<times> nat" where
  "count_indefinite Borrow (shared, exclusive) = (shared, exclusive)"
| "count_indefinite BorrowMut (shared, exclusive) = (shared, exclusive)"
| "count_indefinite TakeRef (shared, exclusive) = (Suc shared, exclusive)"
| "count_indefinite Take (shared, exclusive) = (shared, Suc exclusive)"
| "count_indefinite TakeMut (shared, exclusive) = (shared, Suc exclusive)"

text \<open>\<^verbatim>\<open>unreachable!()\<close>: an executable object takes what it uses.\<close>

definition impossible_user :: "bind_user \<Rightarrow> bool" where
  "impossible_user u = (fst u = UsageExecutable \<and> snd u \<in> {Borrow, BorrowMut})"

type_synonym collect_state = "(nat \<times> nat) \<times> sorter_bind_info1 list \<times> sorter_use_info list"

text \<open>The body of the loop over the users of a binding: a use is put in front of the list of its user.\<close>

definition collect_user :: "nat \<Rightarrow> bind_user \<Rightarrow> collect_state \<Rightarrow> collect_state option" where
  "collect_user bind_i u = (\<lambda>(counts, temp_binds1, temp_uses).
     guard (\<not> impossible_user u)
      (let counts = count_indefinite (snd u) counts
       in case fst u of
            UsageExecutable \<Rightarrow> Some (counts, temp_binds1, temp_uses)
          | UsageBind user_bind_i \<Rightarrow>
              do { b \<leftarrow> slice_get temp_binds1 user_bind_i;
                   let use_i = length temp_uses;
                   let temp_uses = temp_uses @ [\<lparr>use_bind_i = bind_i, use_borrow_type = snd u,
                                                 next_use_i = first_use_i b\<rparr>];
                   temp_binds1 \<leftarrow> slice_set temp_binds1 user_bind_i (b\<lparr>first_use_i := Some use_i\<rparr>);
                   Some (counts, temp_binds1, temp_uses) }))"

text \<open>The second component says that the indefinite borrows conflict.\<close>

definition classify_indefinite :: "nat \<times> nat \<Rightarrow> bool option \<times> bool" where
  "classify_indefinite counts =
     (case counts of (shared, exclusive) \<Rightarrow>
        if exclusive = 0 then (if shared = 0 then None else Some False, False)
        else if shared = 0 \<and> exclusive = 1 then (Some True, False)
        else (Some False, True))"

definition collect_bind ::
  "'s sorter_callback \<Rightarrow> nat \<Rightarrow> 's \<times> sorter_bind_info1 list \<times> sorter_use_info list \<Rightarrow>
   ('s \<times> sorter_bind_info1 list \<times> sorter_use_info list) option" where
  "collect_bind C bind_i = (\<lambda>(s, temp_binds1, temp_uses).
     do { bind_users \<leftarrow> cb_bind_users C s bind_i;
          (counts, temp_binds1, temp_uses) \<leftarrow>
            for_each (collect_user bind_i) bind_users ((0, 0), temp_binds1, temp_uses);
          let (indefinite, conflict) = classify_indefinite counts;
          s \<leftarrow> (if conflict then cb_report_error C s (ConflictingIndefiniteBorrow bind_i) else Some s);
          b \<leftarrow> slice_get temp_binds1 bind_i;
          temp_binds1 \<leftarrow> slice_set temp_binds1 bind_i (b\<lparr>borrowed_indefinitely := indefinite\<rparr>);
          Some (s, temp_binds1, temp_uses) })"

section \<open>The graph\<close>

datatype vertex_iter_state = ViBindInit nat | ViBindDisown nat | ViExecutable | ViEnd

fun vertex_iter_step ::
  "sorter_bind_info1 list \<Rightarrow> vertex_iter_state \<Rightarrow> (vertex, vertex_iter_state) iter_step option" where
  "vertex_iter_step temp_binds1 (ViBindInit bind_i) =
     Some (if length temp_binds1 \<le> bind_i then Continue ViExecutable
           else Yield (BindInit bind_i) (ViBindDisown bind_i))"
| "vertex_iter_step temp_binds1 (ViBindDisown bind_i) =
     do { b \<leftarrow> slice_get temp_binds1 bind_i;
          Some (if borrowed_indefinitely b \<noteq> None
                then Yield (BindDisown bind_i) (ViBindInit (bind_i + 1))
                else Continue (ViBindInit (bind_i + 1))) }"
| "vertex_iter_step temp_binds1 ViExecutable = Some (Yield VExecutable ViEnd)"
| "vertex_iter_step temp_binds1 ViEnd = Some Done"

datatype successor_iter_state =
    BindInitToBorrowingUser nat nat
  | BindInitToDisown nat
  | BindInitToDependencyDisown nat "nat option"
  | BindDisownToTakingUser nat nat
  | SiEnd

fun usage_vertex :: "bind_usage \<Rightarrow> vertex" where
  "usage_vertex UsageExecutable = VExecutable"
| "usage_vertex (UsageBind user_bind_i) = BindInit user_bind_i"

fun successor_iter_step ::
  "'s sorter_callback \<Rightarrow> sorter_bind_info1 list \<Rightarrow> sorter_use_info list \<Rightarrow> 's \<Rightarrow>
   successor_iter_state \<Rightarrow> (vertex, successor_iter_state) iter_step option" where
  "successor_iter_step C temp_binds1 temp_uses s (BindInitToBorrowingUser bind_i bind_user_i) =
     do { bind_users \<leftarrow> cb_bind_users C s bind_i;
          Some (if bind_user_i < length bind_users then
                  (let u = bind_users ! bind_user_i; st = BindInitToBorrowingUser bind_i (bind_user_i + 1)
                   in if snd u \<in> {Borrow, BorrowMut} then Yield (usage_vertex (fst u)) st else Continue st)
                else Continue (BindInitToDisown bind_i)) }"
| "successor_iter_step C temp_binds1 temp_uses s (BindInitToDisown bind_i) =
     do { b \<leftarrow> slice_get temp_binds1 bind_i;
          let st = BindInitToDependencyDisown bind_i None;
          Some (if borrowed_indefinitely b \<noteq> None then Yield (BindDisown bind_i) st else Continue st) }"
| "successor_iter_step C temp_binds1 temp_uses s (BindInitToDependencyDisown bind_i (Some use_i)) =
     do { usage \<leftarrow> slice_get temp_uses use_i;
          b \<leftarrow> slice_get temp_binds1 (use_bind_i usage);
          let st = BindInitToDependencyDisown bind_i (next_use_i usage);
          Some (if use_borrow_type usage \<in> {Borrow, BorrowMut} \<and> borrowed_indefinitely b = Some True \<or>
                   use_borrow_type usage = BorrowMut \<and> borrowed_indefinitely b = Some False
                then Yield (BindDisown (use_bind_i usage)) st else Continue st) }"
| "successor_iter_step C temp_binds1 temp_uses s (BindInitToDependencyDisown bind_i None) =
     Some (Continue SiEnd)"
| "successor_iter_step C temp_binds1 temp_uses s (BindDisownToTakingUser bind_i bind_user_i) =
     do { bind_users \<leftarrow> cb_bind_users C s bind_i;
          Some (if bind_user_i < length bind_users then
                  (let u = bind_users ! bind_user_i; st = BindDisownToTakingUser bind_i (bind_user_i + 1)
                   in if snd u \<in> {Take, TakeRef, TakeMut} then Yield (usage_vertex (fst u)) st else Continue st)
                else Continue SiEnd) }"
| "successor_iter_step C temp_binds1 temp_uses s SiEnd = Some Done"


definition successors_start :: "sorter_bind_info1 list \<Rightarrow> vertex \<Rightarrow> successor_iter_state option" where
  "successors_start temp_binds1 v =
     (case v of
        VExecutable \<Rightarrow> Some SiEnd
      | BindInit bind_i \<Rightarrow> Some (BindInitToBorrowingUser bind_i 0)
      | BindDisown bind_i \<Rightarrow>
          do { b \<leftarrow> slice_get temp_binds1 bind_i;
               Some (if borrowed_indefinitely b \<noteq> None then BindDisownToTakingUser bind_i 0 else SiEnd) })"

definition bind_graph ::
  "'s sorter_callback \<Rightarrow> sorter_bind_info1 list \<Rightarrow> sorter_use_info list \<Rightarrow> ('s, vertex) graph_access" where
  "bind_graph C temp_binds1 temp_uses =
     \<lparr>ga_vertices = (\<lambda>_. collect_items (vertex_iter_step temp_binds1) (ViBindInit 0)),
      ga_successors = (\<lambda>s v. do { st \<leftarrow> successors_start temp_binds1 v;
                                   collect_items (successor_iter_step C temp_binds1 temp_uses s) st })\<rparr>"

section \<open>Sorting\<close>

text \<open>\<^verbatim>\<open>MyTopologicalSortOutputSink\<close>\<close>

definition sort_output :: "'s sorter_callback \<Rightarrow> 's \<Rightarrow> vertex \<Rightarrow> 's" where
  "sort_output C s v = (case v of BindInit bind_i \<Rightarrow> cb_push_bind_order C s bind_i | _ \<Rightarrow> s)"

record vertex_infos =
  executable_info :: nat
  infos2 :: "sorter_bind_info2 list"

definition vertex_info_get :: "vertex_infos \<Rightarrow> vertex \<Rightarrow> nat option" where
  "vertex_info_get m v =
     (case v of
        VExecutable \<Rightarrow> Some (executable_info m)
      | BindInit bind_i \<Rightarrow> do { b \<leftarrow> slice_get (infos2 m) bind_i; Some (fst (temp_sort b)) }
      | BindDisown bind_i \<Rightarrow> do { b \<leftarrow> slice_get (infos2 m) bind_i; Some (snd (temp_sort b)) })"

definition vertex_info_set :: "vertex_infos \<Rightarrow> vertex \<Rightarrow> nat \<Rightarrow> vertex_infos option" where
  "vertex_info_set m v n =
     (case v of
        VExecutable \<Rightarrow> Some (m\<lparr>executable_info := n\<rparr>)
      | BindInit bind_i \<Rightarrow>
          do { b \<leftarrow> slice_get (infos2 m) bind_i;
               bs \<leftarrow> slice_set (infos2 m) bind_i (b\<lparr>temp_sort := (n, snd (temp_sort b))\<rparr>);
               Some (m\<lparr>infos2 := bs\<rparr>) }
      | BindDisown bind_i \<Rightarrow>
          do { b \<leftarrow> slice_get (infos2 m) bind_i;
               bs \<leftarrow> slice_set (infos2 m) bind_i (b\<lparr>temp_sort := (fst (temp_sort b), n)\<rparr>);
               Some (m\<lparr>infos2 := bs\<rparr>) })"

definition vertex_info_map :: "(vertex_infos, vertex) info_map" where
  "vertex_info_map = \<lparr>im_get = vertex_info_get, im_set = vertex_info_set\<rparr>"

definition sort_bindings ::
  "'s sorter_callback \<Rightarrow> sorter_bind_info1 list \<Rightarrow> sorter_bind_info2 list \<Rightarrow> sorter_use_info list \<Rightarrow>
   vertex list \<Rightarrow> 's \<Rightarrow> 's option" where
  "sort_bindings C temp_binds1 temp_binds2 temp_uses temp_vertices s =
     (let num_binds = cb_num_binds C s
      in guard (num_binds \<le> length temp_binds1 \<and> num_binds \<le> length temp_binds2 \<and>
                temp_uses = [] \<and> temp_vertices = [])
          (do { (s, temp_binds1, temp_uses) \<leftarrow>
                  for_each (collect_bind C) [0..<num_binds] (s, temp_binds1, temp_uses);
                (success, s) \<leftarrow>
                  topological_sort (bind_graph C temp_binds1 temp_uses) vertex_lt (sort_output C)
                    temp_vertices vertex_info_map \<lparr>executable_info = 0, infos2 = temp_binds2\<rparr> s;
                if success then Some s else cb_report_error C s (BindCycle []) }))"

section \<open>The binding registry\<close>

text \<open>
  \<^verbatim>\<open>CfgBindRegistry\<close>; an initializer is a closure of the application.  The callback reports every
  error by a panic; \<open>finalize_binds\<close> registers the initializers as startup hooks.
\<close>

record 'c cfg_bind_info =
  initializer :: "'c option"
  cfg_users :: "bind_user list"

record 'c registry_callback =
  rc_binds :: "'c cfg_bind_info list"
  bind_init_order :: "nat list"

definition registry_callback_ops :: "'c registry_callback sorter_callback" where
  "registry_callback_ops =
     \<lparr>cb_push_bind_order = (\<lambda>s i. s\<lparr>bind_init_order := bind_init_order s @ [i]\<rparr>),
      cb_report_error = (\<lambda>_ _. None),
      cb_num_binds = (\<lambda>s. length (rc_binds s)),
      cb_bind_users = (\<lambda>s i. do { b \<leftarrow> slice_get (rc_binds s) i; Some (cfg_users b) })\<rparr>"

definition BIND_INIT_HOOK_PRIORITY :: int where
  "BIND_INIT_HOOK_PRIORITY = 0x40000000"

definition register_hook ::
  "'c cfg_bind_info list \<Rightarrow> nat \<Rightarrow> 'c cfg_startup_hook list \<Rightarrow> 'c cfg_startup_hook list option" where
  "register_hook binds bind_i hooks =
     do { b \<leftarrow> slice_get binds bind_i;
          case initializer b of
            Some f \<Rightarrow> startup_hook_finish (Some f) BIND_INIT_HOOK_PRIORITY False hooks
          | None \<Rightarrow> Some hooks }"

definition finalize_binds ::
  "'c cfg_bind_info list \<Rightarrow> 'c cfg_startup_hook list \<Rightarrow> 'c cfg_startup_hook list option" where
  "finalize_binds binds hooks =
     do { s \<leftarrow> sort_bindings registry_callback_ops
                (replicate (length binds) sorter_bind_info1_init)
                (replicate (length binds) sorter_bind_info2_init) [] []
                \<lparr>rc_binds = binds, bind_init_order = []\<rparr>;
          for_each (register_hook binds) (bind_init_order s) hooks }"

text \<open>The startup hooks of \<^verbatim>\<open>finish_phase1\<close>, in the order in which the boot sequence calls them.\<close>

definition phase1_startup_hooks ::
  "cfg_st \<Rightarrow> 'c cfg_bind_info list \<Rightarrow> 'c cfg_startup_hook list \<Rightarrow> 'c list option" where
  "phase1_startup_hooks st binds hooks =
     guard (st = Phase1)
      (do { hooks \<leftarrow> finalize_binds binds hooks; Some (map hook_start (sort_hooks hooks)) })"

section \<open>What is specified\<close>

definition shared_borrows :: "bind_user list \<Rightarrow> nat" where
  "shared_borrows us = length (filter (\<lambda>u. snd u = TakeRef) us)"

definition exclusive_borrows :: "bind_user list \<Rightarrow> nat" where
  "exclusive_borrows us = length (filter (\<lambda>u. snd u \<in> {Take, TakeMut}) us)"

text \<open>The tag \<^verbatim>\<open>bind_conflicting_take\<close>: one exclusive indefinite borrow or any number of shared ones.\<close>

definition conflicting :: "bind_user list \<Rightarrow> bool" where
  "conflicting us \<longleftrightarrow> 0 < exclusive_borrows us \<and> 1 < shared_borrows us + exclusive_borrows us"

definition indefinite :: "bind_user list \<Rightarrow> bool" where
  "indefinite us \<longleftrightarrow> (\<exists>u \<in> set us. snd u \<in> {Take, TakeRef, TakeMut})"

text \<open>What the definers ensure: only bindings that exist, and no definite borrow by an executable.\<close>

definition users_ok :: "bind_user list list \<Rightarrow> bool" where
  "users_ok uss \<longleftrightarrow> (\<forall>us \<in> set uss. \<forall>u \<in> set us. \<not> impossible_user u \<and>
     (\<forall>j. fst u = UsageBind j \<longrightarrow> j < length uss))"

definition bind_vertices :: "bind_user list list \<Rightarrow> nat \<Rightarrow> vertex list" where
  "bind_vertices uss i = BindInit i # (if indefinite (uss ! i) then [BindDisown i] else [])"

definition init_vertices :: "bind_user list list \<Rightarrow> vertex list" where
  "init_vertices uss = concat (map (bind_vertices uss) [0..<length uss]) @ [VExecutable]"

definition users_with :: "bind_borrow_type set \<Rightarrow> bind_user list \<Rightarrow> vertex list" where
  "users_with B us = map (\<lambda>u. usage_vertex (fst u)) (filter (\<lambda>u. snd u \<in> B) us)"

fun init_successors :: "bind_user list list \<Rightarrow> vertex \<Rightarrow> vertex list" where
  "init_successors uss (BindInit i) =
     users_with {Borrow, BorrowMut} (uss ! i) @ (if indefinite (uss ! i) then [BindDisown i] else [])"
| "init_successors uss (BindDisown i) = users_with {Take, TakeRef, TakeMut} (uss ! i)"
| "init_successors uss VExecutable = []"

section \<open>The phases\<close>

lemma indefinite_count: "indefinite us \<longleftrightarrow> 0 < shared_borrows us + exclusive_borrows us"
  by (auto simp: indefinite_def shared_borrows_def exclusive_borrows_def filter_empty_conv)

lemma classify_counts:
  "classify_indefinite (shared_borrows us, exclusive_borrows us) = (b, c) \<Longrightarrow>
   (b \<noteq> None) = indefinite us \<and> c = conflicting us"
  by (auto simp: classify_indefinite_def indefinite_count conflicting_def split: if_splits)

lemma count_indefinite_Cons:
  "count_indefinite (snd u) (a, b) = (a', b') \<Longrightarrow>
   a' + shared_borrows us = a + shared_borrows (u # us) \<and>
   b' + exclusive_borrows us = b + exclusive_borrows (u # us)"
  by (cases "snd u") (auto simp: shared_borrows_def exclusive_borrows_def)

lemma collect_users:
  assumes "\<forall>u \<in> set us. \<not> impossible_user u \<and> (\<forall>j. fst u = UsageBind j \<longrightarrow> j < length bs)"
  shows "\<exists>bs' uses'. for_each (collect_user i) us ((a, b), bs, uses) =
      Some ((a + shared_borrows us, b + exclusive_borrows us), bs', uses') \<and>
    map borrowed_indefinitely bs' = map borrowed_indefinitely bs"
  using assms
proof (induction us arbitrary: a b bs uses)
  case Nil
  then show ?case by (simp add: shared_borrows_def exclusive_borrows_def)
next
  case (Cons u us)
  obtain a' b' where ab: "count_indefinite (snd u) (a, b) = (a', b')" by fastforce
  have "\<exists>bs1 uses1. collect_user i u ((a, b), bs, uses) = Some ((a', b'), bs1, uses1) \<and>
      map borrowed_indefinitely bs1 = map borrowed_indefinitely bs"
    using Cons.prems
    by (cases "fst u") (auto simp: collect_user_def ab Let_def map_update intro: list_update_same_conv[THEN iffD2])
  then obtain bs1 uses1 where c: "collect_user i u ((a, b), bs, uses) = Some ((a', b'), bs1, uses1)"
    and bs1: "map borrowed_indefinitely bs1 = map borrowed_indefinitely bs" by blast
  then have "length bs1 = length bs" by (metis length_map)
  with Cons.IH[of bs1 a' b' uses1] Cons.prems count_indefinite_Cons[OF ab, of us] bs1 c
  show ?case by auto
qed

text \<open>The reports of the first phase.\<close>

definition report_conflict ::
  "'s sorter_callback \<Rightarrow> bind_user list list \<Rightarrow> nat \<Rightarrow> 's \<Rightarrow> 's option" where
  "report_conflict C uss i s =
     (if conflicting (uss ! i) then cb_report_error C s (ConflictingIndefiniteBorrow i) else Some s)"

locale bind_users_interface =
  fixes C :: "'s sorter_callback"
    and us :: "'s \<Rightarrow> bind_user list list"
  assumes num_binds: "cb_num_binds C s = length (us s)"
    and bind_users: "cb_bind_users C s i = slice_get (us s) i"
    and push_users: "us (cb_push_bind_order C s i) = us s"
    and report_users: "cb_report_error C s e = Some s' \<Longrightarrow> us s' = us s"
begin

lemma report_conflict_users: "report_conflict C uss i s = Some s' \<Longrightarrow> us s' = us s"
  by (auto simp: report_conflict_def report_users split: if_splits)

lemma collect_bind_eq:
  assumes "us s = uss" "users_ok uss" "i < length uss" "length bs = length uss"
  obtains (panic) "report_conflict C uss i s = None" "collect_bind C i (s, bs, uses) = None"
    | (ok) s' bs' uses' where "report_conflict C uss i s = Some s'" "us s' = uss"
        "collect_bind C i (s, bs, uses) = Some (s', bs', uses')" "length bs' = length uss"
        "\<And>j. j < length uss \<Longrightarrow> (borrowed_indefinitely (bs' ! j) \<noteq> None) =
          (if j = i then indefinite (uss ! i) else borrowed_indefinitely (bs ! j) \<noteq> None)"
proof -
  have "uss ! i \<in> set uss" using assms(3) by simp
  then have "\<forall>u \<in> set (uss ! i). \<not> impossible_user u \<and> (\<forall>j. fst u = UsageBind j \<longrightarrow> j < length bs)"
    using assms(2,4) by (auto simp: users_ok_def)
  from collect_users[OF this, of i 0 0 uses] obtain bs1 uses1 where
    c: "for_each (collect_user i) (uss ! i) ((0, 0), bs, uses) =
      Some ((shared_borrows (uss ! i), exclusive_borrows (uss ! i)), bs1, uses1)"
    and b: "map borrowed_indefinitely bs1 = map borrowed_indefinitely bs" by auto
  then have l: "length bs1 = length uss" using assms(4) by (metis length_map)
  have b': "borrowed_indefinitely (bs1 ! j) = borrowed_indefinitely (bs ! j)" if "j < length uss" for j
    using b l assms(4) that by (metis nth_map)
  obtain v cf where cl: "classify_indefinite (shared_borrows (uss ! i), exclusive_borrows (uss ! i)) = (v, cf)"
    by fastforce
  note vc = classify_counts[OF cl]
  let ?bs = "bs1[i := (bs1 ! i)\<lparr>borrowed_indefinitely := v\<rparr>]"
  have eq: "collect_bind C i (s, bs, uses) =
      map_option (\<lambda>s'. (s', ?bs, uses1)) (report_conflict C uss i s)"
    using assms c cl vc l
    by (cases "report_conflict C uss i s") (auto simp: collect_bind_def bind_users report_conflict_def split: if_splits)
  show thesis
  proof (cases "report_conflict C uss i s")
    case None
    then show ?thesis using eq panic by simp
  next
    case (Some s')
    then have "us s' = uss" using report_conflict_users assms(1) by simp
    then show ?thesis using ok[OF Some] eq Some l vc b' assms(3) by (simp add: nth_list_update)
  qed
qed

lemma collect_binds_eq:
  assumes "us s = uss" "users_ok uss" "set is \<subseteq> {..<length uss}" "length bs = length uss"
  obtains (panic) "for_each (report_conflict C uss) is s = None" "for_each (collect_bind C) is (s, bs, uses) = None"
    | (ok) s' bs' uses' where "for_each (report_conflict C uss) is s = Some s'" "us s' = uss"
        "for_each (collect_bind C) is (s, bs, uses) = Some (s', bs', uses')" "length bs' = length uss"
        "\<And>j. j < length uss \<Longrightarrow> (borrowed_indefinitely (bs' ! j) \<noteq> None) =
          (if j \<in> set is then indefinite (uss ! j) else borrowed_indefinitely (bs ! j) \<noteq> None)"
  using assms
proof (induction "is" arbitrary: s bs uses thesis)
  case Nil
  then show ?case by simp
next
  case (Cons i "is")
  have i: "i < length uss" using Cons.prems(5) by simp
  show ?case
  proof (rule collect_bind_eq[OF Cons.prems(3,4) i Cons.prems(6), of uses])
    assume "report_conflict C uss i s = None" "collect_bind C i (s, bs, uses) = None"
    then show ?thesis using Cons.prems(1) by simp
  next
    fix s1 bs1 uses1
    assume 1: "report_conflict C uss i s = Some s1" "us s1 = uss"
      "collect_bind C i (s, bs, uses) = Some (s1, bs1, uses1)" "length bs1 = length uss"
      "\<And>j. j < length uss \<Longrightarrow> (borrowed_indefinitely (bs1 ! j) \<noteq> None) =
        (if j = i then indefinite (uss ! i) else borrowed_indefinitely (bs ! j) \<noteq> None)"
    have sub: "set is \<subseteq> {..<length uss}" using Cons.prems(5) by simp
    show ?thesis
    proof (rule Cons.IH[OF _ _ 1(2) Cons.prems(4) sub 1(4), of uses1])
      assume "for_each (report_conflict C uss) is s1 = None"
        "for_each (collect_bind C) is (s1, bs1, uses1) = None"
      then show ?thesis using Cons.prems(1) 1 by simp
    next
      fix s' bs' uses'
      assume 2: "for_each (report_conflict C uss) is s1 = Some s'" "us s' = uss"
        "for_each (collect_bind C) is (s1, bs1, uses1) = Some (s', bs', uses')" "length bs' = length uss"
        "\<And>j. j < length uss \<Longrightarrow> (borrowed_indefinitely (bs' ! j) \<noteq> None) =
          (if j \<in> set is then indefinite (uss ! j) else borrowed_indefinitely (bs1 ! j) \<noteq> None)"
      have r: "for_each (report_conflict C uss) (i # is) s = Some s'"
        "for_each (collect_bind C) (i # is) (s, bs, uses) = Some (s', bs', uses')" using 1 2 by simp_all
      have "(borrowed_indefinitely (bs' ! j) \<noteq> None) =
          (if j \<in> set (i # is) then indefinite (uss ! j) else borrowed_indefinitely (bs ! j) \<noteq> None)"
        if "j < length uss" for j
        using 2(5)[OF that] 1(5)[OF that] by (cases "j = i"; cases "j \<in> set is") simp_all
      then show ?thesis by (rule Cons.prems(2)[OF r(1) 2(2) r(2) 2(4)])
    qed
  qed
qed

end


section \<open>The iterators\<close>

lemma collect_vertices:
  assumes "length bs = length uss"
    and "\<And>j. j < length uss \<Longrightarrow> (borrowed_indefinitely (bs ! j) \<noteq> None) = indefinite (uss ! j)"
  shows "collect_items (vertex_iter_step bs) (ViBindInit 0) = Some (init_vertices uss)"
proof -
  have "collect_items (vertex_iter_step bs) (ViBindInit i) =
      Some (concat (map (bind_vertices uss) [i..<length uss]) @ [VExecutable])"
    if "i \<le> length uss" for i
    using that
  proof (induction "length uss - i" arbitrary: i)
    case 0
    then show ?case using assms(1) by (simp add: collect_items.simps)
  next
    case (Suc n)
    then have i: "i < length uss" by simp
    then have "[i..<length uss] = i # [Suc i..<length uss]" by (simp add: upt_conv_Cons)
    moreover have "collect_items (vertex_iter_step bs) (ViBindInit (Suc i)) =
        Some (concat (map (bind_vertices uss) [Suc i..<length uss]) @ [VExecutable])"
      using Suc by simp
    ultimately show ?case using i assms(1) assms(2)[OF i]
      by (subst collect_items.simps, simp, subst collect_items.simps, auto simp: bind_vertices_def)
  qed
  from this[of 0] show ?thesis by (simp add: init_vertices_def)
qed

text \<open>Visiting the users from the \<open>k\<close>th on.\<close>

lemma collect_borrowing_users:
  assumes "cb_bind_users C s i = Some us" "k \<le> length us"
    and "collect_items (successor_iter_step C bs uses s) (BindInitToDisown i) = Some vs"
  shows "collect_items (successor_iter_step C bs uses s) (BindInitToBorrowingUser i k) =
    Some (users_with {Borrow, BorrowMut} (drop k us) @ vs)"
  using assms(2)
proof (induction "length us - k" arbitrary: k)
  case 0
  then show ?case using assms by (subst collect_items.simps) (simp add: users_with_def)
next
  case (Suc n)
  then have k: "k < length us" by simp
  then have "drop k us = us ! k # drop (Suc k) us" by (simp add: Cons_nth_drop_Suc)
  then show ?case using k Suc assms(1)
    by (subst collect_items.simps) (auto simp: users_with_def Let_def)
qed

lemma collect_taking_users:
  assumes "cb_bind_users C s i = Some us" "k \<le> length us"
  shows "collect_items (successor_iter_step C bs uses s) (BindDisownToTakingUser i k) =
    Some (users_with {Take, TakeRef, TakeMut} (drop k us))"
  using assms(2)
proof (induction "length us - k" arbitrary: k)
  case 0
  then show ?case using assms
    by (subst collect_items.simps, simp, subst collect_items.simps, simp add: users_with_def)
next
  case (Suc n)
  then have k: "k < length us" by simp
  then have "drop k us = us ! k # drop (Suc k) us" by (simp add: Cons_nth_drop_Suc)
  then show ?case using k Suc assms(1)
    by (subst collect_items.simps) (auto simp: users_with_def Let_def)
qed

text \<open>The list of the uses of a binding is not visited: the iterator starts behind its end.\<close>

lemma collect_disown:
  assumes "i < length bs"
  shows "collect_items (successor_iter_step C bs uses s) (BindInitToDisown i) =
    Some (if borrowed_indefinitely (bs ! i) \<noteq> None then [BindDisown i] else [])"
proof -
  have "collect_items (successor_iter_step C bs uses s) SiEnd = Some []"
    by (simp add: collect_items.simps)
  then have "collect_items (successor_iter_step C bs uses s) (BindInitToDependencyDisown i None) = Some []"
    by (subst collect_items.simps) simp
  then show ?thesis using assms by (subst collect_items.simps) auto
qed

lemma graph_successors:
  assumes users: "\<And>i. cb_bind_users C s i = slice_get uss i" and l: "length bs = length uss"
    and ind: "\<And>j. j < length uss \<Longrightarrow> (borrowed_indefinitely (bs ! j) \<noteq> None) = indefinite (uss ! j)"
    and v: "v \<in> set (init_vertices uss)"
  shows "ga_successors (bind_graph C bs uses) s v = Some (init_successors uss v)"
proof (cases v)
  case (BindInit i)
  then have i: "i < length uss" using v by (auto simp: init_vertices_def bind_vertices_def split: if_splits)
  then have u: "cb_bind_users C s i = Some (uss ! i)" by (simp add: users)
  have "i < length bs" using i l by simp
  from collect_borrowing_users[OF u le0 collect_disown[OF this]] show ?thesis
    using BindInit ind[OF i] by (simp add: bind_graph_def successors_start_def)
next
  case (BindDisown i)
  then have i: "i < length uss" and d: "indefinite (uss ! i)"
    using v by (auto simp: init_vertices_def bind_vertices_def split: if_splits)
  then have u: "cb_bind_users C s i = Some (uss ! i)" by (simp add: users)
  from collect_taking_users[OF u le0] show ?thesis
    using BindDisown ind[OF i] d i l by (simp add: bind_graph_def successors_start_def)
next
  case VExecutable
  then show ?thesis by (simp add: bind_graph_def successors_start_def collect_items.simps)
qed

section \<open>The graph and the counts meet the interfaces of the sort\<close>

lemma set_init_vertices:
  "set (init_vertices uss) = insert VExecutable
     (BindInit ` {..<length uss} \<union> BindDisown ` {i. i < length uss \<and> indefinite (uss ! i)})"
  by (auto simp: init_vertices_def bind_vertices_def split: if_splits)

lemma distinct_init_vertices: "distinct (init_vertices uss)"
proof -
  have "distinct (concat (map (bind_vertices uss) is))" if "distinct is" for "is"
    using that by (induction "is") (auto simp: bind_vertices_def split: if_splits)
  then show ?thesis by (auto simp: init_vertices_def bind_vertices_def split: if_splits)
qed

lemma closed_init_successors:
  assumes "users_ok uss" "v \<in> set (init_vertices uss)"
  shows "set (init_successors uss v) \<subseteq> set (init_vertices uss)"
proof -
  have users: "set (users_with B (uss ! i)) \<subseteq> set (init_vertices uss)" if "i < length uss" for B i
  proof
    fix w assume "w \<in> set (users_with B (uss ! i))"
    then obtain u where "u \<in> set (uss ! i)" "w = usage_vertex (fst u)" by (auto simp: users_with_def)
    moreover have "uss ! i \<in> set uss" using that by simp
    ultimately show "w \<in> set (init_vertices uss)"
      using assms(1) by (cases "fst u") (auto simp: users_ok_def set_init_vertices)
  qed
  show ?thesis
  proof (cases v)
    case (BindInit i)
    then have i: "i < length uss" using assms(2) by (auto simp: set_init_vertices)
    then have "indefinite (uss ! i) \<Longrightarrow> BindDisown i \<in> set (init_vertices uss)"
      by (simp add: set_init_vertices)
    with users[OF i] BindInit show ?thesis by auto
  next
    case (BindDisown i)
    then have i: "i < length uss" using assms(2) by (auto simp: set_init_vertices)
    with users[OF i] BindDisown show ?thesis by auto
  qed simp
qed

lemma vertex_info_set_get:
  "vertex_info_get m v \<noteq> None \<Longrightarrow>
   \<exists>m'. vertex_info_set m v n = Some m' \<and> vertex_info_get m' = (vertex_info_get m)(v \<mapsto> n)"
  by (cases v)
    (auto simp: vertex_info_get_def vertex_info_set_def slice_get_def fun_eq_iff nth_list_update
      split: vertex.splits if_splits Option.bind_splits)

definition infos1_ok :: "bind_user list list \<Rightarrow> sorter_bind_info1 list \<Rightarrow> bool" where
  "infos1_ok uss bs \<longleftrightarrow> length bs = length uss \<and>
     (\<forall>j < length uss. (borrowed_indefinitely (bs ! j) \<noteq> None) = indefinite (uss ! j))"


sublocale bind_users_interface \<subseteq> topo: topo_interface
    "bind_graph C bs uses" "sort_output C" vertex_info_map "init_vertices uss" "init_successors uss"
    "\<lambda>s. us s = uss \<and> users_ok uss \<and> infos1_ok uss bs" for bs uses uss
proof
  fix s v assume g: "us s = uss \<and> users_ok uss \<and> infos1_ok uss bs"
  then show "ga_vertices (bind_graph C bs uses) s = Some (init_vertices uss)"
    by (simp add: bind_graph_def infos1_ok_def collect_vertices)
  show "us (sort_output C s v) = uss \<and> users_ok uss \<and> infos1_ok uss bs"
    using g by (simp add: sort_output_def push_users split: vertex.split)
  assume v: "v \<in> set (init_vertices uss)"
  show "ga_successors (bind_graph C bs uses) s v = Some (init_successors uss v)"
    by (rule graph_successors) (use g v in \<open>auto simp: bind_users infos1_ok_def\<close>)
  show "set (init_successors uss v) \<subseteq> set (init_vertices uss)"
    using closed_init_successors g v by blast
qed (simp_all add: distinct_init_vertices vertex_info_map_def vertex_info_set_get)

section \<open>What the sort of the bindings does\<close>

definition bind_order :: "vertex list \<Rightarrow> nat list" where
  "bind_order os = concat (map (\<lambda>v. case v of BindInit i \<Rightarrow> [i] | _ \<Rightarrow> []) os)"

lemma foldl_sort_output: "foldl (sort_output C) s os = foldl (cb_push_bind_order C) s (bind_order os)"
  by (induction os arbitrary: s) (auto simp: bind_order_def sort_output_def split: vertex.split)

abbreviation init_edges :: "bind_user list list \<Rightarrow> (vertex \<times> vertex) set" where
  "init_edges uss \<equiv> edges (init_vertices uss) (init_successors uss)"

context bind_users_interface
begin

text \<open>All that happens is: the reports of conflicts, the pushes, and the report of a cycle.\<close>

lemma sort_bindings_eq:
  assumes "us s = uss" "users_ok uss"
  obtains os where "kahn_order (init_vertices uss) (init_successors uss) os"
    "acyclic (init_edges uss) \<longleftrightarrow> set os = set (init_vertices uss)"
    "sort_bindings C (replicate (length uss) sorter_bind_info1_init)
       (replicate (length uss) sorter_bind_info2_init) [] [] s =
     do { s \<leftarrow> for_each (report_conflict C uss) [0..<length uss] s;
          let s = foldl (cb_push_bind_order C) s (bind_order os);
          if acyclic (init_edges uss) then Some s else cb_report_error C s (BindCycle []) }"
proof -
  let ?bs = "replicate (length uss) sorter_bind_info1_init"
  let ?m = "\<lparr>executable_info = 0, infos2 = replicate (length uss) sorter_bind_info2_init\<rparr>"
  have l: "length ?bs = length uss" by simp
  have "set [0..<length uss] \<subseteq> {..<length uss}" by auto
  note phase = collect_binds_eq[OF assms this l, of "[]"]
  have m: "\<forall>v \<in> set (init_vertices uss). im_get vertex_info_map ?m v \<noteq> None"
    by (auto simp: set_init_vertices vertex_info_map_def vertex_info_get_def)
  have "infos1_ok uss
      (map (\<lambda>us. \<lparr>borrowed_indefinitely = (if indefinite us then Some True else None), first_use_i = None\<rparr>) uss)"
    by (auto simp: infos1_ok_def)
  then obtain bs0 where bs0: "infos1_ok uss bs0" by blast
  have "us s = uss \<and> users_ok uss \<and> infos1_ok uss bs0" using assms bs0 by simp
  from topo.topological_sort_ok[OF this m] obtain os where
    os: "kahn_order (init_vertices uss) (init_successors uss) os"
      "acyclic (init_edges uss) \<longleftrightarrow> set os = set (init_vertices uss)" by metis
  have sort: "topological_sort (bind_graph C bs uses) vertex_lt (sort_output C) [] vertex_info_map ?m s' =
      Some (acyclic (init_edges uss), foldl (cb_push_bind_order C) s' (bind_order os))"
    if "us s' = uss" "infos1_ok uss bs" for bs uses s'
  proof -
    have "us s' = uss \<and> users_ok uss \<and> infos1_ok uss bs" using assms that by simp
    from topo.topological_sort_ok[OF this m] obtain os' where
      os': "kahn_order (init_vertices uss) (init_successors uss) os'"
        "topological_sort (bind_graph C bs uses) (<) (sort_output C) [] vertex_info_map ?m s' =
          Some (acyclic (init_edges uss), foldl (sort_output C) s' os')" by metis
    from kahn_order_unique[OF os'(1) os(1)] os'(2) show ?thesis
      by (simp add: foldl_sort_output less_vertex_def)
  qed
  show thesis
  proof (rule that[OF os])
    show "sort_bindings C ?bs (replicate (length uss) sorter_bind_info2_init) [] [] s =
     do { s \<leftarrow> for_each (report_conflict C uss) [0..<length uss] s;
          let s = foldl (cb_push_bind_order C) s (bind_order os);
          if acyclic (init_edges uss) then Some s else cb_report_error C s (BindCycle []) }"
    proof (rule phase)
      assume "for_each (report_conflict C uss) [0..<length uss] s = None"
        "for_each (collect_bind C) [0..<length uss] (s, ?bs, []) = None"
      then show ?thesis using assms(1) by (simp add: sort_bindings_def num_binds)
    next
      fix s' bs' uses'
      assume p: "for_each (report_conflict C uss) [0..<length uss] s = Some s'" "us s' = uss"
        "for_each (collect_bind C) [0..<length uss] (s, ?bs, []) = Some (s', bs', uses')" "length bs' = length uss"
        "\<And>j. j < length uss \<Longrightarrow> (borrowed_indefinitely (bs' ! j) \<noteq> None) =
          (if j \<in> set [0..<length uss] then indefinite (uss ! j) else borrowed_indefinitely (?bs ! j) \<noteq> None)"
      have "infos1_ok uss bs'" unfolding infos1_ok_def using p(4,5) by simp
      from sort[OF p(2) this, of uses'] show ?thesis
        using assms(1) p(1,3) by (simp add: sort_bindings_def num_binds Let_def)
    qed
  qed
qed

end

text \<open>The callback of the registry.\<close>

interpretation registry: bind_users_interface registry_callback_ops
    "\<lambda>s :: 'c registry_callback. map cfg_users (rc_binds s)"
  by unfold_locales (auto simp: registry_callback_ops_def slice_get_def split: Option.bind_splits)

end
