(* ===== verification/Bind_Properties.thy ===== *)
theory Bind_Properties
  imports Bind_Sorter
begin

text \<open>
  The properties of the initialization order of bindings: what \<^verbatim>\<open>finalize\<close> promises, and the two
  rules of the module documentation that the code does not implement.
\<close>

definition init_hooks :: "'c cfg_bind_info list \<Rightarrow> nat list \<Rightarrow> 'c list" where
  "init_hooks binds order = List.map_filter (\<lambda>i. initializer (binds ! i)) order"

lemma register_hooks:
  assumes "set order \<subseteq> {..<length binds}"
  shows "for_each (register_hook binds) order hooks =
    Some (append_hooks BIND_INIT_HOOK_PRIORITY (init_hooks binds order) hooks)"
  using assms
proof (induction order arbitrary: hooks)
  case (Cons i order)
  then show ?case
    by (cases "initializer (binds ! i)")
      (simp_all add: register_hook_def init_hooks_def map_filter_simps startup_hook_finish_def
        append_hooks_Cons BIND_INIT_HOOK_PRIORITY_def)
qed (simp add: init_hooks_def map_filter_simps)

lemma registry_reports:
  "for_each (report_conflict registry_callback_ops uss) is s =
   (if \<exists>i \<in> set is. conflicting (uss ! i) then None else Some s)"
  by (induction "is") (auto simp: report_conflict_def registry_callback_ops_def)

lemma registry_panics: "cb_report_error registry_callback_ops s e = None"
  by (simp add: registry_callback_ops_def)

lemma registry_pushes:
  "bind_init_order (foldl (cb_push_bind_order registry_callback_ops) s order) = bind_init_order s @ order"
  by (induction order arbitrary: s) (simp_all add: registry_callback_ops_def)

lemma set_bind_order: "set (bind_order os) = {i. BindInit i \<in> set os}"
  by (induction os) (auto simp: bind_order_def split: vertex.splits)

lemma bind_order_append: "bind_order (xs @ ys) = bind_order xs @ bind_order ys"
  by (simp add: bind_order_def)

lemma distinct_bind_order: "distinct os \<Longrightarrow> distinct (bind_order os)"
proof (induction os)
  case (Cons v os)
  have "bind_order (v # os) = bind_order [v] @ bind_order os" using bind_order_append[of "[v]" os] by simp
  then show ?case using Cons by (cases v) (auto simp: set_bind_order[unfolded bind_order_def] bind_order_def)
qed (simp add: bind_order_def)

lemma finalize_binds_eq:
  assumes "users_ok (map cfg_users binds)"
  obtains os where "kahn_order (init_vertices (map cfg_users binds)) (init_successors (map cfg_users binds)) os"
    "acyclic (init_edges (map cfg_users binds)) \<longleftrightarrow> set os = set (init_vertices (map cfg_users binds))"
    "finalize_binds binds hooks =
       (if (\<exists>us \<in> set (map cfg_users binds). conflicting us) \<or> \<not> acyclic (init_edges (map cfg_users binds))
        then None else Some (append_hooks BIND_INIT_HOOK_PRIORITY (init_hooks binds (bind_order os)) hooks))"
proof -
  let ?uss = "map cfg_users binds"
  let ?s = "\<lparr>rc_binds = binds, bind_init_order = []\<rparr>"
  have "map cfg_users (rc_binds ?s) = ?uss" by simp
  from registry.sort_bindings_eq[OF this assms] obtain os where
    os: "kahn_order (init_vertices ?uss) (init_successors ?uss) os"
      "acyclic (init_edges ?uss) \<longleftrightarrow> set os = set (init_vertices ?uss)" and
    sort: "sort_bindings registry_callback_ops (replicate (length ?uss) sorter_bind_info1_init)
        (replicate (length ?uss) sorter_bind_info2_init) [] [] ?s =
      do { s \<leftarrow> for_each (report_conflict registry_callback_ops ?uss) [0..<length ?uss] ?s;
           let s = foldl (cb_push_bind_order registry_callback_ops) s (bind_order os);
           if acyclic (init_edges ?uss) then Some s
           else cb_report_error registry_callback_ops s (BindCycle []) }" .
  have "set os \<subseteq> set (init_vertices ?uss)" using os(1) least_first_vertices by (auto simp: kahn_order_def)
  then have "set (bind_order os) \<subseteq> {..<length binds}" by (auto simp: set_bind_order set_init_vertices)
  note hooks = register_hooks[OF this, of hooks]
  have "set ?uss = (!) ?uss ` set [0..<length ?uss]" by (metis list.set_map map_nth)
  then have ex: "(\<exists>i \<in> set [0..<length ?uss]. conflicting (?uss ! i)) \<longleftrightarrow> (\<exists>us \<in> set ?uss. conflicting us)"
    by (metis (mono_tags, lifting) imageE imageI)
  show thesis
  proof (rule that[OF os])
    show "finalize_binds binds hooks =
       (if (\<exists>us \<in> set ?uss. conflicting us) \<or> \<not> acyclic (init_edges ?uss)
        then None else Some (append_hooks BIND_INIT_HOOK_PRIORITY (init_hooks binds (bind_order os)) hooks))"
      using sort[unfolded registry_reports ex] hooks
      by (simp add: finalize_binds_def registry_pushes registry_panics Let_def)
  qed
qed

lemma user_behind_binding:
  assumes k: "least_first (init_vertices uss) (init_successors uss) os"
    and all: "set os = set (init_vertices uss)" and u: "(UsageBind j, b) \<in> set (uss ! i)"
    and i: "i < length uss" and j: "j < length uss"
  shows "\<exists>xs ys. bind_order os = xs @ j # ys \<and> i \<in> set xs"
proof -
  have "BindInit j \<in> set os" using all j by (simp add: set_init_vertices)
  then obtain xs ys where os: "os = xs @ BindInit j # ys" by (meson split_list)
  have "BindInit i \<in> set xs"
  proof (cases "b \<in> {Borrow, BorrowMut}")
    case True
    then have "(BindInit i, BindInit j) \<in> init_edges uss"
      using u i by (force simp: edges_def set_init_vertices users_with_def)
    with k os show ?thesis using least_first_edge by blast
  next
    case False
    then have t: "b \<in> {Take, TakeRef, TakeMut}" by (cases b) auto
    then have ind: "indefinite (uss ! i)" using u by (force simp: indefinite_def)
    then have "(BindDisown i, BindInit j) \<in> init_edges uss"
      using u i t by (force simp: edges_def set_init_vertices users_with_def)
    with k os have "BindDisown i \<in> set xs" using least_first_edge by blast
    then obtain as bs where xs: "xs = as @ BindDisown i # bs" by (meson split_list)
    have "(BindInit i, BindDisown i) \<in> init_edges uss" using ind i by (simp add: edges_def set_init_vertices)
    moreover have "os = as @ BindDisown i # (bs @ BindInit j # ys)" using os xs by simp
    ultimately have "BindInit i \<in> set as" using k least_first_edge by blast
    then show ?thesis using xs by simp
  qed
  then have "bind_order os = bind_order xs @ j # bind_order ys \<and> i \<in> set (bind_order xs)"
    using os by (simp add: set_bind_order bind_order_append) (simp add: bind_order_def)
  then show ?thesis by blast
qed

text \<open>
  C13: The initialization order of bindings. The first phase of the configuration succeeds if and only
  if no binding has conflicting indefinite borrows and the initialization graph is acyclic. Then the
  boot sequence calls the startup hooks of the application and the initializers of the bindings in
  the ascending order of priority and in the order of registration among equals; the initializers
  are registered in an order of all bindings in which every binding comes before all the bindings
  whose initializers use it, the one that takes the smallest possible vertex at every place.
\<close>

theorem bindings_initialized_before_use:
  assumes "users_ok (map cfg_users binds)" "hooks_registered hooks"
  shows "(phase1_startup_hooks Phase1 binds hooks \<noteq> None \<longleftrightarrow>
      \<not> (\<exists>us \<in> set (map cfg_users binds). conflicting us) \<and> acyclic (init_edges (map cfg_users binds))) \<and>
    (\<forall>starts. phase1_startup_hooks Phase1 binds hooks = Some starts \<longrightarrow>
      (\<exists>os order. kahn_order (init_vertices (map cfg_users binds)) (init_successors (map cfg_users binds)) os \<and>
         order = bind_order os \<and>
         starts = map hook_start
           (sort_key hook_priority (append_hooks BIND_INIT_HOOK_PRIORITY (init_hooks binds order) hooks)) \<and>
         distinct order \<and> set order = {..<length binds} \<and>
         (\<forall>i < length binds. \<forall>j b. (UsageBind j, b) \<in> set (cfg_users (binds ! i)) \<longrightarrow>
            (\<exists>xs ys. order = xs @ j # ys \<and> i \<in> set xs))))"
proof -
  let ?uss = "map cfg_users binds"
  obtain os where os: "kahn_order (init_vertices ?uss) (init_successors ?uss) os"
    "acyclic (init_edges ?uss) \<longleftrightarrow> set os = set (init_vertices ?uss)"
    and f: "finalize_binds binds hooks =
       (if (\<exists>us \<in> set ?uss. conflicting us) \<or> \<not> acyclic (init_edges ?uss)
        then None else Some (append_hooks BIND_INIT_HOOK_PRIORITY (init_hooks binds (bind_order os)) hooks))"
    using finalize_binds_eq[OF assms(1)] .
  have lf: "least_first (init_vertices ?uss) (init_successors ?uss) os" using os(1) by (simp add: kahn_order_def)
  have order: "distinct (bind_order os)" using least_first_vertices[OF lf] by (simp add: distinct_bind_order)
  have "\<exists>xs ys. bind_order os = xs @ j # ys \<and> i \<in> set xs"
    if "set os = set (init_vertices ?uss)" "i < length binds" "(UsageBind j, b) \<in> set (cfg_users (binds ! i))" for i j b
  proof (rule user_behind_binding[OF lf that(1)])
    show "(UsageBind j, b) \<in> set (?uss ! i)" "i < length ?uss" using that by simp_all
    then show "j < length ?uss" using assms(1) by (fastforce simp: users_ok_def)
  qed
  moreover have "set (bind_order os) = {..<length binds}" if "set os = set (init_vertices ?uss)"
    using that by (auto simp: set_bind_order set_init_vertices)
  moreover have "phase1_startup_hooks Phase1 binds hooks =
       (if (\<exists>us \<in> set ?uss. conflicting us) \<or> \<not> acyclic (init_edges ?uss) then None
        else Some (map hook_start
           (sort_key hook_priority (append_hooks BIND_INIT_HOOK_PRIORITY (init_hooks binds (bind_order os)) hooks))))"
    using f sort_hooks_stable[OF hooks_registered_append[OF assms(2)]] by (simp add: phase1_startup_hooks_def)
  ultimately show ?thesis using os order by (auto split: if_splits)
qed

lemma bindings_initialized_before_use_witness:
  "\<exists>os. phase1_startup_hooks Phase1
     [\<lparr>initializer = Some (10 :: nat), cfg_users = [(UsageExecutable, TakeMut)]\<rparr>,
      \<lparr>initializer = Some 11, cfg_users = [(UsageBind 0, Borrow), (UsageBind 2, BorrowMut)]\<rparr>,
      \<lparr>initializer = Some 12, cfg_users = [(UsageBind 0, TakeRef), (UsageExecutable, TakeRef)]\<rparr>]
     [\<lparr>hook_start = 20, hook_priority = 0x50000000, hook_order = 0\<rparr>,
      \<lparr>hook_start = 21, hook_priority = 0, hook_order = 1\<rparr>] = Some [21, 11, 12, 10, 20] \<and>
   distinct (bind_order os) \<and> set (bind_order os) = {..<3}"
proof -
  let ?b = "[\<lparr>initializer = Some (10 :: nat), cfg_users = [(UsageExecutable, TakeMut)]\<rparr>,
      \<lparr>initializer = Some 11, cfg_users = [(UsageBind 0, Borrow), (UsageBind 2, BorrowMut)]\<rparr>,
      \<lparr>initializer = Some 12, cfg_users = [(UsageBind 0, TakeRef), (UsageExecutable, TakeRef)]\<rparr>]"
  let ?h = "[\<lparr>hook_start = 20, hook_priority = 0x50000000, hook_order = 0\<rparr>,
      \<lparr>hook_start = 21, hook_priority = 0, hook_order = 1\<rparr>]"
  have f: "phase1_startup_hooks Phase1 ?b ?h = Some [21, 11, 12, 10, 20]" by code_simp
  have "users_ok (map cfg_users ?b)" by (simp add: users_ok_def impossible_user_def)
  moreover have "hooks_registered ?h" by (simp add: hooks_registered_def)
  ultimately obtain os where
    "distinct (bind_order os)" "set (bind_order os) = {..<length ?b}"
    using bindings_initialized_before_use[of ?b ?h] f by blast
  with f show ?thesis by auto
qed

section \<open>Rules that the code does not implement\<close>

text \<open>
  The edges of the module documentation. The last two sets (the tags
  \<^verbatim>\<open>bind_topo_edge_borrow_any_vs_take_mut\<close> and \<^verbatim>\<open>bind_topo_edge_borrow_mut_vs_take_ref\<close>) end a
  temporary borrow before the value is given away.
\<close>

definition documented_edges :: "bind_user list list \<Rightarrow> (vertex \<times> vertex) set" where
  "documented_edges uss =
     {(BindInit i, usage_vertex (fst u)) |i u. i < length uss \<and> u \<in> set (uss ! i) \<and> snd u \<in> {Borrow, BorrowMut}} \<union>
     {(BindDisown i, usage_vertex (fst u)) |i u. i < length uss \<and> u \<in> set (uss ! i) \<and> snd u \<in> {Take, TakeRef, TakeMut}} \<union>
     {(BindInit i, BindDisown i) |i. i < length uss \<and> indefinite (uss ! i)}"

definition documented_exclusion_edges :: "bind_user list list \<Rightarrow> (vertex \<times> vertex) set" where
  "documented_exclusion_edges uss =
     {(usage_vertex (fst u), BindDisown i) |i u. i < length uss \<and> u \<in> set (uss ! i) \<and>
        snd u \<in> {Borrow, BorrowMut} \<and> (\<exists>t \<in> set (uss ! i). snd t \<in> {Take, TakeMut})} \<union>
     {(usage_vertex (fst u), BindDisown i) |i u. i < length uss \<and> u \<in> set (uss ! i) \<and>
        snd u = BorrowMut \<and> (\<exists>t \<in> set (uss ! i). snd t = TakeRef)}"

lemma mem_users_with: "w \<in> set (users_with B us) \<longleftrightarrow> (\<exists>u \<in> set us. snd u \<in> B \<and> w = usage_vertex (fst u))"
  by (auto simp: users_with_def)

lemma usage_vertex_not_disown [simp]: "usage_vertex x \<noteq> BindDisown i"
  by (cases x) auto

lemma init_edges_documented: "init_edges uss = documented_edges uss"
proof (intro set_eqI iffI)
  fix e assume "e \<in> init_edges uss"
  then obtain v w where e: "e = (v, w)" "v \<in> set (init_vertices uss)" "w \<in> set (init_successors uss v)"
    by (auto simp: edges_def)
  then show "e \<in> documented_edges uss"
    by (cases v) (auto simp: set_init_vertices documented_edges_def mem_users_with split: if_splits; blast)+
next
  fix e assume "e \<in> documented_edges uss"
  then consider (borrow) i u where "e = (BindInit i, usage_vertex (fst u))" "i < length uss" "u \<in> set (uss ! i)" "snd u \<in> {Borrow, BorrowMut}"
    | (take) i u where "e = (BindDisown i, usage_vertex (fst u))" "i < length uss" "u \<in> set (uss ! i)" "snd u \<in> {Take, TakeRef, TakeMut}"
    | (disown) i where "e = (BindInit i, BindDisown i)" "i < length uss" "indefinite (uss ! i)"
    unfolding documented_edges_def by blast
  then show "e \<in> init_edges uss"
  proof cases
    case (borrow i u)
    then show ?thesis by (auto simp: edges_def set_init_vertices mem_users_with)
  next
    case (take i u)
    then have "indefinite (uss ! i)" by (auto simp: indefinite_def)
    with take show ?thesis by (auto simp: edges_def set_init_vertices mem_users_with)
  next
    case (disown i)
    then show ?thesis by (auto simp: edges_def set_init_vertices)
  qed
qed

lemma documented_take_edge:
  "i < length uss \<Longrightarrow> u \<in> set (uss ! i) \<Longrightarrow> snd u \<in> {Take, TakeRef, TakeMut} \<Longrightarrow>
   (BindDisown i, usage_vertex (fst u)) \<in> documented_edges uss"
  unfolding documented_edges_def by blast

lemma documented_exclusion_edge:
  "i < length uss \<Longrightarrow> u \<in> set (uss ! i) \<Longrightarrow> snd u \<in> {Borrow, BorrowMut} \<Longrightarrow>
   t \<in> set (uss ! i) \<Longrightarrow> snd t \<in> {Take, TakeMut} \<Longrightarrow>
   (usage_vertex (fst u), BindDisown i) \<in> documented_exclusion_edges uss"
  unfolding documented_exclusion_edges_def by blast

lemma documented_borrow_edge:
  "i < length uss \<Longrightarrow> u \<in> set (uss ! i) \<Longrightarrow> snd u \<in> {Borrow, BorrowMut} \<Longrightarrow>
   (BindInit i, usage_vertex (fst u)) \<in> documented_edges uss"
  unfolding documented_edges_def by blast

text \<open>
  Binding 1 takes \<open>&'static mut\<close> to the value of binding 0; binding 2 borrows the values of both.
\<close>

definition taken_and_borrowed :: "nat cfg_bind_info list" where
  "taken_and_borrowed =
     [\<lparr>initializer = Some 10, cfg_users = [(UsageBind 1, TakeMut), (UsageBind 2, Borrow)]\<rparr>,
      \<lparr>initializer = Some 11, cfg_users = [(UsageBind 2, Borrow)]\<rparr>,
      \<lparr>initializer = Some 12, cfg_users = []\<rparr>]"

lemma taken_and_borrowed_users:
  "map cfg_users taken_and_borrowed = [[(UsageBind 1, TakeMut), (UsageBind 2, Borrow)], [(UsageBind 2, Borrow)], []]"
  by (simp add: taken_and_borrowed_def)

text \<open>
  C14: The edges of the graph that is sorted are those of the first three rules of the module
  documentation and no others; the two rules on exclusion have no effect, because the iterator over
  the successors starts at the end of the list of uses. So a configuration is accepted in which the
  initializer of binding 1 takes \<open>&'static mut\<close> to the value of binding 0 and the initializer of
  binding 2, which runs later, borrows the same value; the documented graph of this configuration
  has a cycle, and it should be rejected.
\<close>

theorem exclusion_rules_have_no_effect:
  "(\<forall>uss. init_edges uss = documented_edges uss) \<and>
   phase1_startup_hooks Phase1 taken_and_borrowed [] = Some [10, 11, 12] \<and>
   \<not> acyclic (documented_edges (map cfg_users taken_and_borrowed) \<union>
              documented_exclusion_edges (map cfg_users taken_and_borrowed))"
proof (intro conjI allI)
  show "phase1_startup_hooks Phase1 taken_and_borrowed [] = Some [10, 11, 12]" by code_simp
  let ?E = "documented_edges (map cfg_users taken_and_borrowed) \<union>
    documented_exclusion_edges (map cfg_users taken_and_borrowed)"
  have "(BindDisown 0, BindInit 1) \<in> ?E" "(BindInit 1, BindInit 2) \<in> ?E" "(BindInit 2, BindDisown 0) \<in> ?E"
    unfolding taken_and_borrowed_users
    using documented_take_edge[of 0 "[[(UsageBind 1, TakeMut), (UsageBind 2, Borrow)], [(UsageBind 2, Borrow)], []]" "(UsageBind 1, TakeMut)"]
      documented_borrow_edge[of 1 "[[(UsageBind 1, TakeMut), (UsageBind 2, Borrow)], [(UsageBind 2, Borrow)], []]" "(UsageBind 2, Borrow)"]
      documented_exclusion_edge[of 0 "[[(UsageBind 1, TakeMut), (UsageBind 2, Borrow)], [(UsageBind 2, Borrow)], []]"
        "(UsageBind 2, Borrow)" "(UsageBind 1, TakeMut)"]
    by simp_all
  then have "(BindDisown 0, BindDisown 0) \<in> ?E\<^sup>+" by (meson trancl.simps)
  then show "\<not> acyclic ?E" by (auto simp: acyclic_def)
qed (rule init_edges_documented)

end
