(* ===== verification/Interrupt_Config.thy ===== *)
theory Interrupt_Config
  imports Startup_Hooks
begin

text \<open>
  Interrupt lines and interrupt handlers in the configuration
  (\<^verbatim>\<open>r3_core/src/kernel/interrupt.rs\<close>, \<^verbatim>\<open>cfg.rs\<close>; \<^verbatim>\<open>r3_kernel/src/cfg/interrupt.rs\<close>,
  \<^verbatim>\<open>interrupt.rs\<close>): their definition, the sorting of the handlers, the combined handlers of
  the interrupt lines, and the table of the kernel.  Closures \<open>'c\<close>, their effect, and the port are
  parameters.
\<close>

section \<open>Interrupt lines and handlers\<close>

record cfg_interrupt_line_info =
  il_num :: nat
  il_priority :: "int option"
  il_enabled :: bool

record 'c cfg_interrupt_handler =
  ih_line :: nat
  ih_start :: 'c
  ih_priority :: int
  ih_unmanaged :: bool
  ih_order :: nat

record 'c cfg_interrupts =
  interrupt_lines :: "cfg_interrupt_line_info list"
  interrupt_handlers :: "'c cfg_interrupt_handler list"

definition vec_position :: "('a \<Rightarrow> bool) \<Rightarrow> 'a list \<Rightarrow> nat option" where
  "vec_position P xs = find (\<lambda>i. P (xs ! i)) [0..<length xs]"

text \<open>\<^verbatim>\<open>InterruptLineDefiner::finish\<close>: definitions of the same line are merged.\<close>

definition interrupt_line_finish ::
  "nat option \<Rightarrow> int option \<Rightarrow> bool \<Rightarrow> 'c cfg_interrupts \<Rightarrow> 'c cfg_interrupts option" where
  "interrupt_line_finish line priority enabled c =
     do { line_num \<leftarrow> line;
          let (i, lines) =
            (case vec_position (\<lambda>il. il_num il = line_num) (interrupt_lines c) of
               Some i \<Rightarrow> (i, interrupt_lines c)
             | None \<Rightarrow> (length (interrupt_lines c),
                 interrupt_lines c @ [\<lparr>il_num = line_num, il_priority = None, il_enabled = False\<rparr>]));
          il \<leftarrow> slice_get lines i;
          il \<leftarrow> (case priority of
                  Some p \<Rightarrow> guard (il_priority il = None) (Some (il\<lparr>il_priority := Some p\<rparr>))
                | None \<Rightarrow> Some il);
          let il = (if enabled then il\<lparr>il_enabled := True\<rparr> else il);
          lines \<leftarrow> slice_set lines i il;
          Some (c\<lparr>interrupt_lines := lines\<rparr>) }"

definition interrupt_handler_finish ::
  "nat option \<Rightarrow> 'c option \<Rightarrow> int \<Rightarrow> bool \<Rightarrow> 'c cfg_interrupts \<Rightarrow> 'c cfg_interrupts option" where
  "interrupt_handler_finish line start priority unmanaged c =
     do { line_num \<leftarrow> line;
          c \<leftarrow> interrupt_line_finish (Some line_num) None False c;
          let order = length (interrupt_handlers c);
          f \<leftarrow> start;
          Some (c\<lparr>interrupt_handlers := interrupt_handlers c @
            [\<lparr>ih_line = line_num, ih_start = f, ih_priority = priority,
              ih_unmanaged = unmanaged, ih_order = order\<rparr>]\<rparr>) }"

definition is_initially_managed :: "int \<times> int \<Rightarrow> cfg_interrupt_line_info \<Rightarrow> bool" where
  "is_initially_managed managed il =
     (case il_priority il of Some p \<Rightarrow> fst managed \<le> p \<and> p < snd managed | None \<Rightarrow> False)"

text \<open>\<open>False\<close> is the panic. The managed range and the managed lines are those of the port.\<close>

definition unmanaged_safety_holds ::
  "int \<times> int \<Rightarrow> nat list \<Rightarrow> cfg_interrupt_line_info list \<Rightarrow> 'c cfg_interrupt_handler list \<Rightarrow> bool" where
  "unmanaged_safety_holds managed managed_lines lines hs =
     list_all (\<lambda>h. ih_unmanaged h \<or>
        vec_position (\<lambda>il. il_num il = ih_line h \<and> is_initially_managed managed il) lines \<noteq> None \<or>
        ih_line h \<in> set managed_lines) hs"

definition handler_less :: "'c cfg_interrupt_handler \<Rightarrow> 'c cfg_interrupt_handler \<Rightarrow> bool" where
  "handler_less x y =
     (if ih_line x \<noteq> ih_line y then ih_line x < ih_line y
      else if ih_priority x \<noteq> ih_priority y then ih_priority x < ih_priority y
      else ih_order x < ih_order y)"

definition sort_handlers :: "'c cfg_interrupt_handler list \<Rightarrow> 'c cfg_interrupt_handler list" where
  "sort_handlers = slice_sort_unstable_by handler_less"

section \<open>Combined handlers\<close>

text \<open>
  What the handlers and the kernel do to the state \<open>'s\<close>: a call of a closure, and the functions of
  the kernel on CPU Lock.
\<close>

record ('c, 's) interrupt_env =
  env_call :: "'c \<Rightarrow> 's \<Rightarrow> 's"
  env_has_cpu_lock :: "'s \<Rightarrow> bool"
  env_release_cpu_lock :: "'s \<Rightarrow> 's"

definition relinquish_cpu_lock :: "('c, 's) interrupt_env \<Rightarrow> 's \<Rightarrow> 's" where
  "relinquish_cpu_lock E s = (if env_has_cpu_lock E s then env_release_cpu_lock E s else s)"

text \<open>\<^verbatim>\<open>proto_combined_handler::<T, I>\<close>; \<open>None\<close> is an index out of range.\<close>

function proto_combined_handler ::
  "('c, 's) interrupt_env \<Rightarrow> 'c cfg_interrupt_handler list \<Rightarrow> nat \<Rightarrow> 's \<Rightarrow> 's option" where
  "proto_combined_handler E hs i s =
     (if length hs \<le> i then None
      else
        let handler = hs ! i;
            s = env_call E (ih_start handler) s;
            next_i = i + 1
        in if length hs \<le> next_i \<or> ih_line (hs ! next_i) \<noteq> ih_line handler then Some s
           else proto_combined_handler E hs next_i (relinquish_cpu_lock E s))"
  by pat_completeness auto
termination
  by (relation "measure (\<lambda>(E, hs, i, s). length hs - i)") auto

declare proto_combined_handler.simps [simp del]

text \<open>
  \<^verbatim>\<open>COMBINED_HANDLERS\<close>: only the first handler of a line has one.  A combined handler is given by
  the index of the \<^verbatim>\<open>proto_combined_handler\<close> that it calls.
\<close>

definition combined_handler :: "'c cfg_interrupt_handler list \<Rightarrow> nat \<Rightarrow> nat option" where
  "combined_handler hs i =
     (if i = 0 \<or> ih_line (hs ! (i - 1)) \<noteq> ih_line (hs ! i) then Some i else None)"

definition interrupt_table_entry :: "'c cfg_interrupt_handler list \<Rightarrow> nat \<Rightarrow> nat option option" where
  "interrupt_table_entry hs line =
     (let i = lower_bound (length hs) (\<lambda>i. ih_line (hs ! i) < line)
      in if length hs \<le> i \<or> ih_line (hs ! i) \<noteq> line then Some None
         else guard (combined_handler hs i \<noteq> None) (Some (combined_handler hs i)))"

definition new_interrupt_handler_table ::
  "nat \<Rightarrow> 'c cfg_interrupt_handler list \<Rightarrow> nat option list option" where
  "new_interrupt_handler_table num_lines hs =
     guard (list_all (\<lambda>h. ih_line h < num_lines) hs)
      (those (map (interrupt_table_entry hs) [0..<num_lines]))"

definition num_required_interrupt_line_slots :: "'c cfg_interrupt_handler list \<Rightarrow> nat" where
  "num_required_interrupt_line_slots hs =
     foldl (\<lambda>out h. if out < ih_line h + 1 then ih_line h + 1 else out) 0 hs"

section \<open>The kernel side\<close>

record cfg_builder_interrupt_line =
  bl_line :: nat
  bl_priority :: "int option"
  bl_start :: "nat option"
  bl_enabled :: bool

text \<open>\<^verbatim>\<open>get(line).copied().flatten()\<close>\<close>

definition table_get :: "nat option list \<Rightarrow> nat \<Rightarrow> nat option" where
  "table_get table line = (case slice_get table line of Some (Some h) \<Rightarrow> Some h | _ \<Rightarrow> None)"

text \<open>
  \<^verbatim>\<open>finish_phase3_interrupt\<close>: every line is defined for the kernel with its combined handler, of the
  table that the first phase has made.
\<close>

definition finish_phase3_interrupt ::
  "int \<times> int \<Rightarrow> nat list \<Rightarrow> nat option list \<Rightarrow> cfg_st \<Rightarrow> 'c cfg_interrupts \<Rightarrow>
   (cfg_builder_interrupt_line list \<times> cfg_st \<times> 'c cfg_interrupts) option" where
  "finish_phase3_interrupt managed managed_lines table st c =
     guard (st = Phase3 False)
      (guard (unmanaged_safety_holds managed managed_lines (interrupt_lines c) (interrupt_handlers c))
        (Some (map (\<lambda>il. \<lparr>bl_line = il_num il, bl_priority = il_priority il,
                           bl_start = table_get table (il_num il), bl_enabled = il_enabled il\<rparr>)
                 (interrupt_lines c),
               Phase3 True, c\<lparr>interrupt_lines := [], interrupt_handlers := []\<rparr>)))"

definition interrupt_handler_table_len :: "cfg_builder_interrupt_line list \<Rightarrow> nat" where
  "interrupt_handler_table_len lines =
     foldl (\<lambda>num l. if num < bl_line l + 1 then bl_line l + 1 else num) 0 lines"

fun fill_interrupt_table ::
  "cfg_builder_interrupt_line list \<Rightarrow> nat option list \<Rightarrow> nat option list option" where
  "fill_interrupt_table [] table = Some table"
| "fill_interrupt_table (l # lines) table =
     do { table \<leftarrow> (case bl_start l of
            None \<Rightarrow> Some table
          | Some start \<Rightarrow>
              do { old \<leftarrow> slice_get table (bl_line l);
                   guard (old = None) (slice_set table (bl_line l) (Some start)) });
          fill_interrupt_table lines table }"

definition interrupt_handler_table ::
  "nat \<Rightarrow> cfg_builder_interrupt_line list \<Rightarrow> nat option list option" where
  "interrupt_handler_table len lines = fill_interrupt_table lines (replicate len None)"

text \<open>\<^verbatim>\<open>to_init\<close>: the flags are a bit set.\<close>

record interrupt_line_init =
  init_line :: nat
  init_priority :: int
  init_flags :: u32

definition flag_ENABLE :: u32 where
  "flag_ENABLE = push_bit 0 1"

definition flag_SET_PRIORITY :: u32 where
  "flag_SET_PRIORITY = push_bit 1 1"

definition interrupt_line_to_init :: "cfg_builder_interrupt_line \<Rightarrow> interrupt_line_init" where
  "interrupt_line_to_init l =
     \<lparr>init_line = bl_line l,
      init_priority = (case bl_priority l of Some p \<Rightarrow> p | None \<Rightarrow> 0),
      init_flags =
        (let f = 0;
             f = (if bl_priority l \<noteq> None then or f flag_SET_PRIORITY else f);
             f = (if bl_enabled l then or f flag_ENABLE else f)
         in and f (or flag_ENABLE flag_SET_PRIORITY))\<rparr>"

text \<open>The operations of the port, which the boot sequence unwraps.\<close>

record 'p port_interrupts =
  port_set_priority :: "nat \<Rightarrow> int \<Rightarrow> 'p \<Rightarrow> 'p option"
  port_enable_line :: "nat \<Rightarrow> 'p \<Rightarrow> 'p option"

fun interrupt_attr_init :: "'p port_interrupts \<Rightarrow> interrupt_line_init list \<Rightarrow> 'p \<Rightarrow> 'p option" where
  "interrupt_attr_init P [] p = Some p"
| "interrupt_attr_init P (l # lines) p =
     do { p \<leftarrow> (if and (init_flags l) flag_SET_PRIORITY = flag_SET_PRIORITY
                then port_set_priority P (init_line l) (init_priority l) p else Some p);
          p \<leftarrow> (if and (init_flags l) flag_ENABLE = flag_ENABLE
                then port_enable_line P (init_line l) p else Some p);
          interrupt_attr_init P lines p }"

end
