(* ===== verification/Interrupt_Properties.thy ===== *)
theory Interrupt_Properties
  imports Interrupt_Config
begin

text \<open>
  The path from the definitions of interrupt handlers in a configuration to the table of the kernel:
  what an interrupt calls.
\<close>

section \<open>Configurations\<close>

text \<open>A configuration is made by definitions of lines and handlers.\<close>

datatype 'c irq_definition =
    DefineLine "nat option" "int option" bool
  | DefineHandler "nat option" "'c option" int bool

fun define_irq :: "'c irq_definition \<Rightarrow> 'c cfg_interrupts \<Rightarrow> 'c cfg_interrupts option" where
  "define_irq (DefineLine line priority enabled) c = interrupt_line_finish line priority enabled c"
| "define_irq (DefineHandler line start priority unmanaged) c =
     interrupt_handler_finish line start priority unmanaged c"

fun define_irqs :: "'c irq_definition list \<Rightarrow> 'c cfg_interrupts \<Rightarrow> 'c cfg_interrupts option" where
  "define_irqs [] c = Some c"
| "define_irqs (d # ds) c = do { c \<leftarrow> define_irq d c; define_irqs ds c }"

definition irq_inv :: "'c cfg_interrupts \<Rightarrow> bool" where
  "irq_inv c \<longleftrightarrow> distinct (map il_num (interrupt_lines c)) \<and>
     map ih_order (interrupt_handlers c) = [0..<length (interrupt_handlers c)] \<and>
     ih_line ` set (interrupt_handlers c) \<subseteq> il_num ` set (interrupt_lines c)"

lemma vec_position_None: "vec_position P xs = None \<longleftrightarrow> (\<forall>x \<in> set xs. \<not> P x)"
  by (auto simp: vec_position_def find_None_iff all_set_conv_all_nth)

lemma vec_position_Some: "vec_position P xs = Some i \<Longrightarrow> i < length xs \<and> P (xs ! i)"
  by (auto simp: vec_position_def find_Some_iff)

lemma interrupt_line_finish_lines:
  assumes "interrupt_line_finish (Some n) p e c = Some c'"
  shows "map il_num (interrupt_lines c') =
      (if n \<in> il_num ` set (interrupt_lines c) then map il_num (interrupt_lines c)
       else map il_num (interrupt_lines c) @ [n]) \<and>
    interrupt_handlers c' = interrupt_handlers c"
proof -
  have upd: "map il_num (xs[i := y]) = map il_num xs" if "i < length xs" "il_num y = il_num (xs ! i)" for xs i y
    using that by (metis list_update_id map_update)
  show ?thesis
  proof (cases "vec_position (\<lambda>il. il_num il = n) (interrupt_lines c)")
    case None
    then have "n \<notin> il_num ` set (interrupt_lines c)" by (auto simp: vec_position_None)
    then show ?thesis using assms None
      by (auto simp: interrupt_line_finish_def bind_eq_Some_conv guard_eq_Some Let_def
          slice_get_def slice_set_def nth_append list_update_append split: option.splits if_splits)
  next
    case (Some i)
    note i = vec_position_Some[OF this]
    then have "n \<in> il_num ` set (interrupt_lines c)" by auto
    then show ?thesis using assms i Some
      by (auto simp: interrupt_line_finish_def bind_eq_Some_conv guard_eq_Some Let_def upd
          slice_get_def slice_set_def split: option.splits if_splits)
  qed
qed

lemma define_irq_inv:
  assumes "define_irq d c = Some c'" "irq_inv c"
  shows "irq_inv c'"
proof (cases d)
  case (DefineLine line p e)
  then obtain n where "line = Some n" using assms(1) by (auto simp: interrupt_line_finish_def bind_eq_Some_conv)
  then have "interrupt_line_finish (Some n) p e c = Some c'" using assms(1) DefineLine by simp
  from interrupt_line_finish_lines[OF this] assms(2) show ?thesis
    unfolding irq_inv_def by (auto simp flip: set_map split: if_splits)
next
  case (DefineHandler line f p u)
  then obtain n c1 g where c1: "interrupt_line_finish (Some n) None False c = Some c1" and
    c': "c' = c1\<lparr>interrupt_handlers := interrupt_handlers c1 @
      [\<lparr>ih_line = n, ih_start = g, ih_priority = p, ih_unmanaged = u, ih_order = length (interrupt_handlers c1)\<rparr>]\<rparr>"
    using assms(1) by (auto simp: interrupt_handler_finish_def bind_eq_Some_conv)
  from interrupt_line_finish_lines[OF c1] assms(2) show ?thesis
    unfolding irq_inv_def c' by (auto simp flip: set_map split: if_splits)
qed

lemma define_irqs_inv: "define_irqs ds c = Some c' \<Longrightarrow> irq_inv c \<Longrightarrow> irq_inv c'"
  by (induction ds arbitrary: c) (auto simp: bind_eq_Some_conv intro: define_irq_inv)

section \<open>Sorting\<close>

lemma sort_handlers_eq:
  assumes "map ih_order hs = [0..<length hs]"
  shows "sort_handlers hs = sort_key (\<lambda>h. (ih_line h, ih_priority h)) hs"
proof -
  have eq: "handler_less = (\<lambda>x y. ((ih_line x, ih_priority x), ih_order x) < ((ih_line y, ih_priority y), ih_order y))"
    by (auto simp: fun_eq_iff handler_less_def less_prod_def less_eq_prod_def)
  have "sorted_wrt (<) (map ih_order hs)" using assms by simp
  then show ?thesis
    unfolding sort_handlers_def eq by (rule sort_by_stable_key[where key = "\<lambda>h. (ih_line h, ih_priority h)"])
qed

text \<open>The handlers of a line, in the ascending order of priority and then of registration.\<close>

definition handlers_of :: "nat \<Rightarrow> 'c cfg_interrupt_handler list \<Rightarrow> 'c cfg_interrupt_handler list" where
  "handlers_of line hs = sort_key ih_priority (filter (\<lambda>h. ih_line h = line) hs)"

lemma sorted_handlers_of:
  "filter (\<lambda>h. ih_line h = line) (sort_key (\<lambda>h. (ih_line h, ih_priority h)) hs) = handlers_of line hs"
proof -
  let ?k = "\<lambda>h. (ih_line h, ih_priority h)" and ?f = "filter (\<lambda>h. ih_line h = line) hs"
  have "filter (\<lambda>h. ih_line h = line) (sort_key ?k hs) = sort_key ?k ?f" by (simp add: filter_sort)
  also have "\<dots> = sort_key ih_priority ?f"
  proof (rule properties_for_sort_key[symmetric])
    have "sorted_wrt (\<lambda>x y. ?k x \<le> ?k y) (sort_key ?k ?f)"
      using sorted_sort_key[of ?k ?f] unfolding sorted_map .
    then show "sorted (map ih_priority (sort_key ?k ?f))"
      unfolding sorted_map
      by (rule sorted_wrt_mono_rel[rotated]) (auto simp: less_eq_prod_def)
    fix p
    have "filter (\<lambda>x. p = ih_priority x) (sort_key ?k ?f) = filter (\<lambda>x. ?k x = (line, p)) (sort_key ?k ?f)"
      by (rule filter_cong) auto
    also have "\<dots> = filter (\<lambda>x. ?k x = (line, p)) ?f" by (rule sort_key_stable)
    also have "\<dots> = filter (\<lambda>x. p = ih_priority x) ?f" by (rule filter_cong) auto
    finally show "filter (\<lambda>x. p = ih_priority x) (sort_key ?k ?f) = filter (\<lambda>x. p = ih_priority x) ?f" .
  qed simp
  finally show ?thesis by (simp add: handlers_of_def)
qed

section \<open>Running a combined handler\<close>

text \<open>All of the functions in turn; CPU Lock is released between them.\<close>

fun run_handlers :: "('c, 's) interrupt_env \<Rightarrow> 'c list \<Rightarrow> 's \<Rightarrow> 's" where
  "run_handlers E [] s = s"
| "run_handlers E [f] s = env_call E f s"
| "run_handlers E (f # g # fs) s = run_handlers E (g # fs) (relinquish_cpu_lock E (env_call E f s))"

lemma proto_combined_handler_runs:
  assumes "i < length hs" "ih_line (hs ! i) = line"
  shows "proto_combined_handler E hs i s =
    Some (run_handlers E (map ih_start (takeWhile (\<lambda>h. ih_line h = line) (drop i hs))) s)"
  using assms
proof (induction "length hs - i" arbitrary: i s)
  case (Suc n)
  have d: "drop i hs = hs ! i # drop (Suc i) hs" using Suc.prems by (simp add: Cons_nth_drop_Suc)
  show ?case
  proof (cases "Suc i < length hs \<and> ih_line (hs ! Suc i) = line")
    case True
    then have d': "drop (Suc i) hs = hs ! Suc i # drop (Suc (Suc i)) hs" by (simp add: Cons_nth_drop_Suc)
    from Suc True show ?thesis
      by (subst proto_combined_handler.simps) (simp add: d d' Let_def)
  next
    case False
    then have "takeWhile (\<lambda>h. ih_line h = line) (drop (Suc i) hs) = []"
      by (cases "Suc i < length hs") (auto simp: takeWhile_eq_Nil_iff hd_drop_conv_nth)
    then show ?thesis using False Suc.prems
      by (subst proto_combined_handler.simps) (auto simp: d Let_def)
  qed
qed simp

lemma filter_sorted_takeWhile:
  assumes "sorted (map f xs)" "\<forall>x \<in> set xs. l \<le> f x"
  shows "filter (\<lambda>x. f x = (l :: nat)) xs = takeWhile (\<lambda>x. f x = l) xs"
  using assms
proof (induction xs)
  case (Cons x xs)
  show ?case
  proof (cases "f x = l")
    case False
    then have "l < f x" using Cons.prems(2) by simp
    then have "\<forall>y \<in> set xs. f y \<noteq> l" using Cons.prems(1) by auto
    then show ?thesis using False by (auto simp: filter_empty_conv)
  qed (use Cons in simp)
qed simp

lemma interrupt_table_entry_ok:
  fixes hs :: "'c cfg_interrupt_handler list"
  assumes s: "sorted (map ih_line hs)"
  shows "\<exists>e. interrupt_table_entry hs line = Some e \<and>
    (case e of
       None \<Rightarrow> filter (\<lambda>h. ih_line h = line) hs = []
     | Some i \<Rightarrow> i < length hs \<and> filter (\<lambda>h. ih_line h = line) hs \<noteq> [] \<and>
         (\<forall>(E :: ('c, 's) interrupt_env) s. proto_combined_handler E hs i s =
            Some (run_handlers E (map ih_start (filter (\<lambda>h. ih_line h = line) hs)) s)))"
proof -
  define i where "i = lower_bound (length hs) (\<lambda>i. ih_line (hs ! i) < line)"
  have mono: "ih_line (hs ! a) \<le> ih_line (hs ! b)" if "a \<le> b" "b < length hs" for a b
    using sorted_nth_mono[OF s that(1)] that by simp
  then have mono': "ih_line (hs ! a) < line" if "a \<le> b" "b < length hs" "ih_line (hs ! b) < line" for a b
    using that by (meson le_less_trans)
  have lb: "i \<le> length hs" "\<And>a. a < i \<Longrightarrow> ih_line (hs ! a) < line"
    "\<And>a. i \<le> a \<Longrightarrow> a < length hs \<Longrightarrow> \<not> ih_line (hs ! a) < line"
    unfolding i_def
    using lower_bound_ok[of "length hs" "\<lambda>i. ih_line (hs ! i) < line"] mono' by blast+
  have "filter (\<lambda>h. ih_line h = line) (take i hs) = []"
    using lb(2) by (fastforce simp: filter_empty_conv in_set_conv_nth)
  then have "filter (\<lambda>h. ih_line h = line) hs = filter (\<lambda>h. ih_line h = line) (drop i hs)"
    by (metis append_Nil append_take_drop_id filter_append)
  also have "\<dots> = takeWhile (\<lambda>h. ih_line h = line) (drop i hs)"
  proof (rule filter_sorted_takeWhile)
    show "sorted (map ih_line (drop i hs))" using s by (simp add: drop_map[symmetric] sorted_wrt_drop)
    show "\<forall>x \<in> set (drop i hs). line \<le> ih_line x"
      using lb(3) by (fastforce simp: in_set_conv_nth not_less)
  qed
  finally have f: "filter (\<lambda>h. ih_line h = line) hs = takeWhile (\<lambda>h. ih_line h = line) (drop i hs)" .
  show ?thesis
  proof (cases "i < length hs \<and> ih_line (hs ! i) = line")
    case False
    then have "takeWhile (\<lambda>h. ih_line h = line) (drop i hs) = []"
      by (cases "i < length hs") (auto simp: takeWhile_eq_Nil_iff hd_drop_conv_nth)
    moreover have "interrupt_table_entry hs line = Some None"
      using False by (auto simp: interrupt_table_entry_def i_def[symmetric] Let_def)
    ultimately show ?thesis by (simp add: f)
  next
    case True
    have "ih_line (hs ! (i - 1)) \<noteq> line" if "0 < i" using lb(2)[of "i - 1"] that by simp
    then have "combined_handler hs i = Some i" using True by (auto simp: combined_handler_def)
    then have e: "interrupt_table_entry hs line = Some (Some i)"
      using True by (simp add: interrupt_table_entry_def i_def[symmetric] Let_def)
    have "takeWhile (\<lambda>h. ih_line h = line) (drop i hs) \<noteq> []"
      using True by (simp add: takeWhile_eq_Nil_iff hd_drop_conv_nth)
    with e True show ?thesis by (simp add: f proto_combined_handler_runs)
  qed
qed


section \<open>The tables\<close>

lemma foldl_slots:
  fixes g :: "'x \<Rightarrow> nat"
  shows "n \<le> foldl (\<lambda>out h. if out < g h + 1 then g h + 1 else out) n hs \<and>
    (\<forall>h \<in> set hs. g h < foldl (\<lambda>out h. if out < g h + 1 then g h + 1 else out) n hs)"
proof (induction hs arbitrary: n)
  case (Cons h hs)
  from Cons.IH[of "if n < g h + 1 then g h + 1 else n"] show ?case by (auto split: if_splits)
qed simp

lemma num_required_ok: "h \<in> set hs \<Longrightarrow> ih_line h < num_required_interrupt_line_slots hs"
  using foldl_slots[of 0 ih_line hs] by (simp add: num_required_interrupt_line_slots_def)

lemma table_len_ok: "l \<in> set lines \<Longrightarrow> bl_line l < interrupt_handler_table_len lines"
  using foldl_slots[of 0 bl_line lines] by (simp add: interrupt_handler_table_len_def)

lemma those_map: "(\<And>x. x \<in> set xs \<Longrightarrow> f x = Some (g x)) \<Longrightarrow> those (map f xs) = Some (map g xs)"
  by (induction xs) auto

text \<open>The entry of a line, also beyond the end of the table.\<close>

lemma new_interrupt_handler_table_ok:
  assumes "sorted (map ih_line hs)"
  shows "\<exists>table. new_interrupt_handler_table (num_required_interrupt_line_slots hs) hs = Some table \<and>
    (\<forall>line. interrupt_table_entry hs line = Some (table_get table line))"
proof -
  let ?n = "num_required_interrupt_line_slots hs"
  let ?table = "map (\<lambda>line. the (interrupt_table_entry hs line)) [0..<?n]"
  have e: "interrupt_table_entry hs line = Some (the (interrupt_table_entry hs line))" for line
    using interrupt_table_entry_ok[OF assms, of line] by auto
  have "list_all (\<lambda>h. ih_line h < ?n) hs" by (simp add: list_all_iff num_required_ok)
  then have "new_interrupt_handler_table ?n hs = Some ?table"
    using those_map[of "[0..<?n]" "interrupt_table_entry hs" "\<lambda>line. the (interrupt_table_entry hs line)"] e
    by (simp add: new_interrupt_handler_table_def)
  moreover have "interrupt_table_entry hs line = Some (table_get ?table line)" for line
  proof (cases "line < ?n")
    case True
    then show ?thesis using e[of line] by (auto simp: table_get_def split: option.splits)
  next
    case False
    then have "filter (\<lambda>h. ih_line h = line) hs = []" using num_required_ok by (fastforce simp: filter_empty_conv)
    with interrupt_table_entry_ok[OF assms, of line] have "interrupt_table_entry hs line = Some None"
      by (auto split: option.splits)
    then show ?thesis using False by (simp add: table_get_def slice_get_def)
  qed
  ultimately show ?thesis by blast
qed

lemma fill_interrupt_table_ok:
  assumes "distinct (map bl_line lines)" "\<forall>l \<in> set lines. bl_line l < length t \<and> t ! bl_line l = None"
  shows "\<exists>t'. fill_interrupt_table lines t = Some t' \<and> length t' = length t \<and>
    (\<forall>l \<in> set lines. t' ! bl_line l = bl_start l) \<and>
    (\<forall>j < length t. j \<notin> bl_line ` set lines \<longrightarrow> t' ! j = t ! j)"
  using assms
proof (induction lines arbitrary: t)
  case (Cons l lines)
  let ?t = "t[bl_line l := bl_start l]"
  have l: "bl_line l < length t" "t ! bl_line l = None" using Cons.prems(2) by auto
  have "fill_interrupt_table (l # lines) t = fill_interrupt_table lines ?t"
  proof (cases "bl_start l")
    case None
    then have "?t = t" using l by (metis list_update_id)
    then show ?thesis using None by simp
  next
    case (Some f)
    then show ?thesis using l by simp
  qed
  moreover have "distinct (map bl_line lines)" using Cons.prems(1) by simp
  moreover have "\<forall>m \<in> set lines. bl_line m < length ?t \<and> ?t ! bl_line m = None"
    using Cons.prems by (auto simp: nth_list_update)
  ultimately obtain t' where t': "fill_interrupt_table (l # lines) t = Some t'" "length t' = length t"
    "\<forall>m \<in> set lines. t' ! bl_line m = bl_start m"
    "\<forall>j < length t. j \<notin> bl_line ` set lines \<longrightarrow> t' ! j = ?t ! j"
    using Cons.IH[of ?t] by auto
  moreover have "t' ! bl_line l = bl_start l" using t'(4) l Cons.prems(1) by (auto simp: image_iff)
  ultimately show ?case by (auto simp: nth_list_update)
qed simp

text \<open>The table of the kernel has the entries of the table of the configuration.\<close>

lemma kernel_table_ok:
  assumes lines: "distinct (map bl_line lines)" "\<forall>l \<in> set lines. bl_start l = table_get table (bl_line l)"
    and rest: "\<And>j. j \<notin> bl_line ` set lines \<Longrightarrow> table_get table j = None"
  shows "\<exists>kt. interrupt_handler_table (interrupt_handler_table_len lines) lines = Some kt \<and>
    (\<forall>j. table_get kt j = table_get table j)"
proof -
  let ?n = "interrupt_handler_table_len lines"
  have "\<forall>l \<in> set lines. bl_line l < length (replicate ?n None) \<and> replicate ?n None ! bl_line l = None"
    by (simp add: table_len_ok)
  from fill_interrupt_table_ok[OF lines(1) this] obtain kt where
    kt: "fill_interrupt_table lines (replicate ?n None) = Some kt" "length kt = ?n"
      "\<forall>l \<in> set lines. kt ! bl_line l = bl_start l"
      "\<forall>j < ?n. j \<notin> bl_line ` set lines \<longrightarrow> kt ! j = None" by auto
  have "table_get kt j = table_get table j" for j
  proof (cases "j \<in> bl_line ` set lines")
    case True
    then obtain l where l: "l \<in> set lines" "j = bl_line l" by auto
    then have "slice_get kt j = Some (table_get table j)" using kt(2,3) lines(2) table_len_ok by simp
    then show ?thesis by (simp add: table_get_def[of kt] split: option.split)
  next
    case False
    then show ?thesis using kt(2,4) rest[OF False] by (auto simp: table_get_def[of kt] slice_get_def)
  qed
  then show ?thesis using kt(1) by (auto simp: interrupt_handler_table_def)
qed

section \<open>What an interrupt calls\<close>

text \<open>
  C15: From the definitions in a configuration to the table of the kernel. Whatever lines and handlers
  a configuration defines, if it respects unmanaged safety, then none of the phases panics, and in
  the table of the kernel the entry of an interrupt line is empty exactly if no handler is defined
  for it; otherwise the entry is a combined handler that calls all handlers of the line and no
  others, in the ascending order of priority and in the order of definition among equals, and
  releases CPU Lock between two of them if it is active.
\<close>

theorem interrupt_dispatch_exact:
  assumes "define_irqs ds \<lparr>interrupt_lines = [], interrupt_handlers = []\<rparr> = Some (c :: 'c cfg_interrupts)"
    and "unmanaged_safety_holds managed managed_lines (interrupt_lines c) (interrupt_handlers c)"
  shows "\<exists>table lines c' kt.
    new_interrupt_handler_table (num_required_interrupt_line_slots (sort_handlers (interrupt_handlers c)))
      (sort_handlers (interrupt_handlers c)) = Some table \<and>
    finish_phase3_interrupt managed managed_lines table (Phase3 False) c = Some (lines, c') \<and>
    interrupt_handler_table (interrupt_handler_table_len lines) lines = Some kt \<and>
    (\<forall>line. case table_get kt line of
       None \<Rightarrow> handlers_of line (interrupt_handlers c) = []
     | Some i \<Rightarrow> handlers_of line (interrupt_handlers c) \<noteq> [] \<and>
         (\<forall>(E :: ('c, 's) interrupt_env) s.
            proto_combined_handler E (sort_handlers (interrupt_handlers c)) i s =
            Some (run_handlers E (map ih_start (handlers_of line (interrupt_handlers c))) s)))"
proof -
  let ?hs = "sort_handlers (interrupt_handlers c)"
  have inv: "irq_inv c" by (rule define_irqs_inv[OF assms(1)]) (simp add: irq_inv_def)
  then have sorted_eq: "?hs = sort_key (\<lambda>h. (ih_line h, ih_priority h)) (interrupt_handlers c)"
    by (intro sort_handlers_eq) (simp add: irq_inv_def)
  have "sorted (map ih_line ?hs)"
    using sorted_sort_key[of "\<lambda>h. (ih_line h, ih_priority h)" "interrupt_handlers c"]
    unfolding sorted_eq sorted_map
    by (rule sorted_wrt_mono_rel[rotated]) (auto simp: less_eq_prod_def)
  note sorted = this
  have of: "filter (\<lambda>h. ih_line h = line) ?hs = handlers_of line (interrupt_handlers c)" for line
    unfolding sorted_eq by (rule sorted_handlers_of)
  obtain table where table: "new_interrupt_handler_table (num_required_interrupt_line_slots ?hs) ?hs = Some table"
    "\<And>line. interrupt_table_entry ?hs line = Some (table_get table line)"
    using new_interrupt_handler_table_ok[OF sorted] by blast
  have entry: "case table_get table line of
       None \<Rightarrow> handlers_of line (interrupt_handlers c) = []
     | Some i \<Rightarrow> handlers_of line (interrupt_handlers c) \<noteq> [] \<and>
         (\<forall>(E :: ('c, 's) interrupt_env) s. proto_combined_handler E ?hs i s =
            Some (run_handlers E (map ih_start (handlers_of line (interrupt_handlers c))) s))" for line
    using interrupt_table_entry_ok[OF sorted, of line] table(2)[of line] by (auto simp: of split: option.splits)
  let ?lines = "map (\<lambda>il. \<lparr>bl_line = il_num il, bl_priority = il_priority il,
                         bl_start = table_get table (il_num il), bl_enabled = il_enabled il\<rparr>) (interrupt_lines c)"
  have p3: "finish_phase3_interrupt managed managed_lines table (Phase3 False) c =
      Some (?lines, Phase3 True, c\<lparr>interrupt_lines := [], interrupt_handlers := []\<rparr>)"
    using assms(2) by (simp add: finish_phase3_interrupt_def)
  have "\<exists>kt. interrupt_handler_table (interrupt_handler_table_len ?lines) ?lines = Some kt \<and>
      (\<forall>j. table_get kt j = table_get table j)"
  proof (rule kernel_table_ok)
    show "distinct (map bl_line ?lines)" using inv by (simp add: irq_inv_def o_def)
    fix j assume "j \<notin> bl_line ` set ?lines"
    then have "\<forall>h \<in> set (interrupt_handlers c). ih_line h \<noteq> j"
      using inv by (force simp: irq_inv_def image_iff)
    then have "handlers_of j (interrupt_handlers c) = []" by (simp add: handlers_of_def filter_empty_conv)
    then show "table_get table j = None" using entry[of j] by (auto split: option.splits)
  qed simp
  then show ?thesis using table(1) p3 entry by auto
qed

text \<open>Two handlers of line 3, the second one with the smaller priority value, and one of line 1.\<close>

definition irq_sample_definitions :: "nat irq_definition list" where
  "irq_sample_definitions =
     [DefineHandler (Some 3) (Some 30) 1 False, DefineHandler (Some 1) (Some 10) 0 True,
      DefineLine (Some 3) (Some 5) True, DefineHandler (Some 3) (Some 31) 0 False]"

definition irq_sample :: "nat cfg_interrupts" where
  "irq_sample = the (define_irqs irq_sample_definitions \<lparr>interrupt_lines = [], interrupt_handlers = []\<rparr>)"

text \<open>The state is the list of the calls; the first handler of line 3 leaves CPU Lock active.\<close>

definition irq_sample_env :: "(nat, nat list) interrupt_env" where
  "irq_sample_env = \<lparr>env_call = (\<lambda>f s. s @ [f]), env_has_cpu_lock = (\<lambda>s. s = [31]),
     env_release_cpu_lock = (\<lambda>s. s @ [0])\<rparr>"

lemma irq_sample_facts:
  "define_irqs irq_sample_definitions \<lparr>interrupt_lines = [], interrupt_handlers = []\<rparr> = Some irq_sample"
  "unmanaged_safety_holds (0, 10) [] (interrupt_lines irq_sample) (interrupt_handlers irq_sample)"
  "map ih_start (handlers_of 3 (interrupt_handlers irq_sample)) = [31, 30]"
  "run_handlers irq_sample_env [31, 30] [] = [31, 0, 30]"
  by code_simp+

lemma interrupt_dispatch_exact_witness:
  "\<exists>kt i. table_get kt 3 = Some i \<and>
     proto_combined_handler irq_sample_env (sort_handlers (interrupt_handlers irq_sample)) i [] = Some [31, 0, 30]"
proof -
  obtain kt where kt: "\<forall>line. case table_get kt line of
       None \<Rightarrow> handlers_of line (interrupt_handlers irq_sample) = []
     | Some i \<Rightarrow> handlers_of line (interrupt_handlers irq_sample) \<noteq> [] \<and>
         (\<forall>(E :: (nat, nat list) interrupt_env) s.
            proto_combined_handler E (sort_handlers (interrupt_handlers irq_sample)) i s =
            Some (run_handlers E (map ih_start (handlers_of line (interrupt_handlers irq_sample))) s))"
    using interrupt_dispatch_exact[OF irq_sample_facts(1,2)] by blast
  have "handlers_of 3 (interrupt_handlers irq_sample) \<noteq> []" using irq_sample_facts(3) by auto
  then obtain i where i: "table_get kt 3 = Some i" using spec[OF kt, of 3] by (auto split: option.splits)
  then have "proto_combined_handler irq_sample_env (sort_handlers (interrupt_handlers irq_sample)) i [] =
      Some (run_handlers irq_sample_env [31, 30] [])"
    using spec[OF kt, of 3] unfolding i irq_sample_facts(3)[symmetric] by simp
  with i show ?thesis unfolding irq_sample_facts(4) by blast
qed

end
