(* ===== verification/Intrusive_List.thy ===== *)
theory Intrusive_List
  imports R3_Prelude
begin

text \<open>
  The circular doubly linked list of \<^verbatim>\<open>r3_kernel/src/utils/intrusive_list.rs\<close>, on which
  the ready queues and the wait queues of the kernel are built. The links live in the elements: the
  state is the list head and the cells of the pool, a function of the index. Errors are values, a
  failed \<^verbatim>\<open>debug_assert!\<close> is \<^verbatim>\<open>None\<close>. \<open>ring\<close> relates the links
  to the list of elements that they represent, and every operation is shown to do on that list what
  its name says, without touching the link cell of any other element.
\<close>

section \<open>Links and head\<close>

record 'i link =
  l_prev :: 'i
  l_next :: 'i

record 'i list_head =
  hd_first :: "'i option"

record 'i list_cells =
  head_cell :: "'i list_head"
  link_cells :: "'i \<Rightarrow> 'i link option"

definition list_new :: "'i list_head" where
  "list_new = \<lparr>hd_first = None\<rparr>"

definition list_is_empty :: "'i list_head \<Rightarrow> bool" where
  "list_is_empty h = (hd_first h = None)"

datatype insert_error = AlreadyLinked | InsertInconsistent

datatype item_error = NotLinked | ItemInconsistent

datatype inconsistent_error = InconsistentError

definition set_head :: "'i list_head \<Rightarrow> 'i list_cells \<Rightarrow> 'i list_cells" where
  "set_head h s = s\<lparr>head_cell := h\<rparr>"

definition set_link :: "'i \<Rightarrow> 'i link option \<Rightarrow> 'i list_cells \<Rightarrow> 'i list_cells" where
  "set_link i l s = s\<lparr>link_cells := (link_cells s)(i := l)\<rparr>"

section \<open>Queries\<close>

definition list_front :: "'i list_cells \<Rightarrow> inconsistent_error + 'i option" where
  "list_front s = Inr (hd_first (head_cell s))"

definition list_back :: "'i list_cells \<Rightarrow> inconsistent_error + 'i option" where
  "list_back s =
     (case hd_first (head_cell s) of
        None \<Rightarrow> Inr None
      | Some p \<Rightarrow> (case link_cells s p of
                    None \<Rightarrow> Inl InconsistentError
                  | Some l \<Rightarrow> Inr (Some (l_prev l))))"

definition list_next :: "'i \<Rightarrow> 'i list_cells \<Rightarrow> item_error + 'i option" where
  "list_next i s =
     (case link_cells s i of
        None \<Rightarrow> Inl NotLinked
      | Some l \<Rightarrow>
          Inr (if Some (l_next l) = hd_first (head_cell s) then None else Some (l_next l)))"

definition list_prev :: "'i \<Rightarrow> 'i list_cells \<Rightarrow> item_error + 'i option" where
  "list_prev i s =
     (if Some i = hd_first (head_cell s) then Inr None
      else case link_cells s i of
             None \<Rightarrow> Inl NotLinked
           | Some l \<Rightarrow> Inr (Some (l_prev l)))"

section \<open>Insertion\<close>

text \<open>The outer option is the \<^verbatim>\<open>debug_assert!\<close> on an empty list.\<close>

definition list_insert ::
  "'i \<Rightarrow> 'i option \<Rightarrow> 'i list_cells \<Rightarrow> ((insert_error + unit) \<times> 'i list_cells) option" where
  "list_insert item at s =
     (if link_cells s item \<noteq> None then Some (Inl AlreadyLinked, s)
      else case hd_first (head_cell s) of
        Some first \<Rightarrow>
          (let (nxt, update_first) =
                 (case at of Some at' \<Rightarrow> (at', at' = first) | None \<Rightarrow> (first, False))
           in case link_cells s nxt of
                None \<Rightarrow> Some (Inl InsertInconsistent, s)
              | Some ln \<Rightarrow>
                  (let prv = l_prev ln in
                   case link_cells s prv of
                     None \<Rightarrow> Some (Inl InsertInconsistent, s)
                   | Some lp \<Rightarrow>
                       (let s1 = set_link prv (Some (lp\<lparr>l_next := item\<rparr>)) s in
                        case link_cells s1 nxt of
                          None \<Rightarrow> Some (Inl InsertInconsistent, s1)
                        | Some ln1 \<Rightarrow>
                            (let s2 = set_link nxt (Some (ln1\<lparr>l_prev := item\<rparr>)) s1;
                                 s3 = set_link item (Some \<lparr>l_prev = prv, l_next = nxt\<rparr>) s2
                             in Some (Inr (),
                                  if update_first
                                  then set_head ((head_cell s)\<lparr>hd_first := Some item\<rparr>) s3
                                  else s3)))))
      | None \<Rightarrow>
          (if at \<noteq> None then None
           else Some (Inr (),
                  set_head ((head_cell s)\<lparr>hd_first := Some item\<rparr>)
                    (set_link item (Some \<lparr>l_prev = item, l_next = item\<rparr>) s))))"

definition list_push_back ::
  "'i \<Rightarrow> 'i list_cells \<Rightarrow> ((insert_error + unit) \<times> 'i list_cells) option" where
  "list_push_back item s = list_insert item None s"

definition list_push_front ::
  "'i \<Rightarrow> 'i list_cells \<Rightarrow> ((insert_error + unit) \<times> 'i list_cells) option" where
  "list_push_front item s =
     (case list_front s of
        Inl e \<Rightarrow> Some (Inl InsertInconsistent, s)
      | Inr at \<Rightarrow> list_insert item at s)"

section \<open>Removal\<close>

definition list_unlink ::
  "'i \<Rightarrow> 'i list_cells \<Rightarrow> (item_error + 'i) \<times> 'i list_cells" where
  "list_unlink item s =
     (case link_cells s item of
        None \<Rightarrow> (Inl ItemInconsistent, s)
      | Some l \<Rightarrow>
          (case link_cells s (l_prev l) of
             None \<Rightarrow> (Inl ItemInconsistent, s)
           | Some lp \<Rightarrow>
               (let s1 = set_link (l_prev l) (Some (lp\<lparr>l_next := l_next l\<rparr>)) s in
                case link_cells s1 (l_next l) of
                  None \<Rightarrow> (Inl ItemInconsistent, s1)
                | Some ln \<Rightarrow>
                    (let s2 = set_link (l_next l) (Some (ln\<lparr>l_prev := l_prev l\<rparr>)) s1
                     in (Inr item, set_link item None s2)))))"

definition list_remove :: "'i \<Rightarrow> 'i list_cells \<Rightarrow> (item_error + 'i) \<times> 'i list_cells" where
  "list_remove item s =
     (case link_cells s item of
        None \<Rightarrow> (Inl NotLinked, s)
      | Some l \<Rightarrow>
          (if hd_first (head_cell s) = Some item then
             (if l_next l = item
              then (Inr item,
                    set_link item None (set_head ((head_cell s)\<lparr>hd_first := None\<rparr>) s))
              else list_unlink item
                     (set_head ((head_cell s)\<lparr>hd_first := Some (l_next l)\<rparr>) s))
           else list_unlink item s))"

definition list_pop_back ::
  "'i list_cells \<Rightarrow> (inconsistent_error + 'i option) \<times> 'i list_cells" where
  "list_pop_back s =
     (case list_back s of
        Inl e \<Rightarrow> (Inl e, s)
      | Inr None \<Rightarrow> (Inr None, s)
      | Inr (Some item) \<Rightarrow>
          (case list_remove item s of
             (Inl e, s') \<Rightarrow> (Inl InconsistentError, s')
           | (Inr i, s') \<Rightarrow> (Inr (Some i), s')))"

definition list_pop_front ::
  "'i list_cells \<Rightarrow> (inconsistent_error + 'i option) \<times> 'i list_cells" where
  "list_pop_front s =
     (case list_front s of
        Inl e \<Rightarrow> (Inl e, s)
      | Inr None \<Rightarrow> (Inr None, s)
      | Inr (Some item) \<Rightarrow>
          (case list_remove item s of
             (Inl e, s') \<Rightarrow> (Inl InconsistentError, s')
           | (Inr i, s') \<Rightarrow> (Inr (Some i), s')))"

section \<open>Iteration\<close>

text \<open>The state of the iterator is the index it returns next.\<close>

definition iter_start :: "'i list_cells \<Rightarrow> 'i option" where
  "iter_start s = hd_first (head_cell s)"

definition iter_next ::
  "'i list_cells \<Rightarrow> 'i option \<Rightarrow> (inconsistent_error + 'i) option \<times> 'i option" where
  "iter_next s it =
     (case it of
        None \<Rightarrow> (None, None)
      | Some nxt \<Rightarrow>
          (case list_next nxt s of
             Inr x \<Rightarrow> (Some (Inr nxt), x)
           | Inl _ \<Rightarrow> (Some (Inl InconsistentError), None)))"

text \<open>A client that runs the iterator to its end, stopping at an error; with fuel, because the
  links of a broken list may never lead back to the head.\<close>

fun iter_collect :: "nat \<Rightarrow> 'i list_cells \<Rightarrow> 'i option \<Rightarrow> 'i list option" where
  "iter_collect 0 s it = None"
| "iter_collect (Suc n) s it =
     (case iter_next s it of
        (None, _) \<Rightarrow> Some []
      | (Some (Inl _), _) \<Rightarrow> None
      | (Some (Inr x), it') \<Rightarrow> map_option ((#) x) (iter_collect n s it'))"

section \<open>The list that the links represent\<close>

fun chain :: "('i \<Rightarrow> 'i link option) \<Rightarrow> 'i \<Rightarrow> 'i list \<Rightarrow> 'i \<Rightarrow> bool" where
  "chain lk p [] q \<longleftrightarrow> True"
| "chain lk p (x # xs) q \<longleftrightarrow>
     lk x = Some \<lparr>l_prev = p, l_next = hd (xs @ [q])\<rparr> \<and> chain lk x xs q"

definition ring :: "('i \<Rightarrow> 'i link option) \<Rightarrow> 'i list \<Rightarrow> bool" where
  "ring lk xs \<longleftrightarrow> distinct xs \<and> (xs = [] \<or> chain lk (last xs) xs (hd xs))"

definition represents :: "'i list_cells \<Rightarrow> 'i list \<Rightarrow> bool" where
  "represents s xs \<longleftrightarrow>
     hd_first (head_cell s) = (if xs = [] then None else Some (hd xs)) \<and> ring (link_cells s) xs"

lemma chain_append:
  "chain lk p (xs @ ys) q \<longleftrightarrow> chain lk p xs (hd (ys @ [q])) \<and> chain lk (last (p # xs)) ys q"
  by (induction xs arbitrary: p) (auto simp: hd_append)

lemma chain_upd [simp]: "i \<notin> set xs \<Longrightarrow> chain (lk(i := v)) p xs q = chain lk p xs q"
  by (induction xs arbitrary: p) auto

lemma chain_linked: "chain lk p xs q \<Longrightarrow> x \<in> set xs \<Longrightarrow> lk x \<noteq> None"
  by (induction xs arbitrary: p) auto

lemma ring_Nil [simp]: "ring lk []"
  by (simp add: ring_def)

lemma ring_distinct: "ring lk xs \<Longrightarrow> distinct xs"
  by (simp add: ring_def)

lemma ring_linked: "ring lk xs \<Longrightarrow> x \<in> set xs \<Longrightarrow> lk x \<noteq> None"
  by (auto simp: ring_def dest: chain_linked)

lemma ring_rotate_dir: "ring lk (xs @ ys) \<Longrightarrow> ring lk (ys @ xs)"
  by (cases "xs = []"; cases "ys = []")
     (auto simp: ring_def chain_append hd_append last_append)

lemma ring_rotate: "ring lk (xs @ ys) = ring lk (ys @ xs)"
  by (blast intro: ring_rotate_dir)

lemma ring_frame: "(\<And>j. j \<in> set xs \<Longrightarrow> lk' j = lk j) \<Longrightarrow> ring lk' xs = ring lk xs"
proof -
  assume eq: "\<And>j. j \<in> set xs \<Longrightarrow> lk' j = lk j"
  have "(\<And>j. j \<in> set ys \<Longrightarrow> lk' j = lk j) \<Longrightarrow> chain lk' p ys q = chain lk p ys q" for p ys q
    by (induction ys arbitrary: p) auto
  with eq show ?thesis by (auto simp: ring_def)
qed

lemma ring_first_links:
  assumes "ring lk (x # xs)"
  shows "lk x = Some \<lparr>l_prev = last (x # xs), l_next = hd (xs @ [x])\<rparr>"
  using assms by (simp add: ring_def)


lemma ring_push:
  assumes r: "ring lk (n # ys)" and i: "i \<notin> set (n # ys)" and p: "p = last (n # ys)"
  obtains lp ln where "lk p = Some lp" "(lk(p := Some (lp\<lparr>l_next := i\<rparr>))) n = Some ln"
    "ring (lk(p := Some (lp\<lparr>l_next := i\<rparr>), n := Some (ln\<lparr>l_prev := i\<rparr>),
            i := Some \<lparr>l_prev = p, l_next = n\<rparr>)) (n # ys @ [i])"
proof (cases ys rule: rev_cases)
  case Nil
  with r i p that show thesis by (simp add: ring_def)
next
  case (snoc zs q)
  with r i p have d: "q \<noteq> n" "i \<noteq> n" "i \<noteq> q" "n \<notin> set zs" "q \<notin> set zs" "i \<notin> set zs" "distinct zs"
    and c: "lk n = Some \<lparr>l_prev = q, l_next = hd (zs @ [q])\<rparr>" "chain lk n zs q"
      "lk q = Some \<lparr>l_prev = last (n # zs), l_next = n\<rparr>" "p = q"
    by (auto simp: ring_def chain_append split: if_splits)
  let ?lp = "\<lparr>l_prev = last (n # zs), l_next = n\<rparr>" and ?ln = "\<lparr>l_prev = q, l_next = hd (zs @ [q])\<rparr>"
  have "ring (lk(p := Some (?lp\<lparr>l_next := i\<rparr>), n := Some (?ln\<lparr>l_prev := i\<rparr>),
            i := Some \<lparr>l_prev = p, l_next = n\<rparr>)) (n # ys @ [i])"
    using d c by (auto simp: snoc ring_def chain_append hd_append)
  with that[of ?lp ?ln] show thesis using c d by simp
qed

lemma ring_drop:
  assumes r: "ring lk (i # ys)" and ne: "ys \<noteq> []"
  obtains lp ln where "lk i = Some \<lparr>l_prev = last ys, l_next = hd ys\<rparr>" "lk (last ys) = Some lp"
    "(lk(last ys := Some (lp\<lparr>l_next := hd ys\<rparr>))) (hd ys) = Some ln"
    "ring (lk(last ys := Some (lp\<lparr>l_next := hd ys\<rparr>), hd ys := Some (ln\<lparr>l_prev := last ys\<rparr>),
            i := None)) ys"
proof -
  obtain n xs where ys: "ys = n # xs" using ne by (cases ys) auto
  show thesis
  proof (cases xs rule: rev_cases)
    case Nil
    with r ys that[of "\<lparr>l_prev = i, l_next = i\<rparr>" "\<lparr>l_prev = i, l_next = n\<rparr>"]
    show thesis by (auto simp: ring_def)
  next
    case (snoc zs q)
    with r ys have d: "q \<noteq> n" "i \<noteq> n" "i \<noteq> q" "n \<notin> set zs" "q \<notin> set zs" "i \<notin> set zs" "distinct zs"
      and c: "lk n = Some \<lparr>l_prev = i, l_next = hd (zs @ [q])\<rparr>" "chain lk n zs q"
        "lk q = Some \<lparr>l_prev = last (n # zs), l_next = i\<rparr>" "lk i = Some \<lparr>l_prev = q, l_next = n\<rparr>"
      by (auto simp: ring_def chain_append hd_append split: if_splits)
    let ?lp = "\<lparr>l_prev = last (n # zs), l_next = i\<rparr>" and ?ln = "\<lparr>l_prev = i, l_next = hd (zs @ [q])\<rparr>"
    have "ring (lk(q := Some (?lp\<lparr>l_next := n\<rparr>), n := Some (?ln\<lparr>l_prev := q\<rparr>), i := None)) ys"
      using d c by (auto simp: ys snoc ring_def chain_append hd_append)
    with that[of ?lp ?ln] show thesis using c d by (simp add: ys snoc)
  qed
qed

section \<open>The operations on the represented list\<close>

fun insert_before :: "'i list \<Rightarrow> 'i \<Rightarrow> 'i \<Rightarrow> 'i list" where
  "insert_before [] item at = []"
| "insert_before (x # xs) item at =
     (if x = at then item # x # xs else x # insert_before xs item at)"

lemma insert_before_split:
  "at \<notin> set as \<Longrightarrow> insert_before (as @ at # bs) item at = as @ item # at # bs"
  by (induction as) auto

text \<open>\<open>touched\<close> says that an operation changed no link cell outside of a set.\<close>

definition untouched :: "'i set \<Rightarrow> 'i list_cells \<Rightarrow> 'i list_cells \<Rightarrow> bool" where
  "untouched A s s' \<longleftrightarrow> (\<forall>j. j \<notin> A \<longrightarrow> link_cells s' j = link_cells s j)"

lemma represents_first:
  "represents s (x # xs) \<Longrightarrow> hd_first (head_cell s) = Some x"
  "represents s [] \<Longrightarrow> hd_first (head_cell s) = None"
  by (simp_all add: represents_def)

lemma list_insert_linked:
  "link_cells s item \<noteq> None \<Longrightarrow> list_insert item at s = Some (Inl AlreadyLinked, s)"
  by (simp add: list_insert_def)

lemma list_insert_empty:
  assumes "represents s []" and "link_cells s item = None"
  obtains s' where "list_insert item None s = Some (Inr (), s')" "represents s' [item]"
    "untouched {item} s s'"
  using that assms
  by (auto simp: list_insert_def represents_def set_head_def set_link_def ring_def untouched_def)

text \<open>The rotation that starts at the element after the insertion point.\<close>

lemma list_insert_rotated:
  assumes s: "represents s xs" and item: "link_cells s item = None"
    and rot: "ring (link_cells s) (n # ys)" "set (n # ys) = set xs"
    and at: "at = Some n \<or> at = None \<and> n = hd xs"
  obtains s' where "list_insert item at s = Some (Inr (), s')"
    "hd_first (head_cell s') = (if at = Some (hd xs) then Some item else Some (hd xs))"
    "ring (link_cells s') (n # ys @ [item])" "untouched (insert item (set xs)) s s'"
proof -
  let ?p = "last (n # ys)" and ?lk = "link_cells s"
  from s item rot have i: "item \<notin> set (n # ys)" by (auto simp: represents_def dest: ring_linked)
  from rot(2) s have f: "hd_first (head_cell s) = Some (hd xs)" by (auto simp: represents_def)
  from ring_first_links[OF rot(1)] have n: "?lk n = Some \<lparr>l_prev = ?p, l_next = hd (ys @ [n])\<rparr>" .
  from ring_push[OF rot(1) i refl] obtain lp ln where p: "?lk ?p = Some lp"
    and ln: "(?lk(?p := Some (lp\<lparr>l_next := item\<rparr>))) n = Some ln"
    and r: "ring (?lk(?p := Some (lp\<lparr>l_next := item\<rparr>), n := Some (ln\<lparr>l_prev := item\<rparr>),
        item := Some \<lparr>l_prev = ?p, l_next = n\<rparr>)) (n # ys @ [item])" by blast
  let ?s = "set_link item (Some \<lparr>l_prev = ?p, l_next = n\<rparr>) (set_link n (Some (ln\<lparr>l_prev := item\<rparr>))
     (set_link ?p (Some (lp\<lparr>l_next := item\<rparr>)) s))"
  let ?s' = "if at = Some (hd xs) then set_head ((head_cell s)\<lparr>hd_first := Some item\<rparr>) ?s else ?s"
  have "(case at of Some at' \<Rightarrow> (at', at' = hd xs) | None \<Rightarrow> (hd xs, False)) = (n, at = Some (hd xs))"
    using at by auto
  then have 1: "list_insert item at s = Some (Inr (), ?s')"
    using item f n p ln by (auto simp: list_insert_def Let_def set_link_def)
  have 2: "link_cells ?s' = ?lk(?p := Some (lp\<lparr>l_next := item\<rparr>), n := Some (ln\<lparr>l_prev := item\<rparr>),
        item := Some \<lparr>l_prev = ?p, l_next = n\<rparr>)"
    by (simp add: set_link_def set_head_def)
  have "?p \<in> set xs" "n \<in> set xs" using last_in_set[of "n # ys"] rot(2) by (auto simp del: last.simps)
  with 2 have "untouched (insert item (set xs)) s ?s'" by (auto simp: untouched_def)
  with that[OF 1] r show thesis unfolding 2
    using f by (simp add: set_head_def set_link_def split: if_splits)
qed

lemma represents_rotate:
  "\<lbrakk>hd_first (head_cell s) = Some (hd (ys @ xs)); ring (link_cells s) (xs @ ys); ys @ xs \<noteq> []\<rbrakk>
   \<Longrightarrow> represents s (ys @ xs)"
  by (auto simp: represents_def ring_rotate)

lemma list_insert_back:
  assumes s: "represents s (x # xs)" and item: "link_cells s item = None"
  obtains s' where "list_insert item None s = Some (Inr (), s')" "represents s' (x # xs @ [item])"
    "untouched (insert item (set (x # xs))) s s'"
proof -
  from s have "ring (link_cells s) (x # xs)" by (simp add: represents_def)
  from list_insert_rotated[OF s item this refl, of None] obtain s' where
    "list_insert item None s = Some (Inr (), s')" "hd_first (head_cell s') = Some x"
    "ring (link_cells s') (x # xs @ [item])" "untouched (insert item (set (x # xs))) s s'"
    by (metis list.sel(1) option.distinct(1))
  with that show thesis by (simp add: represents_def)
qed

lemma list_insert_at:
  assumes s: "represents s xs" and item: "link_cells s item = None" and at: "at \<in> set xs"
  obtains s' where "list_insert item (Some at) s = Some (Inr (), s')"
    "represents s' (insert_before xs item at)" "untouched (insert item (set xs)) s s'"
proof -
  obtain as bs where xs: "xs = as @ at # bs" using split_list[OF at] by blast
  with s have r: "ring (link_cells s) (as @ at # bs)" by (simp add: represents_def)
  then have d: "at \<notin> set as" using ring_distinct by fastforce
  from r have r': "ring (link_cells s) (at # bs @ as)" by (metis append_Cons ring_rotate)
  have "set (at # bs @ as) = set xs" by (auto simp: xs)
  from list_insert_rotated[OF s item r' this, of "Some at"] obtain s' where
    ins: "list_insert item (Some at) s = Some (Inr (), s')"
    and f: "hd_first (head_cell s') = (if at = hd xs then Some item else Some (hd xs))"
    and r2: "ring (link_cells s') (at # (bs @ as) @ [item])"
    and u: "untouched (insert item (set xs)) s s'"
    by (metis option.inject)
  from r2 have "ring (link_cells s') ((as @ [item]) @ at # bs)"
    by (metis append_Cons append_assoc ring_rotate)
  moreover have "hd_first (head_cell s') = Some (hd (as @ item # at # bs))"
    using f d by (cases as) (auto simp: xs)
  ultimately have "represents s' (insert_before xs item at)"
    by (simp add: xs insert_before_split[OF d] represents_def)
  with that ins u show thesis by blast
qed


lemma list_unlink_ring:
  assumes r: "ring (link_cells s) (item # ys)" and ne: "ys \<noteq> []"
  obtains s' where "list_unlink item s = (Inr item, s')" "head_cell s' = head_cell s"
    "ring (link_cells s') ys" "link_cells s' item = None" "untouched (insert item (set ys)) s s'"
proof -
  let ?lk = "link_cells s"
  from ring_drop[OF r ne] obtain lp ln where
    1: "?lk item = Some \<lparr>l_prev = last ys, l_next = hd ys\<rparr>" "?lk (last ys) = Some lp"
      "(?lk(last ys := Some (lp\<lparr>l_next := hd ys\<rparr>))) (hd ys) = Some ln"
    and 2: "ring (?lk(last ys := Some (lp\<lparr>l_next := hd ys\<rparr>),
        hd ys := Some (ln\<lparr>l_prev := last ys\<rparr>), item := None)) ys" by blast
  let ?s = "set_link item None (set_link (hd ys) (Some (ln\<lparr>l_prev := last ys\<rparr>))
     (set_link (last ys) (Some (lp\<lparr>l_next := hd ys\<rparr>)) s))"
  have "list_unlink item s = (Inr item, ?s)"
    using 1 by (auto simp: list_unlink_def Let_def set_link_def)
  moreover have "untouched (insert item (set ys)) s ?s"
    using ne by (auto simp: untouched_def set_link_def)
  ultimately show thesis using that 2 by (simp add: set_link_def)
qed

lemma list_remove_unlinked: "link_cells s item = None \<Longrightarrow> list_remove item s = (Inl NotLinked, s)"
  by (simp add: list_remove_def)

lemma list_remove_first:
  assumes s: "represents s (x # xs)"
  obtains s' where "list_remove x s = (Inr x, s')" "represents s' xs" "link_cells s' x = None"
    "untouched (set (x # xs)) s s'"
proof -
  from s have r: "ring (link_cells s) (x # xs)" and f: "hd_first (head_cell s) = Some x"
    by (auto simp: represents_def)
  from r have d: "x \<notin> set xs" using ring_distinct by fastforce
  note x = ring_first_links[OF r]
  show thesis
  proof (cases "xs = []")
    case True
    with x f that show thesis
      by (auto simp: list_remove_def set_head_def set_link_def represents_def untouched_def)
  next
    case ne: False
    let ?s = "set_head ((head_cell s)\<lparr>hd_first := Some (hd xs)\<rparr>) s"
    have "hd (xs @ [x]) = hd xs" "hd xs \<noteq> x" using ne d hd_in_set[OF ne] by auto
    then have 1: "list_remove x s = list_unlink x ?s" using x f by (simp add: list_remove_def)
    have "ring (link_cells ?s) (x # xs)" using r by (simp add: set_head_def)
    from list_unlink_ring[OF this ne] obtain s' where "list_unlink x ?s = (Inr x, s')"
      "head_cell s' = head_cell ?s" "ring (link_cells s') xs" "link_cells s' x = None"
      "untouched (set (x # xs)) ?s s'" by auto
    with that 1 ne show thesis
      by (auto simp: represents_def untouched_def set_head_def)
  qed
qed

lemma list_remove_later:
  assumes s: "represents s (x # as @ item # bs)"
  obtains s' where "list_remove item s = (Inr item, s')" "represents s' (x # as @ bs)"
    "link_cells s' item = None" "untouched (set (x # as @ item # bs)) s s'"
proof -
  from s have r: "ring (link_cells s) ((x # as) @ item # bs)"
    and f: "hd_first (head_cell s) = Some x" by (auto simp: represents_def)
  from r have "item \<noteq> x" using ring_distinct by fastforce
  moreover have "link_cells s item \<noteq> None" using ring_linked[OF r, of item] by simp
  ultimately have 1: "list_remove item s = list_unlink item s"
    using f by (auto simp: list_remove_def)
  from r have "ring (link_cells s) (item # (bs @ x # as))"
    using ring_rotate[of "link_cells s" "x # as" "item # bs"] by simp
  from list_unlink_ring[OF this] obtain s' where s': "list_unlink item s = (Inr item, s')"
    "head_cell s' = head_cell s" "ring (link_cells s') (bs @ x # as)" "link_cells s' item = None"
    "untouched (insert item (set (bs @ x # as))) s s'" by blast
  have "insert item (set (bs @ x # as)) = set (x # as @ item # bs)" by auto
  moreover have "represents s' (x # as @ bs)"
    using s' f ring_rotate[of "link_cells s'" bs "x # as"] by (simp add: represents_def)
  ultimately show thesis using that 1 s' by auto
qed

lemma list_remove_ok:
  assumes s: "represents s xs" and item: "item \<in> set xs"
  obtains s' where "list_remove item s = (Inr item, s')" "represents s' (remove1 item xs)"
    "link_cells s' item = None" "untouched (set xs) s s'"
proof -
  obtain as bs where xs: "xs = as @ item # bs" "item \<notin> set as" using split_list_first[OF item] by blast
  show thesis
  proof (cases as)
    case Nil
    with xs s have "represents s (item # bs)" by simp
    from list_remove_first[OF this] that Nil xs show thesis by (metis append_Nil remove1.simps(2))
  next
    case (Cons a as')
    with xs s have "represents s (a # as' @ item # bs)" by simp
    from list_remove_later[OF this] obtain s' where "list_remove item s = (Inr item, s')"
      "represents s' (a # as' @ bs)" "link_cells s' item = None"
      "untouched (set (a # as' @ item # bs)) s s'" .
    moreover have "remove1 item xs = a # as' @ bs" using xs Cons by (simp add: remove1_append)
    ultimately show thesis using that xs Cons by simp
  qed
qed

lemma list_back_ok: "represents s xs \<Longrightarrow> list_back s = Inr (if xs = [] then None else Some (last xs))"
  by (cases xs) (auto simp: list_back_def represents_def dest: ring_first_links)

lemma list_front_ok: "represents s xs \<Longrightarrow> list_front s = Inr (if xs = [] then None else Some (hd xs))"
  by (simp add: list_front_def represents_def)


lemma ring_links:
  assumes "ring lk (as @ x # bs)"
  shows "lk x = Some \<lparr>l_prev = last (x # bs @ as), l_next = hd (bs @ as @ [x])\<rparr>"
proof -
  from assms have "ring lk (x # (bs @ as))" using ring_rotate[of lk as "x # bs"] by simp
  from ring_first_links[OF this] show ?thesis by simp
qed

lemma list_next_ok:
  assumes "represents s (as @ x # bs)"
  shows "list_next x s = Inr (if bs = [] then None else Some (hd bs))"
proof -
  from assms have r: "ring (link_cells s) (as @ x # bs)"
    and f: "hd_first (head_cell s) = Some (hd (as @ [x]))" by (auto simp: represents_def hd_append)
  have "bs \<noteq> [] \<Longrightarrow> hd bs \<noteq> hd (as @ [x])"
    using ring_distinct[OF r] by (cases bs; cases as) auto
  then show ?thesis using ring_links[OF r] f by (simp add: list_next_def hd_append)
qed

lemma list_prev_ok:
  assumes "represents s (as @ x # bs)"
  shows "list_prev x s = Inr (if as = [] then None else Some (last as))"
proof -
  from assms have r: "ring (link_cells s) (as @ x # bs)"
    and f: "hd_first (head_cell s) = Some (hd (as @ [x]))" by (auto simp: represents_def hd_append)
  have "as \<noteq> [] \<Longrightarrow> hd as \<noteq> x" using ring_distinct[OF r] by (cases as) auto
  then show ?thesis using ring_links[OF r] f by (auto simp: list_prev_def)
qed

lemma iter_collect_from:
  "represents s (as @ bs) \<Longrightarrow> length bs < n \<Longrightarrow>
   iter_collect n s (if bs = [] then None else Some (hd bs)) = Some bs"
proof (induction bs arbitrary: as n)
  case Nil
  then show ?case by (cases n) (auto simp: iter_next_def)
next
  case (Cons b bs)
  then obtain m where n: "n = Suc m" by (cases n) auto
  from Cons.prems have "represents s ((as @ [b]) @ bs)" by simp
  from Cons.IH[OF this, of m] Cons.prems n list_next_ok[OF Cons.prems(1)]
  show ?case by (simp add: iter_next_def)
qed

lemma iter_collect_ok:
  "represents s xs \<Longrightarrow> length xs < n \<Longrightarrow> iter_collect n s (iter_start s) = Some xs"
  using iter_collect_from[of s "[]" xs n] by (simp add: iter_start_def represents_def)

section \<open>Refinement of the list of elements\<close>

datatype 'i list_op = PushBack 'i | PushFront 'i | InsertAt 'i 'i | RemoveItem 'i | PopFront | PopBack

datatype 'i list_result =
    Inserted "insert_error + unit"
  | Removed "item_error + 'i"
  | Popped "inconsistent_error + 'i option"

fun op_items :: "'i list_op \<Rightarrow> 'i set" where
  "op_items (PushBack i) = {i}"
| "op_items (PushFront i) = {i}"
| "op_items (InsertAt i a) = {i, a}"
| "op_items (RemoveItem i) = {i}"
| "op_items PopFront = {}"
| "op_items PopBack = {}"

fun list_step :: "'i list_op \<Rightarrow> 'i list_cells \<Rightarrow> ('i list_result \<times> 'i list_cells) option" where
  "list_step (PushBack i) s = map_option (map_prod Inserted id) (list_push_back i s)"
| "list_step (PushFront i) s = map_option (map_prod Inserted id) (list_push_front i s)"
| "list_step (InsertAt i a) s = map_option (map_prod Inserted id) (list_insert i (Some a) s)"
| "list_step (RemoveItem i) s = Some (map_prod Removed id (list_remove i s))"
| "list_step PopFront s = Some (map_prod Popped id (list_pop_front s))"
| "list_step PopBack s = Some (map_prod Popped id (list_pop_back s))"

text \<open>The promise: the operations on a plain list of distinct elements.\<close>

fun spec_step :: "'i list_op \<Rightarrow> 'i list \<Rightarrow> ('i list_result \<times> 'i list) option" where
  "spec_step (PushBack i) xs =
     Some (if i \<in> set xs then (Inserted (Inl AlreadyLinked), xs) else (Inserted (Inr ()), xs @ [i]))"
| "spec_step (PushFront i) xs =
     Some (if i \<in> set xs then (Inserted (Inl AlreadyLinked), xs) else (Inserted (Inr ()), i # xs))"
| "spec_step (InsertAt i a) xs =
     (if i \<in> set xs then Some (Inserted (Inl AlreadyLinked), xs)
      else if a \<in> set xs then Some (Inserted (Inr ()), insert_before xs i a)
      else if xs = [] then None
      else Some (Inserted (Inl InsertInconsistent), xs))"
| "spec_step (RemoveItem i) xs =
     Some (if i \<in> set xs then (Removed (Inr i), remove1 i xs) else (Removed (Inl NotLinked), xs))"
| "spec_step PopFront xs =
     Some (if xs = [] then (Popped (Inr None), xs) else (Popped (Inr (Some (hd xs))), tl xs))"
| "spec_step PopBack xs =
     Some (if xs = [] then (Popped (Inr None), xs) else (Popped (Inr (Some (last xs))), butlast xs))"

fun list_run :: "'i list_op list \<Rightarrow> 'i list_cells \<Rightarrow> ('i list_result list \<times> 'i list_cells) option" where
  "list_run [] s = Some ([], s)"
| "list_run (op # ops) s =
     (case list_step op s of
        None \<Rightarrow> None
      | Some (r, s') \<Rightarrow> map_option (map_prod ((#) r) id) (list_run ops s'))"

fun spec_run :: "'i list_op list \<Rightarrow> 'i list \<Rightarrow> ('i list_result list \<times> 'i list) option" where
  "spec_run [] xs = Some ([], xs)"
| "spec_run (op # ops) xs =
     (case spec_step op xs of
        None \<Rightarrow> None
      | Some (r, ys) \<Rightarrow> map_option (map_prod ((#) r) id) (spec_run ops ys))"

text \<open>\<open>refines R s xs\<close>: the cells hold the list \<open>xs\<close>, the elements of \<open>R\<close> belong to
  other lists of the same pool, and all other elements are unlinked.\<close>

definition refines :: "'i set \<Rightarrow> 'i list_cells \<Rightarrow> 'i list \<Rightarrow> bool" where
  "refines R s xs \<longleftrightarrow>
     represents s xs \<and> set xs \<inter> R = {} \<and> (\<forall>j. j \<notin> set xs \<union> R \<longrightarrow> link_cells s j = None)"

lemma refinesI:
  assumes R: "refines R s xs" and s': "represents s' ys" and u: "untouched A s s'"
    and A: "A \<inter> R = {}" "set ys \<subseteq> set xs \<union> A"
    and n: "\<And>j. j \<in> set xs \<union> A \<Longrightarrow> j \<notin> set ys \<Longrightarrow> link_cells s' j = None"
  shows "refines R s' ys \<and> (\<forall>j \<in> R. link_cells s' j = link_cells s j)"
proof -
  have "set ys \<inter> R = {}" using R A by (auto simp: refines_def)
  moreover have "link_cells s' j = None" if "j \<notin> set ys \<union> R" for j
    using that n[of j] u R by (cases "j \<in> set xs \<union> A") (auto simp: refines_def untouched_def)
  moreover have "link_cells s' j = link_cells s j" if "j \<in> R" for j
    using that u A by (auto simp: untouched_def)
  ultimately show ?thesis using s' by (simp add: refines_def)
qed

lemma refines_same: "refines R s xs \<Longrightarrow> refines R s xs \<and> (\<forall>j \<in> R. link_cells s j = link_cells s j)"
  by simp

lemma refines_linked:
  "refines R s xs \<Longrightarrow> i \<notin> R \<Longrightarrow> link_cells s i = None \<longleftrightarrow> i \<notin> set xs"
  using ring_linked by (fastforce simp: refines_def represents_def)

lemma set_insert_before: "at \<in> set xs \<Longrightarrow> set (insert_before xs i at) = insert i (set xs)"
  by (induction xs) auto

lemma refines_distinct: "refines R s xs \<Longrightarrow> distinct xs"
  by (simp add: refines_def represents_def ring_def)

text \<open>The insertion before an element, or at the back.\<close>

lemma insert_refines:
  assumes R: "refines R s xs" and i: "i \<notin> R" "i \<notin> set xs"
    and at: "case at of None \<Rightarrow> ys = xs @ [i] | Some a \<Rightarrow> a \<in> set xs \<and> ys = insert_before xs i a"
  obtains s' where "list_insert i at s = Some (Inr (), s')" "refines R s' ys"
    "\<forall>j \<in> R. link_cells s' j = link_cells s j"
proof -
  from R have s: "represents s xs" and dis: "set xs \<inter> R = {}" by (auto simp: refines_def)
  from refines_linked[OF R i(1)] i(2) have item: "link_cells s i = None" by simp
  obtain s' where ins: "list_insert i at s = Some (Inr (), s')" and s': "represents s' ys"
    and u: "untouched (insert i (set xs)) s s'"
  proof (cases at)
    case None
    show thesis
    proof (cases xs)
      case Nil
      from list_insert_empty[OF s[unfolded Nil] item] that None Nil at show thesis by auto
    next
      case (Cons x xs')
      from list_insert_back[OF s[unfolded Cons] item] that None Cons at show thesis by auto
    qed
  next
    case (Some a)
    with at list_insert_at[OF s item, of a] that show thesis by auto
  qed
  have "set ys = insert i (set xs)" using at by (auto split: option.splits simp: set_insert_before)
  with refinesI[OF R s' u] i dis have "refines R s' ys \<and> (\<forall>j \<in> R. link_cells s' j = link_cells s j)"
    by blast
  with that ins show thesis by blast
qed

lemma remove_refines:
  assumes R: "refines R s xs" and i: "i \<in> set xs"
  obtains s' where "list_remove i s = (Inr i, s')" "refines R s' (remove1 i xs)"
    "\<forall>j \<in> R. link_cells s' j = link_cells s j"
proof -
  from R have s: "represents s xs" and dis: "set xs \<inter> R = {}" by (auto simp: refines_def)
  from list_remove_ok[OF s i] obtain s' where rm: "list_remove i s = (Inr i, s')"
    and s': "represents s' (remove1 i xs)" and n: "link_cells s' i = None"
    and u: "untouched (set xs) s s'" .
  have "set (remove1 i xs) = set xs - {i}" using refines_distinct[OF R] by simp
  then have "refines R s' (remove1 i xs) \<and> (\<forall>j \<in> R. link_cells s' j = link_cells s j)"
    using n by (intro refinesI[OF R s' u dis]) auto
  with that rm show thesis by blast
qed


lemma list_step_refines:
  assumes R: "refines R s xs" and op: "op_items op \<inter> R = {}"
  shows "case spec_step op xs of
           None \<Rightarrow> list_step op s = None
         | Some (r, ys) \<Rightarrow> (\<exists>s'. list_step op s = Some (r, s') \<and> refines R s' ys \<and>
                             (\<forall>j \<in> R. link_cells s' j = link_cells s j))"
proof -
  from R have s: "represents s xs" by (simp add: refines_def)
  note linked = refines_linked[OF R]
  have dup: "list_insert i at s = Some (Inl AlreadyLinked, s)" if "i \<in> set xs" "i \<notin> R" for i at
    using that linked[of i] by (intro list_insert_linked) simp
  show ?thesis
  proof (cases op)
    case (PushBack i)
    with op have i: "i \<notin> R" by simp
    show ?thesis
    proof (cases "i \<in> set xs")
      case True
      with dup i PushBack R show ?thesis by (simp add: list_push_back_def)
    next
      case False
      from insert_refines[OF R i False, where at = None and ys = "xs @ [i]"] PushBack False show ?thesis
        by (auto simp: list_push_back_def)
    qed
  next
    case (PushFront i)
    with op have i: "i \<notin> R" by simp
    note front = list_front_ok[OF s]
    show ?thesis
    proof (cases "i \<in> set xs")
      case True
      with dup i PushFront R front show ?thesis by (simp add: list_push_front_def)
    next
      case False
      let ?at = "if xs = [] then None else Some (hd xs)"
      have "case ?at of None \<Rightarrow> i # xs = xs @ [i]
            | Some a \<Rightarrow> a \<in> set xs \<and> i # xs = insert_before xs i a"
        by (cases xs) auto
      from insert_refines[OF R i False this] obtain s' where "list_insert i ?at s = Some (Inr (), s')"
        "refines R s' (i # xs)" "\<forall>j \<in> R. link_cells s' j = link_cells s j" .
      with PushFront False front show ?thesis by (simp add: list_push_front_def)
    qed
  next
    case (InsertAt i a)
    with op have i: "i \<notin> R" "a \<notin> R" by auto
    consider "i \<in> set xs" | "i \<notin> set xs" "a \<in> set xs" | "i \<notin> set xs" "a \<notin> set xs" "xs = []"
      | "i \<notin> set xs" "a \<notin> set xs" "xs \<noteq> []" by blast
    then show ?thesis
    proof cases
      case 1
      with dup i InsertAt R show ?thesis by simp
    next
      case 2
      from insert_refines[OF R i(1) 2(1), where at = "Some a" and ys = "insert_before xs i a"] InsertAt 2
      show ?thesis by auto
    next
      case 3
      with linked[of i] i s InsertAt show ?thesis by (simp add: list_insert_def represents_def)
    next
      case 4
      with linked[of i] linked[of a] i s InsertAt R show ?thesis
        by (simp add: list_insert_def represents_def)
    qed
  next
    case (RemoveItem i)
    with op have i: "i \<notin> R" by simp
    show ?thesis
    proof (cases "i \<in> set xs")
      case True
      from remove_refines[OF R True] obtain s' where "list_remove i s = (Inr i, s')"
        "refines R s' (remove1 i xs)" "\<forall>j \<in> R. link_cells s' j = link_cells s j" .
      with RemoveItem True show ?thesis by simp
    next
      case False
      with linked[OF i] RemoveItem R show ?thesis by (simp add: list_remove_unlinked)
    qed
  next
    case PopFront
    show ?thesis
    proof (cases xs)
      case Nil
      with list_front_ok[OF s] PopFront R show ?thesis by (simp add: list_pop_front_def)
    next
      case (Cons x xs')
      from remove_refines[OF R, of x] Cons obtain s' where "list_remove x s = (Inr x, s')"
        "refines R s' xs'" "\<forall>j \<in> R. link_cells s' j = link_cells s j" by auto
      with Cons list_front_ok[OF s] PopFront show ?thesis by (simp add: list_pop_front_def)
    qed
  next
    case PopBack
    show ?thesis
    proof (cases xs rule: rev_cases)
      case Nil
      with list_back_ok[OF s] PopBack R show ?thesis by (simp add: list_pop_back_def)
    next
      case (snoc xs' x)
      have "x \<notin> set xs'" using refines_distinct[OF R] snoc by simp
      with snoc have "remove1 x xs = xs'" by (simp add: remove1_append)
      with remove_refines[OF R, of x] snoc obtain s' where "list_remove x s = (Inr x, s')"
        "refines R s' xs'" "\<forall>j \<in> R. link_cells s' j = link_cells s j" by auto
      with snoc list_back_ok[OF s] PopBack show ?thesis by (simp add: list_pop_back_def)
    qed
  qed
qed

lemma list_run_refines:
  "\<lbrakk>refines R s xs; \<forall>op \<in> set ops. op_items op \<inter> R = {}\<rbrakk> \<Longrightarrow>
   case spec_run ops xs of
     None \<Rightarrow> list_run ops s = None
   | Some (rs, ys) \<Rightarrow> (\<exists>s'. list_run ops s = Some (rs, s') \<and> refines R s' ys \<and>
                         (\<forall>j \<in> R. link_cells s' j = link_cells s j))"
proof (induction ops arbitrary: s xs)
  case Nil
  then show ?case by simp
next
  case (Cons op ops)
  from Cons.prems have op: "op_items op \<inter> R = {}" and ops: "\<forall>op \<in> set ops. op_items op \<inter> R = {}" by auto
  note st = list_step_refines[OF Cons.prems(1) op]
  show ?case
  proof (cases "spec_step op xs")
    case None
    with st show ?thesis by simp
  next
    case (Some p)
    obtain r ys where p: "p = (r, ys)" by (cases p)
    from st Some p obtain s' where s': "list_step op s = Some (r, s')" "refines R s' ys"
      "\<forall>j \<in> R. link_cells s' j = link_cells s j" by auto
    from Cons.IH[OF s'(2) ops] s' Some p show ?thesis by (auto split: option.splits)
  qed
qed

lemma refines_empty: "refines {} \<lparr>head_cell = list_new, link_cells = \<lambda>_. None\<rparr> []"
  by (simp add: refines_def represents_def list_new_def)

text \<open>C11: The intrusive list behaves like a list of distinct elements. Started on a pool in which the
  links hold the list \<open>xs\<close> and the elements of \<open>R\<close> belong to other lists, any sequence of insertions,
  removals and pops returns the results that the operations on the plain list return, errors and the
  failed assertion included, leaves every link of the other lists as it was, and the iterator over the
  final links yields the final list.\<close>
theorem intrusive_list_refines_lists:
  assumes "refines R s xs" and "\<forall>op \<in> set ops. op_items op \<inter> R = {}"
  shows "case spec_run ops xs of
           None \<Rightarrow> list_run ops s = None
         | Some (rs, ys) \<Rightarrow>
             (\<exists>s'. list_run ops s = Some (rs, s') \<and> refines R s' ys \<and>
                   (\<forall>j \<in> R. link_cells s' j = link_cells s j) \<and>
                   iter_collect (Suc (length ys)) s' (iter_start s') = Some ys)"
  using list_run_refines[OF assms] iter_collect_ok by (fastforce simp: refines_def split: option.splits)

theorem intrusive_list_refines_lists_witness:
  "\<exists>s'. list_run [PushBack (1::nat), PushBack 2, PushFront 3, PushBack 1, RemoveItem 1, InsertAt 4 2, RemoveItem 9]
          \<lparr>head_cell = list_new, link_cells = (\<lambda>_. None)(7 := Some \<lparr>l_prev = 7, l_next = 7\<rparr>)\<rparr>
        = Some ([Inserted (Inr ()), Inserted (Inr ()), Inserted (Inr ()), Inserted (Inl AlreadyLinked),
                 Removed (Inr 1), Inserted (Inr ()), Removed (Inl NotLinked)], s') \<and>
        iter_collect 4 s' (iter_start s') = Some [3, 4, 2] \<and> link_cells s' 7 \<noteq> None"
proof -
  let ?ops = "[PushBack (1::nat), PushBack 2, PushFront 3, PushBack 1, RemoveItem 1, InsertAt 4 2, RemoveItem 9]"
  let ?s = "\<lparr>head_cell = list_new, link_cells = (\<lambda>_. None)(7 := Some \<lparr>l_prev = 7, l_next = 7::nat\<rparr>)\<rparr>"
  have "refines {7} ?s []" by (simp add: refines_def represents_def list_new_def)
  from intrusive_list_refines_lists[OF this, of ?ops] obtain s' where
    1: "list_run ?ops ?s = Some ([Inserted (Inr ()), Inserted (Inr ()), Inserted (Inr ()),
        Inserted (Inl AlreadyLinked), Removed (Inr 1), Inserted (Inr ()), Removed (Inl NotLinked)], s')"
    and 2: "iter_collect (Suc (length [3::nat, 4, 2])) s' (iter_start s') = Some [3, 4, 2]"
    and 3: "link_cells s' 7 \<noteq> None"
    by (auto simp del: list_run.simps iter_collect.simps)
  have "Suc (length [3::nat, 4, 2]) = 4" by simp
  with 1 2 3 show ?thesis by metis
qed

end
