(* ===== verification/Port_Num.thy ===== *)
theory Port_Num
  imports R3_Prelude
begin

text \<open>
  \<^verbatim>\<open>r3_portkit/src/num.rs\<close> and \<^verbatim>\<open>r3_portkit/src/num/wrapping.rs\<close>: the rational
  arithmetic and the wrapping counters of the timer drivers. A \<^verbatim>\<open>u128\<close> is a natural number,
  and an operation on \<^verbatim>\<open>u128\<close> that could overflow is \<open>None\<close> when it does. The counters
  keep the width of their integer types: the type alias \<^verbatim>\<open>Wrapping\<close> is the datatype
  \<open>wrapping\<close> with one constructor per type it can choose. Every counter is shown to be the
  naive one of the unit tests, \<open>naive_add64\<close> and \<open>naive_multi32\<close>.
\<close>

section \<open>Checked arithmetic\<close>

definition checked_nat :: "nat \<Rightarrow> nat \<Rightarrow> nat option" where
  "checked_nat w n = (if n < 2 ^ w then Some n else None)"

lemma checked_nat_ok [simp]: "n < 2 ^ w \<Longrightarrow> checked_nat w n = Some n"
  by (simp add: checked_nat_def)

definition checked_sub :: "nat \<Rightarrow> nat \<Rightarrow> nat option" where
  "checked_sub m n = (if n \<le> m then Some (m - n) else None)"

lemma checked_sub_ok [simp]: "n \<le> m \<Longrightarrow> checked_sub m n = Some (m - n)"
  by (simp add: checked_sub_def)

definition word_checked_add :: "'a::len word \<Rightarrow> 'a word \<Rightarrow> 'a word option" where
  "word_checked_add x y = (if unat x + unat y < 2 ^ LENGTH('a) then Some (x + y) else None)"

definition word_checked_sub :: "'a::len word \<Rightarrow> 'a word \<Rightarrow> 'a word option" where
  "word_checked_sub x y = (if y \<le> x then Some (x - y) else None)"

lemma word_checked_add_ok:
  "unat x + unat y < 2 ^ LENGTH('a) \<Longrightarrow>
   word_checked_add x y = Some (x + y) \<and> unat (x + y) = unat x + unat (y :: 'a::len word)"
  by (simp add: word_checked_add_def unat_word_ariths)

lemma word_checked_sub_ok:
  "unat y \<le> unat x \<Longrightarrow> word_checked_sub x y = Some (x - y) \<and> unat (x - y) = unat x - unat (y :: 'a::len word)"
  by (simp add: word_checked_sub_def word_le_nat_alt unat_sub)

section \<open>Rational numbers\<close>

fun gcd128 :: "nat \<Rightarrow> nat \<Rightarrow> nat" where
  "gcd128 x y = (if y = 0 then x else gcd128 y (x mod y))"

declare gcd128.simps [simp del]

lemma gcd128_gcd: "gcd128 x y = gcd x y"
proof (induction x y rule: gcd128.induct)
  case (1 x y)
  show ?case
  proof (cases "y = 0")
    case True
    then show ?thesis by (subst gcd128.simps) simp
  next
    case False
    with 1 have "gcd128 x y = gcd y (x mod y)" by (subst gcd128.simps) simp
    also have "\<dots> = gcd x y" using gcd_red_nat[of x y] by simp
    finally show ?thesis .
  qed
qed

record ratio =
  numer :: nat
  denom :: nat

text \<open>Division by zero panics.\<close>

definition reduce_ratio128 :: "ratio \<Rightarrow> ratio option" where
  "reduce_ratio128 r =
     (let g = gcd128 (numer r) (denom r)
      in guard (g \<noteq> 0) (Some \<lparr>numer = numer r div g, denom = denom r div g\<rparr>))"

definition floor_ratio128 :: "ratio \<Rightarrow> nat option" where
  "floor_ratio128 r = guard (denom r \<noteq> 0) (Some (numer r div denom r))"

definition ceil_ratio128 :: "ratio \<Rightarrow> nat option" where
  "ceil_ratio128 r =
     guard (denom r \<noteq> 0)
       (if numer r mod denom r = 0 then Some (numer r div denom r)
        else checked_nat 128 (numer r div denom r + 1))"

definition ceil_div128 :: "nat \<Rightarrow> nat \<Rightarrow> nat option" where
  "ceil_div128 x y =
     do { s \<leftarrow> checked_nat 128 (x + y);
          s' \<leftarrow> checked_sub s 1;
          guard (y \<noteq> 0) (Some (s' div y)) }"

text \<open>The rounded-up quotient as a function of mathematics.\<close>

definition ceil_div :: "nat \<Rightarrow> nat \<Rightarrow> nat" where
  "ceil_div x y = (x + y - 1) div y"

lemma ceil_div128_ok: "\<lbrakk>0 < y; x + y < 2 ^ 128\<rbrakk> \<Longrightarrow> ceil_div128 x y = Some (ceil_div x y)"
  by (simp add: ceil_div128_def ceil_div_def)

lemma ceil_div_le_iff: "0 < y \<Longrightarrow> ceil_div x y \<le> h \<longleftrightarrow> x \<le> h * y"
proof -
  assume y: "0 < y"
  have "ceil_div x y \<le> h \<longleftrightarrow> (x + y - 1) div y < Suc h" by (auto simp: ceil_div_def)
  also have "\<dots> \<longleftrightarrow> x + y - 1 < Suc h * y" using y by (simp add: div_less_iff_less_mult)
  also have "\<dots> \<longleftrightarrow> x \<le> h * y" using y by auto
  finally show ?thesis .
qed

lemma ceil_div_mult_add: "0 < y \<Longrightarrow> ceil_div (p * y + x) y = p + ceil_div x y"
proof -
  assume "0 < y"
  then have "p * y + x + y - 1 = (x + y - 1) + p * y" by simp
  with \<open>0 < y\<close> show ?thesis unfolding ceil_div_def by (metis add.commute div_mult_self1 less_numeral_extra(3))
qed

lemma ceil_ratio128_ok:
  assumes "0 < denom r" "numer r < 2 ^ 127"
  shows "ceil_ratio128 r = Some (ceil_div (numer r) (denom r))"
proof -
  have lt: "numer r div denom r + 1 < 2 ^ 128"
  proof -
    have "numer r div denom r \<le> numer r" by (rule div_le_dividend)
    also note assms(2)
    finally show ?thesis by simp
  qed
  have "numer r = numer r div denom r * denom r + numer r mod denom r" by simp
  then have c: "ceil_div (numer r) (denom r) = numer r div denom r + ceil_div (numer r mod denom r) (denom r)"
    using ceil_div_mult_add[OF assms(1), of "numer r div denom r" "numer r mod denom r"] by simp
  have "ceil_div (numer r mod denom r) (denom r) = (if numer r mod denom r = 0 then 0 else 1)"
  proof (cases "numer r mod denom r = 0")
    case True
    with assms(1) show ?thesis by (simp add: ceil_div_def)
  next
    case False
    then have "ceil_div (numer r mod denom r) (denom r) \<le> 1" "\<not> ceil_div (numer r mod denom r) (denom r) \<le> 0"
      using assms(1) False by (simp_all add: ceil_div_le_iff less_imp_le del: le_zero_eq)
    with False show ?thesis by simp
  qed
  with c lt assms(1) show ?thesis by (simp add: ceil_ratio128_def)
qed

lemma reduce_ratio128_ok:
  assumes "0 < numer r" "0 < denom r"
  obtains n d g where "reduce_ratio128 r = Some \<lparr>numer = n, denom = d\<rparr>" "0 < g" "numer r = n * g"
    "denom r = d * g" "coprime n d" "0 < n" "0 < d"
proof -
  let ?g = "gcd (numer r) (denom r)"
  have g: "0 < ?g" using assms by simp
  moreover have "coprime (numer r div ?g) (denom r div ?g)" using assms by (intro div_gcd_coprime) simp
  moreover have "numer r = numer r div ?g * ?g" "denom r = denom r div ?g * ?g" by simp_all
  ultimately show thesis
    using that[of "numer r div ?g" "denom r div ?g" ?g] assms
    by (simp add: reduce_ratio128_def gcd128_gcd div_greater_zero_iff Let_def gcd_le1_nat gcd_le2_nat)
qed


section \<open>Wrapping counters\<close>

definition is_power_of_two :: "nat \<Rightarrow> bool" where
  "is_power_of_two n = list_ex (\<lambda>k. n = 2 ^ k) [0..<64]"

text \<open>\<^verbatim>\<open>impl WrappingTrait for u8, u16, u32, u64\<close>: the arithmetic of the bulk operation is
  done at the width \<open>aw\<close>, and its debug assertion bounds the operand.\<close>

definition int_add64 :: "'a::len word \<Rightarrow> u64 \<Rightarrow> 'a word \<times> bool" where
  "int_add64 x rhs =
     (let r = (ucast rhs :: 'a word) in (x + r, 2 ^ LENGTH('a) \<le> unat x + unat r))"

definition int_multi32 :: "nat \<Rightarrow> 'a::len word \<Rightarrow> nat \<Rightarrow> ('a word \<times> u32) option" where
  "int_multi32 aw x rhs =
     guard (rhs < 2 ^ (LENGTH('a) + 32))
       (do { new_value \<leftarrow> checked_nat aw (unat x + rhs mod 2 ^ aw);
             Some (of_nat new_value, of_nat (new_value div 2 ^ LENGTH('a))) })"

text \<open>\<^verbatim>\<open>impl WrappingTrait for FractionalWrapping<T, MAX>\<close>.\<close>

definition try_from :: "nat \<Rightarrow> 'a::len word option" where
  "try_from n = (if n < 2 ^ LENGTH('a) then Some (of_nat n) else None)"

definition frac_add64 :: "nat \<Rightarrow> 'a::len word \<Rightarrow> u64 \<Rightarrow> ('a word \<times> bool) option" where
  "frac_add64 mx x rhs =
     do { t_max \<leftarrow> try_from mx;
          t_rhs \<leftarrow> try_from (unat rhs);
          if mx < 2 ^ 64 - 1 \<and> is_power_of_two (mx + 1) then
            do { new_value \<leftarrow> word_checked_add x t_rhs;
                 m \<leftarrow> word_checked_add t_max 1;
                 guard (m \<noteq> 0) (Some (new_value mod m, m \<le> new_value)) }
          else
            do { d \<leftarrow> word_checked_sub t_max x;
                 if t_rhs \<le> d then
                   do { x' \<leftarrow> word_checked_add x t_rhs; Some (x', False) }
                 else
                   do { e \<leftarrow> word_checked_sub t_rhs d;
                        x' \<leftarrow> word_checked_sub e 1;
                        Some (x', True) } } }"

definition frac_multi32 :: "nat \<Rightarrow> 'a::len word \<Rightarrow> nat \<Rightarrow> ('a word \<times> u32) option" where
  "frac_multi32 mx x rhs =
     do { new_value \<leftarrow> checked_nat 128 (unat x + rhs);
          x' \<leftarrow> try_from (new_value mod (mx + 1));
          (let wrap_count = new_value div (mx + 1)
           in guard (wrap_count \<le> 2 ^ 32 - 1) (Some (x', of_nat wrap_count))) }"

text \<open>The type alias \<^verbatim>\<open>Wrapping<MAX>\<close> chooses the type of the counter by \<open>mx\<close>.\<close>

datatype wrapping =
    WUnit
  | W8 u8 | W16 u16 | W32 u32 | W64 u64
  | F8 u8 | F16 u16 | F32 u32 | F64 u64

definition wrapping_init :: "nat \<Rightarrow> wrapping" where
  "wrapping_init mx =
     (if mx = 0 then WUnit
      else if mx < 2 ^ 8 - 1 then F8 0
      else if mx = 2 ^ 8 - 1 then W8 0
      else if mx < 2 ^ 16 - 1 then F16 0
      else if mx = 2 ^ 16 - 1 then W16 0
      else if mx < 2 ^ 32 - 1 then F32 0
      else if mx = 2 ^ 32 - 1 then W32 0
      else if mx < 2 ^ 64 - 1 then F64 0
      else W64 0)"

definition wrapping_add_assign64 :: "nat \<Rightarrow> wrapping \<Rightarrow> u64 \<Rightarrow> (wrapping \<times> bool) option" where
  "wrapping_add_assign64 mx w rhs =
     (case w of
        WUnit \<Rightarrow> Some (WUnit, rhs \<noteq> 0)
      | W8 x \<Rightarrow> Some (map_prod W8 id (int_add64 x rhs))
      | W16 x \<Rightarrow> Some (map_prod W16 id (int_add64 x rhs))
      | W32 x \<Rightarrow> Some (map_prod W32 id (int_add64 x rhs))
      | W64 x \<Rightarrow> Some (map_prod W64 id (int_add64 x rhs))
      | F8 x \<Rightarrow> map_option (map_prod F8 id) (frac_add64 mx x rhs)
      | F16 x \<Rightarrow> map_option (map_prod F16 id) (frac_add64 mx x rhs)
      | F32 x \<Rightarrow> map_option (map_prod F32 id) (frac_add64 mx x rhs)
      | F64 x \<Rightarrow> map_option (map_prod F64 id) (frac_add64 mx x rhs))"

definition wrapping_add_assign128_multi32 ::
  "nat \<Rightarrow> wrapping \<Rightarrow> nat \<Rightarrow> (wrapping \<times> u32) option" where
  "wrapping_add_assign128_multi32 mx w rhs =
     (case w of
        WUnit \<Rightarrow> Some (WUnit, of_nat rhs)
      | W8 x \<Rightarrow> map_option (map_prod W8 id) (int_multi32 64 x rhs)
      | W16 x \<Rightarrow> map_option (map_prod W16 id) (int_multi32 64 x rhs)
      | W32 x \<Rightarrow> map_option (map_prod W32 id) (int_multi32 64 x rhs)
      | W64 x \<Rightarrow> map_option (map_prod W64 id) (int_multi32 128 x rhs)
      | F8 x \<Rightarrow> map_option (map_prod F8 id) (frac_multi32 mx x rhs)
      | F16 x \<Rightarrow> map_option (map_prod F16 id) (frac_multi32 mx x rhs)
      | F32 x \<Rightarrow> map_option (map_prod F32 id) (frac_multi32 mx x rhs)
      | F64 x \<Rightarrow> map_option (map_prod F64 id) (frac_multi32 mx x rhs))"

fun wrapping_to_u128 :: "wrapping \<Rightarrow> nat" where
  "wrapping_to_u128 WUnit = 0"
| "wrapping_to_u128 (W8 x) = unat x"
| "wrapping_to_u128 (W16 x) = unat x"
| "wrapping_to_u128 (W32 x) = unat x"
| "wrapping_to_u128 (W64 x) = unat x"
| "wrapping_to_u128 (F8 x) = unat x"
| "wrapping_to_u128 (F16 x) = unat x"
| "wrapping_to_u128 (F32 x) = unat x"
| "wrapping_to_u128 (F64 x) = unat x"

text \<open>The naive counter of the unit tests.\<close>

definition naive_add64 :: "nat \<Rightarrow> nat \<Rightarrow> nat \<Rightarrow> nat \<times> bool" where
  "naive_add64 mx inner rhs =
     (let new_value = inner + rhs in (new_value mod (mx + 1), mx < new_value))"

definition naive_multi32 :: "nat \<Rightarrow> nat \<Rightarrow> nat \<Rightarrow> (nat \<times> nat) option" where
  "naive_multi32 mx inner rhs =
     (let new_value = inner + rhs; wrap_count = new_value div (mx + 1)
      in if wrap_count < 2 ^ 32 then Some (new_value mod (mx + 1), wrap_count) else None)"


section \<open>The counters are the naive counter\<close>

lemma mod_lt_twice: "(n :: nat) < 2 * m \<Longrightarrow> n mod m = (if n < m then n else n - m)"
  by (auto simp: mod_if)

lemma unat_ucast_small: "unat (x :: 'b::len word) < 2 ^ LENGTH('a) \<Longrightarrow> unat (ucast x :: 'a::len word) = unat x"
  by (simp add: unsigned_ucast_eq take_bit_nat_eq_self)

lemma int_add64_naive:
  assumes "mx = 2 ^ LENGTH('a) - 1" "unat rhs \<le> mx"
  shows "map_prod unat id (int_add64 (x :: 'a::len word) rhs) = naive_add64 mx (unat x) (unat rhs)"
proof -
  have m: "mx + 1 = 2 ^ LENGTH('a)" using assms(1) by simp
  then have "unat (ucast rhs :: 'a word) = unat rhs"
    using assms(2) by (intro unat_ucast_small) simp
  then show ?thesis using m by (auto simp: int_add64_def naive_add64_def unat_word_ariths Let_def)
qed

lemma naive_multi32_Some:
  "naive_multi32 mx n rhs = Some (v, c) \<Longrightarrow>
   v = (n + rhs) mod (mx + 1) \<and> c = (n + rhs) div (mx + 1) \<and> c < 2 ^ 32 \<and>
   n + rhs < 2 ^ 32 * (mx + 1)"
  by (auto simp: naive_multi32_def Let_def div_less_iff_less_mult split: if_splits)

lemma int_multi32_naive:
  assumes "mx = 2 ^ LENGTH('a) - 1" "LENGTH('a) + 32 \<le> aw"
    and n: "naive_multi32 mx (unat x) rhs = Some (v, c)"
  shows "\<exists>x' c'. int_multi32 aw (x :: 'a::len word) rhs = Some (x', c') \<and> unat x' = v \<and> unat c' = c"
proof -
  have m: "mx + 1 = 2 ^ LENGTH('a)" using assms(1) by simp
  note nv = naive_multi32_Some[OF n, unfolded m]
  then have lt: "unat x + rhs < 2 ^ (LENGTH('a) + 32)" by (simp add: power_add mult.commute)
  also have le: "(2 :: nat) ^ (LENGTH('a) + 32) \<le> 2 ^ aw" using assms(2) by (intro power_increasing) auto
  finally have aw: "unat x + rhs < 2 ^ aw" .
  then have "rhs mod 2 ^ aw = rhs" by simp
  with aw lt show ?thesis using nv by (auto simp: int_multi32_def unat_of_nat simp del: of_nat_add)
qed

lemma is_power_of_two_ex: "is_power_of_two n \<Longrightarrow> \<exists>k. n = 2 ^ k"
  by (auto simp: is_power_of_two_def list_ex_iff)

lemma power_of_two_half:
  "is_power_of_two (mx + 1) \<Longrightarrow> mx + 1 < 2 ^ w \<Longrightarrow> 2 * (mx + 1) \<le> (2 :: nat) ^ w"
proof -
  assume "is_power_of_two (mx + 1)" "mx + 1 < 2 ^ w"
  then obtain k where k: "mx + 1 = 2 ^ k" using is_power_of_two_ex by blast
  with \<open>mx + 1 < 2 ^ w\<close> have "Suc k \<le> w" by simp
  then have "(2 :: nat) ^ Suc k \<le> 2 ^ w" by (intro power_increasing) auto
  with k show ?thesis by simp
qed

lemma try_from_ok: "n < 2 ^ LENGTH('a) \<Longrightarrow> try_from n = Some (of_nat n :: 'a::len word)"
  by (simp add: try_from_def)

lemma frac_add64_naive:
  fixes x :: "'a::len word"
  assumes M: "0 < mx" "mx + 1 < 2 ^ LENGTH('a)" and x: "unat x \<le> mx" and r: "unat rhs \<le> mx"
  shows "\<exists>p. frac_add64 mx x rhs = Some p \<and> map_prod unat id p = naive_add64 mx (unat x) (unat rhs)"
proof -
  let ?m = "of_nat mx :: 'a word" and ?r = "of_nat (unat rhs) :: 'a word"
  have um: "unat ?m = mx" "unat ?r = unat rhs" using M r by (simp_all add: unat_of_nat unat_ucast_small)
  have t: "try_from mx = Some ?m" "try_from (unat rhs) = Some ?r" using M r by (simp_all add: try_from_ok)
  have LEN: "(1 :: nat) < 2 ^ LENGTH('a)" using M by linarith
  then have u1: "unat (1 :: 'a word) = 1" by simp
  note naive = naive_add64_def Let_def
  show ?thesis
  proof (cases "mx < 2 ^ 64 - 1 \<and> is_power_of_two (mx + 1)")
    case True
    with power_of_two_half M have "2 * (mx + 1) \<le> 2 ^ LENGTH('a)" by blast
    then have "unat x + unat ?r < 2 ^ LENGTH('a)" using um x r by simp
    from word_checked_add_ok[OF this] have 1: "word_checked_add x ?r = Some (x + ?r)"
      "unat (x + ?r) = unat x + unat rhs" using um by auto
    have "unat ?m + unat (1 :: 'a word) < 2 ^ LENGTH('a)" using um u1 M by simp
    from word_checked_add_ok[OF this] have 2: "word_checked_add ?m 1 = Some (?m + 1)"
      "unat (?m + 1) = mx + 1" using um u1 by auto
    from 2(2) have "?m + 1 \<noteq> 0" by (metis Suc_eq_plus1 nat.distinct(1) unat_0)
    then have "frac_add64 mx x rhs = Some ((x + ?r) mod (?m + 1), ?m + 1 \<le> x + ?r)"
      using t 1 2 True by (simp add: frac_add64_def)
    moreover have "unat ((x + ?r) mod (?m + 1)) = (unat x + unat rhs) mod (mx + 1)"
      using 1 2 by (simp add: unat_mod)
    moreover have "?m + 1 \<le> x + ?r \<longleftrightarrow> mx < unat x + unat rhs"
      using 1 2 by (auto simp: word_le_nat_alt)
    ultimately show ?thesis by (auto simp: naive)
  next
    case False
    have "unat x \<le> unat ?m" using um x by simp
    from word_checked_sub_ok[OF this] have d: "word_checked_sub ?m x = Some (?m - x)"
      "unat (?m - x) = mx - unat x" using um by auto
    show ?thesis
    proof (cases "?r \<le> ?m - x")
      case le: True
      then have le': "unat rhs \<le> mx - unat x" using d um by (simp add: word_le_nat_alt)
      then have "unat x + unat ?r < 2 ^ LENGTH('a)" using um x r M by simp
      from word_checked_add_ok[OF this] have 1: "word_checked_add x ?r = Some (x + ?r)"
        "unat (x + ?r) = unat x + unat rhs" using um by auto
      have "frac_add64 mx x rhs = Some (x + ?r, False)"
        using t d le 1 False by (auto simp: frac_add64_def)
      moreover have "(unat x + unat rhs) mod (mx + 1) = unat x + unat rhs" using le' x by simp
      ultimately show ?thesis using 1 le' x by (auto simp: naive)
    next
      case gt: False
      then have gt': "mx - unat x < unat rhs" using d um by (simp add: word_le_nat_alt)
      then have "unat (?m - x) \<le> unat ?r" using d um by simp
      from word_checked_sub_ok[OF this] have 1: "word_checked_sub ?r (?m - x) = Some (?r - (?m - x))"
        "unat (?r - (?m - x)) = unat rhs - (mx - unat x)" using um d by auto
      then have "unat (1 :: 'a word) \<le> unat (?r - (?m - x))" using u1 gt' by simp
      from word_checked_sub_ok[OF this] have 2:
        "word_checked_sub (?r - (?m - x)) 1 = Some (?r - (?m - x) - 1)"
        "unat (?r - (?m - x) - 1) = unat rhs - (mx - unat x) - 1" using 1 u1 by auto
      have "frac_add64 mx x rhs = Some (?r - (?m - x) - 1, True)"
        using t d gt 1(1) 2(1) False by (auto simp: frac_add64_def)
      moreover have "(unat x + unat rhs) mod (mx + 1) = unat rhs - (mx - unat x) - 1"
        using gt' x r by (subst mod_lt_twice) auto
      ultimately show ?thesis using 2 gt' x by (auto simp: naive)
    qed
  qed
qed

lemma frac_multi32_naive:
  fixes x :: "'a::len word"
  assumes M: "mx + 1 < 2 ^ LENGTH('a)" "LENGTH('a) \<le> 64"
    and n: "naive_multi32 mx (unat x) rhs = Some (v, c)"
  shows "\<exists>x' c'. frac_multi32 mx x rhs = Some (x', c') \<and> unat x' = v \<and> unat c' = c"
proof -
  note nv = naive_multi32_Some[OF n]
  have "(2 :: nat) ^ LENGTH('a) \<le> 2 ^ 64" using M(2) by (intro power_increasing) auto
  with M have "mx + 1 < 2 ^ 64" by linarith
  then have "2 ^ 32 * (mx + 1) < 2 ^ 32 * 2 ^ 64" by simp
  with nv have 1: "unat x + rhs < 2 ^ 128" by simp
  have "(unat x + rhs) mod (mx + 1) < mx + 1" by (intro mod_less_divisor) simp
  with M have 2: "(unat x + rhs) mod (mx + 1) < 2 ^ LENGTH('a)" by linarith
  have "unat (of_nat ((unat x + rhs) mod (mx + 1)) :: 'a word) = (unat x + rhs) mod (mx + 1)"
    using 2 by (simp add: unat_of_nat)
  moreover have "unat (of_nat c :: u32) = c" using nv by (simp add: unat_of_nat)
  ultimately show ?thesis using 1 2 nv
    by (auto simp: frac_multi32_def try_from_def Let_def guard_def)
qed


text \<open>\<open>wrapping_ok mx w\<close>: the counter has the type that \<open>mx\<close> selects, and a value up to \<open>mx\<close>.\<close>

definition wrapping_ok :: "nat \<Rightarrow> wrapping \<Rightarrow> bool" where
  "wrapping_ok mx w =
     (case w of
        WUnit \<Rightarrow> mx = 0
      | W8 x \<Rightarrow> mx = 2 ^ 8 - 1 | W16 x \<Rightarrow> mx = 2 ^ 16 - 1
      | W32 x \<Rightarrow> mx = 2 ^ 32 - 1 | W64 x \<Rightarrow> mx = 2 ^ 64 - 1
      | F8 x \<Rightarrow> 0 < mx \<and> mx + 1 < 2 ^ 8 \<and> unat x \<le> mx
      | F16 x \<Rightarrow> 0 < mx \<and> mx + 1 < 2 ^ 16 \<and> unat x \<le> mx
      | F32 x \<Rightarrow> 0 < mx \<and> mx + 1 < 2 ^ 32 \<and> unat x \<le> mx
      | F64 x \<Rightarrow> 0 < mx \<and> mx + 1 < 2 ^ 64 \<and> unat x \<le> mx)"

lemma wrapping_init_ok:
  "mx < 2 ^ 64 \<Longrightarrow> wrapping_ok mx (wrapping_init mx) \<and> wrapping_to_u128 (wrapping_init mx) = 0"
  by (auto simp: wrapping_init_def wrapping_ok_def)

lemma wrapping_ok_le: "wrapping_ok mx w \<Longrightarrow> wrapping_to_u128 w \<le> mx"
proof (cases w)
  fix x :: u8 assume "wrapping_ok mx w" "w = W8 x"
  then show ?thesis using unsigned_less[of x, where ?'a = nat] by (simp add: wrapping_ok_def)
next
  fix x :: u16 assume "wrapping_ok mx w" "w = W16 x"
  then show ?thesis using unsigned_less[of x, where ?'a = nat] by (simp add: wrapping_ok_def)
next
  fix x :: u32 assume "wrapping_ok mx w" "w = W32 x"
  then show ?thesis using unsigned_less[of x, where ?'a = nat] by (simp add: wrapping_ok_def)
next
  fix x :: u64 assume "wrapping_ok mx w" "w = W64 x"
  then show ?thesis using unsigned_less[of x, where ?'a = nat] by (simp add: wrapping_ok_def)
qed (auto simp: wrapping_ok_def)

lemma naive_add64_le: "naive_add64 mx n rhs = (v, b) \<Longrightarrow> v \<le> mx"
  by (auto simp: naive_add64_def Let_def simp flip: less_Suc_eq_le)

text \<open>One lemma per kind of counter, for every constructor \<open>K\<close> of that kind.\<close>

definition int_counter :: "nat \<Rightarrow> ('a::len word \<Rightarrow> wrapping) \<Rightarrow> bool" where
  "int_counter mx K \<longleftrightarrow>
     (\<forall>x. wrapping_to_u128 (K x) = unat x \<and> wrapping_ok mx (K x) = (mx = 2 ^ LENGTH('a) - 1) \<and>
          (\<forall>rhs. wrapping_add_assign64 mx (K x) rhs = Some (map_prod K id (int_add64 x rhs))) \<and>
          (\<forall>rhs. wrapping_add_assign128_multi32 mx (K x) rhs =
             map_option (map_prod K id) (int_multi32 (if LENGTH('a) = 64 then 128 else 64) x rhs)))"

definition frac_counter :: "nat \<Rightarrow> ('a::len word \<Rightarrow> wrapping) \<Rightarrow> bool" where
  "frac_counter mx K \<longleftrightarrow> LENGTH('a) \<le> 64 \<and>
     (\<forall>x. wrapping_to_u128 (K x) = unat x \<and>
          wrapping_ok mx (K x) = (0 < mx \<and> mx + 1 < 2 ^ LENGTH('a) \<and> unat x \<le> mx) \<and>
          (\<forall>rhs. wrapping_add_assign64 mx (K x) rhs = map_option (map_prod K id) (frac_add64 mx x rhs)) \<and>
          (\<forall>rhs. wrapping_add_assign128_multi32 mx (K x) rhs =
             map_option (map_prod K id) (frac_multi32 mx x rhs)))"

lemma counters:
  "int_counter mx W8" "int_counter mx W16" "int_counter mx W32" "int_counter mx W64"
  "frac_counter mx F8" "frac_counter mx F16" "frac_counter mx F32" "frac_counter mx F64"
  by (simp_all add: int_counter_def frac_counter_def wrapping_ok_def wrapping_add_assign64_def
      wrapping_add_assign128_multi32_def)

text \<open>What the proofs conclude for each counter.\<close>

definition steps_as_naive :: "nat \<Rightarrow> wrapping \<Rightarrow> bool" where
  "steps_as_naive mx w \<longleftrightarrow>
     (\<forall>rhs. unat rhs \<le> mx \<longrightarrow>
        (\<exists>w' b. wrapping_add_assign64 mx w rhs = Some (w', b) \<and> wrapping_ok mx w' \<and>
           naive_add64 mx (wrapping_to_u128 w) (unat rhs) = (wrapping_to_u128 w', b))) \<and>
     (\<forall>rhs v c. naive_multi32 mx (wrapping_to_u128 w) rhs = Some (v, c) \<longrightarrow>
        (\<exists>w' c'. wrapping_add_assign128_multi32 mx w rhs = Some (w', c') \<and> wrapping_ok mx w' \<and>
           wrapping_to_u128 w' = v \<and> unat c' = c))"

lemma int_counter_steps:
  assumes K: "int_counter mx (K :: 'a::len word \<Rightarrow> wrapping)" and ok: "wrapping_ok mx (K x)"
    and len: "LENGTH('a) + 32 \<le> (if LENGTH('a) = 64 then 128 else 64)"
  shows "steps_as_naive mx (K x)"
proof -
  from K ok have mx: "mx = 2 ^ LENGTH('a) - 1" by (simp add: int_counter_def)
  have "\<exists>w' b. wrapping_add_assign64 mx (K x) rhs = Some (w', b) \<and> wrapping_ok mx w' \<and>
      naive_add64 mx (wrapping_to_u128 (K x)) (unat rhs) = (wrapping_to_u128 w', b)"
    if "unat rhs \<le> mx" for rhs
    using int_add64_naive[OF mx that, of x] K mx
    by (cases "int_add64 x rhs") (auto simp: int_counter_def)
  moreover have "\<exists>w' c'. wrapping_add_assign128_multi32 mx (K x) rhs = Some (w', c') \<and> wrapping_ok mx w' \<and>
      wrapping_to_u128 w' = v \<and> unat c' = c"
    if "naive_multi32 mx (wrapping_to_u128 (K x)) rhs = Some (v, c)" for rhs v c
    using int_multi32_naive[OF mx len, of x rhs v c] that K mx by (auto simp: int_counter_def)
  ultimately show ?thesis by (simp add: steps_as_naive_def)
qed

lemma frac_counter_steps:
  assumes K: "frac_counter mx (K :: 'a::len word \<Rightarrow> wrapping)" and ok: "wrapping_ok mx (K x)"
  shows "steps_as_naive mx (K x)"
proof -
  from K ok have mx: "0 < mx" "mx + 1 < 2 ^ LENGTH('a)" "unat x \<le> mx" "LENGTH('a) \<le> 64"
    by (auto simp: frac_counter_def)
  have "\<exists>w' b. wrapping_add_assign64 mx (K x) rhs = Some (w', b) \<and> wrapping_ok mx w' \<and>
      naive_add64 mx (wrapping_to_u128 (K x)) (unat rhs) = (wrapping_to_u128 w', b)"
    if r: "unat rhs \<le> mx" for rhs
  proof -
    from frac_add64_naive[OF mx(1,2,3) r] obtain y b where
      "frac_add64 mx x rhs = Some (y, b)" "naive_add64 mx (unat x) (unat rhs) = (unat y, b)" by auto
    then show ?thesis using K mx naive_add64_le by (auto simp: frac_counter_def)
  qed
  moreover have "\<exists>w' c'. wrapping_add_assign128_multi32 mx (K x) rhs = Some (w', c') \<and> wrapping_ok mx w' \<and>
      wrapping_to_u128 w' = v \<and> unat c' = c"
    if n: "naive_multi32 mx (wrapping_to_u128 (K x)) rhs = Some (v, c)" for rhs v c
  proof -
    from n K have n': "naive_multi32 mx (unat x) rhs = Some (v, c)" by (simp add: frac_counter_def)
    then have "v \<le> mx" using naive_multi32_Some[OF n'] by (simp flip: less_Suc_eq_le)
    with frac_multi32_naive[OF mx(2,4) n'] K mx show ?thesis by (auto simp: frac_counter_def)
  qed
  ultimately show ?thesis by (simp add: steps_as_naive_def)
qed

lemma wrapping_steps: "wrapping_ok mx w \<Longrightarrow> steps_as_naive mx w"
proof (cases w)
  case WUnit
  assume "wrapping_ok mx w"
  with WUnit show ?thesis
    by (auto simp: steps_as_naive_def wrapping_ok_def wrapping_add_assign64_def
        wrapping_add_assign128_multi32_def naive_add64_def naive_multi32_def unat_of_nat
        unat_eq_zero split: if_splits)
qed (auto intro: int_counter_steps[OF counters(1)] int_counter_steps[OF counters(2)]
    int_counter_steps[OF counters(3)] int_counter_steps[OF counters(4)]
    frac_counter_steps[OF counters(5)] frac_counter_steps[OF counters(6)]
    frac_counter_steps[OF counters(7)] frac_counter_steps[OF counters(8)])

section \<open>Equivalence with the naive counter\<close>

datatype counter_op = AddSmall u64 | AddMulti nat

datatype counter_result = Wrapped bool | WrapCount nat

fun counter_run :: "nat \<Rightarrow> counter_op list \<Rightarrow> wrapping \<Rightarrow> (counter_result list \<times> nat) option" where
  "counter_run mx [] w = Some ([], wrapping_to_u128 w)"
| "counter_run mx (AddSmall rhs # ops) w =
     do { (w', b) \<leftarrow> wrapping_add_assign64 mx w rhs;
          (rs, v) \<leftarrow> counter_run mx ops w';
          Some (Wrapped b # rs, v) }"
| "counter_run mx (AddMulti rhs # ops) w =
     do { (w', c) \<leftarrow> wrapping_add_assign128_multi32 mx w rhs;
          (rs, v) \<leftarrow> counter_run mx ops w';
          Some (WrapCount (unat c) # rs, v) }"

fun naive_run :: "nat \<Rightarrow> counter_op list \<Rightarrow> nat \<Rightarrow> (counter_result list \<times> nat) option" where
  "naive_run mx [] n = Some ([], n)"
| "naive_run mx (AddSmall rhs # ops) n =
     guard (unat rhs \<le> mx)
       (let (n', b) = naive_add64 mx n (unat rhs)
        in do { (rs, v) \<leftarrow> naive_run mx ops n'; Some (Wrapped b # rs, v) })"
| "naive_run mx (AddMulti rhs # ops) n =
     do { (n', c) \<leftarrow> naive_multi32 mx n rhs;
          (rs, v) \<leftarrow> naive_run mx ops n';
          Some (WrapCount c # rs, v) }"

lemma counter_run_naive:
  "wrapping_ok mx w \<Longrightarrow> naive_run mx ops (wrapping_to_u128 w) = Some r \<Longrightarrow> counter_run mx ops w = Some r"
proof (induction ops arbitrary: w r)
  case Nil
  then show ?case by simp
next
  case (Cons op ops)
  note st = wrapping_steps[OF Cons.prems(1), unfolded steps_as_naive_def]
  show ?case
  proof (cases op)
    case (AddSmall rhs)
    with Cons.prems(2) have le: "unat rhs \<le> mx" by (simp add: guard_eq_Some)
    with st obtain w' b where w': "wrapping_add_assign64 mx w rhs = Some (w', b)" "wrapping_ok mx w'"
      "naive_add64 mx (wrapping_to_u128 w) (unat rhs) = (wrapping_to_u128 w', b)" by blast
    with Cons AddSmall le show ?thesis by (fastforce simp: bind_eq_Some_conv)
  next
    case (AddMulti rhs)
    with Cons.prems(2) obtain n' c where n: "naive_multi32 mx (wrapping_to_u128 w) rhs = Some (n', c)"
      by (auto simp: bind_eq_Some_conv)
    with st obtain w' c' where "wrapping_add_assign128_multi32 mx w rhs = Some (w', c')"
      "wrapping_ok mx w'" "wrapping_to_u128 w' = n'" "unat c' = c" by blast
    with Cons AddMulti n show ?thesis by (fastforce simp: bind_eq_Some_conv)
  qed
qed


text \<open>C38: Whatever type the alias \<^verbatim>\<open>Wrapping<MAX>\<close> selects, the counter is the naive counter modulo
  \<open>MAX + 1\<close>: for every sequence of single and bulk additions that the naive counter accepts (operands up
  to \<open>MAX\<close>, wrap counts that fit 32 bits), it never panics, reports the same wrap-arounds and wrap
  counts, and ends at the same value.\<close>
theorem wrapping_counter_is_naive:
  assumes "mx < 2 ^ 64" and "naive_run mx ops 0 = Some r"
  shows "counter_run mx ops (wrapping_init mx) = Some r"
  using counter_run_naive[of mx "wrapping_init mx" ops r] wrapping_init_ok[OF assms(1)] assms(2) by simp

theorem wrapping_counter_is_naive_witness:
  "counter_run 9 [AddSmall 7, AddSmall 5, AddMulti 25] (wrapping_init 9) =
     Some ([Wrapped False, Wrapped True, WrapCount 2], 7)"
proof -
  have "naive_run 9 [AddSmall 7, AddSmall 5, AddMulti 25] 0 =
      Some ([Wrapped False, Wrapped True, WrapCount 2], 7)"
    by (simp add: naive_add64_def naive_multi32_def Let_def)
  from wrapping_counter_is_naive[OF _ this] show ?thesis by simp
qed

end
