(* ===== verification/Tickful.thy ===== *)
theory Tickful
  imports Port_Num Timeout
begin

text \<open>
  \<^verbatim>\<open>r3_portkit/src/tickful.rs\<close>: the timer driver of ports whose hardware timer interrupts
  at a fixed period. The period is a rational number of microseconds; its fractional part is
  accumulated in a wrapping counter. The lemmas show that the configuration never overflows and that
  the tick count is the exact time, rounded down, after any number of ticks.
\<close>

section \<open>Configuration\<close>

record tickful_options =
  tf_freq_num :: u64
  tf_freq_denom :: u64
  tf_tick_period :: u32

datatype tickful_error =
    TfFreqNumZero
  | TfFreqDenomZero
  | TfPeriodZero
  | TfPeriodOverflowsU32
  | TfPeriodExceedsKernelHeadroom

fun tickful_error_as_str :: "tickful_error \<Rightarrow> string" where
  "tickful_error_as_str TfFreqNumZero =
     ''the numerator of the clock frequency must not be zero''"
| "tickful_error_as_str TfFreqDenomZero =
     ''the denominator of the clock frequency must not be zero''"
| "tickful_error_as_str TfPeriodZero = ''the tick period must not be zero''"
| "tickful_error_as_str TfPeriodOverflowsU32 =
     ''the tick period is too long and does not fit in 32 bits when measured in microseconds''"
| "tickful_error_as_str TfPeriodExceedsKernelHeadroom =
     ''the tick period must not be longer than `TIME_HARD_HEADROOM`''"

record tickful_cfg =
  tick_period_micros :: u32
  tick_period_submicros :: u64
  tf_division :: u64

definition tickful_new :: "tickful_options \<Rightarrow> (tickful_error + tickful_cfg) option" where
  "tickful_new opts =
     (if tf_freq_denom opts = 0 then Some (Inl TfFreqDenomZero)
      else if tf_freq_num opts = 0 then Some (Inl TfFreqNumZero)
      else if tf_tick_period opts = 0 then Some (Inl TfPeriodZero)
      else do {
        secs \<leftarrow> checked_nat 128 (unat (tf_freq_denom opts) * unat (tf_tick_period opts));
        micros \<leftarrow> checked_nat 128 (secs * 1000000);
        period \<leftarrow> reduce_ratio128 \<lparr>numer = micros, denom = unat (tf_freq_num opts)\<rparr>;
        period_floor \<leftarrow> floor_ratio128 period;
        period_ceil \<leftarrow> ceil_ratio128 period;
        submicros \<leftarrow> guard (denom period \<noteq> 0) (Some (numer period mod denom period));
        if 0x100000000 \<le> period_ceil then Some (Inl TfPeriodOverflowsU32)
        else if unat HARD_HEADROOM < period_ceil then Some (Inl TfPeriodExceedsKernelHeadroom)
        else Some (Inr \<lparr>tick_period_micros = of_nat period_floor,
                        tick_period_submicros = of_nat submicros,
                        tf_division = of_nat (denom period)\<rparr>) })"

definition tickful_is_exact :: "tickful_cfg \<Rightarrow> bool" where
  "tickful_is_exact cfg = (tf_division cfg = 1)"

section \<open>State\<close>

record tickful_state =
  tick_count_micros :: u32
  tick_count_submicros :: wrapping

text \<open>The fractional counter wraps at \<^verbatim>\<open>CFG.take_division() - 1\<close>.\<close>

definition tickful_max :: "tickful_cfg \<Rightarrow> nat" where
  "tickful_max cfg = unat (tf_division cfg) - 1"

definition tickful_init :: "tickful_cfg \<Rightarrow> tickful_state" where
  "tickful_init cfg =
     \<lparr>tick_count_micros = 0, tick_count_submicros = wrapping_init (tickful_max cfg)\<rparr>"

definition tickful_tick :: "tickful_cfg \<Rightarrow> tickful_state \<Rightarrow> tickful_state option" where
  "tickful_tick cfg s =
     do { (let m = tick_count_micros s + tick_period_micros cfg in
           do { (sub, wrapped) \<leftarrow> wrapping_add_assign64 (tickful_max cfg)
                                  (tick_count_submicros s) (tick_period_submicros cfg);
                Some \<lparr>tick_count_micros = (if wrapped then m + 1 else m),
                      tick_count_submicros = sub\<rparr> }) }"

definition tickful_tick_count :: "tickful_state \<Rightarrow> u32" where
  "tickful_tick_count s = tick_count_micros s"

section \<open>The configuration is exact\<close>

text \<open>The tick period in microseconds is \<open>period_num / period_den\<close>.\<close>

definition period_num :: "tickful_options \<Rightarrow> nat" where
  "period_num opts = unat (tf_freq_denom opts) * unat (tf_tick_period opts) * 1000000"

definition period_den :: "tickful_options \<Rightarrow> nat" where
  "period_den opts = unat (tf_freq_num opts)"

lemma unat_u64_lt: "unat (x :: u64) < 2 ^ 64"
  using unsigned_less[of x, where ?'a = nat] by simp

lemma period_num_lt: "period_num opts < 2 ^ 116"
proof -
  have "unat (tf_freq_denom opts) * unat (tf_tick_period opts) < 2 ^ 64 * 2 ^ 32"
    using unat_u64_lt unsigned_less[of "tf_tick_period opts", where ?'a = nat] by (intro mult_strict_mono) auto
  then show ?thesis by (simp add: period_num_def)
qed

lemma ceil_div_reduce: "0 < g \<Longrightarrow> 0 < d \<Longrightarrow> ceil_div (n * g) (d * g) = ceil_div n d"
proof -
  assume g: "0 < g" and d: "0 < d"
  then have "ceil_div (n * g) (d * g) \<le> h \<longleftrightarrow> ceil_div n d \<le> h" for h
    by (simp add: ceil_div_le_iff mult.assoc[symmetric])
  then show ?thesis by (meson antisym order_refl)
qed

definition tickful_spec :: "tickful_options \<Rightarrow> tickful_error + tickful_cfg" where
  "tickful_spec opts =
     (let n = period_num opts; d = period_den opts; g = gcd n d in
      if tf_freq_denom opts = 0 then Inl TfFreqDenomZero
      else if tf_freq_num opts = 0 then Inl TfFreqNumZero
      else if tf_tick_period opts = 0 then Inl TfPeriodZero
      else if 2 ^ 32 \<le> ceil_div n d then Inl TfPeriodOverflowsU32
      else if 2 ^ 30 < ceil_div n d then Inl TfPeriodExceedsKernelHeadroom
      else Inr \<lparr>tick_period_micros = of_nat (n div d), tick_period_submicros = of_nat (n mod d div g),
                tf_division = of_nat (d div g)\<rparr>)"

lemma tickful_new_eq: "tickful_new opts = Some (tickful_spec opts)"
proof (cases "tf_freq_denom opts = 0 \<or> tf_freq_num opts = 0 \<or> tf_tick_period opts = 0")
  case True
  then show ?thesis by (auto simp: tickful_new_def tickful_spec_def Let_def)
next
  case False
  let ?N = "period_num opts" and ?D = "period_den opts"
  from False have pos: "0 < ?N" "0 < ?D"
    by (auto simp: period_num_def period_den_def unat_gt_0)
  have b: "unat (tf_freq_denom opts) * unat (tf_tick_period opts) < 2 ^ 128" "?N < 2 ^ 128"
    using period_num_lt[of opts] by (auto simp: period_num_def)
  let ?g = "gcd ?N ?D"
  let ?n = "?N div ?g" and ?d = "?D div ?g"
  have g: "0 < ?g" using pos by simp
  have N: "?N = ?n * ?g" and D: "?D = ?d * ?g" by simp_all
  have d: "0 < ?d" using pos g by (metis D gr0I mult_is_0 not_gr_zero)
  have red: "reduce_ratio128 \<lparr>numer = ?N, denom = ?D\<rparr> = Some \<lparr>numer = ?n, denom = ?d\<rparr>"
    using pos by (simp add: reduce_ratio128_def gcd128_gcd Let_def)
  have div: "?n div ?d = ?N div ?D" "?n mod ?d = ?N mod ?D div ?g"
    using g by (metis D N div_mult_mult2 less_numeral_extra(3))
      (metis D N g mult_mod_left nonzero_mult_div_cancel_right less_numeral_extra(3))
  have "?n \<le> ?N" by (rule div_le_dividend)
  also have "\<dots> < 2 ^ 116" by (rule period_num_lt)
  finally have "?n < 2 ^ 127" by simp
  with ceil_ratio128_ok[of "\<lparr>numer = ?n, denom = ?d\<rparr>"] d
  have ceil: "ceil_ratio128 \<lparr>numer = ?n, denom = ?d\<rparr> = Some (ceil_div ?N ?D)"
    using ceil_div_reduce[OF g d, of ?n] N D by simp
  have c: "checked_nat 128 (unat (tf_freq_denom opts) * unat (tf_tick_period opts)) =
      Some (unat (tf_freq_denom opts) * unat (tf_tick_period opts))"
    "checked_nat 128 (unat (tf_freq_denom opts) * unat (tf_tick_period opts) * 1000000) = Some ?N"
    using b by (simp_all only: checked_nat_ok period_num_def)
  have red': "reduce_ratio128 \<lparr>numer = ?N, denom = unat (tf_freq_num opts)\<rparr> =
      Some \<lparr>numer = ?n, denom = ?d\<rparr>" using red by (simp only: period_den_def)
  have hh: "unat HARD_HEADROOM = 2 ^ 30" by (simp add: HARD_HEADROOM_def)
  have "tickful_new opts =
      (if 2 ^ 32 \<le> ceil_div ?N ?D then Some (Inl TfPeriodOverflowsU32)
       else if 2 ^ 30 < ceil_div ?N ?D then Some (Inl TfPeriodExceedsKernelHeadroom)
       else Some (Inr \<lparr>tick_period_micros = of_nat (?n div ?d),
                       tick_period_submicros = of_nat (?n mod ?d), tf_division = of_nat ?d\<rparr>))"
    using False c red' ceil d by (simp add: tickful_new_def floor_ratio128_def hh)
  with False show ?thesis by (simp add: tickful_spec_def Let_def div)
qed


section \<open>The tick count is the exact time\<close>

lemma tickful_params:
  assumes "tickful_new opts = Some (Inr cfg)"
  obtains n d where "0 < d" "d < 2 ^ 64" "\<And>k. k * period_num opts div period_den opts = k * n div d"
    "ceil_div n d \<le> 2 ^ 30" "tick_period_micros cfg = of_nat (n div d)"
    "unat (tick_period_submicros cfg) = n mod d" "tickful_max cfg = d - 1"
proof -
  let ?N = "period_num opts" and ?D = "period_den opts"
  let ?g = "gcd ?N ?D"
  from assms have s: "tickful_spec opts = Inr cfg" by (simp add: tickful_new_eq)
  then have D: "0 < ?D" and c: "ceil_div ?N ?D \<le> 2 ^ 30"
    and cfg: "cfg = \<lparr>tick_period_micros = of_nat (?N div ?D), tick_period_submicros = of_nat (?N mod ?D div ?g),
       tf_division = of_nat (?D div ?g)\<rparr>"
    by (auto simp: tickful_spec_def Let_def period_den_def unat_gt_0 split: if_splits)
  have g: "0 < ?g" using D by simp
  obtain n d where n: "?N = n * ?g" and d: "?D = d * ?g" by (metis gcd_dvd1 gcd_dvd2 dvdE mult.commute)
  have dpos: "0 < d" using D by (metis d gr0I mult_is_0)
  have "d \<le> d * ?g" using g by (cases ?g) auto
  also have "d * ?g = ?D" by (simp only: d[symmetric])
  also have "?D < 2 ^ 64" by (simp add: period_den_def unat_u64_lt[simplified])
  finally have lt: "d < 2 ^ 64" .
  have k: "k * ?N div ?D = k * n div d" for k
    using g by (metis n d mult.assoc div_mult_mult2 less_numeral_extra(3))
  have m: "?N mod ?D div ?g = n mod d" using g by (metis n d mult_mod_left nonzero_mult_div_cancel_right less_numeral_extra(3))
  have "n mod d < 2 ^ 64" using dpos lt mod_less_divisor[of d n] by linarith
  show thesis
  proof (rule that[OF dpos lt k])
    show "ceil_div n d \<le> 2 ^ 30" using c ceil_div_reduce[OF g dpos, of n] n d by simp
    show "tick_period_micros cfg = of_nat (n div d)" using k[of 1] by (simp add: cfg)
    show "unat (tick_period_submicros cfg) = n mod d"
      using \<open>n mod d < 2 ^ 64\<close> by (simp add: cfg m unat_of_nat)
    have "?D div ?g = d" using d g by (metis nonzero_mult_div_cancel_right less_numeral_extra(3))
    then show "tickful_max cfg = d - 1" using lt by (simp add: cfg tickful_max_def unat_of_nat)
  qed
qed

lemma add_div_carry:
  "(0 :: nat) < d \<Longrightarrow> (a + b) div d = a div d + b div d + (if d \<le> a mod d + b mod d then 1 else 0)"
proof -
  assume d: "0 < d"
  let ?s = "a mod d + b mod d"
  have lt: "?s < d + d" using d by (intro add_strict_mono mod_less_divisor)
  have "?s div d = (if d \<le> ?s then 1 else 0)"
  proof (cases "d \<le> ?s")
    case True
    with lt have "?s div d = 1" by (intro div_nat_eqI) simp_all
    with True show ?thesis by simp
  qed simp
  then show ?thesis using div_add1_eq[of a b d] by simp
qed

lemma floor_step_le: "0 < d \<Longrightarrow> (a + b) div d - a div d \<le> ceil_div b d"
proof -
  assume d: "0 < d"
  have "b \<le> ceil_div b d * d" using ceil_div_le_iff[OF d, of b "ceil_div b d"] by simp
  then have "(a + b) div d \<le> (a + ceil_div b d * d) div d" by (intro div_le_mono) simp
  also have "\<dots> = a div d + ceil_div b d" using d by simp
  finally show ?thesis by linarith
qed

text \<open>A driver that ticks \<open>k\<close> times and the kernel that follows the tick count.\<close>

fun tickful_simulate :: "tickful_cfg \<Rightarrow> nat \<Rightarrow> (nat \<times> u32 \<times> tickful_state) option" where
  "tickful_simulate cfg 0 =
     Some (0, tickful_tick_count (tickful_init cfg), tickful_init cfg)"
| "tickful_simulate cfg (Suc k) =
     do { (kernel_time, last, s) \<leftarrow> tickful_simulate cfg k;
          s' \<leftarrow> tickful_tick cfg s;
          let new = tickful_tick_count s';
          Some (kernel_time + unat (new - last), new, s') }"

lemma tickful_tick_step:
  assumes d: "0 < d" and micros: "tick_period_micros cfg = of_nat (n div d)"
    and sub: "unat (tick_period_submicros cfg) = n mod d" and mx: "tickful_max cfg = d - 1"
    and s: "tick_count_micros s = of_nat (t div d)" "wrapping_ok (d - 1) (tick_count_submicros s)"
      "wrapping_to_u128 (tick_count_submicros s) = t mod d"
  obtains s' where "tickful_tick cfg s = Some s'" "tick_count_micros s' = of_nat ((t + n) div d)"
    "wrapping_ok (d - 1) (tick_count_submicros s')"
    "wrapping_to_u128 (tick_count_submicros s') = (t + n) mod d"
proof -
  have le: "unat (tick_period_submicros cfg) \<le> d - 1"
    using mod_less_divisor[OF d, of n] sub by linarith
  from wrapping_steps[OF s(2)] le obtain w b where
    w: "wrapping_add_assign64 (d - 1) (tick_count_submicros s) (tick_period_submicros cfg) = Some (w, b)"
      "wrapping_ok (d - 1) w" "naive_add64 (d - 1) (t mod d) (n mod d) = (wrapping_to_u128 w, b)"
    unfolding steps_as_naive_def using s(3) sub by metis
  from w(3) d have v: "wrapping_to_u128 w = (t + n) mod d" "b \<longleftrightarrow> d \<le> t mod d + n mod d"
    by (auto simp: naive_add64_def Let_def mod_add_eq)
  let ?s' = "\<lparr>tick_count_micros = of_nat ((t + n) div d), tick_count_submicros = w\<rparr>"
  have "tickful_tick cfg s = Some ?s'"
    using w(1) v(2) s(1) micros add_div_carry[OF d, of t n] by (simp add: tickful_tick_def mx Let_def)
  with that[of ?s'] w v show thesis by simp
qed

text \<open>C37: A tickful driver keeps exact time. If the configuration is accepted, then after any number
  \<open>k\<close> of ticks the driver has not panicked, the tick count is the elapsed time
  \<open>k * cycles * freq_denom * 1000000 / freq_num\<close> in microseconds, rounded down and reduced to 32 bits, a
  kernel that adds up the differences of the tick counts it sees has the exact time in full, without any
  drift, and no single step is longer than the headroom that the kernel tolerates.\<close>
theorem tickful_time_exact:
  assumes "tickful_new opts = Some (Inr cfg)"
  shows "\<exists>s. tickful_simulate cfg k =
            Some (k * period_num opts div period_den opts,
                  of_nat (k * period_num opts div period_den opts), s) \<and>
          (Suc k * period_num opts) div period_den opts - k * period_num opts div period_den opts
            \<le> unat HARD_HEADROOM"
proof -
  from tickful_params[OF assms] obtain n d where p: "0 < d" "d < 2 ^ 64"
    "\<And>k. k * period_num opts div period_den opts = k * n div d" "ceil_div n d \<le> 2 ^ 30"
    "tick_period_micros cfg = of_nat (n div d)" "unat (tick_period_submicros cfg) = n mod d"
    "tickful_max cfg = d - 1" by metis
  have step: "Suc k * n div d - k * n div d \<le> 2 ^ 30" for k
    using floor_step_le[OF p(1), of "k * n" n] p(4) by (simp add: add.commute)
  have "\<exists>s. tickful_simulate cfg k = Some (k * n div d, of_nat (k * n div d), s) \<and>
        tick_count_micros s = of_nat (k * n div d) \<and> wrapping_ok (d - 1) (tick_count_submicros s) \<and>
        wrapping_to_u128 (tick_count_submicros s) = k * n mod d"
  proof (induction k)
    case 0
    have "d - 1 < 2 ^ 64" using p(2) by simp
    with wrapping_init_ok[of "d - 1"] p(1) show ?case
      by (simp add: tickful_init_def tickful_tick_count_def p(7))
  next
    case (Suc k)
    then obtain s where s: "tickful_simulate cfg k = Some (k * n div d, of_nat (k * n div d), s)"
      "tick_count_micros s = of_nat (k * n div d)" "wrapping_ok (d - 1) (tick_count_submicros s)"
      "wrapping_to_u128 (tick_count_submicros s) = k * n mod d" by blast
    from tickful_tick_step[OF p(1,5,6,7) s(2,3,4)] obtain s' where s': "tickful_tick cfg s = Some s'"
      "tick_count_micros s' = of_nat ((k * n + n) div d)" "wrapping_ok (d - 1) (tick_count_submicros s')"
      "wrapping_to_u128 (tick_count_submicros s') = (k * n + n) mod d" .
    have le: "k * n div d \<le> (k * n + n) div d" by (simp add: div_le_mono)
    then have "(of_nat ((k * n + n) div d) :: u32) - of_nat (k * n div d) =
        of_nat ((k * n + n) div d - k * n div d)" by (simp add: of_nat_diff)
    moreover have "(k * n + n) div d - k * n div d \<le> 2 ^ 30" using step[of k] by (simp add: add.commute)
    ultimately have "unat ((of_nat ((k * n + n) div d) :: u32) - of_nat (k * n div d)) =
        (k * n + n) div d - k * n div d" by (simp add: unat_of_nat)
    with s s' le show ?case by (simp add: tickful_tick_count_def Let_def add.commute)
  qed
  then show ?thesis using step[of k] unfolding p(3) by (auto simp: HARD_HEADROOM_def)
qed

text \<open>The 375 MHz clock with a period of 1250 cycles, ten thirds of a microsecond.\<close>

theorem tickful_time_exact_witness:
  "\<exists>s cfg. tickful_new \<lparr>tf_freq_num = 375000000, tf_freq_denom = 1, tf_tick_period = 1250\<rparr> = Some (Inr cfg) \<and>
     tf_division cfg = 3 \<and> tickful_simulate cfg 2000000000 = Some (6666666666, 2371699370, s)"
proof -
  let ?o = "\<lparr>tf_freq_num = 375000000, tf_freq_denom = 1, tf_tick_period = 1250\<rparr>"
  let ?c = "\<lparr>tick_period_micros = 3, tick_period_submicros = 1, tf_division = 3\<rparr>"
  have pd: "period_num ?o = 1250000000" "period_den ?o = 375000000"
    by (simp_all add: period_num_def period_den_def)
  have "gcd128 1250000000 375000000 = 125000000"
    by (simp add: gcd128.simps)
  then have g: "gcd 1250000000 (375000000 :: nat) = 125000000" by (simp only: gcd128_gcd)
  have "tickful_new ?o = Some (Inr ?c)"
    by (simp add: tickful_new_eq tickful_spec_def pd g ceil_div_def Let_def)
  from tickful_time_exact[OF this, of 2000000000] show ?thesis
    using \<open>tickful_new ?o = Some (Inr ?c)\<close> by (auto simp: pd)
qed

end
