(* ===== verification/Tickless.thy ===== *)
theory Tickless
  imports Port_Num
begin

text \<open>
  \<^verbatim>\<open>r3_portkit/src/tickless.rs\<close>: the timer driver of ports with a free-running counter. The
  configuration chooses between the stateless algorithm, when the hardware period and the period of
  the tick count line up, and the stateful one, which keeps a reference point with its sub-tick
  fraction. This theory holds the translation; the proofs are in \<open>Tickless_Contract\<close>.
\<close>

section \<open>Configuration\<close>

record tickless_options =
  tl_freq_num :: u64
  tl_freq_denom :: u64
  tl_headroom_ticks :: u32
  force_full_hw_period :: bool
  resettable :: bool

datatype tickless_error =
    TlFreqNumZero
  | TlFreqDenomZero
  | TlFreqTooHigh
  | TlInternalOverflow
  | TlOSMaxTimeoutTooLow

fun tickless_error_as_str :: "tickless_error \<Rightarrow> string" where
  "tickless_error_as_str TlFreqNumZero =
     ''the numerator of the clock frequency must not be zero''"
| "tickless_error_as_str TlFreqDenomZero =
     ''the denominator of the clock frequency must not be zero''"
| "tickless_error_as_str TlFreqTooHigh = ''the timer frequency is too fast''"
| "tickless_error_as_str TlInternalOverflow =
     ''intermediate calculation overflowed. the clock frequency might be too complex or too low''"
| "tickless_error_as_str TlOSMaxTimeoutTooLow =
     ''the calculated maximum OS timeout is too low. lowering the interrupt latency headroom might help''"

datatype tickless_algorithm =
    Stateless (stateless_hw_max: u32) (stateless_max: u32)
  | Stateful

record tickless_cfg =
  hw_ticks_per_micro :: u32
  hw_subticks_per_micro :: u64
  algorithm :: tickless_algorithm
  tl_division :: u64
  tl_max_timeout :: u32

text \<open>The period at which hardware ticks and microseconds align.\<close>

definition global_periods :: "ratio \<Rightarrow> nat \<Rightarrow> nat \<Rightarrow> (nat \<times> nat) option" where
  "global_periods r tpm_floor sub =
     (if sub = 0 then
        guard (denom r = 1) (guard (tpm_floor \<noteq> 0) (Some (tpm_floor, 1)))
      else
        (let g = gcd128 sub (denom r)
         in guard (g \<noteq> 0) (Some (numer r div g, denom r div g))))"

definition stateless_timeout :: "ratio \<Rightarrow> nat \<Rightarrow> nat \<Rightarrow> nat option" where
  "stateless_timeout r max_tick_count headroom =
     do { a \<leftarrow> checked_nat 128 (max_tick_count * numer r);
          b \<leftarrow> checked_nat 128 (a + numer r);
          c \<leftarrow> checked_sub b 1;
          e \<leftarrow> checked_sub (denom r) 1;
          f \<leftarrow> checked_nat 128 (headroom * denom r);
          g \<leftarrow> checked_nat 128 (e + f);
          Some (c - g) }"

definition stateful_timeout :: "ratio \<Rightarrow> nat \<Rightarrow> nat \<Rightarrow> nat \<Rightarrow> nat option" where
  "stateful_timeout r hw_max_tick_count max_tick_count headroom =
     do { h \<leftarrow> checked_sub hw_max_tick_count headroom;
          a \<leftarrow> checked_nat 128 (h * denom r);
          e \<leftarrow> checked_sub (denom r) 1;
          b \<leftarrow> stateless_timeout r max_tick_count headroom;
          Some (min (a - e) b) }"

definition stateless_applies :: "tickless_options \<Rightarrow> nat \<Rightarrow> nat \<Rightarrow> bool" where
  "stateless_applies opts hw_global_period global_period \<longleftrightarrow>
     hw_global_period \<le> 0x100000000 \<and> global_period \<le> 0x100000000 \<and>
     (hw_global_period \<le> 0x80000000 \<or> 1 < global_period) \<and>
     (global_period \<le> 0x80000000 \<or> 1 < hw_global_period) \<and>
     (\<not> force_full_hw_period opts \<or>
        (0x100000000 mod hw_global_period = 0 \<and> global_period \<le> hw_global_period)) \<and>
     \<not> resettable opts"

definition choose_algorithm ::
  "tickless_options \<Rightarrow> ratio \<Rightarrow> nat \<Rightarrow> nat \<Rightarrow> (tickless_error + tickless_algorithm \<times> nat) option" where
  "choose_algorithm opts r hw_global_period global_period =
     (let headroom = unat (tl_headroom_ticks opts) in
      if stateless_applies opts hw_global_period global_period then
        (let repeat = min (0x100000000 div hw_global_period) (0x100000000 div global_period) in
         do { hw_max_tick_count \<leftarrow> checked_sub (hw_global_period * repeat) 1;
              max_tick_count \<leftarrow> checked_sub (global_period * repeat) 1;
              guard (force_full_hw_period opts \<longrightarrow> hw_max_tick_count = 0xffffffff)
                (do { t \<leftarrow> stateless_timeout r max_tick_count headroom;
                      (let max_timeout = t div numer r in
                       if max_timeout = 0 then Some (Inl TlOSMaxTimeoutTooLow)
                       else guard (max_timeout \<le> 0xffffffff)
                              (Some (Inr (Stateless (of_nat hw_max_tick_count) (of_nat max_tick_count),
                                          max_timeout)))) }) })
      else
        do { t \<leftarrow> stateful_timeout r 0xffffffff 0xffffffff headroom;
             (let max_timeout = t div numer r in
              if max_timeout = 0 then Some (Inl TlOSMaxTimeoutTooLow)
              else guard (max_timeout \<le> 0xffffffff) (Some (Inr (Stateful, max_timeout)))) })"

definition tickless_new :: "tickless_options \<Rightarrow> (tickless_error + tickless_cfg) option" where
  "tickless_new opts =
     (if tl_freq_denom opts = 0 then Some (Inl TlFreqDenomZero)
      else if tl_freq_num opts = 0 then Some (Inl TlFreqNumZero)
      else do {
        den \<leftarrow> checked_nat 128 (unat (tl_freq_denom opts) * 1000000);
        r \<leftarrow> reduce_ratio128 \<lparr>numer = unat (tl_freq_num opts), denom = den\<rparr>;
        guard (1 \<le> numer r \<and> numer r \<le> 0xffffffffffffffff \<and> 1 \<le> denom r \<and>
               denom r \<le> 0xf423ffffffffffff0bdc0)
          (do {
             tpm_floor \<leftarrow> floor_ratio128 r;
             let sub = numer r mod denom r;
             guard (tpm_floor \<le> 0xffffffffffffffff \<and> sub \<le> denom r - 1)
               (if 0xffffffff < tpm_floor then Some (Inl TlFreqTooHigh)
                else if 0xffffffffffffffff < denom r then Some (Inl TlInternalOverflow)
                else do {
                  (hgp, gp) \<leftarrow> global_periods r tpm_floor sub;
                  guard (1 \<le> hgp \<and> hgp \<le> numer r \<and> 1 \<le> gp \<and> gp \<le> denom r)
                    (do {
                       res \<leftarrow> choose_algorithm opts r hgp gp;
                       (case res of
                          Inl e \<Rightarrow> Some (Inl e)
                        | Inr (alg, max_timeout) \<Rightarrow>
                            Some (Inr \<lparr>hw_ticks_per_micro = of_nat tpm_floor,
                                       hw_subticks_per_micro = of_nat sub,
                                       algorithm = alg,
                                       tl_division = of_nat (denom r),
                                       tl_max_timeout = of_nat max_timeout\<rparr>)) }) }) }) })"

definition hw_max_tick_count :: "tickless_cfg \<Rightarrow> u32" where
  "hw_max_tick_count cfg =
     (case algorithm cfg of Stateless hw_max _ \<Rightarrow> hw_max | Stateful \<Rightarrow> 0xffffffff)"

definition tl_max_tick_count :: "tickless_cfg \<Rightarrow> u32" where
  "tl_max_tick_count cfg =
     (case algorithm cfg of Stateless _ mx \<Rightarrow> mx | Stateful \<Rightarrow> 0xffffffff)"

section \<open>State\<close>

record tickless_core =
  ref_tick_count :: u32
  ref_hw_tick_count :: u32
  ref_hw_subtick_count :: wrapping

datatype tickless_state = StatelessCore | StateCore tickless_core

record measurement =
  end_hw_tick_count :: u32
  meas_hw_ticks :: u32

text \<open>The sub-tick counter wraps at \<^verbatim>\<open>CFG.take_division() - 1\<close>.\<close>

definition subtick_max :: "tickless_cfg \<Rightarrow> nat" where
  "subtick_max cfg = unat (tl_division cfg) - 1"

definition tickless_init :: "tickless_cfg \<Rightarrow> tickless_state" where
  "tickless_init cfg =
     (case algorithm cfg of
        Stateful \<Rightarrow> StateCore \<lparr>ref_tick_count = 0, ref_hw_tick_count = 0,
                               ref_hw_subtick_count = wrapping_init (subtick_max cfg)\<rparr>
      | Stateless _ _ \<Rightarrow> StatelessCore)"

section \<open>The stateless algorithm\<close>

definition stateless_tick_count :: "tickless_cfg \<Rightarrow> u32 \<Rightarrow> u32 option" where
  "stateless_tick_count cfg hw =
     (let dv = unat (tl_division cfg) in
      do { a \<leftarrow> checked_nat 128 (unat hw * dv);
           b \<leftarrow> checked_nat 128 (unat (hw_ticks_per_micro cfg) * dv);
           c \<leftarrow> checked_nat 128 (b + unat (hw_subticks_per_micro cfg));
           guard (c \<noteq> 0) (guard (a div c \<le> 0xffffffff) (Some (of_nat (a div c)))) })"

definition stateless_to_hw :: "tickless_cfg \<Rightarrow> u32 \<Rightarrow> u32 option" where
  "stateless_to_hw cfg tick_count =
     do { m \<leftarrow> checked_nat 32 (unat tick_count * unat (hw_ticks_per_micro cfg));
          s \<leftarrow> checked_nat 128 (unat tick_count * unat (hw_subticks_per_micro cfg));
          c \<leftarrow> ceil_div128 s (unat (tl_division cfg));
          let hw = (of_nat m :: u32) + of_nat c;
          let mx = hw_max_tick_count cfg;
          let hw' = (if mx \<noteq> 0xffffffff \<and> hw = mx + 1 then 0 else hw);
          guard (hw' \<le> mx) (Some hw') }"

section \<open>The stateful algorithm\<close>

definition stateful_tick_count :: "tickless_cfg \<Rightarrow> tickless_core \<Rightarrow> u32 \<Rightarrow> u32 option" where
  "stateful_tick_count cfg s hw =
     (let dv = unat (tl_division cfg) in
      do { a \<leftarrow> checked_nat 128 (unat (hw - ref_hw_tick_count s) * dv);
           a' \<leftarrow> checked_sub a (wrapping_to_u128 (ref_hw_subtick_count s));
           b \<leftarrow> checked_nat 128 (unat (hw_ticks_per_micro cfg) * dv);
           c \<leftarrow> checked_nat 128 (b + unat (hw_subticks_per_micro cfg));
           guard (c \<noteq> 0) (Some (ref_tick_count s + of_nat (a' div c))) })"

definition stateful_mark_reference ::
  "tickless_cfg \<Rightarrow> tickless_core \<Rightarrow> u32 \<Rightarrow> (tickless_core \<times> u32) option" where
  "stateful_mark_reference cfg s hw =
     do { new_ref \<leftarrow> stateful_tick_count cfg s hw;
          let advance = new_ref - ref_tick_count s;
          let hw1 = ref_hw_tick_count s + advance * hw_ticks_per_micro cfg;
          inc \<leftarrow> checked_nat 128 (unat (hw_subticks_per_micro cfg) * unat advance);
          (sub, overflow) \<leftarrow> wrapping_add_assign128_multi32 (subtick_max cfg) (ref_hw_subtick_count s) inc;
          Some (\<lparr>ref_tick_count = new_ref, ref_hw_tick_count = hw1 + overflow,
                 ref_hw_subtick_count = sub\<rparr>, new_ref) }"

definition stateful_to_hw :: "tickless_cfg \<Rightarrow> tickless_core \<Rightarrow> u32 \<Rightarrow> u32 option" where
  "stateful_to_hw cfg s tick_count =
     guard (tick_count \<noteq> ref_tick_count s)
       (let dv = unat (tl_division cfg); micros = tick_count - ref_tick_count s in
        do { b \<leftarrow> checked_nat 128 (unat (hw_ticks_per_micro cfg) * dv);
             c \<leftarrow> checked_nat 128 (b + unat (hw_subticks_per_micro cfg));
             e \<leftarrow> checked_nat 128 (unat micros * c);
             f \<leftarrow> checked_nat 128 (wrapping_to_u128 (ref_hw_subtick_count s) + e);
             q \<leftarrow> ceil_div128 f dv;
             Some (ref_hw_tick_count s + of_nat q) })"

section \<open>The operations of the trait\<close>

definition tickless_reset :: "tickless_cfg \<Rightarrow> tickless_state \<Rightarrow> u32 \<Rightarrow> tickless_state option" where
  "tickless_reset cfg s hw =
     (case s of
        StatelessCore \<Rightarrow> None
      | StateCore c \<Rightarrow>
          guard (ref_tick_count c = 0) (Some (StateCore (c\<lparr>ref_hw_tick_count := hw\<rparr>))))"

definition tickless_tick_count :: "tickless_cfg \<Rightarrow> tickless_state \<Rightarrow> u32 \<Rightarrow> u32 option" where
  "tickless_tick_count cfg s hw =
     (case s of
        StatelessCore \<Rightarrow> stateless_tick_count cfg hw
      | StateCore c \<Rightarrow> stateful_tick_count cfg c hw)"

definition tickless_mark_reference ::
  "tickless_cfg \<Rightarrow> tickless_state \<Rightarrow> u32 \<Rightarrow> (tickless_state \<times> u32) option" where
  "tickless_mark_reference cfg s hw =
     (case s of
        StatelessCore \<Rightarrow> map_option (\<lambda>t. (StatelessCore, t)) (stateless_tick_count cfg hw)
      | StateCore c \<Rightarrow> map_option (map_prod StateCore id) (stateful_mark_reference cfg c hw))"

definition tickless_to_hw :: "tickless_cfg \<Rightarrow> tickless_state \<Rightarrow> u32 \<Rightarrow> u32 option" where
  "tickless_to_hw cfg s tick_count =
     (case s of
        StatelessCore \<Rightarrow> stateless_to_hw cfg tick_count
      | StateCore c \<Rightarrow> stateful_to_hw cfg c tick_count)"

definition add_mod_u32 :: "u32 \<Rightarrow> u32 \<Rightarrow> u32 \<Rightarrow> u32 option" where
  "add_mod_u32 x y mx =
     guard (x \<le> mx \<and> y \<le> mx)
       (Some (if mx = 0xffffffff \<or> y \<le> mx - x then x + y else x + y + (0xffffffff - mx)))"

definition sub_mod_u32 :: "u32 \<Rightarrow> u32 \<Rightarrow> u32 \<Rightarrow> u32 option" where
  "sub_mod_u32 x y mx =
     guard (x \<le> mx \<and> y \<le> mx)
       (Some (if mx = 0xffffffff \<or> y < x then x - y else x - y - (0xffffffff - mx)))"

definition mark_reference_and_measure ::
  "tickless_cfg \<Rightarrow> tickless_state \<Rightarrow> u32 \<Rightarrow> u32 \<Rightarrow> (tickless_state \<times> measurement) option" where
  "mark_reference_and_measure cfg s hw ticks =
     guard (ticks \<noteq> 0)
       (do { (s', cur) \<leftarrow> tickless_mark_reference cfg s hw;
             end_tick_count \<leftarrow> add_mod_u32 cur ticks (tl_max_tick_count cfg);
             end_hw \<leftarrow> tickless_to_hw cfg s' end_tick_count;
             hw_ticks \<leftarrow> sub_mod_u32 end_hw hw (hw_max_tick_count cfg);
             Some (s', \<lparr>end_hw_tick_count = end_hw, meas_hw_ticks = hw_ticks\<rparr>) })"

end
