(* ===== verification/Tickless_Contract.thy ===== *)
theory Tickless_Contract
  imports Tickless
begin

text \<open>
  The tickless driver keeps exact time. \<open>tl_params\<close> is what the configuration establishes;
  \<open>os_time\<close> is the time in microseconds at a hardware tick, and \<open>hw_time\<close> the first hardware
  tick at or after a time. \<open>tracks\<close> relates the state of either algorithm to the number of hardware
  ticks since the origin.
\<close>

section \<open>The configuration\<close>

text \<open>\<open>n / d\<close>: hardware ticks per microsecond in lowest terms; \<open>hr\<close>: the headroom.\<close>

definition timeout_fits :: "nat \<Rightarrow> nat \<Rightarrow> nat \<Rightarrow> nat \<Rightarrow> nat \<Rightarrow> bool" where
  "timeout_fits n d hr mt m \<longleftrightarrow> m * n + (d - 1) + hr * d \<le> mt * n + n - 1"

definition algorithm_ok :: "nat \<Rightarrow> nat \<Rightarrow> nat \<Rightarrow> nat \<Rightarrow> tickless_algorithm \<Rightarrow> bool" where
  "algorithm_ok n d hr m alg \<longleftrightarrow>
     (case alg of
        Stateless hm mt \<Rightarrow>
          (\<exists>r. 0 < r \<and> unat hm + 1 = n * r \<and> unat mt + 1 = d * r) \<and> timeout_fits n d hr (unat mt) m
      | Stateful \<Rightarrow>
          m * n + (d - 1) + hr * d \<le> (2 ^ 32 - 1) * d \<and> timeout_fits n d hr (2 ^ 32 - 1) m)"

definition tl_params :: "tickless_cfg \<Rightarrow> nat \<Rightarrow> nat \<Rightarrow> nat \<Rightarrow> bool" where
  "tl_params cfg n d hr \<longleftrightarrow>
     0 < d \<and> d < 2 ^ 64 \<and> 0 < n \<and> n < 2 ^ 64 \<and> unat (tl_division cfg) = d \<and>
     unat (hw_ticks_per_micro cfg) = n div d \<and> unat (hw_subticks_per_micro cfg) = n mod d \<and>
     hr < 2 ^ 32 \<and> algorithm_ok n d hr (unat (tl_max_timeout cfg)) (algorithm cfg)"

lemma mult_lt_96: "(a :: nat) < 2 ^ 32 \<Longrightarrow> b < 2 ^ 64 \<Longrightarrow> a * b < 2 ^ 96"
  using mult_strict_mono[of a "2 ^ 32" b "2 ^ 64"] by simp

lemma stateless_timeout_ok:
  assumes "mt < 2 ^ 32" "0 < numer r" "numer r < 2 ^ 64" "0 < denom r" "denom r < 2 ^ 64" "hr < 2 ^ 32"
  shows "stateless_timeout r mt hr =
    Some (mt * numer r + numer r - 1 - (denom r - 1 + hr * denom r))"
proof -
  have a: "mt * numer r < 2 ^ 96" "hr * denom r < 2 ^ 96"
    using assms by (simp_all only: mult_lt_96)
  have "mt * numer r < 2 ^ 128" "mt * numer r + numer r < 2 ^ 128" "hr * denom r < 2 ^ 128"
    "denom r - 1 + hr * denom r < 2 ^ 128" using a assms by auto
  then show ?thesis using assms by (simp add: stateless_timeout_def)
qed

lemma stateful_timeout_ok:
  assumes "0 < numer r" "numer r < 2 ^ 64" "0 < denom r" "denom r < 2 ^ 64" "hr < 2 ^ 32"
  shows "stateful_timeout r (2 ^ 32 - 1) (2 ^ 32 - 1) hr =
    Some (min ((2 ^ 32 - 1 - hr) * denom r - (denom r - 1))
              ((2 ^ 32 - 1) * numer r + numer r - 1 - (denom r - 1 + hr * denom r)))"
proof -
  have "(2 ^ 32 - 1 - hr) * denom r < 2 ^ 96" using assms by (intro mult_lt_96) auto
  then have "(2 ^ 32 - 1 - hr) * denom r < 2 ^ 128" by simp
  with assms stateless_timeout_ok[of "2 ^ 32 - 1" r hr] show ?thesis by (simp add: stateful_timeout_def)
qed

lemma timeout_fits_div:
  assumes "0 < n" "0 < d"
    and "m = (mt * n + n - 1 - (d - 1 + hr * d)) div n" "m \<noteq> 0"
  shows "timeout_fits n d hr mt m" "m \<le> mt"
proof -
  let ?x = "mt * n + n - 1 - (d - 1 + hr * d)"
  have "m * n \<le> ?x" using assms by simp
  moreover have "n \<le> m * n" using assms(4) by simp
  ultimately show "timeout_fits n d hr mt m" unfolding timeout_fits_def using assms(1) by linarith
  have "?x div n \<le> (mt * n + (n - 1)) div n" by (intro div_le_mono) simp
  also have "\<dots> = mt" using assms(1) by (metis div_less div_mult_self3 add.right_neutral add.commute
      diff_less less_numeral_extra(1,3))
  finally show "m \<le> mt" using assms(3) by simp
qed

lemma timeout_fits_less: "timeout_fits n d hr mt m \<Longrightarrow> m' \<le> m \<Longrightarrow> timeout_fits n d hr mt m'"
  unfolding timeout_fits_def using mult_le_mono1[of m' m n] by linarith

lemma stateful_fits_div:
  assumes "0 < n" "0 < d" "hr < 2 ^ 32"
    and m: "m = min ((2 ^ 32 - 1 - hr) * d - (d - 1)) ((2 ^ 32 - 1) * n + n - 1 - (d - 1 + hr * d)) div n"
    and "m \<noteq> 0"
  shows "m * n + (d - 1) + hr * d \<le> (2 ^ 32 - 1) * d" "timeout_fits n d hr (2 ^ 32 - 1) m" "m \<le> 2 ^ 32 - 1"
proof -
  let ?a = "(2 ^ 32 - 1 - hr) * d - (d - 1)" and ?b = "(2 ^ 32 - 1) * n + n - 1 - (d - 1 + hr * d)"
  have le: "m * n \<le> min ?a ?b" unfolding m by (rule div_times_less_eq_dividend)
  have "n \<le> m * n" using assms(5) by simp
  then have "m * n + (d - 1) \<le> (2 ^ 32 - 1 - hr) * d" using le assms(1) by linarith
  moreover have "(2 ^ 32 - 1 - hr) * d + hr * d = (2 ^ 32 - 1) * d"
    using assms(3) by (simp flip: add_mult_distrib)
  ultimately show "m * n + (d - 1) + hr * d \<le> (2 ^ 32 - 1) * d" by linarith
  have "m \<le> ?b div n" unfolding m by (intro div_le_mono) simp
  moreover have "?b div n \<noteq> 0" using calculation assms(5) by linarith
  ultimately show "timeout_fits n d hr (2 ^ 32 - 1) m" "m \<le> 2 ^ 32 - 1"
    using timeout_fits_div[OF assms(1,2) refl, of "2 ^ 32 - 1" hr] timeout_fits_less by auto
qed


lemma global_periods_ok:
  assumes "0 < n" "0 < d" "coprime n d"
  shows "global_periods \<lparr>numer = n, denom = d\<rparr> (n div d) (n mod d) = Some (n, d)"
proof (cases "n mod d = 0")
  case True
  with assms have "d = 1" by (metis coprime_common_divisor_nat dvd_refl mod_0_imp_dvd)
  with assms show ?thesis by (simp add: global_periods_def)
next
  case False
  have "gcd (n mod d) d = 1" using assms(3) by (metis coprime_imp_gcd_eq_1 gcd.commute gcd_red_nat)
  with False show ?thesis by (simp add: global_periods_def gcd128_gcd Let_def)
qed

text \<open>The configuration as a function of the reduced frequency, without the overflow checks.\<close>

definition spec_algorithm :: "tickless_options \<Rightarrow> nat \<Rightarrow> nat \<Rightarrow> tickless_algorithm \<times> nat" where
  "spec_algorithm opts n d =
     (let hr = unat (tl_headroom_ticks opts); k = min (2 ^ 32 div n) (2 ^ 32 div d) in
      if stateless_applies opts n d
      then (Stateless (of_nat (n * k - 1)) (of_nat (d * k - 1)),
            ((d * k - 1) * n + n - 1 - (d - 1 + hr * d)) div n)
      else (Stateful,
            min ((2 ^ 32 - 1 - hr) * d - (d - 1)) ((2 ^ 32 - 1) * n + n - 1 - (d - 1 + hr * d)) div n))"

definition tickless_spec :: "tickless_options \<Rightarrow> tickless_error + tickless_cfg" where
  "tickless_spec opts =
     (let num = unat (tl_freq_num opts); den = unat (tl_freq_denom opts) * 1000000;
          n = num div gcd num den; d = den div gcd num den; (alg, m) = spec_algorithm opts n d
      in if den = 0 then Inl TlFreqDenomZero
         else if num = 0 then Inl TlFreqNumZero
         else if 2 ^ 32 \<le> n div d then Inl TlFreqTooHigh
         else if 2 ^ 64 \<le> d then Inl TlInternalOverflow
         else if m = 0 then Inl TlOSMaxTimeoutTooLow
         else Inr \<lparr>hw_ticks_per_micro = of_nat (n div d), hw_subticks_per_micro = of_nat (n mod d),
                    algorithm = alg, tl_division = of_nat d, tl_max_timeout = of_nat m\<rparr>)"

text \<open>The number of repetitions of the stateless algorithm.\<close>

lemma stateless_repeat:
  assumes "stateless_applies opts n d" "0 < n" "0 < d" and k: "k = min (2 ^ 32 div n) (2 ^ 32 div d)"
  shows "0 < k" "n * k \<le> 2 ^ 32" "d * k \<le> 2 ^ 32"
    "force_full_hw_period opts \<Longrightarrow> n * k = 2 ^ 32"
proof -
  from assms(1) have le: "n \<le> 2 ^ 32" "d \<le> 2 ^ 32" by (auto simp: stateless_applies_def)
  then show "0 < k" using assms(2,3) by (simp add: k div_greater_zero_iff)
  have "n * k \<le> n * (2 ^ 32 div n)" "d * k \<le> d * (2 ^ 32 div d)" by (simp_all add: k)
  then show "n * k \<le> 2 ^ 32" "d * k \<le> 2 ^ 32"
    using times_div_less_eq_dividend[of n "2 ^ 32"] times_div_less_eq_dividend[of d "2 ^ 32"] by linarith+
  assume "force_full_hw_period opts"
  with assms(1) have "2 ^ 32 mod n = 0" "d \<le> n" by (auto simp: stateless_applies_def)
  then have "k = 2 ^ 32 div n" using assms(3) by (simp add: k min_def div_le_mono2)
  with \<open>2 ^ 32 mod n = 0\<close> show "n * k = 2 ^ 32" by (simp add: mod_eq_0_iff_dvd)
qed

lemma choose_algorithm_ok:
  assumes n: "0 < n" "n < 2 ^ 64" and d: "0 < d" "d < 2 ^ 64" and sp: "spec_algorithm opts n d = (alg, m)"
  shows "choose_algorithm opts \<lparr>numer = n, denom = d\<rparr> n d =
           Some (if m = 0 then Inl TlOSMaxTimeoutTooLow else Inr (alg, m))"
    and "m \<noteq> 0 \<Longrightarrow> algorithm_ok n d (unat (tl_headroom_ticks opts)) m alg \<and> m < 2 ^ 32"
proof -
  let ?hr = "unat (tl_headroom_ticks opts)" and ?r = "\<lparr>numer = n, denom = d\<rparr>"
  have hr: "?hr < 2 ^ 32" using unsigned_less[of "tl_headroom_ticks opts", where ?'a = nat] by simp
  have "choose_algorithm opts ?r n d = Some (if m = 0 then Inl TlOSMaxTimeoutTooLow else Inr (alg, m)) \<and>
      (m \<noteq> 0 \<longrightarrow> algorithm_ok n d ?hr m alg \<and> m < 2 ^ 32)"
  proof (cases "stateless_applies opts n d")
    case True
    note rp = stateless_repeat[OF True n(1) d(1) refl]
    obtain k where k: "min (0x100000000 div n) (0x100000000 div d) = k" by blast
    obtain mt hm where mt: "d * k - 1 = mt" and hm: "n * k - 1 = hm" by blast
    obtain x where x: "mt * n + n - 1 - (d - 1 + ?hr * d) = x" by blast
    have rp: "0 < k" "n * k \<le> 2 ^ 32" "d * k \<le> 2 ^ 32" "force_full_hw_period opts \<Longrightarrow> n * k = 2 ^ 32"
      using stateless_repeat[OF True n(1) d(1), of k] k by simp_all
    have pos: "1 \<le> d * k" "1 \<le> n * k" using rp(1) n d by (simp_all add: Suc_le_eq)
    have lt: "mt < 2 ^ 32" "hm < 2 ^ 32" using rp pos mt hm by linarith+
    have k': "min (2 ^ 32 div n) (2 ^ 32 div d) = k" using k by simp
    have "spec_algorithm opts n d = (Stateless (of_nat hm) (of_nat mt), x div n)"
      using True by (simp only: spec_algorithm_def Let_def k' mt hm x if_True)
    with sp have am: "alg = Stateless (of_nat hm) (of_nat mt)" "m = x div n" by simp_all
    have fit: "timeout_fits n d ?hr mt m \<and> m \<le> mt" if "m \<noteq> 0"
      using timeout_fits_div[OF n(1) d(1) am(2)[folded x] that] by blast
    have c: "checked_sub (n * k) 1 = Some hm" "checked_sub (d * k) 1 = Some mt"
      using pos hm mt by (auto simp: checked_sub_def)
    have st: "stateless_timeout ?r mt ?hr = Some x"
      using stateless_timeout_ok[of mt ?r ?hr] lt n d hr x by (simp only: ratio.simps)
    have f: "force_full_hw_period opts \<longrightarrow> hm = 0xffffffff" using rp(4) hm by auto
    have le: "m \<noteq> 0 \<Longrightarrow> m \<le> 0xffffffff" using fit lt(1) by fastforce
    have "choose_algorithm opts ?r n d = Some (if m = 0 then Inl TlOSMaxTimeoutTooLow else Inr (alg, m))"
      using True f le c st by (simp add: choose_algorithm_def k am Let_def)
    moreover have "algorithm_ok n d ?hr m alg \<and> m < 2 ^ 32" if "m \<noteq> 0"
      using fit[OF that] lt rp(1) pos mt hm
      by (auto simp: algorithm_ok_def am(1) unat_of_nat intro!: exI[of _ k])
    ultimately show ?thesis by blast
  next
    case False
    from sp False have am: "alg = Stateful" "m = min ((2 ^ 32 - 1 - ?hr) * d - (d - 1))
        ((2 ^ 32 - 1) * n + n - 1 - (d - 1 + ?hr * d)) div n"
      by (auto simp: spec_algorithm_def Let_def)
    note fits = stateful_fits_div[OF n(1) d(1) hr am(2)]
    have "choose_algorithm opts ?r n d = Some (if m = 0 then Inl TlOSMaxTimeoutTooLow else Inr (alg, m))"
      using False stateful_timeout_ok[of ?r ?hr] n d hr am fits by (auto simp: choose_algorithm_def Let_def)
    with am(1) fits show ?thesis by (auto simp: algorithm_ok_def)
  qed
  then show "choose_algorithm opts ?r n d = Some (if m = 0 then Inl TlOSMaxTimeoutTooLow else Inr (alg, m))"
    "m \<noteq> 0 \<Longrightarrow> algorithm_ok n d ?hr m alg \<and> m < 2 ^ 32" by blast+
qed


lemma tickless_new_zero:
  "tl_freq_denom opts = 0 \<or> tl_freq_num opts = 0 \<Longrightarrow> tickless_new opts = Some (tickless_spec opts)"
  by (auto simp: tickless_new_def tickless_spec_def Let_def unat_eq_zero split: prod.splits)

text \<open>Both, from the reduced frequency on.\<close>

definition new_from :: "tickless_options \<Rightarrow> nat \<Rightarrow> nat \<Rightarrow> (tickless_error + tickless_cfg) option" where
  "new_from opts n d =
     (if 0xffffffff < n div d then Some (Inl TlFreqTooHigh)
      else if 0xffffffffffffffff < d then Some (Inl TlInternalOverflow)
      else do {
        res \<leftarrow> choose_algorithm opts \<lparr>numer = n, denom = d\<rparr> n d;
        (case res of
           Inl e \<Rightarrow> Some (Inl e)
         | Inr (alg, m) \<Rightarrow>
             Some (Inr \<lparr>hw_ticks_per_micro = of_nat (n div d), hw_subticks_per_micro = of_nat (n mod d),
                        algorithm = alg, tl_division = of_nat d, tl_max_timeout = of_nat m\<rparr>)) })"

definition spec_from :: "tickless_options \<Rightarrow> nat \<Rightarrow> nat \<Rightarrow> tickless_error + tickless_cfg" where
  "spec_from opts n d =
     (let (alg, m) = spec_algorithm opts n d in
      if 2 ^ 32 \<le> n div d then Inl TlFreqTooHigh
      else if 2 ^ 64 \<le> d then Inl TlInternalOverflow
      else if m = 0 then Inl TlOSMaxTimeoutTooLow
      else Inr \<lparr>hw_ticks_per_micro = of_nat (n div d), hw_subticks_per_micro = of_nat (n mod d),
                algorithm = alg, tl_division = of_nat d, tl_max_timeout = of_nat m\<rparr>)"

text \<open>The reduced frequency of the options.\<close>

definition reduced :: "tickless_options \<Rightarrow> nat \<Rightarrow> nat \<Rightarrow> bool" where
  "reduced opts n d \<longleftrightarrow>
     coprime n d \<and> n * (unat (tl_freq_denom opts) * 1000000) = unat (tl_freq_num opts) * d"

lemma tickless_new_reduced:
  assumes nz: "tl_freq_denom opts \<noteq> 0" "tl_freq_num opts \<noteq> 0"
  obtains n d where "0 < n" "n < 2 ^ 64" "0 < d" "reduced opts n d"
    "tickless_new opts = new_from opts n d"
    "tickless_spec opts = spec_from opts n d"
proof -
  obtain N D where N: "unat (tl_freq_num opts) = N" and D: "unat (tl_freq_denom opts) * 1000000 = D" by blast
  have pos: "0 < N" "0 < D" using nz by (auto simp: N[symmetric] D[symmetric] unat_gt_0)
  have lt: "N < 2 ^ 64" "unat (tl_freq_denom opts) < 2 ^ 64" "D < 2 ^ 128"
    using unsigned_less[of "tl_freq_num opts", where ?'a = nat]
      unsigned_less[of "tl_freq_denom opts", where ?'a = nat] by (simp_all add: N D[symmetric])
  obtain n d g where r: "reduce_ratio128 \<lparr>numer = N, denom = D\<rparr> = Some \<lparr>numer = n, denom = d\<rparr>"
    and g: "0 < g" "N = n * g" "D = d * g" and co: "coprime n d" and p: "0 < n" "0 < d"
    using reduce_ratio128_ok[of "\<lparr>numer = N, denom = D\<rparr>"] pos by auto
  have "gcd N D = gcd n d * g" by (simp only: g(2,3) gcd_mult_distrib_nat mult.commute)
  then have gcd: "gcd N D = g" using co by simp
  have nd: "N div gcd N D = n" "D div gcd N D = d" unfolding gcd using g by simp_all
  have "n \<le> N" "d \<le> D" using g by auto
  then have nlt: "n < 2 ^ 64" using lt(1) by linarith
  have dlt: "d \<le> 0xf423ffffffffffff0bdc0" using \<open>d \<le> D\<close> lt(2) by (simp add: D[symmetric])
  have "n div d \<le> n" by (rule div_le_dividend)
  have "n \<le> 0xffffffffffffffff" using nlt by simp
  with \<open>n div d \<le> n\<close> have fl: "n div d \<le> 0xffffffffffffffff" by linarith
  have md: "n mod d \<le> d - 1" using mod_less_divisor[OF p(2), of n] by linarith
  have c: "checked_nat 128 (unat (tl_freq_denom opts) * 1000000) = Some D"
    using lt(3) by (simp only: D checked_nat_ok)
  have gd: "1 \<le> n \<and> n \<le> 0xffffffffffffffff \<and> 1 \<le> d \<and> d \<le> 0xf423ffffffffffff0bdc0"
    using nlt dlt p by simp
  note gp = global_periods_ok[OF p co]
  have fr: "floor_ratio128 \<lparr>numer = n, denom = d\<rparr> = Some (n div d)"
    using p by (simp add: floor_ratio128_def)
  have new: "tickless_new opts = new_from opts n d"
    using nz c r gd fr fl md gp by (simp add: tickless_new_def new_from_def N Let_def)
  have "reduced opts n d" unfolding reduced_def N D using co g by simp
  moreover have "tickless_spec opts = spec_from opts n d"
    unfolding tickless_spec_def Let_def N D nd spec_from_def using pos by (simp split: prod.splits)
  ultimately show thesis using that[OF p(1) nlt p(2) _ new] by blast
qed

lemma tickless_new_eq: "tickless_new opts = Some (tickless_spec opts)"
proof (cases "tl_freq_denom opts = 0 \<or> tl_freq_num opts = 0")
  case True
  then show ?thesis by (rule tickless_new_zero)
next
  case False
  then have nz: "tl_freq_denom opts \<noteq> 0" "tl_freq_num opts \<noteq> 0" by simp_all
  from tickless_new_reduced[OF nz] obtain n d where p: "0 < n" "n < 2 ^ 64" "0 < d"
    and new: "tickless_new opts = new_from opts n d"
    and spec: "tickless_spec opts = spec_from opts n d"
    by metis
  obtain alg m where am: "spec_algorithm opts n d = (alg, m)" by (cases "spec_algorithm opts n d")
  show ?thesis
    using choose_algorithm_ok(1)[OF p(1,2,3) _ am] unfolding new spec new_from_def spec_from_def am
    by (simp add: not_le)
qed

lemma tickless_new_nonzero:
  "tickless_new opts = Some (Inr cfg) \<Longrightarrow> tl_freq_denom opts \<noteq> 0 \<and> tl_freq_num opts \<noteq> 0"
  using tickless_new_zero[of opts]
  by (auto simp: tickless_spec_def Let_def unat_eq_zero split: prod.splits if_splits)

lemma tickless_new_params:
  assumes "tickless_new opts = Some (Inr cfg)"
  obtains n d where "reduced opts n d" "tl_params cfg n d (unat (tl_headroom_ticks opts))"
    "resettable opts \<Longrightarrow> algorithm cfg = Stateful"
proof -
  from assms have "tl_freq_denom opts \<noteq> 0" "tl_freq_num opts \<noteq> 0"
    using tickless_new_nonzero by blast+
  from tickless_new_reduced[OF this] obtain n d where p: "0 < n" "n < 2 ^ 64" "0 < d" "reduced opts n d"
    and spec: "tickless_spec opts = spec_from opts n d"
    by metis
  obtain alg m where am: "spec_algorithm opts n d = (alg, m)" by (cases "spec_algorithm opts n d")
  from assms spec am have b: "n div d < 2 ^ 32" "d < 2 ^ 64" "m \<noteq> 0"
    and cfg: "cfg = \<lparr>hw_ticks_per_micro = of_nat (n div d), hw_subticks_per_micro = of_nat (n mod d),
                  algorithm = alg, tl_division = of_nat d, tl_max_timeout = of_nat m\<rparr>"
    by (auto simp: tickless_new_eq spec_from_def not_le split: if_splits)
  note alg = choose_algorithm_ok(2)[OF p(1,2,3) b(2) am b(3)]
  have "n mod d < 2 ^ 64" using mod_less_divisor[OF p(3), of n] b(2) by linarith
  then have "tl_params cfg n d (unat (tl_headroom_ticks opts))"
    using p b alg unsigned_less[of "tl_headroom_ticks opts", where ?'a = nat]
    by (simp add: tl_params_def cfg unat_of_nat)
  moreover have "resettable opts \<Longrightarrow> alg = Stateful"
    using am by (auto simp: spec_algorithm_def stateless_applies_def Let_def)
  ultimately show thesis using that p(4) cfg by simp
qed


section \<open>Time\<close>

definition os_time :: "nat \<Rightarrow> nat \<Rightarrow> nat \<Rightarrow> nat" where
  "os_time n d H = H * d div n"

definition hw_time :: "nat \<Rightarrow> nat \<Rightarrow> nat \<Rightarrow> nat" where
  "hw_time n d T = ceil_div (T * n) d"

lemma hw_time_le_iff: "0 < n \<Longrightarrow> 0 < d \<Longrightarrow> hw_time n d T \<le> H \<longleftrightarrow> T \<le> os_time n d H"
  by (simp add: hw_time_def os_time_def ceil_div_le_iff less_eq_div_iff_mult_less_eq)

lemma os_time_mono: "H \<le> H' \<Longrightarrow> os_time n d H \<le> os_time n d H'"
  by (simp add: os_time_def div_le_mono)

lemma os_time_le: "os_time n d H * n \<le> H * d"
  by (simp add: os_time_def)

lemma tl_params_mult: "tl_params cfg n d hr \<Longrightarrow>
  unat (hw_ticks_per_micro cfg) * d + unat (hw_subticks_per_micro cfg) = n"
  by (simp add: tl_params_def)

lemma unat_of_nat_diff32:
  assumes "P \<le> H" "H - P < 2 ^ 32"
  shows "unat ((of_nat (h + H) :: u32) - of_nat (h + P)) = H - P"
proof -
  have "(of_nat (h + H) :: u32) - of_nat (h + P) = of_nat ((h + H) - (h + P))"
    using assms(1) by (intro of_nat_diff[symmetric]) simp
  also have "(h + H) - (h + P) = H - P" by simp
  finally show ?thesis using assms(2) unat_of_nat_lt[of "H - P", where ?'a = 32] by simp
qed

section \<open>The stateful algorithm\<close>

definition at_reference :: "nat \<Rightarrow> nat \<Rightarrow> nat \<Rightarrow> nat \<Rightarrow> tickless_core \<Rightarrow> bool" where
  "at_reference n d h0 T c \<longleftrightarrow>
     ref_tick_count c = of_nat T \<and> ref_hw_tick_count c = of_nat (h0 + T * n div d) \<and>
     wrapping_ok (d - 1) (ref_hw_subtick_count c) \<and>
     wrapping_to_u128 (ref_hw_subtick_count c) = T * n mod d"

text \<open>A hardware tick that can be measured from a reference point.\<close>

definition in_reach :: "nat \<Rightarrow> nat \<Rightarrow> nat \<Rightarrow> nat \<Rightarrow> bool" where
  "in_reach n d T H \<longleftrightarrow>
     T * n \<le> H * d \<and> H - T * n div d < 2 ^ 32 \<and> os_time n d H - T < 2 ^ 32"

lemma in_reach_le:
  assumes "in_reach n d T H" "0 < n" "0 < d"
  shows "T * n div d \<le> H" "T \<le> os_time n d H"
  using assms div_le_mono[of "T * n" "H * d" d] div_le_mono[of "T * n" "H * d" n]
  by (simp_all add: in_reach_def os_time_def)

lemma stateful_tick_count_ok:
  assumes p: "tl_params cfg n d hr" and c: "at_reference n d h0 T c" and r: "in_reach n d T H"
  shows "stateful_tick_count cfg c (of_nat (h0 + H)) = Some (of_nat (os_time n d H))"
proof -
  from p have nd: "0 < n" "n < 2 ^ 64" "0 < d" "d < 2 ^ 64" and dv: "unat (tl_division cfg) = d"
    by (auto simp: tl_params_def)
  let ?P = "T * n div d"
  note le = in_reach_le[OF r nd(1,3)]
  have u: "unat ((of_nat (h0 + H) :: u32) - ref_hw_tick_count c) = H - ?P"
    using c r le unat_of_nat_diff32[of ?P H h0] by (simp add: at_reference_def in_reach_def)
  have "H - ?P < 2 ^ 32" using r by (simp add: in_reach_def)
  from mult_lt_96[OF this nd(4)] have "(H - ?P) * d < 2 ^ 128" by simp
  then have a: "checked_nat 128 ((H - ?P) * d) = Some ((H - ?P) * d)" by (rule checked_nat_ok)
  have "?P * d + T * n mod d = T * n" by simp
  then have diff: "(H - ?P) * d - T * n mod d = H * d - T * n" "T * n mod d \<le> (H - ?P) * d"
    using r unfolding in_reach_def diff_mult_distrib by linarith+
  have b: "checked_nat 128 (unat (hw_ticks_per_micro cfg) * d) = Some (unat (hw_ticks_per_micro cfg) * d)"
    "checked_nat 128 (unat (hw_ticks_per_micro cfg) * d + unat (hw_subticks_per_micro cfg)) = Some n"
    using tl_params_mult[OF p] nd(2) by (auto intro!: checked_nat_ok)
  have q: "(H * d - T * n) div n = os_time n d H - T"
  proof -
    obtain x where "H * d = T * n + x" using r unfolding in_reach_def by (metis le_Suc_ex)
    with nd(1) show ?thesis by (simp add: os_time_def)
  qed
  have "of_nat T + of_nat (os_time n d H - T) = (of_nat (os_time n d H) :: u32)"
    using le(2) by (simp flip: of_nat_add)
  moreover have "ref_tick_count c = of_nat T" "wrapping_to_u128 (ref_hw_subtick_count c) = T * n mod d"
    using c by (simp_all add: at_reference_def)
  ultimately show ?thesis
    using nd(1) b diff by (simp add: stateful_tick_count_def dv u a q Let_def del: of_nat_add)
qed

lemma split_product:
  "\<lbrakk>x = P * d + S; n = q * d + s\<rbrakk> \<Longrightarrow> x + a * n = (P + a * q) * d + (S + s * (a :: nat))"
  by (simp add: algebra_simps)

lemma stateful_mark_reference_ok:
  assumes p: "tl_params cfg n d hr" and c: "at_reference n d h0 T c" and r: "in_reach n d T H"
  obtains c' where "stateful_mark_reference cfg c (of_nat (h0 + H)) = Some (c', of_nat (os_time n d H))"
    "at_reference n d h0 (os_time n d H) c'"
proof -
  from p have nd: "0 < n" "n < 2 ^ 64" "0 < d" "d < 2 ^ 64" and dv: "unat (tl_division cfg) = d"
    and sub: "unat (hw_subticks_per_micro cfg) = n mod d" and tpm: "unat (hw_ticks_per_micro cfg) = n div d"
    by (auto simp: tl_params_def)
  let ?T = "os_time n d H"
  let ?adv = "?T - T" and ?S = "T * n mod d"
  note le = in_reach_le[OF r nd(1,3)]
  have adv: "unat ((of_nat ?T :: u32) - ref_tick_count c) = ?adv"
    using c r le unat_of_nat_diff32[of T ?T 0] by (simp add: at_reference_def in_reach_def)
  have lt: "?adv < 2 ^ 32" using r by (simp add: in_reach_def)
  have "n mod d < d" "?S < d" using nd(3) by simp_all
  let ?inc = "n mod d * ?adv"
  have "?inc \<le> (d - 1) * (2 ^ 32 - 1)" using \<open>n mod d < d\<close> lt by (intro mult_le_mono) linarith+
  moreover have "(d - 1) * (2 ^ 32 - 1) + d \<le> 2 ^ 32 * d" using nd(3) by (cases d) auto
  ultimately have sum: "?S + ?inc < 2 ^ 32 * d" using \<open>?S < d\<close> by linarith
  then have "?inc < 2 ^ 32 * d" by linarith
  also have "2 ^ 32 * d < 2 ^ 128" using nd(4) by simp
  finally have "?inc < 2 ^ 128" .
  then have inc: "checked_nat 128 ?inc = Some ?inc" by (rule checked_nat_ok)
  have "naive_multi32 (d - 1) ?S ?inc = Some ((?S + ?inc) mod d, (?S + ?inc) div d)"
    using sum nd(3) by (simp add: naive_multi32_def Let_def div_less_iff_less_mult)
  then obtain w o' where w: "wrapping_add_assign128_multi32 (d - 1) (ref_hw_subtick_count c) ?inc = Some (w, o')"
    "wrapping_ok (d - 1) w" "wrapping_to_u128 w = (?S + ?inc) mod d" "unat o' = (?S + ?inc) div d"
    using wrapping_steps[of "d - 1" "ref_hw_subtick_count c"] c
    by (fastforce simp: steps_as_naive_def at_reference_def)
  obtain a where a: "?adv = a" by blast
  then have TT: "?T = T + a" using le(2) by simp
  have "?T * n = T * n + a * n" unfolding TT by (rule add_mult_distrib)
  also have "\<dots> = (T * n div d + a * (n div d)) * d + (?S + n mod d * a)"
    by (rule split_product) simp_all
  finally have split: "?T * n = (T * n div d + a * (n div d)) * d + (?S + ?inc)" by (simp only: a)
  have md: "?T * n mod d = (?S + ?inc) mod d" unfolding split by simp
  have dd: "?T * n div d = T * n div d + a * (n div d) + (?S + ?inc) div d"
    unfolding split using nd(3) by simp
  let ?c = "\<lparr>ref_tick_count = of_nat ?T,
      ref_hw_tick_count = ref_hw_tick_count c + (of_nat ?T - ref_tick_count c) * hw_ticks_per_micro cfg + o',
      ref_hw_subtick_count = w\<rparr>"
  have "stateful_mark_reference cfg c (of_nat (h0 + H)) = Some (?c, of_nat ?T)"
    using w(1) inc
    by (simp add: stateful_mark_reference_def stateful_tick_count_ok[OF p c r] sub adv Let_def
        subtick_max_def dv del: of_nat_add)
  moreover have "at_reference n d h0 ?T ?c"
  proof -
    have "(of_nat ?T :: u32) - ref_tick_count c = of_nat a"
      unfolding a[symmetric] adv[symmetric] by simp
    moreover have "hw_ticks_per_micro cfg = of_nat (n div d)" unfolding tpm[symmetric] by simp
    moreover have "o' = of_nat ((?S + ?inc) div d)" unfolding w(4)[symmetric] by simp
    ultimately have "ref_hw_tick_count ?c = of_nat (h0 + ?T * n div d)"
      using c unfolding dd by (simp add: at_reference_def add.assoc)
    with w md show ?thesis by (simp add: at_reference_def)
  qed
  ultimately show thesis by (rule that)
qed


lemma stateful_to_hw_ok:
  assumes p: "tl_params cfg n d hr" and c: "at_reference n d h0 T c" and m: "0 < m" "m < 2 ^ 32"
  shows "stateful_to_hw cfg c (of_nat (T + m)) = Some (of_nat (h0 + hw_time n d (T + m)))"
proof -
  from p have nd: "0 < n" "n < 2 ^ 64" "0 < d" "d < 2 ^ 64" and dv: "unat (tl_division cfg) = d"
    by (auto simp: tl_params_def)
  let ?P = "T * n div d" and ?S = "T * n mod d"
  from c have ref: "ref_tick_count c = of_nat T" "wrapping_to_u128 (ref_hw_subtick_count c) = ?S"
    "ref_hw_tick_count c = of_nat (h0 + ?P)" by (simp_all add: at_reference_def del: of_nat_add)
  have u: "unat ((of_nat (T + m) :: u32) - of_nat T) = m"
    using unat_of_nat_diff32[of 0 m T] m by simp
  then have ne: "(of_nat (T + m) :: u32) \<noteq> of_nat T" using m(1) by (auto simp del: of_nat_add)
  have b: "checked_nat 128 (unat (hw_ticks_per_micro cfg) * d) = Some (unat (hw_ticks_per_micro cfg) * d)"
    "checked_nat 128 (unat (hw_ticks_per_micro cfg) * d + unat (hw_subticks_per_micro cfg)) = Some n"
    using tl_params_mult[OF p] nd(2) by (auto intro!: checked_nat_ok)
  have "?S < d" using nd(3) by simp
  with mult_lt_96[OF m(2) nd(2)] nd(4) have lt: "m * n < 2 ^ 128" "?S + m * n < 2 ^ 128" "?S + m * n + d < 2 ^ 128"
    by auto
  have "(T + m) * n = ?P * d + (?S + m * n)" by (simp add: add_mult_distrib)
  then have "hw_time n d (T + m) = ?P + ceil_div (?S + m * n) d"
    using ceil_div_mult_add[OF nd(3)] by (simp only: hw_time_def)
  then have q: "(of_nat (h0 + ?P) :: u32) + of_nat (ceil_div (?S + m * n) d) =
      of_nat (h0 + hw_time n d (T + m))" by simp
  show ?thesis
    using ceil_div128_ok[OF nd(3) lt(3)] lt ne b q
    by (simp add: stateful_to_hw_def ref dv u Let_def del: of_nat_add)
qed

section \<open>What the greatest timeout guarantees\<close>

lemma hw_time_mult_le: "0 < d \<Longrightarrow> hw_time n d T * d \<le> T * n + (d - 1)"
proof -
  assume "0 < d"
  have "(T * n + d - 1) div d * d \<le> T * n + d - 1" by simp
  with \<open>0 < d\<close> show ?thesis by (simp add: hw_time_def ceil_div_def)
qed

lemma fits_late:
  assumes f: "timeout_fits n d hr mt m" and nd: "0 < n" "0 < d" and H': "H' \<le> hw_time n d (T + m) + hr"
  shows "H' * d < (T + mt + 1) * n" "os_time n d H' \<le> T + mt"
proof -
  have "H' * d \<le> (hw_time n d (T + m) + hr) * d" using H' by (rule mult_le_mono1)
  also have "\<dots> \<le> (T + m) * n + (d - 1) + hr * d"
    using hw_time_mult_le[OF nd(2), of n "T + m"] by (simp add: add_mult_distrib)
  also have "\<dots> \<le> T * n + (mt * n + n - 1)" using f by (simp add: timeout_fits_def add_mult_distrib)
  also have "\<dots> < (T + mt + 1) * n" using nd(1) by (simp add: add_mult_distrib)
  finally show lt: "H' * d < (T + mt + 1) * n" .
  then have "H' * d div n < T + mt + 1" using nd(1) by (simp add: div_less_iff_less_mult)
  then show "os_time n d H' \<le> T + mt" by (simp add: os_time_def)
qed

lemma fits_le: "timeout_fits n d hr mt m \<Longrightarrow> 0 < n \<Longrightarrow> m \<le> mt"
proof -
  assume "timeout_fits n d hr mt m" "0 < n"
  then have "m * n < (mt + 1) * n" by (simp add: timeout_fits_def)
  then have "m < mt + 1" by (simp only: mult_less_cancel2)
  then show ?thesis by simp
qed

lemma stateful_late:
  assumes f: "m * n + (d - 1) + hr * d \<le> (2 ^ 32 - 1) * d" and nd: "0 < n" "0 < d"
    and H': "H' \<le> hw_time n d (T + m) + hr"
  shows "H' - T * n div d < 2 ^ 32"
proof -
  let ?P = "T * n div d" and ?S = "T * n mod d"
  have "(T + m) * n = ?P * d + (?S + m * n)" by (simp add: add_mult_distrib)
  then have hw: "hw_time n d (T + m) = ?P + ceil_div (?S + m * n) d"
    using ceil_div_mult_add[OF nd(2)] by (simp only: hw_time_def)
  have "hr * d \<le> (2 ^ 32 - 1) * d" using f by linarith
  then have hr: "hr \<le> 2 ^ 32 - 1" using nd(2) by simp
  then have e: "(2 ^ 32 - 1 - hr) * d + hr * d = (2 ^ 32 - 1) * d" by (simp flip: add_mult_distrib)
  have "?S \<le> d - 1" using nd(2) mod_less_divisor[of d "T * n"] by linarith
  with f e have "?S + m * n \<le> (2 ^ 32 - 1 - hr) * d" by linarith
  then have "ceil_div (?S + m * n) d \<le> 2 ^ 32 - 1 - hr" using ceil_div_le_iff[OF nd(2)] by blast
  moreover have "1 \<le> (2 :: nat) ^ 32" by simp
  ultimately show ?thesis using hw H' hr by linarith
qed

lemma fits_mono:
  "m * n + (d - 1) + hr * d \<le> X \<Longrightarrow> m' \<le> m \<Longrightarrow> m' * n + (d - 1) + hr * d \<le> (X :: nat)"
  using mult_le_mono1[of m' m n] by linarith

section \<open>The stateless algorithm\<close>

lemma os_time_period:
  assumes "0 < n" "0 < d" "0 < r"
  shows "os_time n d (H mod (n * r)) = os_time n d H mod (d * r)" "os_time n d (H mod (n * r)) < d * r"
proof -
  let ?h = "H mod (n * r)" and ?q = "H div (n * r)"
  have "?h < n * r" using assms by simp
  then have "?h * d < n * r * d" using assms(2) by simp
  then have lt: "?h * d div n < d * r" using assms(1) by (simp add: div_less_iff_less_mult mult_ac)
  then show "os_time n d ?h < d * r" by (simp add: os_time_def)
  have "H * d = (?q * (n * r) + ?h) * d" by (rule arg_cong[where f = "\<lambda>x. x * d"]) (rule div_mult_mod_eq[symmetric])
  also have "\<dots> = (?q * (d * r)) * n + ?h * d" by (simp only: add_mult_distrib) (simp only: mult_ac)
  finally have "H * d div n = ?q * (d * r) + ?h * d div n" using assms(1) by simp
  with lt show "os_time n d ?h = os_time n d H mod (d * r)" by (simp add: os_time_def)
qed

lemma stateless_tick_count_ok:
  assumes p: "tl_params cfg n d hr" and alg: "algorithm cfg = Stateless hm mt"
    and r: "0 < r" "unat hm + 1 = n * r" "unat mt + 1 = d * r"
  shows "stateless_tick_count cfg (of_nat (H mod (n * r))) = Some (of_nat (os_time n d H mod (d * r)))"
proof -
  from p have nd: "0 < n" "n < 2 ^ 64" "0 < d" "d < 2 ^ 64" and dv: "unat (tl_division cfg) = d"
    by (auto simp: tl_params_def)
  have M: "n * r \<le> 2 ^ 32" "d * r \<le> 2 ^ 32"
    using r unsigned_less[of hm, where ?'a = nat] unsigned_less[of mt, where ?'a = nat] by simp_all
  have "H mod (n * r) < n * r" using nd r by simp
  with M have h: "H mod (n * r) < 2 ^ 32" by linarith
  from mult_lt_96[OF h nd(4)] have a: "checked_nat 128 (H mod (n * r) * d) = Some (H mod (n * r) * d)"
    by (intro checked_nat_ok) simp
  have b: "checked_nat 128 (unat (hw_ticks_per_micro cfg) * d) = Some (unat (hw_ticks_per_micro cfg) * d)"
    "checked_nat 128 (unat (hw_ticks_per_micro cfg) * d + unat (hw_subticks_per_micro cfg)) = Some n"
    using tl_params_mult[OF p] nd(2) by (auto intro!: checked_nat_ok)
  have t: "H mod (n * r) * d div n = os_time n d H mod (d * r)" "os_time n d H mod (d * r) \<le> 0xffffffff"
    using os_time_period[OF nd(1,3) r(1), of H] M(2) by (simp_all add: os_time_def)
  have "unat (of_nat (H mod (n * r)) :: u32) = H mod (n * r)" using h by (intro unat_of_nat_lt) simp
  with a b t nd show ?thesis by (simp add: stateless_tick_count_def dv Let_def)
qed


lemma stateless_to_hw_ok:
  assumes p: "tl_params cfg n d hr" and alg: "algorithm cfg = Stateless hm mt"
    and r: "0 < r" "unat hm + 1 = n * r" "unat mt + 1 = d * r" and t: "t < d * r"
  shows "stateless_to_hw cfg (of_nat t) = Some (of_nat (hw_time n d t mod (n * r)))"
proof -
  from p have nd: "0 < n" "n < 2 ^ 64" "0 < d" "d < 2 ^ 64" and dv: "unat (tl_division cfg) = d"
    and sub: "unat (hw_subticks_per_micro cfg) = n mod d" and tpm: "unat (hw_ticks_per_micro cfg) = n div d"
    by (auto simp: tl_params_def)
  have M: "n * r \<le> 2 ^ 32" "d * r \<le> 2 ^ 32"
    using r unsigned_less[of hm, where ?'a = nat] unsigned_less[of mt, where ?'a = nat] by simp_all
  have t32: "t < 2 ^ 32" using t M by linarith
  then have ut: "unat (of_nat t :: u32) = t" by (intro unat_of_nat_lt) simp
  have tn: "t * n = t * (n div d) * d + t * (n mod d)"
    using arg_cong[OF div_mult_mod_eq[of n d], of "\<lambda>x. t * x"]
    by (simp only: add_mult_distrib2 mult.assoc)
  have hw: "hw_time n d t = t * (n div d) + ceil_div (t * (n mod d)) d"
    unfolding hw_time_def tn by (rule ceil_div_mult_add[OF nd(3)])
  have "t * n \<le> n * r * d" using t by (metis less_imp_le mult.assoc mult.commute mult_le_mono1)
  then have le: "hw_time n d t \<le> n * r" using nd(3) by (simp add: hw_time_def ceil_div_le_iff)
  have "t * (n div d) * d < n * r * d"
  proof -
    have "t * (n div d) * d \<le> t * n" unfolding tn by simp
    also have "t * n < d * r * n" using t nd(1) by simp
    finally show ?thesis by (simp only: mult_ac)
  qed
  then have m: "t * (n div d) < 2 ^ 32" using M(1) by (simp only: mult_less_cancel2) linarith
  have "n mod d < 2 ^ 64" using mod_less_divisor[OF nd(3), of n] nd(4) by linarith
  from mult_lt_96[OF t32 this] nd(4) have s: "t * (n mod d) < 2 ^ 128" "t * (n mod d) + d < 2 ^ 128" by auto
  have mx: "hw_max_tick_count cfg = hm" by (simp add: hw_max_tick_count_def alg)
  let ?hw = "(of_nat (t * (n div d)) :: u32) + of_nat (ceil_div (t * (n mod d)) d)"
  have w: "?hw = of_nat (hw_time n d t)" by (simp add: hw)
  have res: "(if hm \<noteq> 0xffffffff \<and> ?hw = hm + 1 then 0 else ?hw) = of_nat (hw_time n d t mod (n * r)) \<and>
      (of_nat (hw_time n d t mod (n * r)) :: u32) \<le> hm"
  proof -
    have hmw: "hm = of_nat (n * r - 1)" unfolding r(2)[symmetric] by simp
    have hm1: "hm + 1 = of_nat (n * r)" unfolding r(2)[symmetric] by simp
    have lt: "hw_time n d t mod (n * r) < n * r" using nd r by simp
    then have u: "unat (of_nat (hw_time n d t mod (n * r)) :: u32) = hw_time n d t mod (n * r)"
      using M by (intro unat_of_nat_lt) simp
    then have 2: "(of_nat (hw_time n d t mod (n * r)) :: u32) \<le> hm" using lt r by (simp add: word_le_nat_alt)
    show ?thesis
    proof (cases "hw_time n d t = n * r")
      case True
      then show ?thesis using 2 w hm1 r(2) by (cases "hm = 0xffffffff") auto
    next
      case False
      with le have l: "hw_time n d t < n * r" by linarith
      then have "unat (of_nat (hw_time n d t) :: u32) = hw_time n d t" using M by (intro unat_of_nat_lt) simp
      moreover have "n * r < 2 ^ 32" if "hm \<noteq> 0xffffffff"
        using that M(1) hmw by (cases "n * r = 2 ^ 32") auto
      moreover have "n * r < 2 ^ 32 \<Longrightarrow> unat (of_nat (n * r) :: u32) = n * r"
        by (intro unat_of_nat_lt) simp
      ultimately have "hm \<noteq> 0xffffffff \<longrightarrow> ?hw \<noteq> hm + 1"
        using l unfolding w hm1 by (metis nat_neq_iff)
      with l 2 w show ?thesis by auto
    qed
  qed
  show ?thesis
    using m s ceil_div128_ok[OF nd(3) s(2)] res
    by (simp add: stateless_to_hw_def ut tpm sub dv mx Let_def del: of_nat_mult)
qed


section \<open>Addition and subtraction modulo the periods\<close>

lemma add_mod_u32_ok:
  assumes M: "unat mx + 1 = M" and x: "x < M" and y: "y < M"
  shows "add_mod_u32 (of_nat x) (of_nat y) mx = Some (of_nat ((x + y) mod M))"
proof -
  have le: "M \<le> 2 ^ 32" using M unsigned_less[of mx, where ?'a = nat] by simp
  have u: "unat (of_nat x :: u32) = x" "unat (of_nat y :: u32) = y"
    using x y le by (auto intro!: unat_of_nat_lt)
  have g: "(of_nat x :: u32) \<le> mx" "(of_nat y :: u32) \<le> mx" using u x y M by (simp_all add: word_le_nat_alt)
  have d: "unat (mx - of_nat x) = unat mx - x" using g(1) u by (simp add: unat_sub word_le_nat_alt)
  have mxw: "mx = of_nat (M - 1)" unfolding M[symmetric] by simp
  show ?thesis
  proof (cases "x + y < M")
    case True
    then have "(of_nat y :: u32) \<le> mx - of_nat x" using d u M by (simp add: word_le_nat_alt)
    with g True show ?thesis by (simp add: add_mod_u32_def)
  next
    case ge: False
    then have m: "(x + y) mod M = x + y - M" using x y by (simp add: mod_lt_twice)
    have nle: "\<not> (of_nat y :: u32) \<le> mx - of_nat x" using d u M x ge by (simp add: word_le_nat_alt)
    have "(of_nat (x + y - M) :: u32) = of_nat (x + y) - of_nat M" using ge by (simp only: of_nat_diff not_less)
    also have "(of_nat M :: u32) = mx + 1" unfolding M[symmetric] by simp
    finally have w: "(of_nat (x + y - M) :: u32) = of_nat x + of_nat y - (mx + 1)" by simp
    have m1: "(0xffffffff :: u32) = - 1" by simp
    show ?thesis
    proof (cases "mx = 0xffffffff")
      case True
      then have "mx + 1 = 0" by simp
      with g w m True show ?thesis by (simp add: add_mod_u32_def)
    next
      case False
      then have "add_mod_u32 (of_nat x) (of_nat y) mx = Some (of_nat x + of_nat y + (0xffffffff - mx))"
        using g nle by (simp add: add_mod_u32_def)
      also have "(of_nat x + of_nat y + (0xffffffff - mx) :: u32) = of_nat (x + y - M)"
        unfolding w m1 by simp
      finally show ?thesis by (simp only: m)
    qed
  qed
qed

text \<open>The distance of two hardware ticks less than a period apart.\<close>

lemma sub_mod_u32_aux:
  assumes M: "unat mx + 1 = M" and L: "0 < L" "L < M" and xy: "x < M" "y < M"
    and x: "x = (if y + L < M then y + L else y + L - M)"
  shows "sub_mod_u32 (of_nat x) (of_nat y) mx = Some (of_nat L)"
proof -
  have le: "M \<le> 2 ^ 32" using M unsigned_less[of mx, where ?'a = nat] by simp
  have u: "unat (of_nat x :: u32) = x" "unat (of_nat y :: u32) = y"
    using xy le by (auto intro!: unat_of_nat_lt)
  have g: "(of_nat x :: u32) \<le> mx" "(of_nat y :: u32) \<le> mx" using u xy M by (simp_all add: word_le_nat_alt)
  have mw: "(of_nat M :: u32) = mx + 1" unfolding M[symmetric] by simp
  show ?thesis
  proof (cases "y + L < M")
    case True
    with x have e: "x = y + L" by simp
    then have "(of_nat y :: u32) < of_nat x" using u L by (simp add: word_less_nat_alt)
    with g e show ?thesis by (simp add: sub_mod_u32_def)
  next
    case False
    with x have e: "x = y + L - M" by simp
    then have n: "\<not> (of_nat y :: u32) < of_nat x" using u L by (simp add: word_less_nat_alt)
    have "(of_nat x :: u32) = of_nat y + of_nat L - of_nat M"
      unfolding e using False by (simp add: of_nat_diff)
    then have w: "(of_nat x :: u32) = of_nat y + of_nat L - (mx + 1)" by (simp only: mw)
    have m1: "(0xffffffff :: u32) = - 1" by simp
    have "sub_mod_u32 (of_nat x) (of_nat y) mx =
        Some (if mx = 0xffffffff then of_nat x - of_nat y else of_nat x - of_nat y - (0xffffffff - mx))"
      using g n by (simp add: sub_mod_u32_def)
    also have "(if mx = 0xffffffff then of_nat x - of_nat y else of_nat x - of_nat y - (0xffffffff - mx)) = (of_nat L :: u32)"
      unfolding w m1 by auto
    finally show ?thesis .
  qed
qed

lemma sub_mod_u32_ok:
  assumes M: "unat mx + 1 = M" and L: "0 < L" "L < M"
  shows "sub_mod_u32 (of_nat ((b + L) mod M)) (of_nat (b mod M)) mx = Some (of_nat L)"
proof (rule sub_mod_u32_aux[OF M L])
  show lt: "(b + L) mod M < M" "b mod M < M" using L by simp_all
  have "(b + L) mod M = (b mod M + L) mod M" by (simp add: mod_add_left_eq)
  also have "\<dots> = (if b mod M + L < M then b mod M + L else b mod M + L - M)"
    using lt(2) L by (intro mod_lt_twice) linarith
  finally show "(b + L) mod M = (if b mod M + L < M then b mod M + L else b mod M + L - M)" .
qed

section \<open>Either algorithm follows the hardware ticks\<close>

definition hw_period :: "tickless_cfg \<Rightarrow> nat" where
  "hw_period cfg = unat (hw_max_tick_count cfg) + 1"

definition os_period :: "tickless_cfg \<Rightarrow> nat" where
  "os_period cfg = unat (tl_max_tick_count cfg) + 1"

text \<open>The values of the two counters.\<close>

definition hw_count :: "tickless_cfg \<Rightarrow> nat \<Rightarrow> u32" where
  "hw_count cfg x = of_nat (x mod hw_period cfg)"

definition os_count :: "tickless_cfg \<Rightarrow> nat \<Rightarrow> u32" where
  "os_count cfg x = of_nat (x mod os_period cfg)"

definition tracks :: "tickless_cfg \<Rightarrow> nat \<Rightarrow> nat \<Rightarrow> nat \<Rightarrow> nat \<Rightarrow> tickless_state \<Rightarrow> bool" where
  "tracks cfg n d h0 H s \<longleftrightarrow>
     (case algorithm cfg of
        Stateless _ _ \<Rightarrow> s = StatelessCore \<and> h0 = 0
      | Stateful \<Rightarrow> (\<exists>c T. s = StateCore c \<and> at_reference n d h0 T c \<and> in_reach n d T H))"

lemma stateful_counts:
  assumes "algorithm cfg = Stateful"
  shows "hw_count cfg x = of_nat x" "os_count cfg x = of_nat x"
    "hw_period cfg = 2 ^ 32" "os_period cfg = 2 ^ 32"
proof -
  have "(of_nat (x mod 2 ^ 32) :: u32) = of_nat x" for x
    by (simp add: word_unat_eq_iff unat_of_nat)
  then show "hw_count cfg x = of_nat x" "os_count cfg x = of_nat x"
    using assms by (simp_all add: hw_count_def os_count_def hw_period_def os_period_def
        hw_max_tick_count_def tl_max_tick_count_def)
  show "hw_period cfg = 2 ^ 32" "os_period cfg = 2 ^ 32"
    using assms by (simp_all add: hw_period_def os_period_def hw_max_tick_count_def tl_max_tick_count_def)
qed

lemma stateless_periods:
  assumes "tl_params cfg n d hr" "algorithm cfg = Stateless hm mt"
  obtains r where "0 < r" "unat hm + 1 = n * r" "unat mt + 1 = d * r" "hw_period cfg = n * r"
    "os_period cfg = d * r" "timeout_fits n d hr (unat mt) (unat (tl_max_timeout cfg))"
  using assms by (auto simp: tl_params_def algorithm_ok_def hw_period_def os_period_def
      hw_max_tick_count_def tl_max_tick_count_def)

lemma params_fit:
  "tl_params cfg n d hr \<Longrightarrow> timeout_fits n d hr (os_period cfg - 1) (unat (tl_max_timeout cfg))"
  by (cases "algorithm cfg")
     (auto simp: tl_params_def algorithm_ok_def os_period_def tl_max_tick_count_def)


lemma tracks_tick_count:
  assumes p: "tl_params cfg n d hr" and t: "tracks cfg n d h0 H s"
  shows "tickless_tick_count cfg s (hw_count cfg (h0 + H)) = Some (os_count cfg (os_time n d H))"
proof (cases "algorithm cfg")
  case (Stateless hm mt)
  from stateless_periods[OF p Stateless] obtain r where r: "0 < r" "unat hm + 1 = n * r" "unat mt + 1 = d * r"
    "hw_period cfg = n * r" "os_period cfg = d * r" .
  from stateless_tick_count_ok[OF p Stateless r(1,2,3), of H] t Stateless r show ?thesis
    by (simp add: tracks_def tickless_tick_count_def hw_count_def os_count_def)
next
  case Stateful
  with t stateful_tick_count_ok[OF p] show ?thesis
    by (auto simp: tracks_def tickless_tick_count_def stateful_counts simp del: of_nat_add)
qed

lemma tracks_mark:
  assumes p: "tl_params cfg n d hr" and t: "tracks cfg n d h0 H s"
  obtains s' where "tickless_mark_reference cfg s (hw_count cfg (h0 + H)) =
      Some (s', os_count cfg (os_time n d H))"
    "case algorithm cfg of Stateless _ _ \<Rightarrow> s' = StatelessCore \<and> h0 = 0
     | Stateful \<Rightarrow> \<exists>c. s' = StateCore c \<and> at_reference n d h0 (os_time n d H) c"
proof (cases "algorithm cfg")
  case (Stateless hm mt)
  with t have "s = StatelessCore" "h0 = 0" by (simp_all add: tracks_def)
  with tracks_tick_count[OF p t] that Stateless show thesis
    by (simp add: tickless_mark_reference_def tickless_tick_count_def)
next
  case Stateful
  with t obtain c T where c: "s = StateCore c" "at_reference n d h0 T c" "in_reach n d T H"
    by (auto simp: tracks_def)
  from stateful_mark_reference_ok[OF p c(2,3)] obtain c' where
    "stateful_mark_reference cfg c (of_nat (h0 + H)) = Some (c', of_nat (os_time n d H))"
    "at_reference n d h0 (os_time n d H) c'" .
  with that[of "StateCore c'"] c Stateful show thesis
    by (simp add: tickless_mark_reference_def stateful_counts del: of_nat_add)
qed

lemma hw_time_period:
  assumes "0 < d"
  shows "hw_time n d (T mod (d * r)) mod (n * r) = hw_time n d T mod (n * r)"
proof -
  let ?q = "T div (d * r)" and ?t = "T mod (d * r)"
  have "T * n = (?q * (d * r) + ?t) * n"
    by (rule arg_cong[where f = "\<lambda>x. x * n"]) (rule div_mult_mod_eq[symmetric])
  also have "\<dots> = (?q * (n * r)) * d + ?t * n" by (simp only: add_mult_distrib) (simp only: mult_ac)
  finally have "hw_time n d T = ?q * (n * r) + hw_time n d ?t"
    unfolding hw_time_def using ceil_div_mult_add[OF assms] by simp
  then show ?thesis by simp
qed

lemma params_stateful:
  "\<lbrakk>tl_params cfg n d hr; algorithm cfg = Stateful\<rbrakk> \<Longrightarrow>
   unat (tl_max_timeout cfg) * n + (d - 1) + hr * d \<le> (2 ^ 32 - 1) * d"
  by (simp only: tl_params_def algorithm_ok_def tickless_algorithm.case)

text \<open>The time after which a timeout expires lies ahead, by less than a period.\<close>

lemma wait_bounds:
  assumes p: "tl_params cfg n d hr" and m: "0 < m" "m \<le> unat (tl_max_timeout cfg)"
  shows "H < hw_time n d (os_time n d H + m)" "hw_time n d (os_time n d H + m) - H < hw_period cfg"
proof -
  from p have nd: "0 < n" "0 < d" by (auto simp: tl_params_def)
  let ?T = "os_time n d H"
  let ?E = "hw_time n d (?T + m)"
  have "\<not> ?E \<le> H" using hw_time_le_iff[OF nd, of "?T + m" H] m(1) by simp
  then show gt: "H < ?E" by simp
  show "?E - H < hw_period cfg"
  proof (cases "algorithm cfg")
    case (Stateless hm mt)
    from stateless_periods[OF p Stateless] obtain r where r: "unat mt + 1 = d * r" "hw_period cfg = n * r"
      "timeout_fits n d hr (unat mt) (unat (tl_max_timeout cfg))" by metis
    from fits_late(1)[OF timeout_fits_less[OF r(3) m(2)] nd, of ?E ?T]
    have "?E * d < (?T + d * r) * n" by (simp flip: r(1))
    have "d * r * n = n * r * d" by (simp only: mult_ac)
    with \<open>?E * d < (?T + d * r) * n\<close> have "?E * d < (H + n * r) * d"
      using os_time_le[of n d H] unfolding add_mult_distrib by linarith
    then have "?E < H + n * r" by simp
    with gt r(2) show ?thesis by linarith
  next
    case Stateful
    note f = params_stateful[OF p Stateful]
    have "?E - ?T * n div d < 2 ^ 32" by (rule stateful_late[OF fits_mono[OF f m(2)] nd]) simp
    moreover have "?T * n div d \<le> H"
      using div_le_mono[OF os_time_le[of n d H], of d] nd by simp
    ultimately show ?thesis using stateful_counts(3)[OF Stateful] by linarith
  qed
qed

lemma tracks_after:
  assumes p: "tl_params cfg n d hr" and m: "0 < m" "m \<le> unat (tl_max_timeout cfg)"
    and s: "case algorithm cfg of Stateless _ _ \<Rightarrow> s' = StatelessCore \<and> h0 = 0
     | Stateful \<Rightarrow> \<exists>c. s' = StateCore c \<and> at_reference n d h0 (os_time n d H) c"
    and H': "H \<le> H'" "H' \<le> hw_time n d (os_time n d H + m) + hr"
  shows "tracks cfg n d h0 H' s'" "os_time n d H' - os_time n d H < os_period cfg"
proof -
  from p have nd: "0 < n" "0 < d" by (auto simp: tl_params_def)
  let ?T = "os_time n d H"
  have op: "0 < os_period cfg" by (simp add: os_period_def)
  have "os_time n d H' \<le> ?T + (os_period cfg - 1)"
    by (rule fits_late(2)[OF timeout_fits_less[OF params_fit[OF p] m(2)] nd H'(2)])
  with op show lt: "os_time n d H' - ?T < os_period cfg" by linarith
  show "tracks cfg n d h0 H' s'"
  proof (cases "algorithm cfg")
    case (Stateless hm mt)
    with s show ?thesis by (simp add: tracks_def)
  next
    case Stateful
    note f = params_stateful[OF p Stateful]
    have "H' - ?T * n div d < 2 ^ 32" by (rule stateful_late[OF fits_mono[OF f m(2)] nd H'(2)])
    moreover have "?T * n \<le> H' * d" using os_time_le[of n d H] mult_le_mono1[OF H'(1), of d] by linarith
    ultimately have "in_reach n d ?T H'" using lt stateful_counts(4)[OF Stateful] by (simp add: in_reach_def)
    with s Stateful show ?thesis by (auto simp: tracks_def)
  qed
qed


lemma tracks_to_hw:
  assumes p: "tl_params cfg n d hr" and m: "0 < m" "m < 2 ^ 32"
    and s: "case algorithm cfg of Stateless _ _ \<Rightarrow> s' = StatelessCore \<and> h0 = 0
     | Stateful \<Rightarrow> \<exists>c. s' = StateCore c \<and> at_reference n d h0 T c"
  shows "tickless_to_hw cfg s' (os_count cfg (T + m)) = Some (hw_count cfg (h0 + hw_time n d (T + m)))"
proof (cases "algorithm cfg")
  case (Stateless hm mt)
  from p have nd: "0 < n" "0 < d" by (auto simp: tl_params_def)
  from stateless_periods[OF p Stateless] obtain r where r: "0 < r" "unat hm + 1 = n * r" "unat mt + 1 = d * r"
    "hw_period cfg = n * r" "os_period cfg = d * r" .
  have "(T + m) mod (d * r) < d * r" using r nd by simp
  from stateless_to_hw_ok[OF p Stateless r(1,2,3) this] s Stateless r(4,5) show ?thesis
    by (simp add: tickless_to_hw_def hw_count_def os_count_def hw_time_period[OF nd(2)])
next
  case Stateful
  with s stateful_to_hw_ok[OF p _ m] show ?thesis
    by (auto simp: tickless_to_hw_def stateful_counts simp del: of_nat_add)
qed

lemma os_period_le: "os_period cfg \<le> 2 ^ 32" "hw_period cfg \<le> 2 ^ 32"
  using unsigned_less[of "tl_max_tick_count cfg", where ?'a = nat]
    unsigned_less[of "hw_max_tick_count cfg", where ?'a = nat]
  by (simp_all add: os_period_def hw_period_def)

lemma measure_ok:
  assumes p: "tl_params cfg n d hr" and t: "tracks cfg n d h0 H s"
    and m: "0 < unat ticks" "ticks \<le> tl_max_timeout cfg"
  obtains s' where "mark_reference_and_measure cfg s (hw_count cfg (h0 + H)) ticks =
      Some (s', \<lparr>end_hw_tick_count = hw_count cfg (h0 + hw_time n d (os_time n d H + unat ticks)),
                meas_hw_ticks = of_nat (hw_time n d (os_time n d H + unat ticks) - H)\<rparr>)"
    "\<And>H'. \<lbrakk>H \<le> H'; H' \<le> hw_time n d (os_time n d H + unat ticks) + hr\<rbrakk> \<Longrightarrow>
       tracks cfg n d h0 H' s' \<and> os_time n d H' - os_time n d H < os_period cfg"
proof -
  from p have nd: "0 < n" "0 < d" by (auto simp: tl_params_def)
  let ?T = "os_time n d H" and ?m = "unat ticks"
  let ?E = "hw_time n d (?T + ?m)"
  have m': "?m \<le> unat (tl_max_timeout cfg)" using m(2) by (simp add: word_le_nat_alt)
  from tracks_mark[OF p t] obtain s' where
    mark: "tickless_mark_reference cfg s (hw_count cfg (h0 + H)) = Some (s', os_count cfg ?T)"
    and s': "case algorithm cfg of Stateless _ _ \<Rightarrow> s' = StatelessCore \<and> h0 = 0
     | Stateful \<Rightarrow> \<exists>c. s' = StateCore c \<and> at_reference n d h0 ?T c" .
  have op: "0 < os_period cfg" by (simp add: os_period_def)
  have "?m \<le> os_period cfg - 1" using fits_le[OF params_fit[OF p] nd(1)] m' by linarith
  then have lt: "?T mod os_period cfg < os_period cfg" "?m < os_period cfg" using op by simp_all
  have "add_mod_u32 (os_count cfg ?T) ticks (tl_max_tick_count cfg) = Some (os_count cfg (?T + ?m))"
    using add_mod_u32_ok[OF os_period_def[symmetric] lt] by (simp add: os_count_def mod_add_left_eq)
  moreover have "?m < 2 ^ 32" using unsigned_less[of ticks, where ?'a = nat] by simp
  then have "tickless_to_hw cfg s' (os_count cfg (?T + ?m)) = Some (hw_count cfg (h0 + ?E))"
    by (rule tracks_to_hw[OF p m(1) _ s'])
  moreover note b = wait_bounds[OF p m(1) m', of H]
  have "sub_mod_u32 (hw_count cfg (h0 + ?E)) (hw_count cfg (h0 + H)) (hw_max_tick_count cfg) = Some (of_nat (?E - H))"
    using sub_mod_u32_ok[of "hw_max_tick_count cfg" "hw_period cfg" "?E - H" "h0 + H"] b
    by (simp add: hw_count_def hw_period_def)
  moreover have "ticks \<noteq> 0" using m(1) by auto
  ultimately show thesis
    using that[of s'] mark tracks_after[OF p m(1) m' s']
    by (simp add: mark_reference_and_measure_def)
qed

text \<open>The initial state, at hardware tick zero or at the tick of the reset.\<close>

lemma tracks_init:
  assumes p: "tl_params cfg n d hr"
  shows "tracks cfg n d 0 0 (tickless_init cfg)"
    and "algorithm cfg = Stateful \<Longrightarrow>
      \<exists>s. tickless_reset cfg (tickless_init cfg) (of_nat h0) = Some s \<and> tracks cfg n d h0 0 s"
proof -
  from p have nd: "0 < n" "0 < d" "d < 2 ^ 64" and dv: "unat (tl_division cfg) = d" by (auto simp: tl_params_def)
  have "d - 1 < 2 ^ 64" using nd by simp
  from wrapping_init_ok[OF this] have w: "wrapping_ok (d - 1) (wrapping_init (d - 1))"
    "wrapping_to_u128 (wrapping_init (d - 1)) = 0" by auto
  have r: "in_reach n d 0 0" by (simp add: in_reach_def os_time_def)
  from w r show "tracks cfg n d 0 0 (tickless_init cfg)"
    by (cases "algorithm cfg")
       (auto simp: tracks_def tickless_init_def at_reference_def subtick_max_def dv intro: exI[of _ 0])
  assume "algorithm cfg = Stateful"
  with w r show "\<exists>s. tickless_reset cfg (tickless_init cfg) (of_nat h0) = Some s \<and> tracks cfg n d h0 0 s"
    by (auto simp: tracks_def tickless_init_def tickless_reset_def at_reference_def subtick_max_def dv
        intro: exI[of _ 0])
qed

end
