(* ===== verification/Tickless_Properties.thy ===== *)
theory Tickless_Properties
  imports Tickless_Contract
begin

text \<open>
  The properties of the tickless driver: its configuration never panics and rejects exactly what it
  documents, and a client that waits for timeouts within the limits sees the exact time.
\<close>

section \<open>The configuration\<close>

text \<open>C36: The configuration of the tickless driver is total: none of its assertions fails and none of its
  128-bit computations overflows, for any options. It rejects a zero frequency, a frequency of
  \<open>2 ^ 32\<close> ticks per microsecond or more, a reduced denominator over 64 bits, and a greatest
  timeout of zero, in this order, and otherwise returns the whole and the fractional part of the
  frequency and the greatest timeout, computed from the frequency in lowest terms.\<close>
theorem tickless_new_total: "tickless_new opts = Some (tickless_spec opts)"
  by (rule tickless_new_eq)

section \<open>A client of the driver\<close>

text \<open>The time in microseconds at the \<open>H\<close>th hardware tick since the origin, rounded down.\<close>

definition elapsed_micros :: "tickless_options \<Rightarrow> nat \<Rightarrow> nat" where
  "elapsed_micros opts H = H * (unat (tl_freq_denom opts) * 1000000) div unat (tl_freq_num opts)"

text \<open>A list of waits, each with the latency of the interrupt that ends it.\<close>

fun tickless_run ::
  "tickless_cfg \<Rightarrow> nat \<Rightarrow> (u32 \<times> nat) list \<Rightarrow> nat \<Rightarrow> tickless_state \<Rightarrow> (nat \<times> tickless_state) option" where
  "tickless_run cfg h0 [] H s = Some (H, s)"
| "tickless_run cfg h0 ((ticks, latency) # waits) H s =
     do { (s', m) \<leftarrow> mark_reference_and_measure cfg s (hw_count cfg (h0 + H)) ticks;
          tickless_run cfg h0 waits (H + unat (meas_hw_ticks m) + latency) s' }"

definition valid_wait :: "tickless_options \<Rightarrow> tickless_cfg \<Rightarrow> u32 \<times> nat \<Rightarrow> bool" where
  "valid_wait opts cfg w \<longleftrightarrow>
     fst w \<noteq> 0 \<and> fst w \<le> tl_max_timeout cfg \<and> snd w \<le> unat (tl_headroom_ticks opts)"

definition tickless_start :: "tickless_options \<Rightarrow> tickless_cfg \<Rightarrow> nat \<Rightarrow> tickless_state \<Rightarrow> bool" where
  "tickless_start opts cfg h0 s \<longleftrightarrow>
     (if resettable opts then tickless_reset cfg (tickless_init cfg) (of_nat h0) = Some s
      else h0 = 0 \<and> s = tickless_init cfg)"

lemma start_tracks:
  assumes "tl_params cfg n d hr" "resettable opts \<Longrightarrow> algorithm cfg = Stateful" "tickless_start opts cfg h0 s"
  shows "tracks cfg n d h0 0 s"
  using tracks_init(1)[OF assms(1)] tracks_init(2)[OF assms(1), of h0] assms(2,3)
  by (cases "resettable opts") (auto simp: tickless_start_def)

lemma elapsed_os_time:
  assumes "reduced opts n d" "0 < n" "tl_freq_num opts \<noteq> 0"
  shows "elapsed_micros opts = os_time n d"
proof
  fix H
  obtain N D where N: "unat (tl_freq_num opts) = N" and D: "unat (tl_freq_denom opts) * 1000000 = D" by blast
  have "0 < N" using assms(3) by (simp add: N[symmetric] unat_gt_0)
  have e: "n * D = N * d" using assms(1) by (simp only: reduced_def N D)
  have "H * D div N = (H * D * n) div (N * n)" using assms(2) by simp
  also have "H * D * n = H * (n * D)" by (simp only: mult_ac)
  also have "\<dots> = H * d * N" unfolding e by (simp only: mult_ac)
  also have "N * n = n * N" by (rule mult.commute)
  also have "H * d * N div (n * N) = H * d div n" using \<open>0 < N\<close> by simp
  finally show "elapsed_micros opts H = os_time n d H" by (simp only: elapsed_micros_def os_time_def N D)
qed

lemma unat_wait:
  assumes p: "tl_params cfg n d hr" and m: "0 < m" "m \<le> unat (tl_max_timeout cfg)"
  shows "unat (of_nat (hw_time n d (os_time n d H + m) - H) :: u32) = hw_time n d (os_time n d H + m) - H"
  using wait_bounds[OF p m, of H] os_period_le(2)[of cfg] by (intro unat_of_nat_lt) simp

lemma valid_waitD:
  "valid_wait opts cfg (ticks, l) \<Longrightarrow> 0 < unat ticks \<and> unat ticks \<le> unat (tl_max_timeout cfg) \<and>
   ticks \<le> tl_max_timeout cfg \<and> l \<le> unat (tl_headroom_ticks opts)"
  by (simp add: valid_wait_def unat_gt_0 word_le_nat_alt)

lemma run_tracks:
  assumes p: "tl_params cfg n d (unat (tl_headroom_ticks opts))"
  shows "\<lbrakk>tracks cfg n d h0 H s; \<forall>w \<in> set waits. valid_wait opts cfg w\<rbrakk> \<Longrightarrow>
    \<exists>H' s'. tickless_run cfg h0 waits H s = Some (H', s') \<and> tracks cfg n d h0 H' s'"
proof (induction waits arbitrary: H s)
  case Nil
  then show ?case by simp
next
  case (Cons w waits)
  obtain ticks l where w: "w = (ticks, l)" by (cases w)
  with Cons.prems(2) have v: "0 < unat ticks" "unat ticks \<le> unat (tl_max_timeout cfg)"
    "ticks \<le> tl_max_timeout cfg" "l \<le> unat (tl_headroom_ticks opts)" using valid_waitD[of opts cfg ticks l] by auto
  let ?E = "hw_time n d (os_time n d H + unat ticks)"
  from measure_ok[OF p Cons.prems(1) v(1,3)] obtain s' where
    m: "mark_reference_and_measure cfg s (hw_count cfg (h0 + H)) ticks =
      Some (s', \<lparr>end_hw_tick_count = hw_count cfg (h0 + ?E), meas_hw_ticks = of_nat (?E - H)\<rparr>)"
    and t: "\<And>H'. \<lbrakk>H \<le> H'; H' \<le> ?E + unat (tl_headroom_ticks opts)\<rbrakk> \<Longrightarrow>
       tracks cfg n d h0 H' s' \<and> os_time n d H' - os_time n d H < os_period cfg" by blast
  have "H < ?E" using wait_bounds(1)[OF p v(1,2)] .
  then have "tracks cfg n d h0 (H + (?E - H) + l) s'" using t[of "H + (?E - H) + l"] v(4) by simp
  from Cons.IH[OF this] Cons.prems(2) m unat_wait[OF p v(1,2), of H] show ?case
    by (simp add: w)
qed

text \<open>C35: A tickless driver keeps exact time, with either algorithm. After the start (from a reset at any
  hardware tick, or from tick zero) and any sequence of waits, each of at most the greatest timeout and
  ended by an interrupt that is late by at most the headroom, marking a reference point and measuring a
  further timeout neither panics nor drifts: the result is the least number of hardware ticks after which
  the timeout has passed, and until then and for the whole headroom after it the tick count read at any
  hardware tick is the exact time in microseconds, rounded down, modulo the period of the tick count,
  with less than a period elapsed since the reference point.\<close>
theorem tickless_time_exact:
  assumes "tickless_new opts = Some (Inr cfg)" and "tickless_start opts cfg h0 s0"
    and "\<forall>w \<in> set waits. valid_wait opts cfg w" and "valid_wait opts cfg (ticks, 0)"
  shows "\<exists>H s s' m. tickless_run cfg h0 waits 0 s0 = Some (H, s) \<and>
    mark_reference_and_measure cfg s (hw_count cfg (h0 + H)) ticks = Some (s', m) \<and>
    0 < meas_hw_ticks m \<and>
    (\<forall>h \<le> unat (meas_hw_ticks m) + unat (tl_headroom_ticks opts).
       tickless_tick_count cfg s' (hw_count cfg (h0 + (H + h))) = Some (os_count cfg (elapsed_micros opts (H + h))) \<and>
       elapsed_micros opts (H + h) - elapsed_micros opts H < os_period cfg \<and>
       (unat (meas_hw_ticks m) \<le> h \<longleftrightarrow> elapsed_micros opts H + unat ticks \<le> elapsed_micros opts (H + h)))"
proof -
  from tickless_new_params[OF assms(1)] obtain n d where rd: "reduced opts n d"
    and p: "tl_params cfg n d (unat (tl_headroom_ticks opts))"
    and rs: "resettable opts \<Longrightarrow> algorithm cfg = Stateful" by blast
  from p have nd: "0 < n" "0 < d" by (auto simp: tl_params_def)
  from tickless_new_nonzero[OF assms(1)] elapsed_os_time[OF rd nd(1)] have el: "elapsed_micros opts = os_time n d" by blast
  from run_tracks[OF p start_tracks[OF p rs assms(2)] assms(3)] obtain H s where
    run: "tickless_run cfg h0 waits 0 s0 = Some (H, s)" and tr: "tracks cfg n d h0 H s" by blast
  have v: "0 < unat ticks" "unat ticks \<le> unat (tl_max_timeout cfg)" "ticks \<le> tl_max_timeout cfg"
    using valid_waitD[OF assms(4)] by auto
  let ?E = "hw_time n d (os_time n d H + unat ticks)"
  from measure_ok[OF p tr v(1,3)] obtain s' where
    m: "mark_reference_and_measure cfg s (hw_count cfg (h0 + H)) ticks =
      Some (s', \<lparr>end_hw_tick_count = hw_count cfg (h0 + ?E), meas_hw_ticks = of_nat (?E - H)\<rparr>)"
    and t: "\<And>H'. \<lbrakk>H \<le> H'; H' \<le> ?E + unat (tl_headroom_ticks opts)\<rbrakk> \<Longrightarrow>
       tracks cfg n d h0 H' s' \<and> os_time n d H' - os_time n d H < os_period cfg" by blast
  note u = unat_wait[OF p v(1,2), of H]
  have gt: "H < ?E" using wait_bounds(1)[OF p v(1,2)] .
  have "tickless_tick_count cfg s' (hw_count cfg (h0 + (H + h))) = Some (os_count cfg (os_time n d (H + h))) \<and>
       os_time n d (H + h) - os_time n d H < os_period cfg \<and>
       (?E - H \<le> h \<longleftrightarrow> os_time n d H + unat ticks \<le> os_time n d (H + h))"
    if "h \<le> ?E - H + unat (tl_headroom_ticks opts)" for h
  proof -
    have "H + h \<le> ?E + unat (tl_headroom_ticks opts)" using that gt by linarith
    from t[OF _ this] have "tracks cfg n d h0 (H + h) s'" "os_time n d (H + h) - os_time n d H < os_period cfg" by auto
    moreover have "?E - H \<le> h \<longleftrightarrow> os_time n d H + unat ticks \<le> os_time n d (H + h)"
      using hw_time_le_iff[OF nd, of "os_time n d H + unat ticks" "H + h"] gt by auto
    ultimately show ?thesis using tracks_tick_count[OF p] by blast
  qed
  moreover have "(0 :: u32) < of_nat (?E - H)" using u gt by (simp add: word_less_nat_alt)
  ultimately show ?thesis using run m u unfolding el by auto
qed


text \<open>A 10 MHz timer, for which the stateless algorithm is chosen.\<close>

theorem tickless_time_exact_witness:
  "\<exists>opts cfg H s s' m. tickless_new opts = Some (Inr cfg) \<and>
     algorithm cfg = Stateless 4294967289 429496728 \<and>
     tickless_run cfg 0 [(5, 1), (1000, 0)] 0 (tickless_init cfg) = Some (H, s) \<and>
     mark_reference_and_measure cfg s (hw_count cfg (0 + H)) 7 = Some (s', m) \<and>
     tickless_tick_count cfg s' (hw_count cfg (0 + (H + 1))) = Some (os_count cfg (elapsed_micros opts (H + 1)))"
proof -
  let ?o = "\<lparr>tl_freq_num = 10000000, tl_freq_denom = 1, tl_headroom_ticks = 1,
    force_full_hw_period = False, resettable = False\<rparr>"
  let ?c = "\<lparr>hw_ticks_per_micro = 10, hw_subticks_per_micro = 0,
    algorithm = Stateless 4294967289 429496728, tl_division = 1, tl_max_timeout = 429496728\<rparr>"
  have "gcd128 10000000 1000000 = 1000000" by (simp add: gcd128.simps)
  then have g: "gcd 10000000 (1000000 :: nat) = 1000000" by (simp only: gcd128_gcd)
  have "spec_algorithm ?o 10 1 = (Stateless 4294967289 429496728, 429496728)"
    by (simp add: spec_algorithm_def stateless_applies_def Let_def)
  then have new: "tickless_new ?o = Some (Inr ?c)"
    by (simp add: tickless_new_eq tickless_spec_def g Let_def)
  have st: "tickless_start ?o ?c 0 (tickless_init ?c)" by (simp add: tickless_start_def)
  have v: "\<forall>w \<in> set [(5, 1), (1000, 0)]. valid_wait ?o ?c w" "valid_wait ?o ?c (7, 0)"
    by (simp_all add: valid_wait_def)
  from tickless_time_exact[OF new st v] obtain H s s' m where
    r: "tickless_run ?c 0 [(5, 1), (1000, 0)] 0 (tickless_init ?c) = Some (H, s)"
    "mark_reference_and_measure ?c s (hw_count ?c (0 + H)) 7 = Some (s', m)"
    and h: "\<forall>h \<le> unat (meas_hw_ticks m) + unat (tl_headroom_ticks ?o).
       tickless_tick_count ?c s' (hw_count ?c (0 + (H + h))) = Some (os_count ?c (elapsed_micros ?o (H + h)))"
    by blast
  have "tickless_tick_count ?c s' (hw_count ?c (0 + (H + 1))) = Some (os_count ?c (elapsed_micros ?o (H + 1)))"
    using h[rule_format, of 1] by (simp del: add_0)
  moreover have "algorithm ?c = Stateless 4294967289 429496728" by simp
  ultimately show ?thesis using new r by blast
qed

end
