(* ===== verification/Utils_Properties.thy ===== *)
theory Utils_Properties
  imports Ctz Ready_Queue Time_Types Slice_Sort
begin

text \<open>
  What the utilities of the kernel promise: the bit scan, the priority bit map, the task ready
  queue and the time types.
\<close>

text \<open>A Cortex-M0 has no instruction for the scan; the witnesses are about it.\<close>

definition cortex_m0 :: target where
  "cortex_m0 = \<lparr>target_arch = Arm, feat_b = False, feat_experimental_b = False, feat_v6t2 = False,
     feat_v5te = False, feat_thumb_mode = True, feat_m = False, feat_hwmult32 = False\<rparr>"

section \<open>Bit scan and priority bit map\<close>

text \<open>C33: On every target, for every bound \<open>BITS\<close> of the word, the chosen implementation of
  \<^verbatim>\<open>trailing_zeros\<close> (de Bruijn multiplication, look-up tables, linear or binary search) returns the
  number of trailing zeros and does not panic.\<close>

theorem trailing_zeros_correct:
  assumes "BITS \<le> 32" "unat x < 2 ^ BITS"
  shows "ctz t BITS x = Some (trailing_zeros x)"
  using assms by (rule ctz_correct)

theorem trailing_zeros_correct_witness:
  "ctz cortex_m0 8 104 = Some (trailing_zeros (104 :: usize_word))"
  by (rule trailing_zeros_correct) simp_all

text \<open>C32: For every length up to the maximum, a fixed-length priority bit map (one, two or three
  levels of words) behaves as a set of positions: \<^verbatim>\<open>set\<close> adds and \<^verbatim>\<open>clear\<close> removes exactly one
  position, \<^verbatim>\<open>get\<close> is the membership test, none of them panics for a position in range, and
  \<^verbatim>\<open>find_set\<close> returns the least position in the set, or \<^verbatim>\<open>None\<close> exactly if the set is empty.\<close>

theorem fixed_prio_bitmap_is_set:
  assumes "fpb_inv LEN b" "i < LEN"
  shows "bm_find_set (FixedPrioBitmap t LEN) b =
      Some (if fpb_bits b = {} then None else Some (Min (fpb_bits b))) \<and>
    (\<exists>s c. bm_set (FixedPrioBitmap t LEN) b i = Some s \<and> fpb_inv LEN s \<and>
      bm_clear (FixedPrioBitmap t LEN) b i = Some c \<and> fpb_inv LEN c \<and>
      (\<forall>j<LEN. bm_get (FixedPrioBitmap t LEN) s j = Some (j = i \<or> j \<in> fpb_bits b) \<and>
        bm_get (FixedPrioBitmap t LEN) c j = Some (j \<noteq> i \<and> j \<in> fpb_bits b)))"
proof -
  obtain s where s: "bm_set (FixedPrioBitmap t LEN) b i = Some s" "fpb_inv LEN s"
    "fpb_bits s = insert i (fpb_bits b)"
    using fpb.set_ok[OF assms] by blast
  obtain c where c: "bm_clear (FixedPrioBitmap t LEN) b i = Some c" "fpb_inv LEN c"
    "fpb_bits c = fpb_bits b - {i}"
    using fpb.clear_ok[OF assms] by blast
  show ?thesis
    using s c fpb.find_set_ok[OF assms(1)]
    by (intro conjI exI[of _ s] exI[of _ c]) (auto simp: fpb.get_ok)
qed

lemma fpb_40: "fpb_inv 40 (bm_init (FixedPrioBitmap t 40))" "fpb_bits (bm_init (FixedPrioBitmap t 40)) = {}"
  using fpb.init_ok[of 40 t]
  by (simp_all add: FIXED_PRIO_BITMAP_MAX_LEN_def WORD_LEN_def usize_bits_def)

theorem fixed_prio_bitmap_is_set_witness:
  "bm_find_set (FixedPrioBitmap cortex_m0 40) (bm_init (FixedPrioBitmap cortex_m0 40)) = Some None \<and>
   (\<exists>s. bm_set (FixedPrioBitmap cortex_m0 40) (bm_init (FixedPrioBitmap cortex_m0 40)) 39 = Some s \<and>
      fpb_inv 40 s \<and> bm_get (FixedPrioBitmap cortex_m0 40) s 39 = Some True \<and>
      bm_get (FixedPrioBitmap cortex_m0 40) s 38 = Some False)"
proof -
  let ?b = "bm_init (FixedPrioBitmap cortex_m0 40)"
  have "(39 :: nat) < 40" by simp
  from fixed_prio_bitmap_is_set[OF fpb_40(1)[where t = cortex_m0] this, of cortex_m0]
  obtain s where f: "bm_find_set (FixedPrioBitmap cortex_m0 40) ?b = Some (if fpb_bits ?b = {} then None else Some (Min (fpb_bits ?b)))"
    and s: "bm_set (FixedPrioBitmap cortex_m0 40) ?b 39 = Some s" "fpb_inv 40 s"
      "\<forall>j<40. bm_get (FixedPrioBitmap cortex_m0 40) s j = Some (j = 39 \<or> j \<in> fpb_bits ?b)"
    by blast
  have "bm_get (FixedPrioBitmap cortex_m0 40) s 39 = Some True" "bm_get (FixedPrioBitmap cortex_m0 40) s 38 = Some False"
    using s(3) by (simp_all add: fpb_40(2))
  with f s(1,2) show ?thesis by (auto simp: fpb_40(2))
qed

section \<open>The task ready queue\<close>

lemma levels_4: "4 \<le> FIXED_PRIO_BITMAP_MAX_LEN \<and> (4 :: nat) \<le> 4 \<and> 4 < usize_max - 1"
  by (simp add: FIXED_PRIO_BITMAP_MAX_LEN_def WORD_LEN_def usize_bits_def usize_max_def)

abbreviation queue_4 :: "fixed_prio_bitmap bitmap_queue" where
  "queue_4 \<equiv> bq_init (FixedPrioBitmap cortex_m0 4) 4"

lemma queue_4_ok: "kernel_bq_inv 4 queue_4" "bq_of queue_4 p = []"
  using bq.init_ok[OF levels_4] by auto

text \<open>C31: The ready queue implements what is documented at the \<^verbatim>\<open>Queue\<close> trait. \<^verbatim>\<open>pop_front_task\<close>
  inserts an imaginary task with the priority of the previous task in front of its equals, takes the
  first task, and decides \<^verbatim>\<open>Keep\<close> if that is the imaginary one; \<^verbatim>\<open>push_back_task\<close> inserts a task
  behind all tasks of the same or a higher priority.\<close>

theorem ready_queue_as_documented:
  assumes "LEN \<le> FIXED_PRIO_BITMAP_MAX_LEN \<and> LEN \<le> LEN \<and> LEN < usize_max - 1"
    and "kernel_bq_inv LEN q" "prev \<le> usize_max" "p < LEN" "\<forall>p'. task \<notin> set (bq_of q p')"
  shows "(\<exists>d q'. pop_front_task (FixedPrioBitmap t LEN) LEN q prev = Some (d, q') \<and>
      kernel_bq_inv LEN q' \<and>
      (d, sorted_view LEN (bq_of q')) = pop_front_spec (sorted_view LEN (bq_of q)) prev) \<and>
    (\<exists>q'. push_back_task (FixedPrioBitmap t LEN) q task p = Some q' \<and> kernel_bq_inv LEN q' \<and>
      sorted_view LEN (bq_of q') = insert_back p task (sorted_view LEN (bq_of q)))"
  using bq.pop_front_spec[OF assms(1-3)] bq.push_back_spec[OF assms(2,4,5)] by (rule conjI)

text \<open>A queue with one task, 5, at the priority 1.\<close>

lemma queue_5:
  obtains q where "push_back_task (FixedPrioBitmap cortex_m0 4) queue_4 5 1 = Some q" "kernel_bq_inv 4 q"
    "bq_of q = (\<lambda>p. if p = 1 then [5] else [])"
proof -
  have "\<exists>q. push_back_task (FixedPrioBitmap cortex_m0 4) queue_4 5 1 = Some q \<and> kernel_bq_inv 4 q \<and>
      bq_of q = (bq_of queue_4)(1 := bq_of queue_4 1 @ [5])"
    by (rule bq.push_back_ok[OF queue_4_ok(1)]) (simp_all add: queue_4_ok(2))
  then show thesis using that by (auto simp: queue_4_ok(2) fun_eq_iff)
qed

theorem ready_queue_as_documented_witness:
  "\<exists>q q1 q2. push_back_task (FixedPrioBitmap cortex_m0 4) queue_4 5 1 = Some q \<and>
     pop_front_task (FixedPrioBitmap cortex_m0 4) 4 q 2 = Some (SwitchTo (Some 5), q1) \<and> sorted_view 4 (bq_of q1) = [] \<and>
     push_back_task (FixedPrioBitmap cortex_m0 4) q 7 3 = Some q2 \<and> sorted_view 4 (bq_of q2) = [(1, 5), (3, 7)]"
proof -
  obtain q where q: "push_back_task (FixedPrioBitmap cortex_m0 4) queue_4 5 1 = Some q" "kernel_bq_inv 4 q"
    "bq_of q = (\<lambda>p. if p = 1 then [5] else [])"
    by (rule queue_5)
  have v: "sorted_view 4 (bq_of q) = [(1, 5)]" by (simp add: q(3) sorted_view_def upt_rec)
  have "pop_front_spec [(1, 5)] 2 = (SwitchTo (Some 5), [])" "insert_back 3 (7 :: nat) [(1, 5)] = [(1, 5), (3, 7)]"
    by (simp_all add: pop_front_spec_def insert_front_def insert_back_def usize_max_def usize_bits_def)
  moreover have "(\<exists>d q'. pop_front_task (FixedPrioBitmap cortex_m0 4) 4 q 2 = Some (d, q') \<and> kernel_bq_inv 4 q' \<and>
      (d, sorted_view 4 (bq_of q')) = pop_front_spec (sorted_view 4 (bq_of q)) 2) \<and>
    (\<exists>q'. push_back_task (FixedPrioBitmap cortex_m0 4) q 7 3 = Some q' \<and> kernel_bq_inv 4 q' \<and>
      sorted_view 4 (bq_of q') = insert_back 3 7 (sorted_view 4 (bq_of q)))"
    by (rule ready_queue_as_documented[OF levels_4 q(2)]) (simp_all add: usize_max_def usize_bits_def q(3))
  ultimately show ?thesis using q(1) unfolding v by auto
qed

section \<open>Sorting and searching at compile time\<close>

text \<open>
  C40: The heap sort of the configuration sorts: for every comparator that compares a key, the result
  is a permutation of the slice in ascending order. The binary search in the result returns the
  boundary between the elements that are less than the wanted key and the others.
\<close>

theorem sort_and_search_correct:
  fixes key :: "'a \<Rightarrow> 'k::linorder"
  shows "sorted (map key (slice_sort_unstable_by (\<lambda>x y. key x < key y) v)) \<and>
    mset (slice_sort_unstable_by (\<lambda>x y. key x < key y) v) = mset v \<and>
    (let w = slice_sort_unstable_by (\<lambda>x y. key x < key y) v;
         i = lower_bound (length w) (\<lambda>i. key (w ! i) < k)
     in i \<le> length w \<and> list_all (\<lambda>x. key x < k) (take i w) \<and> list_all (\<lambda>x. k \<le> key x) (drop i w))"
proof -
  let ?w = "slice_sort_unstable_by (\<lambda>x y. key x < key y) v"
  have s: "sorted (map key ?w)" "mset ?w = mset v" by (rule slice_sort_ok)+
  have "key (?w ! a) \<le> key (?w ! b)" if "a \<le> b" "b < length ?w" for a b
    using sorted_nth_mono[OF s(1) that(1)] that by simp
  then have "key (?w ! a) < k" if "a \<le> b" "b < length ?w" "key (?w ! b) < k" for a b
    using that by (meson le_less_trans)
  note lb = lower_bound_ok[of "length ?w" "\<lambda>i. key (?w ! i) < k", OF this]
  have "list_all (\<lambda>x. key x < k) (take (lower_bound (length ?w) (\<lambda>i. key (?w ! i) < k)) ?w)"
    using lb(2) by (auto simp: list_all_length)
  moreover have "list_all (\<lambda>x. k \<le> key x) (drop (lower_bound (length ?w) (\<lambda>i. key (?w ! i) < k)) ?w)"
    using lb(3) by (auto simp: list_all_length not_less)
  ultimately show ?thesis using s lb(1) by (simp add: Let_def)
qed

section \<open>Time\<close>

text \<open>C34: \<^verbatim>\<open>Time::duration_since\<close> is exact and inverts \<^verbatim>\<open>wrapping_add\<close>: it returns the duration
  between the two times if that is a \<^verbatim>\<open>Duration\<close>, which added to the reference gives the time back,
  and \<^verbatim>\<open>None\<close> exactly if the difference does not fit in 32 bits.\<close>

theorem duration_since_exact:
  "(case duration_since t r of
      None \<Rightarrow> \<not> (- (2 ^ 31) \<le> int (unat (time_micros t)) - int (unat (time_micros r)) \<and>
        int (unat (time_micros t)) - int (unat (time_micros r)) < 2 ^ 31)
    | Some d \<Rightarrow> sint (micros d) = int (unat (time_micros t)) - int (unat (time_micros r)) \<and>
        time_wrapping_add r d = t)"
proof (cases "duration_since t r")
  case None
  then have "checked_i32 (int (unat (time_micros t)) - int (unat (time_micros r))) = None"
    unfolding duration_since_def by (simp only: map_option_is_None)
  then show ?thesis unfolding None option.case by (fact iffD1[OF checked_i32_None])
next
  case (Some d)
  then have d: "sint (micros d) = int (unat (time_micros t)) - int (unat (time_micros r))"
    by (auto simp: duration_since_def checked_i32_Some from_micros_def)
  have "int (unat (time_micros (time_wrapping_add r d))) = int (unat (time_micros t)) mod 2 ^ 64"
    unfolding unat_time_wrapping_add d by (rule arg_cong[where f = "\<lambda>x. x mod 2 ^ 64"]) linarith
  also have "\<dots> = int (unat (time_micros t))"
    using unsigned_less[of "time_micros t", where ?'a = int] by simp
  finally have "unat (time_micros (time_wrapping_add r d)) = unat (time_micros t)" by (simp only: of_nat_eq_iff)
  then have "time_wrapping_add r d = t" by (simp only: word_unat_eq_iff[symmetric] time.expand)
  then show ?thesis using Some d by simp
qed

text \<open>\<^verbatim>\<open>core_duration_since\<close> does not subtract the reference.\<close>

lemma core_duration_since_ignores_reference:
  "core_duration_since (Time 5000000) (Time 3000000) = Some 5000000"
  by (simp add: core_duration_since_def)

end
