(* ===== verification/System_Properties.thy ===== *)
theory System_Properties
  imports Samples
begin

text \<open>
  What the kernel as a whole promises in every reachable state of every configured system.
\<close>

lemma ready_queue_mem:
  "ready_inv K k \<Longrightarrow> t \<in> set (bq_of (task_ready_queue k) p) \<longleftrightarrow> t < N_TASKS K \<and> st (tasks k t) = Ready \<and> eff k t = p"
  by (simp add: ready_inv_def)

lemma level_empty:
  "ready_inv K k \<Longrightarrow> bq_of (task_ready_queue k) p = [] \<longleftrightarrow> (\<forall>t<N_TASKS K. st (tasks k t) = Ready \<longrightarrow> eff k t \<noteq> p)"
  using ready_queue_mem[of K k _ p] by (metis all_not_in_conv set_empty)

text \<open>The running task, if there is one, has the highest priority of the tasks that can run.\<close>

definition highest_priority_runs :: "kcfg \<Rightarrow> kernel \<Rightarrow> bool" where
  "highest_priority_runs K k \<longleftrightarrow>
     (case running_task k of
        None \<Rightarrow> \<forall>u<N_TASKS K. st (tasks k u) \<noteq> Ready
      | Some r \<Rightarrow> st (tasks k r) = Running \<and> (\<forall>u<N_TASKS K. st (tasks k u) = Ready \<longrightarrow> eff k r \<le> eff k u))"

lemma scheduled_highest: "ready_inv K k \<Longrightarrow> scheduled k \<Longrightarrow> highest_priority_runs K k"
  by (auto simp: scheduled_def highest_priority_runs_def level_empty not_less[symmetric] split: option.splits)

section \<open>Starting and running\<close>

text \<open>C5: A configuration that the builder accepts, whose priorities exist and whose objects fit the
  timeout heap, boots without a panic on every port; afterwards the invariant of the system holds,
  and the first dispatch has chosen a task of the highest priority among the active ones.\<close>

theorem start_establishes_invariant:
  assumes "configure cs = Some c" "cfg_priorities_ok c" "cfg_fits c" "counter \<le> mc"
  shows "\<exists>k. start_system t mc mt counter c = Some k \<and> sys_inv (cfg_kcfg t mc mt c) k \<and>
    highest_priority_runs (cfg_kcfg t mc mt c) k"
proof -
  obtain k where k: "start_system t mc mt counter c = Some k" "sys_inv (cfg_kcfg t mc mt c) k" "scheduled k"
    using start_system_ok[OF configure_ok[OF assms(1)] assms(3,2,4)] by metis
  then have "ready_inv (cfg_kcfg t mc mt c) k" by (simp add: sys_inv_def kinvD)
  then show ?thesis using k scheduled_highest by blast
qed

theorem start_establishes_invariant_witness:
  "\<exists>k. start_system sample_target 0xffffffff 0x80000000 7 sample_cfg = Some k \<and>
    sys_inv (cfg_kcfg sample_target 0xffffffff 0x80000000 sample_cfg) k \<and>
    highest_priority_runs (cfg_kcfg sample_target 0xffffffff 0x80000000 sample_cfg) k"
  by (rule start_establishes_invariant[OF configure_sample sample_fits(2,1)]) simp

text \<open>C1: In every reachable state no event that can happen makes the kernel panic: every system
  call, from a task or from an interrupt handler, every return from a blocking call, exit, tick and
  dispatch yields a state again.  Only the tick handler may fail to come to an end.\<close>

theorem kernel_never_panics:
  assumes "runs K cb k" "enabled K e k"
  shows "\<exists>r. perform K cb e k = Some r \<and> (r = None \<longrightarrow> (\<exists>fuel. e = Tick fuel))"
  using perform_ok[OF runs_inv(1-3)[OF assms(1)] assms(2)] by blast

theorem kernel_never_panics_witness:
  "\<exists>r. perform sample_K no_callbacks (TaskCall (SemaphoreSignal 1 2)) (sample sample_blocked) = Some r \<and>
    (r = None \<longrightarrow> (\<exists>fuel. TaskCall (SemaphoreSignal 1 2) = Tick fuel))"
  by (rule kernel_never_panics[OF sample_blocked_runs]) (simp add: sample_blocked_facts)

text \<open>C2: The invariant of the system (of the scheduler, the wait queues, the semaphores, the event
  groups, the mutexes, the timers and the timekeeping) holds in every reachable state.\<close>

theorem reachable_states_invariant:
  assumes "runs K cb k"
  shows "sys_inv K k"
  by (rule runs_inv(3)[OF assms])

theorem reachable_states_invariant_witness: "sys_inv sample_K (sample sample_blocked)"
  by (rule reachable_states_invariant[OF sample_blocked_runs])


section \<open>Scheduling\<close>

text \<open>C4: Unless Priority Boost is active, the dispatcher of the port makes a task of the highest
  priority among those that can run the running task, leaves no dispatch pending, and changes nothing
  else about the tasks: a task can run afterwards if and only if it could before.\<close>

theorem dispatch_runs_highest_priority:
  assumes "runs K cb k" "\<not> cpu_lock k" "\<not> priority_boost k"
  shows "\<exists>k'. dispatch K k = Some k' \<and> highest_priority_runs K k' \<and> \<not> yield_pending k' \<and>
    (\<forall>u. st (tasks k' u) \<in> {Ready, Running} \<longleftrightarrow> st (tasks k u) \<in> {Ready, Running}) \<and>
    (\<forall>u. tasks k' u = (tasks k u)\<lparr>st := st (tasks k' u)\<rparr>)"
proof -
  have inv: "kinv K (k\<lparr>cpu_lock := True\<rparr>)" using runs_inv(4)[OF assms(1)] by simp
  obtain k' where k': "dispatch_locked K (k\<lparr>cpu_lock := True\<rparr>) = Some k'" "kinv K k'" "\<not> yield_pending k'"
    "scheduled k'" "sched_equiv (k\<lparr>cpu_lock := True\<rparr>) k'"
    using dispatch_locked_ok[OF runs_inv(1)[OF assms(1)] inv] assms(3) by simp metis
  have e: "\<exists>s. tasks k' u = (tasks k u)\<lparr>st := s\<rparr> \<and>
      (s = st (tasks k u) \<or> s \<in> {Ready, Running} \<and> st (tasks k u) \<in> {Ready, Running})" for u
    using k'(5) by (simp add: sched_equiv_def)
  have "st (tasks k' u) \<in> {Ready, Running} \<longleftrightarrow> st (tasks k u) \<in> {Ready, Running}"
    "tasks k' u = (tasks k u)\<lparr>st := st (tasks k' u)\<rparr>" for u
    using e[of u] by auto
  moreover have "dispatch K k = Some k'" using k'(1) assms(2) by (simp add: dispatch_def lock_cpu_def)
  ultimately show ?thesis using k' scheduled_highest[OF kinvD(5)[OF k'(2)]] by blast
qed

theorem dispatch_runs_highest_priority_witness:
  "\<exists>k'. dispatch sample_K (sample sample_blocked) = Some k' \<and> highest_priority_runs sample_K k' \<and> \<not> yield_pending k'"
  using dispatch_runs_highest_priority[OF sample_blocked_runs] sample_blocked_facts by blast

text \<open>C3: No preemption is missed: in every reachable state in which no dispatch is pending and
  Priority Boost is inactive, the running task is Running and no Ready task has a higher priority;
  if there is no running task, no task is Ready.\<close>

theorem no_missed_preemption:
  assumes "runs K cb k" "\<not> yield_pending k" "\<not> priority_boost k"
  shows "highest_priority_runs K k"
proof -
  note inv = runs_inv(3,4)[OF assms(1)]
  have r: "ready_inv K k" and pre: "\<forall>p<prev_task_priority k. bq_of (task_ready_queue k) p = []"
    and run: "running_task k \<noteq> None \<longrightarrow> running_task_is_running k"
    using inv assms(2,3) by (simp_all add: sys_inv_def preempt_inv_def kinvD)
  have p: "p < prev_task_priority k \<Longrightarrow> u < N_TASKS K \<Longrightarrow> st (tasks k u) = Ready \<Longrightarrow> eff k u \<noteq> p" for p u
    using pre level_empty[OF r] by blast
  show ?thesis
  proof (cases "running_task k")
    case None
    have "eff k u < usize_max" if "u < N_TASKS K" for u
      using kinvD(6)[OF inv(2)] kcfg_levels[OF runs_inv(1)[OF assms(1)]] that by (force simp: pri_inv_def)
    then show ?thesis using None p by (force simp: highest_priority_runs_def prev_task_priority_def)
  next
    case (Some t)
    then have "st (tasks k t) = Running" using run by (simp add: running_task_is_running_def)
    then show ?thesis using Some p by (force simp: highest_priority_runs_def prev_task_priority_def not_less[symmetric])
  qed
qed

theorem no_missed_preemption_witness: "highest_priority_runs sample_K (sample sample_blocked)"
  by (rule no_missed_preemption[OF sample_blocked_runs]) (simp_all add: sample_blocked_facts)

text \<open>C6: A task is in exactly one place: a Ready task is in the ready queue at its effective priority
  and in no other level; a Waiting task is in the one wait queue that its wait object names, if any;
  at most one task is Running; and no other task is in a queue.\<close>

theorem tasks_are_in_one_place:
  assumes "runs K cb k" "t < N_TASKS K"
  shows "(st (tasks k t) = Running \<longrightarrow> running_task k = Some t) \<and>
    (\<forall>p. t \<in> set (bq_of (task_ready_queue k) p) \<longleftrightarrow> st (tasks k t) = Ready \<and> p = eff k t) \<and>
    (\<forall>q. t \<in> set (waits_of k q) \<longleftrightarrow> st (tasks k t) = Waiting \<and> wait_in (wait_objs k t) = Some q)"
proof -
  note I = kinvD[OF runs_inv(4)[OF assms(1)]]
  show ?thesis using assms(2) ready_queue_mem[OF I(5)] run_invD[OF I(7)] queue_inv_mem[OF I(9)] by auto
qed

theorem tasks_are_in_one_place_witness:
  "0 \<in> set (waits_of (sample sample_blocked) (SemaphoreQ 0)) \<and>
    (\<nexists>p. 0 \<in> set (bq_of (task_ready_queue (sample sample_blocked)) p))"
  using tasks_are_in_one_place[OF sample_blocked_runs, of 0] sample_blocked_facts by simp

end
