(* ===== verification/Object_Properties.thy ===== *)
theory Object_Properties
  imports Samples
begin

unbundle bit_operations_syntax

text \<open>
  What the kernel objects promise: semaphores, event groups and mutexes, in every reachable state.
\<close>

section \<open>Wait queues\<close>

text \<open>C9: In every reachable state a wait queue ordered by priority is sorted by the effective
  priorities of its tasks, no task is in it twice, and \<^verbatim>\<open>first_waiting_task\<close>, the task that is
  woken up next, has the highest priority of all that wait in it.\<close>

theorem wait_queues_ordered:
  assumes "runs K cb k" "order (wait_queue_of k q) = TaskPriority"
  shows "sorted (map (eff k) (waits_of k q)) \<and> distinct (waits_of k q) \<and>
    (\<forall>t. first_waiting_task q k = Some t \<longrightarrow>
      (\<forall>u<N_TASKS K. st (tasks k u) = Waiting \<and> wait_in (wait_objs k u) = Some q \<longrightarrow> eff k t \<le> eff k u))"
proof -
  note I = kinvD(9)[OF runs_inv(4)[OF assms(1)]]
  have s: "sorted (map (eff k) (waits_of k q))" and d: "distinct (waits_of k q)"
    using I assms(2) by (simp_all add: queue_inv_def)
  moreover have "eff k t \<le> eff k u"
    if "first_waiting_task q k = Some t" "u < N_TASKS K" "st (tasks k u) = Waiting" "wait_in (wait_objs k u) = Some q" for t u
  proof -
    have u: "u \<in> set (waits_of k q)" using queue_inv_mem[OF I] that by simp
    then obtain a l where l: "waits_of k q = a # l" by (cases "waits_of k q") auto
    then have "a < N_TASKS K" "st (tasks k a) = Waiting" using queue_inv_mem[OF I, of a q] by simp_all
    then have "wait_task (wait_objs k a) = a"
      using kinvD(8)[OF runs_inv(4)[OF assms(1)]] by (simp add: wait_inv_def task_wait_ok_def)
    then show ?thesis using s that(1) u l by (auto simp: first_waiting_task_def)
  qed
  ultimately show ?thesis by blast
qed

theorem wait_queues_ordered_witness:
  "waits_of (sample sample_waiting) (SemaphoreQ 0) = [0, 1] \<and> sorted (map (eff (sample sample_waiting)) [0, 1]) \<and>
    eff (sample sample_waiting) 0 \<le> eff (sample sample_waiting) 1"
  using wait_queues_ordered[OF sample_waiting_runs, of "SemaphoreQ 0"] sample_waiting_facts by simp

section \<open>Semaphores\<close>

text \<open>C7: No permit is lost: in every reachable state the value of a semaphore does not exceed its
  maximum, and while a task waits for a permit there is none left.\<close>

theorem no_lost_permits:
  assumes "runs K cb k" "i < N_SEMAPHORES K"
  shows "sem_value (semaphores k i) \<le> max_value (semaphores k i) \<and>
    (\<forall>t<N_TASKS K. st (tasks k t) = Waiting \<and> wait_in (wait_objs k t) = Some (SemaphoreQ i) \<longrightarrow>
       sem_value (semaphores k i) = 0)"
proof -
  note I = kinvD[OF runs_inv(4)[OF assms(1)]]
  show ?thesis
    using I(10) assms(2) queue_inv_mem[OF I(9), of _ "SemaphoreQ i"] by (auto simp: sem_inv_def)
qed

theorem no_lost_permits_witness:
  "sem_value (semaphores (sample sample_waiting) 0) = 0 \<and> st (tasks (sample sample_waiting) 0) = Waiting"
  using no_lost_permits[OF sample_waiting_runs, of 0] sample_waiting_facts by simp

text \<open>C8: \<^verbatim>\<open>signal\<close> by \<open>n\<close> permits fails, without an effect, exactly if the maximum would be exceeded;
  otherwise it wakes up the first \<open>n\<close> waiting tasks of the queue, or all if there are fewer, adds
  the permits that are left to the value, and changes no other task.\<close>

theorem signal_exact:
  assumes "runs K cb k" "i < N_SEMAPHORES K" "\<not> cpu_lock k"
  shows "(max_value (semaphores k i) < sem_value (semaphores k i) + n \<longrightarrow>
      raw_semaphore_signal K (Suc i) n k = Some (Err QueueOverflow, k)) \<and>
    (sem_value (semaphores k i) + n \<le> max_value (semaphores k i) \<longrightarrow>
      (\<exists>k'. raw_semaphore_signal K (Suc i) n k = Some (Ok (), k') \<and>
        waits_of k' (SemaphoreQ i) = drop n (waits_of k (SemaphoreQ i)) \<and>
        sem_value (semaphores k' i) = sem_value (semaphores k i) + (n - length (waits_of k (SemaphoreQ i))) \<and>
        tasks k' = (\<lambda>t. if t \<in> set (take n (waits_of k (SemaphoreQ i)))
                        then (tasks k t)\<lparr>current_wait := None, wait_result := WaitOk, st := Ready\<rparr> else tasks k t)))"
proof (intro conjI impI)
  let ?k = "k\<lparr>cpu_lock := True\<rparr>"
  note I = runs_inv[OF assms(1)]
  have inv: "kinv K ?k" using I(4) by simp
  have v: "sem_value (semaphores k i) \<le> max_value (semaphores k i)"
    using kinvD(10)[OF I(4)] assms(2) by (simp add: sem_inv_def)
  {
    assume "max_value (semaphores k i) < sem_value (semaphores k i) + n"
    then show "raw_semaphore_signal K (Suc i) n k = Some (Err QueueOverflow, k)"
      unfolding raw_semaphore_signal_def
      by (intro with_cpu_lock_same[OF assms(3)])
        (use v in \<open>simp add: pool_index_Suc(2)[OF assms(2)] signal_def Let_def less_diff_conv2\<close>)
  next
    assume "sem_value (semaphores k i) + n \<le> max_value (semaphores k i)"
    then have n: "n \<le> max_value (semaphores ?k i) - sem_value (semaphores ?k i)" by simp
    obtain k' where k': "signal K i n ?k = Some (Ok (), k')"
      "waits_of k' (SemaphoreQ i) = drop n (waits_of ?k (SemaphoreQ i))"
      "sem_value (semaphores k' i) = sem_value (semaphores ?k i) + (n - length (waits_of ?k (SemaphoreQ i)))"
      "tasks k' = (\<lambda>t. if t \<in> set (take n (waits_of ?k (SemaphoreQ i))) then woken_task WaitOk (tasks ?k t) else tasks ?k t)"
      by (rule signal_ok[OF I(1) inv assms(2) n])
    have "raw_semaphore_signal K (Suc i) n k = Some (Ok (), leave_cpu_lock k')"
      unfolding raw_semaphore_signal_def
      by (rule with_cpu_lock_Some[OF assms(3)]) (simp add: pool_index_Suc(2)[OF assms(2)] k'(1))
    then show "\<exists>k'. raw_semaphore_signal K (Suc i) n k = Some (Ok (), k') \<and>
        waits_of k' (SemaphoreQ i) = drop n (waits_of k (SemaphoreQ i)) \<and>
        sem_value (semaphores k' i) = sem_value (semaphores k i) + (n - length (waits_of k (SemaphoreQ i))) \<and>
        tasks k' = (\<lambda>t. if t \<in> set (take n (waits_of k (SemaphoreQ i)))
                        then (tasks k t)\<lparr>current_wait := None, wait_result := WaitOk, st := Ready\<rparr> else tasks k t)"
      using k'(2-4) by (intro exI[of _ "leave_cpu_lock k'"]) (simp add: woken_task_def cong: if_cong)
  }
qed

theorem signal_exact_witness:
  "raw_semaphore_signal sample_K 1 5 (sample sample_waiting) = Some (Err QueueOverflow, sample sample_waiting) \<and>
    (\<exists>k'. raw_semaphore_signal sample_K 1 3 (sample sample_waiting) = Some (Ok (), k') \<and>
        waits_of k' (SemaphoreQ 0) = [] \<and> sem_value (semaphores k' 0) = 1 \<and> st (tasks k' 0) = Ready)"
  using signal_exact[OF sample_waiting_runs, of 0 5] signal_exact[OF sample_waiting_runs, of 0 3] sample_waiting_facts
  by auto

section \<open>Event groups\<close>

text \<open>C10: No event is lost: in every reachable state a task that waits for bits of an event group waits
  for a condition that the present bits do not satisfy.\<close>

theorem no_lost_events:
  assumes "runs K cb k" "i < N_EVENT_GROUPS K"
    and "t < N_TASKS K" "st (tasks k t) = Waiting" "wait_in (wait_objs k t) = Some (EventGroupQ i)"
  shows "\<exists>req flags orig. payload (wait_objs k t) = EventGroupBits req flags orig \<and>
    \<not> event_condition (group_bits (event_groups k i)) req flags"
proof -
  note I = kinvD[OF runs_inv(4)[OF assms(1)]]
  have "t \<in> set (waits_of k (EventGroupQ i))" using queue_inv_mem[OF I(9)] assms(3-) by simp
  then have "event_waiter_ok (group_bits (event_groups k i)) (payload (wait_objs k t))"
    using I(11) assms(2) by (simp add: event_inv_def)
  then show ?thesis by (auto simp: event_waiter_ok_def split: wait_payload.splits)
qed

theorem no_lost_events_witness:
  "\<exists>req flags orig. payload (wait_objs (sample sample_events) 0) = EventGroupBits req flags orig \<and>
    \<not> event_condition (group_bits (event_groups (sample sample_events) 0)) req flags"
  by (rule no_lost_events[OF sample_events_runs]) (simp_all add: sample_events_facts)

lemma serve_none:
  "\<forall>(t, p)\<in>set ws. event_waiter_ok v p \<Longrightarrow> serve v ws = ([], v)"
  by (induction v ws rule: serve.induct) (auto simp: event_waiter_ok_def)

text \<open>C12: Setting bits of an event group serves the waiting tasks in the order of the queue: each whose
  condition holds for the bits at that moment is woken up with these bits as its result, which are
  cleared if it asked for that before the next task is looked at; the others go on waiting, and the
  bits that are left become the bits of the group.\<close>

theorem event_group_set_exact:
  assumes "runs K cb k" "i < N_EVENT_GROUPS K" "\<not> cpu_lock k"
    and s: "serve (group_bits (event_groups k i) OR added) (waiters k i) = (served, rest)"
  shows "\<exists>k'. raw_event_group_set K (Suc i) added k = Some (Ok (), k') \<and>
    group_bits (event_groups k' i) = rest \<and>
    waits_of k' (EventGroupQ i) = filter (\<lambda>t. t \<notin> fst ` set served) (waits_of k (EventGroupQ i)) \<and>
    (\<forall>(t, b)\<in>set served. orig_bits (payload (wait_objs k' t)) = b) \<and>
    tasks k' = (\<lambda>t. if t \<in> fst ` set served
                    then (tasks k t)\<lparr>current_wait := None, wait_result := WaitOk, st := Ready\<rparr> else tasks k t)"
proof -
  let ?k = "k\<lparr>cpu_lock := True\<rparr>"
  note I = runs_inv[OF assms(1)]
  have inv: "kinv K ?k" using I(4) by simp
  have w: "waiters ?k i = waiters k i" by (simp add: waiters_def)
  obtain k' where k': "event_set K i added ?k = Some k'" "group_bits (event_groups k' i) = rest"
    "waits_of k' (EventGroupQ i) = filter (\<lambda>t. t \<notin> fst ` set served) (waits_of ?k (EventGroupQ i))"
    "\<forall>(t, b)\<in>set served. orig_bits (payload (wait_objs k' t)) = b"
    "tasks k' = (\<lambda>t. if t \<in> fst ` set served
                    then (tasks k t)\<lparr>current_wait := None, wait_result := WaitOk, st := Ready\<rparr> else tasks k t)"
  proof (cases "group_bits (event_groups k i) OR added = group_bits (event_groups k i)")
    case True
    have "\<forall>(t, p)\<in>set (waiters k i). event_waiter_ok (group_bits (event_groups k i)) p"
      using kinvD(11)[OF I(4)] assms(2) by (auto simp: waiters_def event_inv_def)
    then have "served = [] \<and> rest = group_bits (event_groups k i)" using serve_none s True by auto
    then show thesis using True by (intro that[of ?k]) (simp_all add: event_set_def)
  next
    case False
    then have new: "group_bits (event_groups ?k i) OR added \<noteq> group_bits (event_groups ?k i)" by simp
    have s': "(served, rest) = serve (group_bits (event_groups ?k i) OR added) (waiters ?k i)" using s w by simp
    obtain k' where k': "event_set K i added ?k = Some k'" "group_bits (event_groups k' i) = rest"
      "waits_of k' (EventGroupQ i) = filter (\<lambda>t. t \<notin> fst ` set served) (waits_of ?k (EventGroupQ i))"
      "\<forall>(t, b)\<in>set served. orig_bits (payload (wait_objs k' t)) = b"
      "tasks k' = (\<lambda>t. if t \<in> fst ` set served
                      then (tasks ?k t)\<lparr>current_wait := None, wait_result := WaitOk, st := Ready\<rparr> else tasks ?k t)"
      by (rule event_set_ok[OF I(1) inv assms(2) s' new])
    have same: "tasks ?k = tasks k" by simp
    show thesis by (rule that[OF k'(1-4)]) (simp only: k'(5) same)
  qed
  have "raw_event_group_set K (Suc i) added k = Some (Ok (), leave_cpu_lock k')"
    unfolding raw_event_group_set_def
    by (rule with_cpu_lock_Some[OF assms(3)]) (simp add: pool_index_Suc(3)[OF assms(2)] k'(1))
  then show ?thesis using k'(2-) by (intro exI[of _ "leave_cpu_lock k'"]) simp
qed

theorem event_group_set_exact_witness:
  "\<exists>k'. raw_event_group_set sample_K 1 7 (sample sample_events) = Some (Ok (), k') \<and>
    group_bits (event_groups k' 0) = 4 \<and> waits_of k' (EventGroupQ 0) = [] \<and>
    orig_bits (payload (wait_objs k' 0)) = 7 \<and> st (tasks k' 0) = Ready"
proof -
  have "serve (group_bits (event_groups (sample sample_events) 0) OR 7) (waiters (sample sample_events) 0) = ([(0, 7)], 4)"
    by (simp add: waiters_def sample_events_facts event_condition_def)
  from event_group_set_exact[OF sample_events_runs _ _ this] show ?thesis
    using sample_events_facts by auto
qed

end
