(* ===== verification/Mutex_Properties.thy ===== *)
theory Mutex_Properties
  imports Samples
begin

text \<open>
  What mutexes promise: the effective priorities of the immediate ceiling protocol, who gets a mutex,
  and what becomes of the mutexes of a task that exits.
\<close>

lemma effective_priority_held:
  assumes inv: "kinv K k" and t: "t < N_TASKS K" "live (st (tasks k t))"
  shows "eff k t = Min (insert (base_priority (tasks k t))
      {c. \<exists>m<N_MUTEXES K. owning_task (mutexes k m) = Some t \<and> ceiling (mutexes k m) = Some c})"
  using mutex_invD(3)[OF kinvD(2)[OF inv]] t
  by (simp add: priorities_ok_def documented_priority_def ceilings_held_def)

section \<open>Priorities\<close>

text \<open>C16: The effective priority of a task that is not Dormant is what its documentation says: the highest
  of its base priority and the ceilings of the mutexes it owns; and no task owns a mutex whose
  ceiling is below its base priority.\<close>

theorem effective_priority_as_documented:
  assumes "runs K cb k" "t < N_TASKS K" "st (tasks k t) \<noteq> Dormant"
  shows "eff k t = Min (insert (base_priority (tasks k t))
      {c. \<exists>m<N_MUTEXES K. owning_task (mutexes k m) = Some t \<and> ceiling (mutexes k m) = Some c}) \<and>
    (\<forall>m<N_MUTEXES K. \<forall>c. owning_task (mutexes k m) = Some t \<and> ceiling (mutexes k m) = Some c \<longrightarrow>
       c \<le> base_priority (tasks k t))"
proof -
  note inv = runs_inv(4)[OF assms(1)]
  have "live (st (tasks k t))" using kinvD(4)[OF inv] assms(2,3) by (simp add: live_def activated_def)
  then show ?thesis
    using effective_priority_held[OF inv assms(2)] mutex_invD(2)[OF kinvD(2)[OF inv]] by (simp add: owners_ok_def)
qed

theorem effective_priority_as_documented_witness:
  "eff (sample sample_ceiling) 1 = Min (insert 2
      {c. \<exists>m<2. owning_task (mutexes (sample sample_ceiling) m) = Some 1 \<and> ceiling (mutexes (sample sample_ceiling) m) = Some c}) \<and>
    eff (sample sample_ceiling) 1 = 1"
  using effective_priority_as_documented[OF sample_ceiling_runs, of 1, THEN conjunct1] sample_ceiling_facts by simp

section \<open>Locking\<close>

text \<open>C17: \<^verbatim>\<open>lock\<close> fails with \<^verbatim>\<open>WouldDeadlock\<close> if the caller owns the mutex and with \<^verbatim>\<open>BadParam\<close> if its
  base priority is higher than the ceiling; it takes a free mutex, raising the effective priority of
  the caller to the ceiling and reporting an abandoned one; and it suspends the caller in the queue
  of a mutex that another task owns, whose owner stays the same.\<close>

theorem lock_exact:
  assumes e: "executing K cb k t" and m: "m < N_MUTEXES K" and b: "\<not> priority_boost k"
  defines "M \<equiv> mutexes k m"
  defines "too_high \<equiv> \<exists>c. ceiling M = Some c \<and> base_priority (tasks k t) < c"
  shows "(owning_task M = Some t \<longrightarrow> raw_mutex_lock K (Suc m) k = Some (Err WouldDeadlock, k)) \<and>
    (owning_task M \<noteq> Some t \<and> too_high \<longrightarrow> raw_mutex_lock K (Suc m) k = Some (Err BadParam, k)) \<and>
    (owning_task M = None \<and> \<not> too_high \<longrightarrow>
      (\<exists>k'. raw_mutex_lock K (Suc m) k = Some (if inconsistent M then Err Abandoned else Ok (), k') \<and>
        owning_task (mutexes k' m) = Some t \<and> last_mutex_held (tasks k' t) = Some m \<and>
        eff k' t = (case ceiling M of None \<Rightarrow> eff k t | Some c \<Rightarrow> min (eff k t) c))) \<and>
    (\<forall>u. owning_task M = Some u \<and> u \<noteq> t \<and> \<not> too_high \<longrightarrow>
      (\<exists>k'. raw_mutex_lock K (Suc m) k = Some (Blocked, k') \<and> yield_pending k' \<and>
        st (tasks k' t) = Waiting \<and> owning_task (mutexes k' m) = Some u \<and>
        waits_of k' (MutexQ m) = enqueue (eff k) TaskPriority t (waits_of k (MutexQ m))))"
proof -
  let ?k = "k\<lparr>cpu_lock := True\<rparr>"
  note E = executingD[OF e]
  have pre: "precheck_and_get_running_task m ?k =
      Some (if owning_task M = Some t then Inl WouldDeadlock else if too_high then Inl BadParam else Inr t)"
    using E(7) by (auto simp: precheck_and_get_running_task_def M_def too_high_def split: option.split)
  have w: "expect_waitable_context ?k" using E(9) b by (simp add: expect_waitable_context_def)
  have call: "raw_mutex_lock K (Suc m) k = Some (x, leave_cpu_lock k')" if "lock_mutex K m ?k = Some (x, k')" for x k'
    unfolding raw_mutex_lock_def
    by (rule with_cpu_lock_Some[OF E(10)]) (simp add: w pool_index_Suc(4)[OF m] that)
  have fail: "raw_mutex_lock K (Suc m) k = Some (x, k)" if "lock_mutex K m ?k = Some (x, ?k)" for x
    unfolding raw_mutex_lock_def
    by (rule with_cpu_lock_same[OF E(10)]) (simp add: w pool_index_Suc(4)[OF m] that)
  have "\<exists>k'. raw_mutex_lock K (Suc m) k = Some (if inconsistent M then Err Abandoned else Ok (), k') \<and>
        owning_task (mutexes k' m) = Some t \<and> last_mutex_held (tasks k' t) = Some m \<and>
        eff k' t = (case ceiling M of None \<Rightarrow> eff k t | Some c \<Rightarrow> min (eff k t) c)"
    if "owning_task M = None" "\<not> too_high"
  proof -
    have "mutex_poll_core m t ?k = Some (True, locked m t ?k)"
      using that(1) E(5) by (simp add: mutex_poll_core_def lock_core_eq M_def)
    then have "lock_mutex K m ?k = Some (lock_result m (locked m t ?k), locked m t ?k)"
      using pre that by (simp add: lock_mutex_def)
    from call[OF this] show ?thesis
      by (intro exI[of _ "leave_cpu_lock (locked m t ?k)"]) (simp add: lock_result_def M_def cong: option.case_cong)
  qed
  moreover have "\<exists>k'. raw_mutex_lock K (Suc m) k = Some (Blocked, k') \<and> yield_pending k' \<and>
        st (tasks k' t) = Waiting \<and> owning_task (mutexes k' m) = Some u \<and>
        waits_of k' (MutexQ m) = enqueue (eff k) TaskPriority t (waits_of k (MutexQ m))"
    if u: "owning_task M = Some u" "u \<noteq> t" "\<not> too_high" for u
  proof -
    have poll: "mutex_poll_core m t ?k = Some (False, ?k)" using u by (simp add: mutex_poll_core_def M_def)
    have "may_wait K ?k t (Some (MutexQ m)) (MutexWait m)"
      using w u m E(5,7,8)
      by (auto simp: may_wait_def wait_in_ok_def resource_unavailable_def M_def too_high_def not_less)
    from wait_on_ok[OF E(3) this] obtain g where
      "wait_on K (MutexQ m) (MutexWait m) ?k = Some (suspended t (Some (MutexQ m)) (MutexWait m) False g ?k)"
      by (auto simp: blocks_def)
    then have "lock_mutex K m ?k = Some (Blocked, suspended t (Some (MutexQ m)) (MutexWait m) False g ?k)"
      using pre poll u by (simp add: lock_mutex_def)
    moreover have "order (wait_queue_of k (MutexQ m)) = TaskPriority"
      using mutex_invD(2)[OF kinvD(2)[OF E(2)]] m by (simp add: owners_ok_def)
    moreover have "eff ?k = eff k" by simp
    ultimately show ?thesis using call u(1) by (fastforce simp: M_def)
  qed
  moreover have "owning_task M = Some t \<Longrightarrow> raw_mutex_lock K (Suc m) k = Some (Err WouldDeadlock, k)"
    "owning_task M \<noteq> Some t \<Longrightarrow> too_high \<Longrightarrow> raw_mutex_lock K (Suc m) k = Some (Err BadParam, k)"
    using pre by (auto intro!: fail simp: lock_mutex_def)
  ultimately show ?thesis by blast
qed

theorem lock_exact_witness:
  "raw_mutex_lock sample_K 1 (sample sample_locked) = Some (Err WouldDeadlock, sample sample_locked) \<and>
    (\<exists>k'. raw_mutex_lock sample_K 2 (sample sample_locked) = Some (Ok (), k') \<and>
      owning_task (mutexes k' 1) = Some 1 \<and> eff k' 1 = 1)"
  using lock_exact[OF sample_locked_executing, of 0] lock_exact[OF sample_locked_executing, of 1] sample_locked_facts
  by (simp add: numeral_2_eq_2) blast


text \<open>C18: When a task returns from a suspended \<^verbatim>\<open>lock\<close> or \<^verbatim>\<open>lock_timeout\<close> with success, or is told that
  the mutex was abandoned, it owns the mutex; otherwise it was interrupted or timed out.\<close>

theorem lock_returns_to_the_owner:
  assumes r: "runs K cb k" and t: "running_task k = Some t" "\<not> yield_pending k" "\<not> cpu_lock k"
    and b: "blocked_in (tasks k t) = Some (MutexCall m, timed)"
  shows "\<exists>res k'. resume K k = Some (res, k') \<and> blocked_in (tasks k' t) = None \<and>
    (res = (if wait_result (tasks k t) = WaitOk
            then if inconsistent (mutexes k m) then Err Abandoned else Ok UnitVal
            else if wait_result (tasks k t) = WaitTimeout then Err Timeout else Err Interrupted)) \<and>
    (res \<in> {Ok UnitVal, Err Abandoned} \<longrightarrow> owning_task (mutexes k' m) = Some t)"
proof -
  let ?k = "k\<lparr>cpu_lock := True\<rparr>"
  note inv = runs_inv(3,4)[OF r]
  have s: "st (tasks k t) = Running" using inv(1) t by (simp add: sys_inv_def running_task_is_running_def)
  have tN: "t < N_TASKS K" using run_inv_state[OF kinvD(7)[OF inv(2)] t(1)] by blast
  have inv': "kinv K ?k" and t': "running_task ?k = Some t" "st (tasks ?k t) = Running"
    "blocked_in (tasks ?k t) = Some (MutexCall m, timed)" using inv(2) t s b by simp_all
  obtain k' where k': "wait_finish K t ?k = Some (wait_result (tasks ?k t), k')"
    "tasks k' = (tasks ?k)(t := (tasks ?k t)\<lparr>blocked_in := None\<rparr>)" "mutexes k' = mutexes ?k"
    using wait_finish_ok[OF inv' t'] by metis
  have own: "owning_task (mutexes k m) = Some t" if "wait_result (tasks k t) = WaitOk"
    using mutex_invD(4)[OF kinvD(2)[OF inv(2)]] tN b s that by (auto simp: mutex_waits_ok_def)
  let ?r = "if wait_result (tasks k t) = WaitOk then lock_result m k' else wait_ret (wait_result (tasks k t)) ()"
  have "lock_mutex_resume K m t ?k = Some (?r, k')" using k'(1) by (simp add: lock_mutex_resume_def)
  then have "resume K k = Some (map_ret (\<lambda>_. UnitVal) ?r, leave_cpu_lock k')"
    using t b by (simp add: resume_def lock_cpu_def ret_as_def)
  then show ?thesis using k'(2,3) own
    by (cases "wait_result (tasks k t)") (auto simp: lock_result_def wait_ret_def)
qed

theorem lock_returns_to_the_owner_witness:
  "\<exists>res k'. resume sample_K (sample sample_handed) = Some (res, k') \<and> res = Ok UnitVal \<and>
    owning_task (mutexes k' 0) = Some 0"
  using lock_returns_to_the_owner[OF sample_handed_runs, of 0] sample_handed_facts by fastforce

text \<open>C19: \<^verbatim>\<open>unlock\<close> fails with \<^verbatim>\<open>NotOwner\<close> if the caller does not own the mutex and with \<^verbatim>\<open>BadObjectState\<close>
  if it has locked another one since; otherwise the mutex passes to the first task in its queue,
  which is Ready with a successful result, or becomes free, and the effective priority of every task
  is again the documented one.\<close>

theorem unlock_exact:
  assumes e: "executing K cb k t" and m: "m < N_MUTEXES K" and b: "\<not> priority_boost k"
  shows "(owning_task (mutexes k m) \<noteq> Some t \<longrightarrow> raw_mutex_unlock K (Suc m) k = Some (Err NotOwner, k)) \<and>
    (owning_task (mutexes k m) = Some t \<and> last_mutex_held (tasks k t) \<noteq> Some m \<longrightarrow>
      raw_mutex_unlock K (Suc m) k = Some (Err BadObjectState, k)) \<and>
    (owning_task (mutexes k m) = Some t \<and> last_mutex_held (tasks k t) = Some m \<longrightarrow>
      (\<exists>k'. raw_mutex_unlock K (Suc m) k = Some (Ok (), k') \<and>
        owning_task (mutexes k' m) = (case waits_of k (MutexQ m) of [] \<Rightarrow> None | n # _ \<Rightarrow> Some n) \<and>
        waits_of k' (MutexQ m) = tl (waits_of k (MutexQ m)) \<and>
        last_mutex_held (tasks k' t) = prev_mutex_held (mutexes k m) \<and>
        (\<forall>n ws. waits_of k (MutexQ m) = n # ws \<longrightarrow> st (tasks k' n) = Ready \<and> wait_result (tasks k' n) = WaitOk) \<and>
        (\<forall>u<N_TASKS K. st (tasks k' u) \<noteq> Dormant \<longrightarrow>
           eff k' u = Min (insert (base_priority (tasks k' u))
             {c. \<exists>m<N_MUTEXES K. owning_task (mutexes k' m) = Some u \<and> ceiling (mutexes k' m) = Some c}))))"
proof -
  let ?k = "k\<lparr>cpu_lock := True\<rparr>"
  note E = executingD[OF e]
  have w: "expect_waitable_context ?k" using E(9) b by (simp add: expect_waitable_context_def)
  have fail: "raw_mutex_unlock K (Suc m) k = Some (x, k)" if "unlock_mutex K m ?k = Some (x, ?k)" for x
    unfolding raw_mutex_unlock_def
    by (rule with_cpu_lock_same[OF E(10)]) (simp add: w pool_index_Suc(4)[OF m] that)
  have "\<exists>k'. raw_mutex_unlock K (Suc m) k = Some (Ok (), k') \<and>
        owning_task (mutexes k' m) = (case waits_of k (MutexQ m) of [] \<Rightarrow> None | n # _ \<Rightarrow> Some n) \<and>
        waits_of k' (MutexQ m) = tl (waits_of k (MutexQ m)) \<and>
        last_mutex_held (tasks k' t) = prev_mutex_held (mutexes k m) \<and>
        (\<forall>n ws. waits_of k (MutexQ m) = n # ws \<longrightarrow> st (tasks k' n) = Ready \<and> wait_result (tasks k' n) = WaitOk) \<and>
        (\<forall>u<N_TASKS K. st (tasks k' u) \<noteq> Dormant \<longrightarrow>
           eff k' u = Min (insert (base_priority (tasks k' u))
             {c. \<exists>m<N_MUTEXES K. owning_task (mutexes k' m) = Some u \<and> ceiling (mutexes k' m) = Some c}))"
    if own: "owning_task (mutexes k m) = Some t" "last_mutex_held (tasks k t) = Some m"
  proof -
    have t: "running_task ?k = Some t" "st (tasks ?k t) = Running" "blocked_in (tasks ?k t) = None"
      "owning_task (mutexes ?k m) = Some t" "last_mutex_held (tasks ?k t) = Some m" using E(5,7,8) own by simp_all
    obtain k' where k': "unlock_mutex K m ?k = Some (Ok (), k')" "kinv K k'"
      "owning_task (mutexes k' m) = (case waits_of ?k (MutexQ m) of [] \<Rightarrow> None | n # _ \<Rightarrow> Some n)"
      "last_mutex_held (tasks k' t) = prev_mutex_held (mutexes ?k m)"
      "waits_of k' (MutexQ m) = tl (waits_of ?k (MutexQ m))"
      "\<forall>n ws. waits_of ?k (MutexQ m) = n # ws \<longrightarrow> st (tasks k' n) = Ready \<and> wait_result (tasks k' n) = WaitOk"
      by (rule unlock_mutex_ok[OF E(1,3) m t])
    have call: "raw_mutex_unlock K (Suc m) k = Some (Ok (), leave_cpu_lock k')"
      unfolding raw_mutex_unlock_def
      by (rule with_cpu_lock_Some[OF E(10)]) (simp add: w pool_index_Suc(4)[OF m] k'(1))
    have "eff k' u = Min (insert (base_priority (tasks k' u))
             {c. \<exists>m<N_MUTEXES K. owning_task (mutexes k' m) = Some u \<and> ceiling (mutexes k' m) = Some c})"
      if "u < N_TASKS K" "st (tasks k' u) \<noteq> Dormant" for u
      using effective_priority_held[OF k'(2)] kinvD(4)[OF k'(2)] that by (simp add: live_def activated_def)
    then show ?thesis using call k'(3-) by (intro exI[of _ "leave_cpu_lock k'"]) simp
  qed
  moreover have "owning_task (mutexes k m) \<noteq> Some t \<Longrightarrow> raw_mutex_unlock K (Suc m) k = Some (Err NotOwner, k)"
    "owning_task (mutexes k m) = Some t \<Longrightarrow> last_mutex_held (tasks k t) \<noteq> Some m \<Longrightarrow>
      raw_mutex_unlock K (Suc m) k = Some (Err BadObjectState, k)"
    using E(7) by (auto intro!: fail simp: unlock_mutex_def)
  ultimately show ?thesis by blast
qed

theorem unlock_exact_witness:
  "raw_mutex_unlock sample_K 2 (sample sample_locked) = Some (Err NotOwner, sample sample_locked) \<and>
    (\<exists>k'. raw_mutex_unlock sample_K 1 (sample sample_locked) = Some (Ok (), k') \<and>
      owning_task (mutexes k' 0) = Some 0 \<and> waits_of k' (MutexQ 0) = [] \<and> st (tasks k' 0) = Ready)"
proof -
  have "raw_mutex_unlock sample_K 2 (sample sample_locked) = Some (Err NotOwner, sample sample_locked)"
    using unlock_exact[OF sample_locked_executing, of 1, THEN conjunct1] sample_locked_facts by (simp add: numeral_2_eq_2)
  moreover have "\<exists>k'. raw_mutex_unlock sample_K 1 (sample sample_locked) = Some (Ok (), k') \<and>
      owning_task (mutexes k' 0) = Some 0 \<and> waits_of k' (MutexQ 0) = [] \<and> st (tasks k' 0) = Ready"
    using unlock_exact[OF sample_locked_executing, of 0, THEN conjunct2, THEN conjunct2] sample_locked_facts
    by simp blast
  ultimately show ?thesis by blast
qed

section \<open>Exiting\<close>

text \<open>C20: A task that exits with CPU Lock inactive becomes Dormant and leaves no mutex locked: each that it owned is marked
  inconsistent and passes to the first task in its queue, or becomes free, and no other mutex
  changes; then a task of the highest priority runs.\<close>

theorem exit_abandons_mutexes:
  assumes e: "executing K cb k t"
  shows "\<exists>k1 k'. exit_current_task K k = Some (Ok (), k1) \<and> exit_task K k = Some (Ok (), k') \<and>
    st (tasks k1 t) = Dormant \<and> running_task k1 = None \<and> \<not> priority_boost k1 \<and> scheduled k' \<and>
    (\<forall>m<N_MUTEXES K. if owning_task (mutexes k m) = Some t
       then inconsistent (mutexes k1 m) \<and>
         owning_task (mutexes k1 m) = (case waits_of k (MutexQ m) of [] \<Rightarrow> None | n # _ \<Rightarrow> Some n)
       else inconsistent (mutexes k1 m) = inconsistent (mutexes k m) \<and>
         owning_task (mutexes k1 m) = owning_task (mutexes k m))"
proof -
  note E = executingD[OF e]
  obtain t' k1 where k1: "running_task k = Some t'" "exit_current_task K k = Some (Ok (), k1)"
    "running_task k1 = None" "st (tasks k1 t') = Dormant" "\<not> priority_boost k1"
    "\<forall>m<N_MUTEXES K. if owning_task (mutexes k m) = Some t'
       then inconsistent (mutexes k1 m) \<and>
         owning_task (mutexes k1 m) = (case waits_of k (MutexQ m) of [] \<Rightarrow> None | n # _ \<Rightarrow> Some n)
       else inconsistent (mutexes k1 m) = inconsistent (mutexes k m) \<and>
         owning_task (mutexes k1 m) = owning_task (mutexes k m)"
    by (rule exit_current_task_ok[OF E(1,2,6,9)])
  have "sys_inv K k" "\<not> yield_pending k" using runs_inv(3) e by (auto simp: executing_def)
  then obtain k' where "exit_task K k = Some (Ok (), k')" "scheduled k'"
    using exit_task_ok[OF E(1) _ E(9)] E(7,8) by (auto simp: running_unblocked_def)
  moreover have "t' = t" using k1(1) E(7) by simp
  ultimately show ?thesis using k1 by blast
qed

theorem exit_abandons_mutexes_witness:
  "\<exists>k1. exit_current_task sample_K (sample sample_locked) = Some (Ok (), k1) \<and> st (tasks k1 1) = Dormant \<and>
    inconsistent (mutexes k1 0) \<and> owning_task (mutexes k1 0) = Some 0 \<and> \<not> inconsistent (mutexes k1 1)"
  using exit_abandons_mutexes[OF sample_locked_executing] sample_locked_facts
  by (auto simp: less_Suc_eq numeral_2_eq_2)

end
