(* ===== verification/Task_Properties.thy ===== *)
theory Task_Properties
  imports Samples
begin

text \<open>What the operations on tasks promise: activation, parking and priorities.\<close>

section \<open>Activation\<close>

text \<open>C22: Activating a Dormant task makes it Ready at its initial priority, without a park token, and
  changes no other task; activating any other task fails with
  \<^verbatim>\<open>QueueOverflow\<close> and has no effect.\<close>

theorem activate_exact:
  assumes r: "runs K cb k" and t: "t < N_TASKS K" and c: "\<not> cpu_lock k"
  shows "(st (tasks k t) \<noteq> Dormant \<longrightarrow> task_activate K (Suc t) k = Some (Err QueueOverflow, k)) \<and>
    (st (tasks k t) = Dormant \<longrightarrow>
      (\<exists>k'. task_activate K (Suc t) k = Some (Ok (), k') \<and> st (tasks k' t) = Ready \<and>
        eff k' t = attr_priority (tasks k t) \<and> base_priority (tasks k' t) = attr_priority (tasks k t) \<and>
        \<not> park_token (tasks k' t) \<and> (\<forall>u. u \<noteq> t \<longrightarrow> tasks k' u = tasks k u)))"
proof (intro conjI impI)
  let ?k = "k\<lparr>cpu_lock := True\<rparr>"
  note I = runs_inv[OF r]
  {
    assume "st (tasks k t) \<noteq> Dormant"
    then show "task_activate K (Suc t) k = Some (Err QueueOverflow, k)"
      unfolding task_activate_def
      by (intro with_cpu_lock_same[OF c]) (simp add: pool_index_Suc(1)[OF t] activate_def)
  next
    assume "st (tasks k t) = Dormant"
    then have d: "st (tasks ?k t) = Dormant" by simp
    have inv: "kinv K ?k" using I(4) by simp
    obtain k' where k': "activate K t ?k = Some (Ok (), k')" "st (tasks k' t) = Ready"
      "eff k' t = attr_priority (tasks ?k t)" "base_priority (tasks k' t) = attr_priority (tasks ?k t)"
      "\<not> park_token (tasks k' t)" "\<forall>u. u \<noteq> t \<longrightarrow> tasks k' u = tasks ?k u"
      by (rule activate_ok[OF I(1) inv t d]) blast
    have "task_activate K (Suc t) k = Some (Ok (), leave_cpu_lock k')"
      unfolding task_activate_def
      by (rule with_cpu_lock_Some[OF c]) (simp add: pool_index_Suc(1)[OF t] k'(1))
    then show "\<exists>k'. task_activate K (Suc t) k = Some (Ok (), k') \<and> st (tasks k' t) = Ready \<and>
        eff k' t = attr_priority (tasks k t) \<and> base_priority (tasks k' t) = attr_priority (tasks k t) \<and>
        \<not> park_token (tasks k' t) \<and> (\<forall>u. u \<noteq> t \<longrightarrow> tasks k' u = tasks k u)"
      using k'(2-) by (intro exI[of _ "leave_cpu_lock k'"]) simp
  }
qed

theorem activate_exact_witness:
  "task_activate sample_K 2 (sample sample_parked) = Some (Err QueueOverflow, sample sample_parked) \<and>
    (\<exists>k'. task_activate sample_K 3 (sample sample_parked) = Some (Ok (), k') \<and> st (tasks k' 2) = Ready \<and> eff k' 2 = 3)"
  using activate_exact[OF sample_parked_runs, of 1] activate_exact[OF sample_parked_runs, of 2] sample_parked_facts
  by (auto simp: numeral_2_eq_2 numeral_3_eq_3)

section \<open>Parking\<close>

text \<open>C23: \<^verbatim>\<open>unpark_exact\<close> wakes up a parked task with success; a task that is not parked is given the
  token, and the call tells by \<^verbatim>\<open>QueueOverflow\<close> if it had one already; a Dormant task is an error.\<close>

theorem unpark_exact_exact:
  assumes r: "runs K cb k" and t: "t < N_TASKS K" and c: "\<not> cpu_lock k"
  defines "parked \<equiv> st (tasks k t) = Waiting \<and> payload (wait_objs k t) = ParkWait"
  shows "(st (tasks k t) = Dormant \<longrightarrow> task_unpark_exact K (Suc t) k = Some (Err BadObjectState, k)) \<and>
    (parked \<longrightarrow> (\<exists>k'. task_unpark_exact K (Suc t) k = Some (Ok (), k') \<and>
       st (tasks k' t) = Ready \<and> wait_result (tasks k' t) = WaitOk)) \<and>
    (st (tasks k t) \<noteq> Dormant \<and> \<not> parked \<longrightarrow> task_unpark_exact K (Suc t) k =
       Some (if park_token (tasks k t) then Err QueueOverflow else Ok (), upd_task t (\<lambda>c. c\<lparr>park_token := True\<rparr>) k))"
proof -
  let ?k = "k\<lparr>cpu_lock := True\<rparr>"
  note I = runs_inv[OF r]
  have inv: "kinv K ?k" using I(4) by simp
  note U = unpark_ok[OF I(1) inv t]
  have call: "task_unpark_exact K (Suc t) k = Some (x, leave_cpu_lock k')" if "unpark_exact K t ?k = Some (x, k')" for x k'
    unfolding task_unpark_exact_def
    by (rule with_cpu_lock_Some[OF c]) (simp add: pool_index_Suc(1)[OF t] that)
  have same: "leave_cpu_lock ?k = k"
    "leave_cpu_lock (upd_task t (\<lambda>c. c\<lparr>park_token := True\<rparr>) ?k) = upd_task t (\<lambda>c. c\<lparr>park_token := True\<rparr>) k"
    using c by (cases k; simp add: leave_cpu_lock_def upd_task_def)+
  have "\<exists>k'. task_unpark_exact K (Suc t) k = Some (Ok (), k') \<and> st (tasks k' t) = Ready \<and> wait_result (tasks k' t) = WaitOk"
    if parked
  proof -
    obtain k' where k': "unpark_exact K t ?k = Some (Ok (), k')" "st (tasks k' t) = Ready" "wait_result (tasks k' t) = WaitOk"
      using U(2) \<open>parked\<close> by (auto simp: parked_def)
    show ?thesis using call[OF k'(1)] k'(2,3) by (intro exI[of _ "leave_cpu_lock k'"]) simp
  qed
  moreover have "task_unpark_exact K (Suc t) k = Some (Err BadObjectState, k)" if "st (tasks k t) = Dormant"
    using call[OF U(1)] that same by simp
  moreover have "task_unpark_exact K (Suc t) k =
       Some (if park_token (tasks k t) then Err QueueOverflow else Ok (), upd_task t (\<lambda>c. c\<lparr>park_token := True\<rparr>) k)"
    if "st (tasks k t) \<noteq> Dormant" "\<not> parked"
    using call[OF U(3)] that same by (simp add: parked_def)
  ultimately show ?thesis by blast
qed

theorem unpark_exact_exact_witness:
  "(\<exists>k'. task_unpark_exact sample_K 1 (sample sample_parked) = Some (Ok (), k') \<and> st (tasks k' 0) = Ready) \<and>
    task_unpark_exact sample_K 3 (sample sample_parked) = Some (Err BadObjectState, sample sample_parked) \<and>
    task_unpark_exact sample_K 2 (sample sample_parked) =
      Some (Ok (), upd_task 1 (\<lambda>c. c\<lparr>park_token := True\<rparr>) (sample sample_parked))"
proof -
  note W = unpark_exact_exact[OF sample_parked_runs]
  have "\<exists>k'. task_unpark_exact sample_K 1 (sample sample_parked) = Some (Ok (), k') \<and> st (tasks k' 0) = Ready"
    using W[of 0] sample_parked_facts by auto
  moreover have "task_unpark_exact sample_K 3 (sample sample_parked) = Some (Err BadObjectState, sample sample_parked)"
    using W[of 2] sample_parked_facts by (simp add: numeral_2_eq_2 numeral_3_eq_3)
  moreover have "task_unpark_exact sample_K 2 (sample sample_parked) =
      Some (Ok (), upd_task 1 (\<lambda>c. c\<lparr>park_token := True\<rparr>) (sample sample_parked))"
    using W[of 1] sample_parked_facts by (simp add: numeral_2_eq_2)
  ultimately show ?thesis by blast
qed

section \<open>Priorities\<close>

text \<open>C21: \<^verbatim>\<open>set_priority\<close> fails with \<^verbatim>\<open>BadParam\<close> if the priority does not exist or is higher than the
  ceiling of a mutex that the task owns or waits for, and with \<^verbatim>\<open>BadObjectState\<close> if the task is
  Dormant; otherwise the base priority is the new one, the effective priority is the documented one
  for it, all invariants hold with the task moved in its queue, and no other task changes.\<close>

theorem set_priority_exact:
  assumes r: "runs K cb k" and t: "t < N_TASKS K" and c: "\<not> cpu_lock k"
  shows "(PRIORITY_LEVELS K \<le> b \<longrightarrow> task_set_priority K (Suc t) b k = Some (Err BadParam, k)) \<and>
    (b < PRIORITY_LEVELS K \<and> st (tasks k t) = Dormant \<longrightarrow>
      task_set_priority K (Suc t) b k = Some (Err BadObjectState, k)) \<and>
    (b < PRIORITY_LEVELS K \<and> st (tasks k t) \<noteq> Dormant \<and> \<not> base_priority_allowed K k t b \<longrightarrow>
      task_set_priority K (Suc t) b k = Some (Err BadParam, k)) \<and>
    (b < PRIORITY_LEVELS K \<and> st (tasks k t) \<noteq> Dormant \<and> base_priority_allowed K k t b \<longrightarrow>
      (\<exists>k'. task_set_priority K (Suc t) b k = Some (Ok (), k') \<and> kinv K k' \<and>
        (\<forall>u. base_priority (tasks k' u) = (if u = t then b else base_priority (tasks k u)) \<and>
           eff k' u = (if u = t then Min (insert b
             {c. \<exists>m<N_MUTEXES K. owning_task (mutexes k m) = Some t \<and> ceiling (mutexes k m) = Some c}) else eff k u) \<and>
           st (tasks k' u) = st (tasks k u))))"
proof -
  let ?k = "k\<lparr>cpu_lock := True\<rparr>"
  note I = runs_inv[OF r]
  have inv: "kinv K ?k" using I(4) by simp
  note S = set_priority_ok[OF I(1) inv t, of b]
  have call: "task_set_priority K (Suc t) b k = Some (x, leave_cpu_lock k')"
    if "set_task_base_priority K t b ?k = Some (x, k')" for x k'
    unfolding task_set_priority_def
    by (rule with_cpu_lock_Some[OF c]) (simp add: pool_index_Suc(1)[OF t] that)
  have same: "leave_cpu_lock ?k = k" using c by (cases k) (simp add: leave_cpu_lock_def)
  have allowed: "base_priority_allowed K ?k t b = base_priority_allowed K k t b"
    by (simp add: base_priority_allowed_def ceilings_held_def)
  have doc: "documented_priority K {} ?k t b = Min (insert b
      {c. \<exists>m<N_MUTEXES K. owning_task (mutexes k m) = Some t \<and> ceiling (mutexes k m) = Some c})"
    by (simp add: documented_priority_def ceilings_held_def)
  have "\<exists>k'. task_set_priority K (Suc t) b k = Some (Ok (), k') \<and> kinv K k' \<and>
        (\<forall>u. base_priority (tasks k' u) = (if u = t then b else base_priority (tasks k u)) \<and>
           eff k' u = (if u = t then Min (insert b
             {c. \<exists>m<N_MUTEXES K. owning_task (mutexes k m) = Some t \<and> ceiling (mutexes k m) = Some c}) else eff k u) \<and>
           st (tasks k' u) = st (tasks k u))"
    if "b < PRIORITY_LEVELS K" "st (tasks k t) \<noteq> Dormant" "base_priority_allowed K k t b"
  proof -
    have a: "base_priority_allowed K ?k t b" and d: "st (tasks ?k t) \<noteq> Dormant" using that(2,3) allowed by simp_all
    obtain k' where k': "set_task_base_priority K t b ?k = Some (Ok (), k')"
      "repositioned K t b (documented_priority K {} ?k t b) ?k k'"
      using S(4)[OF \<open>b < PRIORITY_LEVELS K\<close> d a] by blast
    show ?thesis using call[OF k'(1)] k'(2) unfolding repositioned_def doc
      by (intro exI[of _ "leave_cpu_lock k'"]) (simp cong: if_cong)
  qed
  moreover have "task_set_priority K (Suc t) b k = Some (Err BadParam, k)" if "PRIORITY_LEVELS K \<le> b"
    using call[OF S(1)] that same by simp
  moreover have "task_set_priority K (Suc t) b k = Some (Err BadObjectState, k)"
    if "b < PRIORITY_LEVELS K" "st (tasks k t) = Dormant"
    using call[OF S(2)] that same by simp
  moreover have "task_set_priority K (Suc t) b k = Some (Err BadParam, k)"
    if "b < PRIORITY_LEVELS K" "st (tasks k t) \<noteq> Dormant" "\<not> base_priority_allowed K k t b"
    using call[OF S(3)] that same allowed by simp
  ultimately show ?thesis by (auto simp: not_less[symmetric])
qed

theorem set_priority_exact_witness:
  "task_set_priority sample_K 1 4 (sample sample_parked) = Some (Err BadParam, sample sample_parked) \<and>
    task_set_priority sample_K 3 1 (sample sample_parked) = Some (Err BadObjectState, sample sample_parked) \<and>
    (\<exists>k'. task_set_priority sample_K 1 2 (sample sample_parked) = Some (Ok (), k') \<and>
       base_priority (tasks k' 0) = 2 \<and> st (tasks k' 0) = Waiting)"
proof (intro conjI)
  note P = set_priority_exact[OF sample_parked_runs] and F = sample_parked_facts
  show "task_set_priority sample_K 1 4 (sample sample_parked) = Some (Err BadParam, sample sample_parked)"
    "task_set_priority sample_K 3 1 (sample sample_parked) = Some (Err BadObjectState, sample sample_parked)"
    using P[of 0 4] P[of 2 1] F by (simp_all add: numeral_2_eq_2 numeral_3_eq_3)
  have "mutex_inv sample_K None {} (sample sample_parked)" using kinvD(2)[OF runs_inv(4)[OF sample_parked_runs]] .
  then have "base_priority_allowed sample_K (sample sample_parked) 0 2"
    by (rule lower_priority_allowed) (use F in simp_all)
  then show "\<exists>k'. task_set_priority sample_K 1 2 (sample sample_parked) = Some (Ok (), k') \<and>
       base_priority (tasks k' 0) = 2 \<and> st (tasks k' 0) = Waiting"
    using P[of 0 2] F by fastforce
qed

end
