(* ===== verification/Tick_Termination.thy ===== *)
theory Tick_Termination
  imports Kernel_Tick
begin

text \<open>
  The loop of the tick handler ends if no timer has the period zero and the functions that the
  timers call leave timers and timeouts alone: the total by which the timeouts are overdue decreases.
\<close>

definition quiet :: "kcfg \<Rightarrow> timer_callbacks \<Rightarrow> bool" where
  "quiet K cb \<longleftrightarrow>
     (\<forall>i k k'. run_calls K (cb i k) k = Some k' \<longrightarrow> tk k' = tk k \<and> timers k' = timers k)"

definition periods_positive :: "kcfg \<Rightarrow> kernel \<Rightarrow> bool" where
  "periods_positive K k \<longleftrightarrow> (\<forall>i<N_TIMERS K. timer_period (timers k i) \<noteq> 0)"

text \<open>The measure; a timeout that has just expired counts one.\<close>

definition overdue :: "time32 \<Rightarrow> timekeeping \<Rightarrow> nat" where
  "overdue now g = (\<Sum>r\<in>set (heap g). Suc HEADROOM - distance g now r)"

lemma overdue_cong:
  assumes "set (heap g') = A" "\<And>r. r \<in> A \<Longrightarrow> at (timeouts g' r) = at (timeouts g r)"
  shows "overdue now g' = (\<Sum>r\<in>A. Suc HEADROOM - distance g now r)"
  using assms by (simp add: overdue_def distance_def)

lemma overdue_remove:
  assumes "r \<in> set (heap g)" "set (heap g') = set (heap g) - {r}"
    and "\<And>x. at (timeouts g' x) = at (timeouts g x)"
  shows "overdue now g = (Suc HEADROOM - distance g now r) + overdue now g'"
proof -
  have "overdue now g' = (\<Sum>x\<in>set (heap g) - {r}. Suc HEADROOM - distance g now x)"
    using assms(2,3) by (intro overdue_cong) simp_all
  then show ?thesis using assms(1) by (simp add: overdue_def sum.remove[of _ r])
qed

lemma timer_decreases:
  assumes K: "kcfg_ok K" and cb: "callbacks_ok K cb" and q: "quiet K cb" and inv: "ticking K now k"
    and i: "i < N_TIMERS K" "timer_active (timers k i)" "TimerTimeout i \<notin> set (heap (tk k))"
    and d: "distance (tk k) now (TimerTimeout i) \<le> HEADROOM" and p: "timer_period (timers k i) \<noteq> 0"
  obtains k' where "call_timer K cb i k = Some k'" "ticking K now k'" "timers k' = timers k"
    "overdue now (tk k') < (Suc HEADROOM - distance (tk k) now (TimerTimeout i)) + overdue now (tk k)"
proof -
  let ?r = "TimerTimeout i" and ?p = "timer_period (timers k i)"
  have k: "kinv K k" "event_time (PORT_TIMER K) (tk k) = now" using inv by (simp_all add: ticking_def)
  obtain k1 where k1: "timer_timeout_handler K i k = Some k1" "timers k1 = timers k"
    "?p \<noteq> BAD_DURATION32 \<Longrightarrow> at (timeouts (tk k1) ?r) = at (timeouts (tk k) ?r) + ?p"
    "set (heap (tk k1)) = (if ?p = BAD_DURATION32 then set (heap (tk k)) else insert ?r (set (heap (tk k))))"
    "\<forall>x. x \<noteq> ?r \<longrightarrow> at (timeouts (tk k1) x) = at (timeouts (tk k) x)"
    using timer_timeout_handler_ok[OF K k(1) i] d k(2) by metis
  obtain k2 where k2: "call_timer K cb i k = Some k2" "ticking K now k2"
    by (rule timer_callback_ok[OF K cb inv i d])
  then obtain k3 where "run_calls K (cb i k1) k1 = Some k3" "k2 = k3\<lparr>cpu_lock := True\<rparr>"
    using k1(1) by (auto simp: call_timer_def bind_eq_Some_conv)
  then have same: "tk k2 = tk k1" "timers k2 = timers k1" using q by (auto simp: quiet_def)
  have rest: "(\<Sum>x\<in>set (heap (tk k)). Suc HEADROOM - distance (tk k1) now x) = overdue now (tk k)"
    unfolding overdue_def
  proof (rule sum.cong)
    fix x
    assume "x \<in> set (heap (tk k))"
    then have "x \<noteq> ?r" using i(3) by blast
    then show "Suc HEADROOM - distance (tk k1) now x = Suc HEADROOM - distance (tk k) now x"
      using k1(5) by (simp add: distance_def)
  qed simp
  have "overdue now (tk k1) < (Suc HEADROOM - distance (tk k) now ?r) + overdue now (tk k)"
  proof (cases "?p = BAD_DURATION32")
    case True
    then have "overdue now (tk k1) = overdue now (tk k)" using k1(4) rest by (simp add: overdue_def)
    then show ?thesis using d by simp
  next
    case False
    have po: "period_ok ?p" using kinvD(12)[OF k(1)] i(1) by (simp add: timer_inv_def)
    have "distance (tk k1) now ?r = distance (tk k) now ?r + unat ?p"
    proof -
      have "distance (set_timeout ?r ((timeouts (tk k) ?r)\<lparr>at := at (timeouts (tk k) ?r) + ?p\<rparr>) (tk k)) now ?r =
          distance (tk k) now ?r + unat ?p"
        by (rule distance_add) (use d po False in \<open>simp add: HEADROOM_def DURATION_MAX_def period_ok_def\<close>)
      then show ?thesis using k1(3)[OF False] by (simp add: distance_def)
    qed
    moreover have "0 < unat ?p" using p by (simp add: unat_gt_0)
    moreover have "overdue now (tk k1) = (Suc HEADROOM - distance (tk k1) now ?r) + overdue now (tk k)"
      using False k1(4) rest i(3) by (simp add: overdue_def)
    ultimately show ?thesis using d by simp
  qed
  then show thesis using k2 same k1(2) that by simp
qed

lemma expired_decreases:
  assumes K: "kcfg_ok K" and cb: "callbacks_ok K cb" and q: "quiet K cb" and inv: "ticking K now k"
    and p: "periods_positive K k" and e: "take_expired (tk k) now = Some (Some r, g)"
  obtains k' where "call_timeout K cb (timeouts (tk k) r) (k\<lparr>tk := g\<rparr>) = Some k'" "ticking K now k'"
    "periods_positive K k'" "overdue now (tk k') < overdue now (tk k)"
proof -
  have k: "kinv K k" "cpu_lock k" "now = event_time (PORT_TIMER K) (tk k)" using inv by (simp_all add: ticking_def)
  note T = kinvD(12)[OF k(1)]
  have g: "tk_inv (PORT_TIMER K) g" "tk_same (tk k) g" "same_timeouts (timeouts (tk k)) (timeouts g)"
    "r \<in> set (heap (tk k))" "distance (tk k) now r \<le> HEADROOM" "mset (heap g) = mset (heap (tk k)) - {#r#}"
    using take_expired_ok[OF kinv_counts[OF k(1)] k(3)] e by auto
  have d: "distinct (heap (tk k))" using T by (simp add: timer_inv_def tk_inv_def heap_ok_def)
  have dg: "set (heap g) = set (heap (tk k)) - {r}"
    using d g(6) by (metis mset_remove1 mset_eq_setD set_remove1_eq)
  have less: "overdue now (tk k) = (Suc HEADROOM - distance (tk k) now r) + overdue now g"
    by (rule overdue_remove[OF g(4) dg]) (simp add: same_timeouts_at[OF g(3)])
  let ?k = "k\<lparr>tk := g\<rparr>"
  have T1: "timer_inv K ?k"
    by (rule timer_inv_tkI[OF T g(1) same_timeouts_callbacks[OF g(3)]]) (use dg in blast)
  note k1 = tk_same_ok[OF k(1) T1 g(2)]
  have inv1: "ticking K now ?k" by (rule ticking_frame[OF inv k1(1,2)]) (use k(2) in simp)
  have linked: "linked_ok K k r" using T g(4) by (simp add: timer_inv_def)
  show thesis
  proof (cases r)
    case (TaskTimeout t)
    then obtain c where t: "t < N_TASKS K" "blocked_in (tasks ?k t) = Some (c, True)"
      "callback (timeouts (tk k) r) = Interrupt_Task_By_Timeout" "callback_param (timeouts (tk k) r) = t"
      using linked by (auto simp: linked_ok_def)
    obtain k' where k': "interrupt_task_by_timeout K t ?k = Some k'" "kinv K k'" "frame ?k k'" "cpu_lock k' = cpu_lock ?k"
      "tk k' = tk ?k" "timers k' = timers ?k"
      by (rule task_timeout_ok[OF K k1(1) t(1,2)])
    have "ticking K now k'" by (rule ticking_frame[OF inv1 k'(2,3)]) (use k' k(2) in simp)
    then show thesis using k' t(3,4) less g(5) p
      by (intro that[of k']) (simp_all add: call_timeout_def periods_positive_def)
  next
    case (TimerTimeout i)
    then have i: "i < N_TIMERS K" "timer_active (timers ?k i)" using linked by (simp_all add: linked_ok_def)
    then have c: "callback (timeouts (tk k) r) = Timer_Timeout_Handler" "callback_param (timeouts (tk k) r) = i"
      using T TimerTimeout by (simp_all add: timer_inv_def)
    have dist: "distance (tk ?k) now (TimerTimeout i) = distance (tk k) now r"
      using distance_same[OF g(3)] TimerTimeout by simp
    have n: "TimerTimeout i \<notin> set (heap (tk ?k))" using dg TimerTimeout by simp
    have pi: "timer_period (timers ?k i) \<noteq> 0" using p i(1) by (simp add: periods_positive_def)
    obtain k' where k': "call_timer K cb i ?k = Some k'" "ticking K now k'" "timers k' = timers ?k"
      "overdue now (tk k') < (Suc HEADROOM - distance (tk ?k) now (TimerTimeout i)) + overdue now (tk ?k)"
      by (rule timer_decreases[OF K cb q inv1 i n _ pi]) (use dist g(5) in simp)
    then show thesis using c less dist p
      by (intro that[of k']) (simp_all add: call_timeout_def periods_positive_def)
  qed
qed

lemma handle_tick_loop_ends:
  assumes K: "kcfg_ok K" and cb: "callbacks_ok K cb" and q: "quiet K cb"
  shows "ticking K now k \<Longrightarrow> periods_positive K k \<Longrightarrow> overdue now (tk k) < fuel \<Longrightarrow>
    \<exists>k'. handle_tick_loop K cb now fuel k = Some (True, k')"
proof (induction fuel arbitrary: k)
  case 0
  then show ?case by simp
next
  case (Suc fuel)
  have k: "kinv K k" "now = event_time (PORT_TIMER K) (tk k)" using Suc.prems by (simp_all add: ticking_def)
  obtain res g where e: "take_expired (tk k) now = Some (res, g)"
    using take_expired_ok[OF kinv_counts[OF k(1)] k(2)] by blast
  show ?case
  proof (cases res)
    case None
    then show ?thesis using e by simp
  next
    case (Some r)
    obtain k1 where k1: "call_timeout K cb (timeouts (tk k) r) (k\<lparr>tk := g\<rparr>) = Some k1" "ticking K now k1"
      "periods_positive K k1" "overdue now (tk k1) < overdue now (tk k)"
      using expired_decreases[OF K cb q Suc.prems(1,2)] e Some by blast
    then have "\<exists>k'. handle_tick_loop K cb now fuel k1 = Some (True, k')" using Suc.prems(3) by (intro Suc.IH) simp_all
    then show ?thesis using e Some k1(1) by simp
  qed
qed

lemma handle_tick_ends:
  assumes K: "kcfg_ok K" and cb: "callbacks_ok K cb" and q: "quiet K cb" and inv: "kinv K k"
    and ctx: "\<not> task_context k" "\<not> cpu_lock k" "\<not> handle_tick_in_progress (tk k)"
    and p: "periods_positive K k" and fuel: "overdue (event_time (PORT_TIMER K) (tk k)) (tk k) < fuel"
  shows "\<exists>k'. handle_tick K cb fuel k = Some (True, k')"
proof -
  let ?P = "PORT_TIMER K" and ?now = "event_time (PORT_TIMER K) (tk k)"
  obtain g where g: "mark_tick ?P (tk k) = Some g" "tk_inv ?P g" "last_tick_time g = ?now" "event_time ?P g = ?now"
    "heap g = heap (tk k)" "timeouts g = timeouts (tk k)"
    using mark_tick_ok[OF kinv_counts[OF inv]] by blast
  let ?k1 = "k\<lparr>cpu_lock := True, tk := g\<lparr>handle_tick_in_progress := True\<rparr>\<rparr>"
  have I1: "kinv K (k\<lparr>cpu_lock := True\<rparr>)" using inv by simp
  have "timer_inv K ?k1"
    by (rule timer_inv_tk_same[OF kinvD(12)[OF I1]]) (use g in simp_all)
  then have "kinv K ?k1" using base_inv_tk[OF kinvD(1)[OF I1]] kinvD[OF inv] by (simp add: kinv_def)
  then have t: "ticking K ?now ?k1" using ctx g(4) by (simp add: ticking_def)
  have p1: "periods_positive K ?k1" using p by (simp add: periods_positive_def)
  have "overdue ?now (tk ?k1) = overdue ?now (tk k)" using g(5,6) by (simp add: overdue_def distance_def)
  then obtain k2 where k2: "handle_tick_loop K cb ?now fuel ?k1 = Some (True, k2)"
    using handle_tick_loop_ends[OF K cb q t p1] fuel by auto
  obtain b k' where "handle_tick K cb fuel k = Some (b, k')"
    using handle_tick_ok[OF K cb inv ctx] by metis
  then show ?thesis using k2 g(1,3) ctx(2)
    by (auto simp: handle_tick_def lock_cpu_def on_tk_def Let_def bind_eq_Some_conv)
qed

end
