(* ===== verification/Time_Properties.thy ===== *)
theory Time_Properties
  imports Samples Tick_Termination
begin

text \<open>What timekeeping promises: the tick handler, the clocks and the timers.\<close>

section \<open>The tick handler\<close>

text \<open>C24: When \<^verbatim>\<open>handle_tick\<close> returns, every timeout that had expired has been handled (what is left in
  the heap lies in the future), the port has been told to call it again no later than the earliest
  of them, the event clock has not moved, and the running task still runs unless a dispatch is
  pending.\<close>

theorem handle_tick_leaves_nothing_behind:
  assumes r: "runs K cb k" and ctx: "\<not> task_context k" "\<not> cpu_lock k"
    and h: "handle_tick K cb fuel k = Some (True, k')"
  defines "now \<equiv> event_time (PORT_TIMER K) (tk k)"
  shows "(\<forall>x\<in>set (heap (tk k')). HEADROOM < distance (tk k') now x) \<and>
    tick_scheduled (PORT_TIMER K) now (tk k') \<and> event_time (PORT_TIMER K) (tk k') = now \<and>
    \<not> cpu_lock k' \<and> running_task k' = running_task k \<and>
    (running_task_is_running k \<longrightarrow> \<not> yield_pending k' \<longrightarrow> running_task_is_running k')"
proof -
  have n: "\<not> handle_tick_in_progress (tk k)" using runs_inv(3)[OF r] by (simp add: sys_inv_def)
  obtain b k2 where "handle_tick K cb fuel k = Some (b, k2)"
    "b \<longrightarrow> kinv K k2 \<and> preempt_inv k2 \<and> \<not> handle_tick_in_progress (tk k2) \<and> \<not> cpu_lock k2 \<and>
       running_task k2 = running_task k \<and> \<not> task_context k2 \<and> scheduler_active k2 = scheduler_active k \<and>
       (yield_pending k \<longrightarrow> yield_pending k2) \<and>
       (running_task_is_running k \<longrightarrow> \<not> yield_pending k2 \<longrightarrow> running_task_is_running k2) \<and>
       event_time (PORT_TIMER K) (tk k2) = event_time (PORT_TIMER K) (tk k) \<and>
       (\<forall>r\<in>set (heap (tk k2)). HEADROOM < distance (tk k2) (event_time (PORT_TIMER K) (tk k)) r) \<and>
       tick_scheduled (PORT_TIMER K) (event_time (PORT_TIMER K) (tk k)) (tk k2)"
    by (rule handle_tick_ok[OF runs_inv(1,2,4)[OF r] ctx n, of fuel]) blast
  then show ?thesis using h by (simp add: now_def)
qed

theorem handle_tick_leaves_nothing_behind_witness:
  "\<exists>k'. handle_tick sample_K no_callbacks 3 (sample sample_overdue) = Some (True, k') \<and>
    tick_scheduled (PORT_TIMER sample_K) 700 (tk k') \<and> running_task k' = Some 1"
proof -
  obtain k' where h: "handle_tick sample_K no_callbacks 3 (sample sample_overdue) = Some (True, k')"
    using sample_overdue_facts by auto
  show ?thesis
    using handle_tick_leaves_nothing_behind[OF sample_overdue_runs _ _ h] h sample_overdue_facts by auto
qed

text \<open>C25: The tick handler comes to an end if no timer has the period zero and the functions that timers
  call leave the timers and timeouts alone, after at most as many turns of its loop as the total
  number of microseconds by which timeouts are overdue.\<close>

theorem handle_tick_terminates:
  assumes r: "runs K cb k" and ctx: "\<not> task_context k" "\<not> cpu_lock k"
    and q: "quiet K cb" and p: "\<forall>i<N_TIMERS K. timer_period (timers k i) \<noteq> 0"
    and fuel: "(\<Sum>x\<in>set (heap (tk k)). Suc HEADROOM - distance (tk k) (event_time (PORT_TIMER K) (tk k)) x) < fuel"
  shows "\<exists>k'. handle_tick K cb fuel k = Some (True, k')"
proof -
  have n: "\<not> handle_tick_in_progress (tk k)" using runs_inv(3)[OF r] by (simp add: sys_inv_def)
  show ?thesis
    by (rule handle_tick_ends[OF runs_inv(1,2)[OF r] q runs_inv(4)[OF r] ctx n])
      (use p fuel in \<open>simp_all add: periods_positive_def overdue_def\<close>)
qed

lemma quiet_no_callbacks: "quiet K no_callbacks"
  by (simp add: quiet_def no_callbacks_def run_calls_def)

theorem handle_tick_terminates_witness:
  "\<exists>k'. handle_tick sample_K no_callbacks 202 (sample sample_overdue) = Some (True, k')"
  by (rule handle_tick_terminates[OF sample_overdue_runs _ _ quiet_no_callbacks])
    (use sample_overdue_facts in \<open>simp_all add: less_2_cases_iff BAD_DURATION32_def\<close>)

section \<open>The clocks\<close>

text \<open>C27: \<^verbatim>\<open>set_time\<close> and \<^verbatim>\<open>time\<close> are inverse to each other up to the time that has passed: \<open>d\<close>
  microseconds after the clock has been set to \<open>x\<close>, it shows \<open>x + d\<close>, modulo \<open>2 ^ 64\<close>.\<close>

theorem set_time_then_time:
  assumes r: "runs K cb k" and ctx: "task_context k" "\<not> cpu_lock k"
    and d: "enabled K (Elapse d) k"
  shows "\<exists>k1. raw_set_time K x k = Some (Ok (), k1) \<and>
    (let k2 = k1\<lparr>tk := pass_time (PORT_TIMER K) d (tk k1)\<rparr>
     in raw_time K k2 = Some (Ok (time_from_micros (time_as_micros x + of_nat d)), k2))"
proof -
  let ?P = "PORT_TIMER K"
  have inv: "tk_inv ?P (tk k)" using kinvD(12)[OF runs_inv(4)[OF r]] by (simp add: timer_inv_def)
  have cnt: "counts_ok ?P (tk k)" using inv by (simp add: tk_inv_def)
  obtain g where g: "tk_set_system_time ?P (tk k) (time_as_micros x) = Some g" "system_time_now ?P g = time_as_micros x"
    "event_time ?P g = event_time ?P (tk k)" "tk_inv ?P g" "timeouts g = timeouts (tk k)" "heap g = heap (tk k)"
    using tk_set_system_time_ok[OF cnt] inv by blast
  have e: "elapsed ?P g = elapsed ?P (tk k)"
    using g(1) by (auto simp: tk_set_system_time_def elapsed_def bind_eq_Some_conv)
  let ?k1 = "k\<lparr>tk := g\<rparr>" and ?g2 = "pass_time ?P d g"
  have d': "elapsed ?P g + d \<le> unat (MAX_TICK_COUNT ?P)"
    "\<forall>y\<in>set (heap g). d \<le> distance g (event_time ?P g) y"
    using d e g by (simp_all add: enabled_def distance_def)
  note pt = pass_time_ok[OF g(4) d']
  have "tk_system_time ?P ?g2 = Some (time_as_micros x + of_nat d)"
    using tk_system_time_eq[of ?P ?g2] pt(1,3) g(2) by (simp add: tk_inv_def)
  moreover have "raw_set_time K x k = Some (Ok (), ?k1)"
    using ctx g(1) by (cases k) (simp add: raw_set_time_def expect_task_context_def with_cpu_lock_def lock_cpu_def
        on_tk_def leave_cpu_lock_def)
  ultimately show ?thesis using ctx
    by (cases k) (simp add: raw_time_def expect_task_context_def with_cpu_lock_def lock_cpu_def leave_cpu_lock_def)
qed

theorem set_time_then_time_witness:
  "\<exists>k1. raw_set_time sample_K (Time 5) (sample []) = Some (Ok (), k1) \<and>
    (let k2 = k1\<lparr>tk := pass_time (PORT_TIMER sample_K) 300 (tk k1)\<rparr>
     in raw_time sample_K k2 = Some (Ok (time_from_micros (time_as_micros (Time 5) + of_nat 300)), k2))"
  by (rule set_time_then_time[OF sample_start_runs]) (simp_all add: sample_start_facts)

text \<open>C26: \<^verbatim>\<open>adjust_time\<close> moves the system clock and the event clock by the same amount, exactly if the
  frontier does not get more than the user headroom ahead (backward) and no timeout would become
  overdue by more than the user headroom (forward); otherwise it fails with \<^verbatim>\<open>BadObjectState\<close> and
  moves neither; no timeout changes.\<close>

theorem adjust_time_exact:
  assumes r: "runs K cb k" and c: "\<not> cpu_lock k"
  shows "\<exists>k'. raw_adjust_time K delta k =
      Some (if adjust_allowed (PORT_TIMER K) (tk k) delta then Ok () else Err BadObjectState, k') \<and>
    timeouts (tk k') = timeouts (tk k) \<and> heap (tk k') = heap (tk k) \<and>
    event_time (PORT_TIMER K) (tk k') = event_time (PORT_TIMER K) (tk k) +
      (if adjust_allowed (PORT_TIMER K) (tk k) delta then micros delta else 0) \<and>
    system_time_now (PORT_TIMER K) (tk k') = system_time_now (PORT_TIMER K) (tk k) +
      (if adjust_allowed (PORT_TIMER K) (tk k) delta then scast (micros delta) else 0)"
proof -
  let ?P = "PORT_TIMER K" and ?ok = "adjust_allowed (PORT_TIMER K) (tk k) delta"
  have inv: "tk_inv ?P (tk k)" using kinvD(12)[OF runs_inv(4)[OF r]] by (simp add: timer_inv_def)
  obtain g where g: "tk_adjust_time ?P (tk k) delta = Some (?ok, g)" "heap g = heap (tk k)" "timeouts g = timeouts (tk k)"
    "event_time ?P g = (if ?ok then event_time ?P (tk k) + micros delta else event_time ?P (tk k))"
    "system_time_now ?P g = (if ?ok then system_time_now ?P (tk k) + scast (micros delta) else system_time_now ?P (tk k))"
    using tk_adjust_time_ok[OF inv, of delta] by blast
  have "raw_adjust_time K delta k = Some (if ?ok then Ok () else Err BadObjectState, k\<lparr>tk := g\<rparr>)"
    using c g(1) by (cases k) (simp add: raw_adjust_time_def with_cpu_lock_def lock_cpu_def leave_cpu_lock_def)
  then show ?thesis using g by (intro exI[of _ "k\<lparr>tk := g\<rparr>"]) simp
qed


theorem adjust_time_exact_witness:
  "\<exists>k'. raw_adjust_time sample_K (Duration 1000) (sample []) = Some (Ok (), k') \<and>
    event_time (PORT_TIMER sample_K) (tk k') = 1000"
  using adjust_time_exact[OF sample_start_runs, of "Duration 1000"] sample_start_facts by auto

section \<open>Timers\<close>

lemma armed_measure:
  fixes g :: timekeeping
  assumes "at (timeouts g r) = now + d"
  shows "saturating_duration_until_timeout (timeouts g r) now = (if unat d < 2 ^ 32 - HEADROOM then d else 0)"
proof -
  have "unat (saturating_duration_until_timeout (timeouts g r) now) = unat (now + d - critical_point now) - HEADROOM"
    using assms by (simp add: saturating_until_eq distance_def)
  also have "\<dots> = unat (if unat d < 2 ^ 32 - HEADROOM then d else 0)"
    using unat_time32[of d] by (simp add: distance_after)
  finally show ?thesis by (rule word_unat_eq_iff[THEN iffD2])
qed

lemma started_sys_inv:
  assumes "sys_inv K k" "tk_same (tk k) g"
  shows "sys_inv K ((upd_timer i f k)\<lparr>tk := g\<rparr>) \<longleftrightarrow> kinv K ((upd_timer i f k)\<lparr>tk := g\<rparr>)"
  using assms by (auto simp: sys_inv_def tk_same_def)

lemma tk_same_times:
  "tk_same g g' \<Longrightarrow> event_time P g' = event_time P g" "tk_same g g' \<Longrightarrow> system_time_now P g' = system_time_now P g"
  by (simp_all add: tk_same_event_time system_time_now_def tk_same_elapsed) (simp add: tk_same_def)

text \<open>The call outside CPU Lock, and the states that it leaves.\<close>

lemma raw_timer_start_eq:
  assumes "\<not> cpu_lock k" "i < N_TIMERS K" "start_timer K i (k\<lparr>cpu_lock := True\<rparr>) = Some k'"
  shows "raw_timer_start K (Suc i) k = Some (Ok (), leave_cpu_lock k')"
  unfolding raw_timer_start_def
  by (rule with_cpu_lock_Some[OF assms(1)]) (simp add: pool_index_Suc(5)[OF assms(2)] assms(3))

lemma leave_lock_started:
  assumes "\<not> cpu_lock k"
  shows "leave_cpu_lock (k\<lparr>cpu_lock := True\<rparr>) = k"
    "leave_cpu_lock (upd_timer i f (k\<lparr>cpu_lock := True\<rparr>)) = upd_timer i f k"
    "leave_cpu_lock ((upd_timer i f (k\<lparr>cpu_lock := True\<rparr>))\<lparr>tk := g\<rparr>) = (upd_timer i f k)\<lparr>tk := g\<rparr>"
  using assms by (cases k; simp add: leave_cpu_lock_def upd_timer_def)+

lemma timer_start_arms:
  assumes r: "runs K cb k" and i: "i < N_TIMERS K" and c: "\<not> cpu_lock k"
    and off: "\<not> timer_active (timers k i)" and bad: "at_raw (tk k) (TimerTimeout i) \<noteq> BAD_DURATION32"
  defines "P \<equiv> PORT_TIMER K" and "now \<equiv> event_time (PORT_TIMER K) (tk k)" and "this \<equiv> TimerTimeout i"
    and "d \<equiv> at_raw (tk k) (TimerTimeout i)"
    and "on \<equiv> upd_timer i (\<lambda>t. t\<lparr>timer_active := True\<rparr>) k"
  shows "\<exists>g. raw_timer_start K (Suc i) k = Some (Ok (), on\<lparr>tk := g\<rparr>) \<and>
    set (heap g) = insert this (set (heap (tk k))) \<and> at (timeouts g this) = now + d \<and>
    (\<forall>x. x \<noteq> this \<longrightarrow> at (timeouts g x) = at (timeouts (tk k) x)) \<and>
    event_time P g = now \<and> system_time_now P g = system_time_now P (tk k) \<and>
    saturating_duration_until_timeout (timeouts g this) now =
      (if unat d < 2 ^ 32 - HEADROOM then d else 0) \<and>
    tick_scheduled P now g \<and>
    (sys_inv K (on\<lparr>tk := g\<rparr>) \<longleftrightarrow>
       unat d \<le> DURATION_MAX + present_gap P (tk k) \<or> 2 ^ 32 - HEADROOM \<le> unat d)"
proof -
  let ?k = "k\<lparr>cpu_lock := True\<rparr>"
  note I = runs_inv[OF r]
  have inv: "kinv K ?k" using I(4) by simp
  have h: "\<not> handle_tick_in_progress (tk k)" using I(3) by (simp add: sys_inv_def)
  have off': "\<not> timer_active (timers ?k i)" "at_raw (tk ?k) (TimerTimeout i) \<noteq> BAD_DURATION32"
    using off bad by simp_all
  obtain g where g: "start_timer K i ?k = Some ((upd_timer i (\<lambda>t. t\<lparr>timer_active := True\<rparr>) ?k)\<lparr>tk := g\<rparr>)"
    "tk_same (tk ?k) g" "set (heap g) = insert (TimerTimeout i) (set (heap (tk ?k)))"
    "\<And>x. at (timeouts g x) = (if x = TimerTimeout i
       then event_time (PORT_TIMER K) (tk ?k) + at_raw (tk ?k) x else at (timeouts (tk ?k) x))"
    "kinv K ((upd_timer i (\<lambda>t. t\<lparr>timer_active := True\<rparr>) ?k)\<lparr>tk := g\<rparr>) \<longleftrightarrow>
       unat (at_raw (tk ?k) (TimerTimeout i)) \<le> DURATION_MAX + present_gap (PORT_TIMER K) (tk ?k) \<or>
       2 ^ 32 - HEADROOM \<le> unat (at_raw (tk ?k) (TimerTimeout i))"
    "\<not> handle_tick_in_progress (tk ?k) \<Longrightarrow>
       tick_scheduled (PORT_TIMER K) (event_time (PORT_TIMER K) (tk ?k)) g"
    using start_timer_any[OF I(1) inv i off'] by metis
  have same_tk: "tk_same (tk k) g" using g(2) by simp
  have on: "leave_cpu_lock ((upd_timer i (\<lambda>t. t\<lparr>timer_active := True\<rparr>) ?k)\<lparr>tk := g\<rparr>) = on\<lparr>tk := g\<rparr>"
    unfolding on_def by (rule leave_lock_started(3)[OF c])
  let ?k' = "(upd_timer i (\<lambda>t. t\<lparr>timer_active := True\<rparr>) ?k)\<lparr>tk := g\<rparr>"
  have "kinv K (on\<lparr>tk := g\<rparr>) \<longleftrightarrow> kinv K ?k'" unfolding on[symmetric] by simp
  then have "sys_inv K (on\<lparr>tk := g\<rparr>) \<longleftrightarrow>
      unat d \<le> DURATION_MAX + present_gap P (tk k) \<or> 2 ^ 32 - HEADROOM \<le> unat d"
    using g(5) started_sys_inv[OF I(3) same_tk, of i "\<lambda>t. t\<lparr>timer_active := True\<rparr>"]
    by (simp add: on_def d_def P_def)
  moreover have arr: "at (timeouts g this) = now + d" and "\<forall>x. x \<noteq> this \<longrightarrow> at (timeouts g x) = at (timeouts (tk k) x)"
    using g(4) by (simp_all add: this_def now_def d_def)
  moreover have "set (heap g) = insert this (set (heap (tk k)))" "tick_scheduled P now g"
    using g(3,6) h by (simp_all add: this_def P_def now_def)
  moreover note armed_measure[OF arr]
  ultimately show ?thesis
    using raw_timer_start_eq[OF c i g(1)] tk_same_times[OF same_tk, of P]
    by (intro exI[of _ g]) (simp add: on now_def P_def)
qed

text \<open>C29: Outside CPU Lock, starting a timer always succeeds.  A timer that is active stays as it is.  An
  inactive one becomes active; if it has no delay, that is all.  If it has the delay \<open>d\<close>, it is armed for the
  moment \<open>d\<close> from now: it enters the heap of timeouts with this arrival time, the other timeouts and the clocks
  stay as they are, the time until it expires, as the kernel measures it, is \<open>d\<close> (or nothing, if \<open>d\<close> does not leave room for
  the headroom in 32 bits), and the port is told to tick no later than that.  This holds for every delay, also for one
  captured by \<^verbatim>\<open>stop\<close> that exceeds the longest duration because the clocks had been moved backward; but
  the kernel does not check for it, and the invariant of the system survives exactly if \<open>d\<close> does not exceed the longest duration by
  more than the present gap to the frontier (or is as long as to be taken for no time at all).\<close>

theorem timer_start_exact:
  assumes r: "runs K cb k" and i: "i < N_TIMERS K" and c: "\<not> cpu_lock k"
  defines "P \<equiv> PORT_TIMER K" and "now \<equiv> event_time (PORT_TIMER K) (tk k)" and "this \<equiv> TimerTimeout i"
    and "d \<equiv> at_raw (tk k) (TimerTimeout i)"
    and "on \<equiv> upd_timer i (\<lambda>t. t\<lparr>timer_active := True\<rparr>) k"
  shows
    "(timer_active (timers k i) \<longrightarrow> raw_timer_start K (Suc i) k = Some (Ok (), k)) \<and>
     (\<not> timer_active (timers k i) \<and> d = BAD_DURATION32 \<longrightarrow> raw_timer_start K (Suc i) k = Some (Ok (), on)) \<and>
     (\<not> timer_active (timers k i) \<and> d \<noteq> BAD_DURATION32 \<longrightarrow>
       (\<exists>g. raw_timer_start K (Suc i) k = Some (Ok (), on\<lparr>tk := g\<rparr>) \<and>
         set (heap g) = insert this (set (heap (tk k))) \<and> at (timeouts g this) = now + d \<and>
         (\<forall>x. x \<noteq> this \<longrightarrow> at (timeouts g x) = at (timeouts (tk k) x)) \<and>
         event_time P g = now \<and> system_time_now P g = system_time_now P (tk k) \<and>
         saturating_duration_until_timeout (timeouts g this) now =
           (if unat d < 2 ^ 32 - HEADROOM then d else 0) \<and>
         tick_scheduled P now g \<and>
         (sys_inv K (on\<lparr>tk := g\<rparr>) \<longleftrightarrow>
            unat d \<le> DURATION_MAX + present_gap P (tk k) \<or> 2 ^ 32 - HEADROOM \<le> unat d)))"
proof (intro conjI impI)
  let ?k = "k\<lparr>cpu_lock := True\<rparr>"
  note start = raw_timer_start_eq[OF c i] and leave = leave_lock_started[OF c]
  show "raw_timer_start K (Suc i) k = Some (Ok (), k)" if "timer_active (timers k i)"
    using start[of ?k] that leave(1) by (simp add: start_timer_def)
  show "raw_timer_start K (Suc i) k = Some (Ok (), on)" if "\<not> timer_active (timers k i) \<and> d = BAD_DURATION32"
    using start[of "upd_timer i (\<lambda>t. t\<lparr>timer_active := True\<rparr>) ?k"] that leave(2)
    by (simp add: start_timer_def Let_def d_def on_def)
  show "\<exists>g. raw_timer_start K (Suc i) k = Some (Ok (), on\<lparr>tk := g\<rparr>) \<and>
      set (heap g) = insert this (set (heap (tk k))) \<and> at (timeouts g this) = now + d \<and>
      (\<forall>x. x \<noteq> this \<longrightarrow> at (timeouts g x) = at (timeouts (tk k) x)) \<and>
      event_time P g = now \<and> system_time_now P g = system_time_now P (tk k) \<and>
      saturating_duration_until_timeout (timeouts g this) now =
        (if unat d < 2 ^ 32 - HEADROOM then d else 0) \<and>
      tick_scheduled P now g \<and>
      (sys_inv K (on\<lparr>tk := g\<rparr>) \<longleftrightarrow>
         unat d \<le> DURATION_MAX + present_gap P (tk k) \<or> 2 ^ 32 - HEADROOM \<le> unat d)"
    if off: "\<not> timer_active (timers k i) \<and> d \<noteq> BAD_DURATION32"
    using timer_start_arms[OF r i c] off unfolding P_def now_def this_def d_def on_def by blast
qed

theorem timer_start_exact_witness:
  "\<exists>g. raw_timer_start sample_K (Suc 1) (sample []) =
      Some (Ok (), (upd_timer 1 (\<lambda>t. t\<lparr>timer_active := True\<rparr>) (sample []))\<lparr>tk := g\<rparr>) \<and>
    at (timeouts g (TimerTimeout 1)) = 200"
  using timer_start_exact[OF sample_start_runs, of 1] sample_start_facts
  by (auto simp: BAD_DURATION32_def)

text \<open>
  The second timer was stopped after the clocks had been moved backward, with 0x9fffffff microseconds
  left; meanwhile the clocks have caught up.
\<close>

definition sample_overlong :: "event list" where
  "sample_overlong = [TaskCall (TimerStop 1), TaskCall (TimerSetDelay 2 (Some (Duration 0x7fffffff))),
     TaskCall (TimerStart 2), TaskCall (AdjustTime (Duration (- 0x20000000))), TaskCall (TimerStop 2), Elapse 0x20000000]"

text \<open>What follows: the timer is started and the clocks are moved backward again.\<close>

definition overlong_restart :: "kernel \<Rightarrow> (unit ret \<times> unit ret \<times> kernel) option" where
  "overlong_restart k =
     do { (r1, k) \<leftarrow> raw_timer_start sample_K 2 k;
          (r2, k) \<leftarrow> raw_adjust_time sample_K (Duration (- 0x20000000)) k;
          Some (r1, r2, k) }"

lemma sample_overlong_observe:
  "observe sample_overlong (\<lambda>k. ((cpu_lock k, timer_active (timers k 1), at_raw (tk k) (TimerTimeout 1)),
      (timer_startable sample_K k 1, present_gap (PORT_TIMER sample_K) (tk k)),
      map_option (\<lambda>(r1, r2, k). ((r1, r2), heap (tk k), pended_tick (tk k),
        saturating_duration_until_timeout (timeouts (tk k) (TimerTimeout 1)) (event_time (PORT_TIMER sample_K) (tk k))))
        (overlong_restart k))) =
   Some ((False, False, 0x9fffffff), (False, 0), Some ((Ok (), Ok ()), [TimerTimeout 1], Some PendTick, 0))"
  by code_simp

lemmas sample_overlong_runs = observe_runs[OF sample_overlong_observe]
lemmas sample_overlong_facts = observe_value[OF sample_overlong_observe, simplified]

text \<open>
  The consequence for a timer whose captured delay is too long: in a reachable state it has 0x9fffffff
  microseconds left; it is started, and the clocks are moved backward by 0x20000000.  Both calls
  succeed, and the timer, which should wait even longer, is due at once.
\<close>

lemma overlong_timer_expires_at_once:
  "\<exists>k'. runs sample_K no_callbacks (sample sample_overlong) \<and>
    at_raw (tk (sample sample_overlong)) (TimerTimeout 1) = 0x9fffffff \<and>
    overlong_restart (sample sample_overlong) = Some (Ok (), Ok (), k') \<and> heap (tk k') = [TimerTimeout 1] \<and>
    pended_tick (tk k') = Some PendTick \<and>
    saturating_duration_until_timeout (timeouts (tk k') (TimerTimeout 1)) (event_time (PORT_TIMER sample_K) (tk k')) = 0"
  using sample_overlong_runs sample_overlong_facts by auto

text \<open>C28: Stopping a timer and starting it again at the same moment arms it for the same time as before,
  if it was not yet due, and for now if it was: the captured delay is the time that was left, and it
  can always be started again.\<close>

theorem timer_stop_start_roundtrip:
  assumes r: "runs K cb k" and i: "i < N_TIMERS K" and c: "\<not> cpu_lock k"
    and l: "TimerTimeout i \<in> set (heap (tk k))"
  defines "now \<equiv> event_time (PORT_TIMER K) (tk k)"
  shows "\<exists>k1 k2. raw_timer_stop K (Suc i) k = Some (Ok (), k1) \<and> \<not> timer_active (timers k1 i) \<and>
    TimerTimeout i \<notin> set (heap (tk k1)) \<and> raw_timer_start K (Suc i) k1 = Some (Ok (), k2) \<and>
    timer_active (timers k2 i) \<and> TimerTimeout i \<in> set (heap (tk k2)) \<and>
    at (timeouts (tk k2) (TimerTimeout i)) =
      (if HEADROOM \<le> distance (tk k) now (TimerTimeout i) then at (timeouts (tk k) (TimerTimeout i)) else now)"
proof -
  let ?k = "k\<lparr>cpu_lock := True\<rparr>" and ?r = "TimerTimeout i" and ?P = "PORT_TIMER K"
  let ?d = "saturating_duration_until_timeout (timeouts (tk k) ?r) now"
  note I = runs_inv[OF r]
  have inv: "kinv K ?k" using I(4) by simp
  obtain k1 where k1: "stop_timer K i ?k = Some k1" "kinv K k1" "frame ?k k1" "\<not> timer_active (timers k1 i)"
    "?r \<notin> set (heap (tk k1))" "tk_same (tk ?k) (tk k1)"
    "?r \<in> set (heap (tk ?k)) \<Longrightarrow> at_raw (tk k1) ?r =
       saturating_duration_until_timeout (timeouts (tk ?k) ?r) (event_time ?P (tk ?k))"
    using stop_timer_ok[OF I(1) inv] by metis
  have at1: "at_raw (tk k1) ?r = ?d" using k1(7) l by (simp add: now_def)
  have same: "tk_same (tk k) (tk k1)" using k1(6) by simp
  have ud: "unat ?d = distance (tk k) now ?r - HEADROOM" by (rule saturating_until_eq)
  have "tk_inv ?P (tk k)" using kinvD(12)[OF I(4)] by (simp add: timer_inv_def)
  then have "distance (tk k) now ?r \<le> HEADROOM + DURATION_MAX + present_gap ?P (tk k)"
    using l by (simp add: tk_inv_alt frontier_ok_def now_def)
  then have le: "unat ?d \<le> DURATION_MAX + present_gap ?P (tk k)" using ud by linarith
  have gap: "present_gap ?P (tk k1) = present_gap ?P (tk k)" by (rule tk_same_gap[OF same])
  have ne: "?d \<noteq> BAD_DURATION32"
  proof
    assume "?d = BAD_DURATION32"
    then have "unat ?d = 2 ^ 32 - 1" by (simp add: BAD_DURATION32_def)
    moreover have "distance (tk k) now ?r < 2 ^ 32" using unat_u32_lt[of "at (timeouts (tk k) ?r) - critical_point now"] by (simp add: distance_def)
    ultimately show False using ud by (simp add: HEADROOM_def)
  qed
  have s: "timer_startable K k1 i" using le gap at1 by (simp add: timer_startable_def)
  obtain k2 where k2: "start_timer K i k1 = Some k2" "timer_active (timers k2 i)"
    "\<not> timer_active (timers k1 i) \<Longrightarrow> at_raw (tk k1) ?r \<noteq> BAD_DURATION32 \<Longrightarrow>
       ?r \<in> set (heap (tk k2)) \<and> at (timeouts (tk k2) ?r) = event_time ?P (tk k1) + at_raw (tk k1) ?r"
    using start_timer_ok[OF I(1) k1(2) i s] by metis
  have now1: "event_time ?P (tk k1) = now" using tk_same_event_time[OF same] by (simp add: now_def)
  have at2: "?r \<in> set (heap (tk k2))" "at (timeouts (tk k2) ?r) = now + ?d"
    using k2(3)[OF k1(4)] ne at1 now1 by simp_all
  have "now + ?d = (if HEADROOM \<le> distance (tk k) now ?r then at (timeouts (tk k) ?r) else now)"
  proof (cases "HEADROOM \<le> distance (tk k) now ?r")
    case True
    have "(0x60000000 :: u32) \<le> at (timeouts (tk k) ?r) - critical_point now"
      using True by (simp add: word_le_nat_alt distance_def HEADROOM_def)
    then have "?d = at (timeouts (tk k) ?r) - critical_point now - 0x60000000"
      by (simp add: saturating_duration_until_timeout_def saturating_sub32_def headroom_word)
    then show ?thesis using True by (simp add: critical_point_diff)
  next
    case False
    then have "unat ?d = 0" using ud by linarith
    then show ?thesis using False by (simp add: unat_eq_0)
  qed
  moreover have "raw_timer_stop K (Suc i) k = Some (Ok (), leave_cpu_lock k1)"
    unfolding raw_timer_stop_def
    by (rule with_cpu_lock_Some[OF c]) (simp add: pool_index_Suc(5)[OF i] k1(1))
  moreover have "raw_timer_start K (Suc i) (leave_cpu_lock k1) = Some (Ok (), leave_cpu_lock k2)"
  proof -
    have lock: "cpu_lock k1" using k1(1) by (auto simp: stop_timer_def bind_eq_Some_conv on_tk_def guard_eq_Some split: if_splits)
    have "(leave_cpu_lock k1)\<lparr>cpu_lock := True\<rparr> = k1" using lock by (cases k1) (simp add: leave_cpu_lock_def)
    then show ?thesis unfolding raw_timer_start_def
      by (intro with_cpu_lock_Some) (simp_all add: pool_index_Suc(5)[OF i] k2(1))
  qed
  ultimately show ?thesis using k1(4,5) k2(2) at2
    by (intro exI[of _ "leave_cpu_lock k1"] exI[of _ "leave_cpu_lock k2"]) simp
qed

theorem timer_stop_start_roundtrip_witness:
  "\<exists>k1 k2. raw_timer_stop sample_K 1 (sample []) = Some (Ok (), k1) \<and> \<not> timer_active (timers k1 0) \<and>
    raw_timer_start sample_K 1 k1 = Some (Ok (), k2) \<and> at (timeouts (tk k2) (TimerTimeout 0)) = 500"
  using timer_stop_start_roundtrip[OF sample_start_runs, of 0] sample_start_facts by auto

text \<open>C30: When a timer expires, the handler disarms a timer without a period, and arms a periodic one for
  one period after the time at which it was due, not after the time at which it is handled: lateness
  does not accumulate.  It releases CPU Lock for the function of the application.\<close>

theorem timer_expiration_exact:
  assumes K: "kcfg_ok K" and inv: "kinv K k"
    and e: "take_expired (tk k) (event_time (PORT_TIMER K) (tk k)) = Some (Some (TimerTimeout i), g)"
  shows "\<exists>k'. timer_timeout_handler K i (k\<lparr>tk := g\<rparr>) = Some k' \<and> \<not> cpu_lock k' \<and>
    set (heap (tk k')) = set (heap (tk k)) - (if timer_period (timers k i) = BAD_DURATION32 then {TimerTimeout i} else {}) \<and>
    (timer_period (timers k i) \<noteq> BAD_DURATION32 \<longrightarrow>
       at (timeouts (tk k') (TimerTimeout i)) = at (timeouts (tk k) (TimerTimeout i)) + timer_period (timers k i))"
proof -
  let ?r = "TimerTimeout i" and ?now = "event_time (PORT_TIMER K) (tk k)" and ?k = "k\<lparr>tk := g\<rparr>"
  note T = kinvD(12)[OF inv]
  have g: "tk_inv (PORT_TIMER K) g" "tk_same (tk k) g" "same_timeouts (timeouts (tk k)) (timeouts g)"
    "?r \<in> set (heap (tk k))" "distance (tk k) ?now ?r \<le> HEADROOM" "mset (heap g) = mset (heap (tk k)) - {#?r#}"
    using take_expired_ok[OF kinv_counts[OF inv] refl] e by auto
  have d: "distinct (heap (tk k))" using T by (simp add: timer_inv_def tk_inv_def heap_ok_def)
  have dg: "set (heap g) = set (heap (tk k)) - {?r}"
    using d g(6) by (metis mset_remove1 mset_eq_setD set_remove1_eq)
  have "timer_inv K ?k"
    by (rule timer_inv_tkI[OF T g(1) same_timeouts_callbacks[OF g(3)]]) (use dg in blast)
  then have inv1: "kinv K ?k" using tk_same_ok(1)[OF inv _ g(2)] by blast
  have i: "i < N_TIMERS K" "timer_active (timers ?k i)" "?r \<notin> set (heap (tk ?k))"
    "distance (tk ?k) (event_time (PORT_TIMER K) (tk ?k)) ?r \<le> HEADROOM"
    using T g(4,5) dg distance_same[OF g(3)] tk_same_event_time[OF g(2)]
    by (auto simp: timer_inv_def linked_ok_def)
  obtain k' where "timer_timeout_handler K i ?k = Some k'" "\<not> cpu_lock k'"
    "timer_period (timers ?k i) \<noteq> BAD_DURATION32 \<Longrightarrow> ?r \<in> set (heap (tk k')) \<and>
       at (timeouts (tk k') ?r) = at (timeouts (tk ?k) ?r) + timer_period (timers ?k i)"
    "set (heap (tk k')) = (if timer_period (timers ?k i) = BAD_DURATION32 then set (heap (tk ?k))
      else insert ?r (set (heap (tk ?k))))"
    using timer_timeout_handler_ok[OF K inv1 i] by metis
  then show ?thesis using dg g(4) same_timeouts_at[OF g(3)] by auto
qed

theorem timer_expiration_exact_witness:
  "\<exists>g k'. take_expired (tk (sample sample_overdue)) 700 = Some (Some (TimerTimeout 0), g) \<and>
    timer_timeout_handler sample_K 0 ((sample sample_overdue)\<lparr>tk := g\<rparr>) = Some k' \<and>
    at (timeouts (tk k') (TimerTimeout 0)) = 1500"
proof -
  obtain g where g: "take_expired (tk (sample sample_overdue)) 700 = Some (Some (TimerTimeout 0), g)"
    using sample_overdue_facts by auto
  then have e: "take_expired (tk (sample sample_overdue))
      (event_time (PORT_TIMER sample_K) (tk (sample sample_overdue))) = Some (Some (TimerTimeout 0), g)"
    using sample_overdue_facts by simp
  show ?thesis
    using timer_expiration_exact[OF runs_inv(1,4)[OF sample_overdue_runs] e] g sample_overdue_facts
    by (auto simp: BAD_DURATION32_def)
qed

end
