(* ===== verification/Spec2Isabelle.thy ===== *)
theory Spec2Isabelle
  imports Error_Properties Bind_Properties Interrupt_Properties Intrusive_List Tickful Tickless_Properties
    Bin_Integer Utils_Properties System_Properties Object_Properties Mutex_Properties Task_Properties
    Time_Properties
begin

text \<open>
  A verification library for R3-OS, a static real-time operating system in Rust.

  \<^bold>\<open>The program.\<close> An application is configured at compile time: \<^verbatim>\<open>r3_core\<close> has the interface of
  the system calls and of the configuration (bindings, startup hooks, interrupt handlers),
  \<^verbatim>\<open>r3_kernel\<close> implements them on top of the traits of a port, and \<^verbatim>\<open>r3_portkit\<close> has the arithmetic
  of the timer drivers with which ports implement these traits. At run time a system call acquires
  CPU Lock, changes the state of the kernel, marks a preemption as pending (\<^verbatim>\<open>yield_cpu\<close>) and
  releases CPU Lock; the dispatcher of the port calls \<^verbatim>\<open>choose_running_task\<close>; the interrupt of the
  timer calls \<^verbatim>\<open>handle_tick\<close>, which expires timeouts and calls the functions of timers.

  \<^bold>\<open>Conventions\<close> (\<^theory_text>\<open>R3_Prelude\<close>). A panic is the value \<open>None\<close>; so is an index out of range, a
  violated \<^verbatim>\<open>debug_assert!\<close> and an overflow where the source is checked for it. A \<^verbatim>\<open>Result\<close> of a
  system call is the datatype \<open>ret\<close>, whose third constructor \<open>Blocked\<close> says that the task waits. Times and
  bit patterns are words of their width; sizes, priorities and indices are natural numbers; the
  instance is a 32-bit target. The cells that \<^verbatim>\<open>tokenlock\<close> protects are fields of one record
  \<open>kernel\<close>, which every function threads; an object is its index.

  \<^bold>\<open>Theories of the kernel\<close> (below \<^verbatim>\<open>src/src/r3_kernel/src\<close>).
  \<^item> \<^theory_text>\<open>Bin_Integer\<close>, \<^theory_text>\<open>Ctz\<close>, \<^theory_text>\<open>Prio_Bitmap\<close>, \<^theory_text>\<open>Ready_Queue\<close>, \<^theory_text>\<open>Intrusive_List\<close>: \<^verbatim>\<open>utils/int.rs\<close>, \<^verbatim>\<open>ctz.rs\<close>,
    \<^verbatim>\<open>prio_bitmap.rs\<close>, \<^verbatim>\<open>intrusive_list.rs\<close> and \<^verbatim>\<open>task/readyqueue.rs\<close>. The locale \<open>prio_bitmap\<close> is the
    contract of a bit map (a set of positions), interpreted for the one-level, two-level and
    three-level implementation; \<open>ready_queue\<close> is that of the queue, interpreted on it. The kernel's
    queues are lists of tasks; \<^theory_text>\<open>Intrusive_List\<close> shows that the doubly linked cells implement lists.
  \<^item> \<^theory_text>\<open>Timeout\<close>: \<^verbatim>\<open>timeout.rs\<close>, on the heap of \<^theory_text>\<open>Binary_Heap\<close> and the types of \<^theory_text>\<open>Time_Types\<close>. The
    locale \<open>heap_ctx\<close> is what a user of the heap provides; the lemmas relate the cyclic time stamps
    to the events' distances, and bound the frontier gap by the headroom.
  \<^item> \<^theory_text>\<open>Kernel_State\<close>, \<^theory_text>\<open>Kernel_Sched\<close>, \<^theory_text>\<open>Wait\<close>, \<^theory_text>\<open>Semaphore\<close>, \<^theory_text>\<open>Event_Group\<close>, \<^theory_text>\<open>Mutex\<close>, \<^theory_text>\<open>Task\<close>,
    \<^theory_text>\<open>Timer\<close>, \<^theory_text>\<open>Kernel_Config\<close>, \<^theory_text>\<open>Kernel\<close>: the records of \<^verbatim>\<open>state.rs\<close>, \<^verbatim>\<open>klock.rs\<close> and of the control
    blocks, then one definition per function of \<^verbatim>\<open>task.rs\<close>, \<^verbatim>\<open>wait.rs\<close>, \<^verbatim>\<open>semaphore.rs\<close>,
    \<^verbatim>\<open>event_group.rs\<close>, \<^verbatim>\<open>mutex.rs\<close>, \<^verbatim>\<open>timer.rs\<close>, \<^verbatim>\<open>cfg.rs\<close>, \<^verbatim>\<open>cfg/\<close> and \<^verbatim>\<open>lib.rs\<close>. A blocking function is
    cut where the task gives up the processor; the rest is a function of its own (\<open>park_resume\<close>,
    \<open>wait_one_resume\<close> and so on), and the field \<open>blocked_in\<close> keeps what the source keeps on the
    stack of the task. \<open>syscall\<close> collects all calls, \<open>resume\<close> all returns.
  \<^item> \<^theory_text>\<open>Kernel_Inv\<close>, \<^theory_text>\<open>Kernel_Timeouts\<close>, \<^theory_text>\<open>Kernel_Contract\<close>, \<^theory_text>\<open>Blocking\<close> and the theories whose
    name ends in \<^verbatim>\<open>_Contract\<close>, \<^theory_text>\<open>Mutex_Chains\<close>, \<^theory_text>\<open>Kernel_Calls\<close>: the invariant \<open>kinv\<close> (ready queue, wait
    queues, timeouts, chains of mutexes, priorities, running task) and, per component, that each call keeps it
    without a panic. \<open>call_ok\<close> is the contract of a call.
  \<^item> \<^theory_text>\<open>Kernel_Tick\<close>, \<^theory_text>\<open>Tick_Termination\<close>: the tick handler; the locale \<open>call_contract\<close> is the
    contract of a sequence of calls made by a handler.
  \<^item> \<^theory_text>\<open>Kernel_System\<close>, \<^theory_text>\<open>Kernel_Boot\<close>, \<^theory_text>\<open>Runs\<close>, \<^theory_text>\<open>Samples\<close>: the events (a call by the running task or
    an interrupt, the return of a blocked call, a tick, a dispatch, an exit) as a step relation, the
    reachable states, and the path from \<^verbatim>\<open>Cfg\<close> over \<open>build\<close> and \<open>boot\<close> to the first task. \<open>runs K cb k\<close>
    says that \<open>k\<close> is a state of a configured system; the samples are states evaluated from a
    concrete configuration.
  \<^item> \<^theory_text>\<open>System_Properties\<close>, \<^theory_text>\<open>Object_Properties\<close>, \<^theory_text>\<open>Mutex_Properties\<close>, \<^theory_text>\<open>Task_Properties\<close>,
    \<^theory_text>\<open>Time_Properties\<close>, \<^theory_text>\<open>Utils_Properties\<close>: what all this shows: no event panics in a reachable
    state, no preemption is missed, permits and events are not lost, what each kind of call does on
    every branch, the effective priorities of the ceiling protocol, the tick handler ends and leaves
    no expired timeout behind.

  \<^bold>\<open>Theories of the interface and the configuration\<close> (below \<^verbatim>\<open>src/src/r3_core/src\<close>).
  \<^item> \<^theory_text>\<open>Error_Types\<close>: \<^verbatim>\<open>kernel/error.rs\<close> and the signatures of \<^verbatim>\<open>kernel/raw.rs\<close>. An error type is a
    list of result codes; every call returns errors of its type. \<^theory_text>\<open>Error_Properties\<close> has the documented
    condition of every error of every call (\<open>documented_errors\<close>): a call fails exactly if one of them
    holds, with such a code, and leaves the state as it was.
  \<^item> \<^theory_text>\<open>Slice_Sort\<close>, \<^theory_text>\<open>Startup_Hooks\<close>, \<^theory_text>\<open>Interrupt_Config\<close>, \<^theory_text>\<open>Interrupt_Properties\<close>: \<^verbatim>\<open>utils/sort.rs\<close>,
    \<^verbatim>\<open>utils/binary_search.rs\<close>, \<^verbatim>\<open>kernel/hook.rs\<close>, \<^verbatim>\<open>kernel/interrupt.rs\<close>, and \<^verbatim>\<open>cfg/interrupt.rs\<close>,
    \<^verbatim>\<open>interrupt.rs\<close> of the kernel: from the definition of handlers to the table of the kernel.
  \<^item> \<^theory_text>\<open>Topological_Sort\<close>, \<^theory_text>\<open>Bind_Sorter\<close>, \<^theory_text>\<open>Bind_Properties\<close>: \<^verbatim>\<open>bind/sorter.rs\<close> and the registry of
    \<^verbatim>\<open>bind.rs\<close>. The locale \<open>topo_interface\<close> states the traits that the sort uses,
    \<open>bind_users_interface\<close> the callback of the sorter; the second is interpreted on the registry
    and gives the first by a \<^theory_text>\<open>sublocale\<close>. The order is characterised completely (\<open>kahn_order\<close>). The
    last theorem shows that two documented rules have no effect in the code.

  \<^bold>\<open>Theories of the port kit\<close> (below \<^verbatim>\<open>src/src/r3_portkit/src\<close>). \<^theory_text>\<open>Port_Num\<close>, \<^theory_text>\<open>Tickful\<close>, \<^theory_text>\<open>Tickless\<close>,
  \<^theory_text>\<open>Tickless_Contract\<close>, \<^theory_text>\<open>Tickless_Properties\<close>: \<^verbatim>\<open>num.rs\<close>, \<^verbatim>\<open>num/wrapping.rs\<close>, \<^verbatim>\<open>tickful.rs\<close>,
  \<^verbatim>\<open>tickless.rs\<close>. The drivers keep exact rational time; their configuration rejects exactly what it documents.

  \<^bold>\<open>Bounds and fuel.\<close> The loops over the chain of mutexes have the number of mutexes as fuel, which is
  enough because a chain repeats no mutex; the invariant shows it, so \<open>None\<close> never comes from it. The
  loop of \<open>handle_tick\<close> need not end (a timer with the period zero); it has explicit fuel and tells
  whether it has finished, and \<open>handle_tick_terminates\<close> gives enough fuel where no period is
  zero. Iterators and Kahn's loop are partial functions, for which a result is proved. A builder must define fewer tasks and timers
  than there are heap positions (\<open>cfg_fits\<close>).

  \<^bold>\<open>What is assumed of the application.\<close> \<open>enabled\<close> says which events can happen, \<open>callbacks_ok\<close> which
  calls the functions of timers make. Both ask for existing objects (\<open>existing_object\<close>; a bad identifier is
  undefined behaviour in the source), and \<open>valid_call\<close> excludes two uses of the interface that the source permits
  and does not handle well. One is to start a timer whose captured delay exceeds the longest duration by more than the
  gap to the frontier (\<open>timer_startable\<close>; it arises when the clocks are moved backward, the timer is stopped
  and time passes): \<open>timer_start_exact\<close> says what the code does then, without this assumption, and
  \<open>overlong_timer_expires_at_once\<close> shows a run in which the timer fires too early. The other is \<^verbatim>\<open>adjust_time\<close> in the
  function of a timer: \<^verbatim>\<open>handle_tick\<close> goes on with the time that it read before its loop. All
  statements about reachable states (\<open>runs\<close>) are about runs without these two uses.

  \<^bold>\<open>Granularity.\<close> A system call, \<open>handle_tick\<close> with the functions it calls, and a dispatch are single events: interrupts come between
  them, and time passes by the event \<open>Elapse\<close> only, so that the tick count is frozen while one
  of them runs. \<open>boot\<close> omits the startup hooks and the initialisation of the interrupt lines, which do
  not touch the state of the kernel and are the subjects of \<^theory_text>\<open>Startup_Hooks\<close> and \<^theory_text>\<open>Interrupt_Config\<close>;
  there the \<^verbatim>\<open>Cfg\<close> values of the first and the last configuration phase are one record. \<^verbatim>\<open>exit\<close> with CPU Lock active
  is part of the model and of the invariant; \<open>exit_abandons_mutexes\<close> is about the other case.

  \<^bold>\<open>Parameters.\<close> The hardware timer of the port (\<open>port_timer\<close>: its limits; the event \<open>Elapse\<close> advances its count), the functions that
  timers call (\<open>timer_callbacks\<close>: sequences of system calls), the closures of hooks and handlers,
  the operations of the port on interrupt lines, and the target for which \<^verbatim>\<open>ctz\<close> is chosen.

  \<^bold>\<open>Not modelled.\<close> The ports themselves (context switches in assembly, device registers, threads of
  the host), board support, the test suite and the examples; the wrappers of the raw traits in
  \<^verbatim>\<open>r3_core/src/kernel\<close> and the guards of \<^verbatim>\<open>r3/src/sync\<close>, which forward to operations that are modelled
  and hold raw pointers; closures, hunks and the compile-time allocator, which are unsafe pointer
  code; the binder types of \<^verbatim>\<open>bind.rs\<close>, which exist in the type system only; the conversion of durations from
  and to floating-point numbers and \<^verbatim>\<open>chrono\<close>.
\<close>

end
